(* ===== verification/O3_Prelude.thy ===== *)
theory O3_Prelude
  imports Main "HOL-Library.Word" "HOL-Library.Monad_Syntax" "HOL-Library.Multiset"
    "HOL-Library.Sublist"
begin

text \<open>
  Shared vocabulary of the development: the machine types of the simulator, the model of
  \<^verbatim>\<open>assert\<close> and \<^verbatim>\<open>panic\<close>, and the generic lemmas on the option monad, on
  lists ordered by sequence number and on function update that the component theories use.

  A function that can stop the simulator returns an \<open>option\<close>: \<open>None\<close> is a failed
  \<^verbatim>\<open>assert\<close>, a \<^verbatim>\<open>panic\<close> or a read outside a container. So a theorem of
  the form \<open>f s = Some s'\<close> says that no assertion of the code fails on the way.
\<close>

unbundle bit_operations_syntax

section \<open>Machine types\<close>

type_synonym addr = "64 word"
type_synonym inst_seq_num = "64 word"
type_synonym thread_id = nat

text \<open>An instruction pointer (\<^verbatim>\<open>DynInstPtr\<close>): an address of the instruction heap.\<close>

type_synonym iptr = nat

section \<open>Assertions\<close>

definition check :: "bool \<Rightarrow> unit option" where
  "check b = (if b then Some () else None)"

named_theorems monad_simps \<open>unfolding of checks and binds\<close>
named_theorems frame_simps \<open>fields an operation leaves alone\<close>

lemma check_True [simp]: "check True = Some ()"
  and check_False [simp]: "check False = None"
  by (simp_all add: check_def)

lemma check_eq_Some [simp]: "check b = Some u \<longleftrightarrow> b"
  by (simp add: check_def)

lemma check_eq_None [simp]: "check b = None \<longleftrightarrow> \<not> b"
  by (simp add: check_def)

lemma bind_check [simp]: "(check b \<bind> f) = (if b then f () else None)"
  by (simp add: check_def)

lemma bind_eq_SomeD:
  "(m \<bind> f) = Some y \<Longrightarrow> \<exists>x. m = Some x \<and> f x = Some y"
  by (cases m) simp_all

lemma bind_eq_SomeE [elim!]:
  assumes "(m \<bind> f) = Some y"
  obtains x where "m = Some x" and "f x = Some y"
  using assms by (cases m) simp_all

section \<open>Loops over lists\<close>

text \<open>
  \<^verbatim>\<open>for (x : xs) s = f(x, s)\<close> where the body may fail: the loop stops at the
  first failure, as an assertion would.
\<close>

fun foldM :: "('a \<Rightarrow> 's \<Rightarrow> 's option) \<Rightarrow> 'a list \<Rightarrow> 's \<Rightarrow> 's option" where
  "foldM f [] s = Some s"
| "foldM f (x # xs) s = do { s' \<leftarrow> f x s; foldM f xs s' }"

lemma foldM_append: "foldM f (xs @ ys) s = (foldM f xs s \<bind> foldM f ys)"
  by (induction xs arbitrary: s) (auto split: Option.bind_splits)

lemma foldM_invariant:
  assumes loop: "foldM f xs s = Some s'" and init: "I s"
    and step: "\<And>x t t'. x \<in> set xs \<Longrightarrow> I t \<Longrightarrow> f x t = Some t' \<Longrightarrow> I t'"
  shows "I s'"
proof -
  have "set ys \<subseteq> set xs \<Longrightarrow> foldM f ys t = Some s' \<Longrightarrow> I t \<Longrightarrow> I s'" for ys t
  proof (induction ys arbitrary: t)
    case (Cons y ys)
    then obtain u where u: "f y t = Some u" "foldM f ys u = Some s'" by auto
    from Cons.prems(1) have "y \<in> set xs" by simp
    then have "I u" using Cons.prems(3) u(1) by (rule step)
    with Cons u(2) show ?case by simp
  qed simp
  with loop init show ?thesis by blast
qed

section \<open>Lists ordered by a key\<close>

text \<open>
  The reorder buffer, the instruction queue and the load and store queues keep their
  instructions in program order: strictly increasing sequence numbers.
\<close>

definition increasing :: "('a \<Rightarrow> 'k::linorder) \<Rightarrow> 'a list \<Rightarrow> bool" where
  "increasing key xs \<longleftrightarrow> sorted_wrt (\<lambda>x y. key x < key y) xs"

lemma increasing_Nil [simp]: "increasing key []"
  by (simp add: increasing_def)

lemma increasing_Cons [simp]:
  "increasing key (x # xs) \<longleftrightarrow> (\<forall>y \<in> set xs. key x < key y) \<and> increasing key xs"
  by (simp add: increasing_def)

lemma increasing_append [simp]:
  "increasing key (xs @ ys) \<longleftrightarrow>
     increasing key xs \<and> increasing key ys \<and> (\<forall>x \<in> set xs. \<forall>y \<in> set ys. key x < key y)"
  by (simp add: increasing_def sorted_wrt_append)

lemma increasing_distinct: "increasing key xs \<Longrightarrow> distinct xs"
  by (induction xs) auto

lemma increasing_distinct_keys: "increasing key xs \<Longrightarrow> distinct (map key xs)"
  by (induction xs) auto

lemma increasing_inj:
  assumes "increasing key xs" and "x \<in> set xs" and "y \<in> set xs" and "key x = key y"
  shows "x = y"
  using increasing_distinct_keys[OF assms(1)] assms(2-4) by (auto simp: distinct_map dest: inj_onD)

lemma increasing_cong:
  "(\<And>x. x \<in> set xs \<Longrightarrow> key x = key' x) \<Longrightarrow> increasing key xs = increasing key' xs"
  by (induction xs) auto

lemma increasing_tl: "increasing key xs \<Longrightarrow> increasing key (tl xs)"
  by (cases xs) simp_all

lemma increasing_filter: "increasing key xs \<Longrightarrow> increasing key (filter P xs)"
  by (simp add: increasing_def sorted_wrt_filter)

lemma increasing_split_less:
  assumes "increasing key (xs @ x # ys)" and "y \<in> set (xs @ x # ys)" and "key y < key x"
  shows "y \<in> set xs"
  using assms by auto

section \<open>The first match\<close>

lemma find_SomeD: "find P xs = Some x \<Longrightarrow> x \<in> set xs \<and> P x"
  by (metis find_Some_iff nth_mem)

lemma find_NoneD: "find P xs = None \<Longrightarrow> x \<in> set xs \<Longrightarrow> \<not> P x"
  by (simp add: find_None_iff)

lemma find_unique:
  assumes "x \<in> set xs" and "P x" and "\<And>y. y \<in> set xs \<Longrightarrow> P y \<Longrightarrow> y = x"
  shows "find P xs = Some x"
proof (cases "find P xs")
  case None
  with assms(1,2) show ?thesis by (auto dest: find_NoneD)
next
  case (Some y)
  with assms(3) show ?thesis by (auto dest: find_SomeD)
qed

lemma find_split:
  assumes "find P xs = Some x"
  obtains ys zs where "xs = ys @ x # zs" and "P x" and "\<And>y. y \<in> set ys \<Longrightarrow> \<not> P y"
proof -
  from assms obtain i where i: "i < length xs" "P (xs ! i)" "x = xs ! i" "\<forall>j<i. \<not> P (xs ! j)"
    by (auto simp: find_Some_iff)
  have "xs = take i xs @ x # drop (Suc i) xs" using i(1,3) by (simp add: id_take_nth_drop)
  moreover have "\<not> P y" if "y \<in> set (take i xs)" for y
    using that i(4) by (auto simp: in_set_conv_nth)
  ultimately show ?thesis using that i(2,3) by blast
qed

section \<open>Vectors\<close>

text \<open>
  \<^verbatim>\<open>std::vector::operator[]\<close>: an index outside the vector is undefined behaviour,
  here a failure.
\<close>

definition vec_get :: "'a list \<Rightarrow> nat \<Rightarrow> 'a option" where
  "vec_get xs i = (if i < length xs then Some (xs ! i) else None)"

definition vec_set :: "'a list \<Rightarrow> nat \<Rightarrow> 'a \<Rightarrow> 'a list option" where
  "vec_set xs i v = (if i < length xs then Some (xs[i := v]) else None)"

lemma vec_get_in [simp]: "i < length xs \<Longrightarrow> vec_get xs i = Some (xs ! i)"
  by (simp add: vec_get_def)

lemma vec_set_in [simp]: "i < length xs \<Longrightarrow> vec_set xs i v = Some (xs[i := v])"
  by (simp add: vec_set_def)

lemma vec_get_eq_Some: "vec_get xs i = Some x \<longleftrightarrow> i < length xs \<and> xs ! i = x"
  by (auto simp: vec_get_def)

lemma vec_set_eq_Some: "vec_set xs i v = Some ys \<longleftrightarrow> i < length xs \<and> ys = xs[i := v]"
  by (auto simp: vec_set_def)

text \<open>The remainder by a power of two, as a mask of the low bits.\<close>

lemma unat_and_mask_less: "unat ((w :: 'a::len word) AND mask n) < 2 ^ n"
proof -
  have "w AND mask n = take_bit n w" by (simp add: take_bit_eq_mask)
  then show ?thesis by (simp add: unsigned_take_bit_eq)
qed

end
