(* ===== verification/Dyn_Inst.thy ===== *)
theory Dyn_Inst
  imports O3_Prelude
begin

text \<open>
  The dynamic instruction (\<^verbatim>\<open>src/cpu/base_dyn_inst.hh\<close>) and what it refers to: the
  static instruction and its flags, the physical register identifiers, the memory request and
  the DOLMA configuration of the CPU. The status and flag bit sets of the source are sets of
  enumeration values; a setter that asserts its precondition returns an \<open>option\<close>.
\<close>

section \<open>The DOLMA configuration\<close>

record dolma_cpu =
  isDolma :: bool
  isDolmaConservative :: bool
  isDolmaMemOnly :: bool
  isSTT :: bool

text \<open>The configuration code of the \<^verbatim>\<open>BaseCPU\<close> constructor.\<close>

definition config_dolma :: "int \<Rightarrow> bool \<Rightarrow> dolma_cpu option" where
  "config_dolma mode stt = do {
     check (mode \<ge> 0 \<and> mode \<le> 4);
     let dolma = (mode > 0);
     Some \<lparr> isDolma = dolma,
            isDolmaConservative = (dolma \<and> mode mod 2 = 0),
            isDolmaMemOnly = (dolma \<and> mode > 2),
            isSTT = (dolma \<and> stt) \<rparr> }"

definition dolma_cpu_wf :: "dolma_cpu \<Rightarrow> bool" where
  "dolma_cpu_wf c \<longleftrightarrow>
     (isDolmaConservative c \<longrightarrow> isDolma c) \<and> (isDolmaMemOnly c \<longrightarrow> isDolma c) \<and>
     (isSTT c \<longrightarrow> isDolma c)"

lemma config_dolma_wf: "config_dolma mode stt = Some c \<Longrightarrow> dolma_cpu_wf c"
  by (auto simp: config_dolma_def dolma_cpu_wf_def Let_def split: if_splits)

section \<open>Static instructions\<close>

datatype op_class =
    No_OpClass | IntAlu | IntMult | IntDiv | FloatAdd | FloatCmp | FloatCvt | FloatMult
  | FloatMultAcc | FloatDiv | FloatMisc | FloatSqrt | SimdAdd | SimdAddAcc | SimdAlu | SimdCmp
  | SimdCvt | SimdMisc | SimdMult | SimdMultAcc | SimdShift | SimdShiftAcc | SimdSqrt
  | SimdFloatAdd | SimdFloatAlu | SimdFloatCmp | SimdFloatCvt | SimdFloatDiv | SimdFloatMisc
  | SimdFloatMult | SimdFloatMultAcc | SimdFloatSqrt | MemRead | MemWrite | FloatMemRead
  | FloatMemWrite | IprAccess | InstPrefetch

datatype static_flag =
    IsNop | IsInteger | IsFloating | IsCC | IsVector | IsVectorElem | IsMemRef | IsLoad | IsStore
  | IsAtomic | IsStoreConditional | IsIndexed | IsInstPrefetch | IsDataPrefetch | IsControl
  | IsDirectControl | IsIndirectControl | IsCondControl | IsUncondControl | IsCall | IsReturn
  | IsCondDelaySlot | IsThreadSync | IsSerializing | IsSerializeBefore | IsSerializeAfter
  | IsMemBarrier | IsWriteBarrier | IsReadBarrier | IsERET | IsNonSpeculative | IsQuiesce
  | IsIprAccess | IsUnverifiable | IsSyscall | IsMacroop | IsMicroop | IsDelayedCommit
  | IsLastMicroop | IsFirstMicroop | IsMicroBranch | IsDspOp | IsSquashAfter

datatype reg_class =
  IntRegClass | FloatRegClass | VecRegClass | VecElemClass | CCRegClass | MiscRegClass

record reg_id =
  regClass :: reg_class
  regIdx :: "16 word"
  elemIdx :: "16 word"

text \<open>
  A physical register identifier: a register identifier and its index in the flat register
  space. The code shares one object per register, so equal values are equal pointers.
\<close>

record phys_reg_id = reg_id +
  flatIdx :: "16 word"

definition isFixedMapping :: "phys_reg_id \<Rightarrow> bool" where
  "isFixedMapping r \<longleftrightarrow> regClass r = MiscRegClass"

definition flatIndex :: "phys_reg_id \<Rightarrow> nat" where
  "flatIndex r = unat (flatIdx r)"

text \<open>
  \<^verbatim>\<open>disassemble\<close> is produced by the instruction decoder of the ISA; here it is a
  component of the static instruction.
\<close>

record static_inst =
  si_flags :: "static_flag set"
  si_opClass :: op_class
  si_numSrcRegs :: int
  si_numDestRegs :: int
  si_srcRegIdx :: "reg_id list"
  si_destRegIdx :: "reg_id list"
  si_disassemble :: "addr \<Rightarrow> string"

section \<open>Memory requests\<close>

record request =
  req_vaddr :: addr
  req_size :: "32 word"
  req_flags :: "64 word"
  req_paddr :: "addr option"
  req_metadataUpdate :: bool

definition RESTRICTED :: "64 word" where "RESTRICTED = 0x00004000"

definition isRestricted :: "request \<Rightarrow> bool" where
  "isRestricted r \<longleftrightarrow> req_flags r AND RESTRICTED \<noteq> 0"

definition setUnsafe :: "request \<Rightarrow> request" where
  "setUnsafe r = r\<lparr>req_flags := req_flags r OR RESTRICTED\<rparr>"

definition clearUnsafe :: "request \<Rightarrow> request" where
  "clearUnsafe r = r\<lparr>req_flags := req_flags r AND NOT RESTRICTED\<rparr>"

text \<open>\<^verbatim>\<open>Request::splitOnVaddr\<close>, with its three assertions.\<close>

definition splitOnVaddr :: "request \<Rightarrow> addr \<Rightarrow> (request \<times> request) option" where
  "splitOnVaddr r split_addr = do {
     check (req_paddr r = None);
     check (split_addr > req_vaddr r \<and> split_addr < req_vaddr r + ucast (req_size r));
     let sz1 = ucast (split_addr - req_vaddr r);
     Some (r\<lparr>req_size := sz1\<rparr>,
           r\<lparr>req_vaddr := split_addr, req_size := req_size r - sz1\<rparr>) }"

definition roundDown :: "addr \<Rightarrow> addr \<Rightarrow> addr" where
  "roundDown val align = val AND NOT (align - 1)"

text \<open>
  \<^verbatim>\<open>BaseDynInst::splitRequest\<close>: two requests when the access crosses a cache block.
\<close>

definition splitRequest :: "addr \<Rightarrow> request \<Rightarrow> (request \<times> request) option option" where
  "splitRequest block_size r =
     (let a = req_vaddr r;
          split_addr = roundDown (a + ucast (req_size r) - 1) block_size
      in do {
        check (split_addr \<le> a \<or> split_addr - a < block_size);
        (if split_addr > a then do { p \<leftarrow> splitOnVaddr r split_addr; Some (Some p) }
         else Some None) })"

lemma isRestricted_setUnsafe [simp]: "isRestricted (setUnsafe r)"
proof -
  have "bit ((req_flags r OR RESTRICTED) AND RESTRICTED) 14"
    by (simp add: bit_simps RESTRICTED_def)
  then have "(req_flags r OR RESTRICTED) AND RESTRICTED \<noteq> 0" by force
  then show ?thesis by (simp add: isRestricted_def setUnsafe_def)
qed

lemma isRestricted_clearUnsafe [simp]: "\<not> isRestricted (clearUnsafe r)"
proof -
  have "(req_flags r AND NOT RESTRICTED) AND RESTRICTED = 0"
    by (rule bit_eqI) (auto simp: bit_simps)
  then show ?thesis by (simp add: isRestricted_def clearUnsafe_def)
qed

section \<open>The dynamic instruction\<close>

datatype status_bit =
    IqEntry | RobEntry | LsqEntry | Completed | ResultReady | CanIssue | Issued | Executed
  | CanCommit | AtCommit | Committed | Squashed | SquashedInIQ | SquashedInLSQ | SquashedInROB
  | RecoverInst | BlockingInst | ThreadsyncWait | SerializeBefore | SerializeAfter
  | SerializeHandled | ControlInducer | DataInducer | ControlRestricted | DataRestricted
  | PendingMemOrder | PendingBranch | PartialStoreBufferHit | TotalStoreBufferHit
  | DolmaStalled | PendingMetadata

datatype inst_flag =
    NotAnInst | TranslationStarted | TranslationCompleted | PossibleLoadViolation
  | HitExternalSnoop | EffAddrValid | RecordResult | Predicate | PredTaken | IsStrictlyOrdered
  | ReqMade | MemOpDone

datatype fault = NoFault | FaultBase string

record pc_state =
  pc_pc :: addr
  pc_npc :: addr
  pc_upc :: "16 word"
  pc_nupc :: "16 word"

text \<open>
  The queue indices \<^verbatim>\<open>lqIdx\<close> and \<^verbatim>\<open>sqIdx\<close> are 16-bit integers in the code; the model keeps them as
  \<open>int\<close>, which is the same for queues of less than 32768 entries.
\<close>

record dyn_inst =
  seqNum :: inst_seq_num
  violatorSeqNum :: inst_seq_num
  ydi :: inst_seq_num
  staticInst :: static_inst
  fault :: fault
  pcState :: pc_state
  instFlags :: "inst_flag set"
  status :: "status_bit set"
  readySrcRegIdx :: "nat set"
  collider_PC :: addr
  colliderSeqNum :: inst_seq_num
  violator :: "iptr option"
  violator_PC :: addr
  threadNumber :: thread_id
  predPC :: pc_state
  readyRegs :: "8 word"
  effAddr :: addr
  physEffAddrLow :: addr
  physEffAddrHigh :: addr
  memReqFlags :: "32 word"
  effSize :: "8 word"
  lqIdx :: int
  sqIdx :: int
  savedReq :: "request option"
  savedSreqLow :: "request option"
  savedSreqHigh :: "request option"
  dolmaVirtualReq :: "request option"
  dolmaVirtualSreqLow :: "request option"
  dolmaVirtualSreqHigh :: "request option"
  dolmaPhysicalReq :: "request option"
  dolmaPhysicalSreqLow :: "request option"
  dolmaPhysicalSreqHigh :: "request option"
  validationData :: bool
  flatDestRegIdx :: "nat \<Rightarrow> reg_id"
  destRegIdx :: "nat \<Rightarrow> phys_reg_id"
  srcRegIdx :: "nat \<Rightarrow> phys_reg_id"
  prevDestRegIdx :: "nat \<Rightarrow> phys_reg_id"
  branchTaken :: bool

text \<open>Status bits and flags: \<^verbatim>\<open>bitset::set\<close> and \<^verbatim>\<open>bitset::reset\<close>.\<close>

definition set_status :: "status_bit \<Rightarrow> dyn_inst \<Rightarrow> dyn_inst" where
  "set_status b i = i\<lparr>status := insert b (status i)\<rparr>"

definition reset_status :: "status_bit \<Rightarrow> dyn_inst \<Rightarrow> dyn_inst" where
  "reset_status b i = i\<lparr>status := status i - {b}\<rparr>"

definition set_flag :: "inst_flag \<Rightarrow> bool \<Rightarrow> dyn_inst \<Rightarrow> dyn_inst" where
  "set_flag f v i = i\<lparr>instFlags := (if v then insert f (instFlags i) else instFlags i - {f})\<rparr>"

text \<open>The queries forwarded to the static instruction.\<close>

abbreviation isMemRef :: "dyn_inst \<Rightarrow> bool" where
  "isMemRef i \<equiv> IsMemRef \<in> si_flags (staticInst i)"
abbreviation isLoad :: "dyn_inst \<Rightarrow> bool" where
  "isLoad i \<equiv> IsLoad \<in> si_flags (staticInst i)"
abbreviation isStore :: "dyn_inst \<Rightarrow> bool" where
  "isStore i \<equiv> IsStore \<in> si_flags (staticInst i)"
abbreviation isStoreConditional :: "dyn_inst \<Rightarrow> bool" where
  "isStoreConditional i \<equiv> IsStoreConditional \<in> si_flags (staticInst i)"
abbreviation isControl :: "dyn_inst \<Rightarrow> bool" where
  "isControl i \<equiv> IsControl \<in> si_flags (staticInst i)"
abbreviation isCall :: "dyn_inst \<Rightarrow> bool" where
  "isCall i \<equiv> IsCall \<in> si_flags (staticInst i)"
abbreviation isReturn :: "dyn_inst \<Rightarrow> bool" where
  "isReturn i \<equiv> IsReturn \<in> si_flags (staticInst i)"
abbreviation isDirectCtrl :: "dyn_inst \<Rightarrow> bool" where
  "isDirectCtrl i \<equiv> IsDirectControl \<in> si_flags (staticInst i)"
abbreviation isIndirectCtrl :: "dyn_inst \<Rightarrow> bool" where
  "isIndirectCtrl i \<equiv> IsIndirectControl \<in> si_flags (staticInst i)"
abbreviation isCondCtrl :: "dyn_inst \<Rightarrow> bool" where
  "isCondCtrl i \<equiv> IsCondControl \<in> si_flags (staticInst i)"
abbreviation isUncondCtrl :: "dyn_inst \<Rightarrow> bool" where
  "isUncondCtrl i \<equiv> IsUncondControl \<in> si_flags (staticInst i)"
abbreviation isMemBarrier :: "dyn_inst \<Rightarrow> bool" where
  "isMemBarrier i \<equiv> IsMemBarrier \<in> si_flags (staticInst i)"
abbreviation isWriteBarrier :: "dyn_inst \<Rightarrow> bool" where
  "isWriteBarrier i \<equiv> IsWriteBarrier \<in> si_flags (staticInst i)"
abbreviation isNonSpeculative :: "dyn_inst \<Rightarrow> bool" where
  "isNonSpeculative i \<equiv> IsNonSpeculative \<in> si_flags (staticInst i)"
abbreviation opClass :: "dyn_inst \<Rightarrow> op_class" where
  "opClass i \<equiv> si_opClass (staticInst i)"
abbreviation numSrcRegs :: "dyn_inst \<Rightarrow> int" where
  "numSrcRegs i \<equiv> si_numSrcRegs (staticInst i)"
abbreviation numDestRegs :: "dyn_inst \<Rightarrow> int" where
  "numDestRegs i \<equiv> si_numDestRegs (staticInst i)"
abbreviation instAddr :: "dyn_inst \<Rightarrow> addr" where
  "instAddr i \<equiv> pc_pc (pcState i)"

text \<open>The flag queries.\<close>

abbreviation effAddrValid :: "dyn_inst \<Rightarrow> bool" where
  "effAddrValid i \<equiv> EffAddrValid \<in> instFlags i"
abbreviation strictlyOrdered :: "dyn_inst \<Rightarrow> bool" where
  "strictlyOrdered i \<equiv> IsStrictlyOrdered \<in> instFlags i"
abbreviation translationStarted :: "dyn_inst \<Rightarrow> bool" where
  "translationStarted i \<equiv> TranslationStarted \<in> instFlags i"
abbreviation translationCompleted :: "dyn_inst \<Rightarrow> bool" where
  "translationCompleted i \<equiv> TranslationCompleted \<in> instFlags i"
abbreviation memOpDone :: "dyn_inst \<Rightarrow> bool" where
  "memOpDone i \<equiv> MemOpDone \<in> instFlags i"

text \<open>The status queries; the DOLMA ones are false on a squashed instruction.\<close>

abbreviation isSquashed :: "dyn_inst \<Rightarrow> bool" where
  "isSquashed i \<equiv> Squashed \<in> status i"
abbreviation readyToIssue :: "dyn_inst \<Rightarrow> bool" where
  "readyToIssue i \<equiv> CanIssue \<in> status i"
abbreviation readyToCommit :: "dyn_inst \<Rightarrow> bool" where
  "readyToCommit i \<equiv> CanCommit \<in> status i"
abbreviation isIssued :: "dyn_inst \<Rightarrow> bool" where
  "isIssued i \<equiv> Issued \<in> status i"
abbreviation isCompleted :: "dyn_inst \<Rightarrow> bool" where
  "isCompleted i \<equiv> Completed \<in> status i"
abbreviation isCommitted :: "dyn_inst \<Rightarrow> bool" where
  "isCommitted i \<equiv> Committed \<in> status i"
abbreviation isInROB :: "dyn_inst \<Rightarrow> bool" where
  "isInROB i \<equiv> RobEntry \<in> status i"
abbreviation isSquashedInIQ :: "dyn_inst \<Rightarrow> bool" where
  "isSquashedInIQ i \<equiv> SquashedInIQ \<in> status i"
abbreviation isTotalStoreBufferHit :: "dyn_inst \<Rightarrow> bool" where
  "isTotalStoreBufferHit i \<equiv> TotalStoreBufferHit \<in> status i"
abbreviation isPartialStoreBufferHit :: "dyn_inst \<Rightarrow> bool" where
  "isPartialStoreBufferHit i \<equiv> PartialStoreBufferHit \<in> status i"

definition isPendingMetadata :: "dyn_inst \<Rightarrow> bool" where
  "isPendingMetadata i \<longleftrightarrow> \<not> isSquashed i \<and> PendingMetadata \<in> status i"
definition isPendingMemOrder :: "dyn_inst \<Rightarrow> bool" where
  "isPendingMemOrder i \<longleftrightarrow> \<not> isSquashed i \<and> PendingMemOrder \<in> status i"
definition isPendingBranch :: "dyn_inst \<Rightarrow> bool" where
  "isPendingBranch i \<longleftrightarrow> \<not> isSquashed i \<and> PendingBranch \<in> status i"
definition isControlInducer :: "dyn_inst \<Rightarrow> bool" where
  "isControlInducer i \<longleftrightarrow> \<not> isSquashed i \<and> ControlInducer \<in> status i"
definition isDataInducer :: "dyn_inst \<Rightarrow> bool" where
  "isDataInducer i \<longleftrightarrow> \<not> isSquashed i \<and> DataInducer \<in> status i"
definition isControlRestricted :: "dyn_inst \<Rightarrow> bool" where
  "isControlRestricted i \<longleftrightarrow> \<not> isSquashed i \<and> ControlRestricted \<in> status i"
definition isDataRestricted :: "dyn_inst \<Rightarrow> bool" where
  "isDataRestricted i \<longleftrightarrow> \<not> isSquashed i \<and> DataRestricted \<in> status i"
definition isDolmaRestricted :: "dyn_inst \<Rightarrow> bool" where
  "isDolmaRestricted i \<longleftrightarrow> \<not> isSquashed i \<and> (isControlRestricted i \<or> isDataRestricted i)"
definition isDolmaStalled :: "dyn_inst \<Rightarrow> bool" where
  "isDolmaStalled i \<longleftrightarrow> \<not> isSquashed i \<and> DolmaStalled \<in> status i"

lemmas dolma_query_defs =
  isPendingMetadata_def isPendingMemOrder_def isPendingBranch_def isControlInducer_def
  isDataInducer_def isControlRestricted_def isDataRestricted_def isDolmaRestricted_def
  isDolmaStalled_def

text \<open>What properties mean by an instruction that is held back by the defence, in terms of its status bits.\<close>

definition speculative :: "dyn_inst \<Rightarrow> bool" where
  "speculative i \<longleftrightarrow> Squashed \<notin> status i \<and> {ControlRestricted, DataRestricted} \<inter> status i \<noteq> {}"

lemma isDolmaRestricted_bits: "isDolmaRestricted i \<longleftrightarrow> speculative i"
  by (auto simp: dolma_query_defs speculative_def)

section \<open>Operations on the dynamic instruction\<close>

text \<open>The constructor and \<^verbatim>\<open>initVars\<close>: the fields it leaves unset keep \<open>junk\<close>'s values.\<close>

definition init_dyn_inst ::
  "dyn_inst \<Rightarrow> static_inst \<Rightarrow> pc_state \<Rightarrow> pc_state \<Rightarrow> inst_seq_num \<Rightarrow> dyn_inst" where
  "init_dyn_inst junk si p pp sn =
     junk\<lparr> staticInst := si, seqNum := sn, pcState := p, predPC := pp,
           ydi := 0, collider_PC := 0, colliderSeqNum := 0, violator := None,
           violatorSeqNum := 0, effAddr := 0, physEffAddrLow := 0, physEffAddrHigh := 0,
           readyRegs := 0, memReqFlags := 0, status := {}, instFlags := {RecordResult, Predicate},
           readySrcRegIdx := {}, lqIdx := -1, sqIdx := -1, threadNumber := 0, fault := NoFault,
           savedReq := None, savedSreqLow := None, savedSreqHigh := None,
           dolmaVirtualReq := None, dolmaVirtualSreqLow := None, dolmaVirtualSreqHigh := None,
           dolmaPhysicalReq := None, dolmaPhysicalSreqLow := None, dolmaPhysicalSreqHigh := None,
           validationData := False, branchTaken := False \<rparr>"

definition setViolator :: "dolma_cpu \<Rightarrow> iptr option \<Rightarrow> dyn_inst \<Rightarrow> dyn_inst option" where
  "setViolator c v i = do {
     check (isDolma c); check (\<not> isSTT c);
     Some (i\<lparr>violator := v\<rparr>) }"

definition setPendingMetadata :: "dolma_cpu \<Rightarrow> dyn_inst \<Rightarrow> dyn_inst option" where
  "setPendingMetadata c i = do {
     check (isDolma c); check (\<not> isSTT c);
     Some (set_status PendingMetadata i) }"

text \<open>The two overloads of \<^verbatim>\<open>setPendingMemOrder\<close>; the second takes the store.\<close>

definition setPendingMemOrder :: "dolma_cpu \<Rightarrow> dyn_inst \<Rightarrow> dyn_inst option" where
  "setPendingMemOrder c i = do {
     check (isDolma c); check (\<not> isSTT c); check (\<not> isSquashed i);
     Some ((reset_status CanCommit (set_status PendingMemOrder i))\<lparr>violator_PC := instAddr i\<rparr>) }"

definition setPendingMemOrder_store :: "dolma_cpu \<Rightarrow> dyn_inst \<Rightarrow> dyn_inst \<Rightarrow> dyn_inst option" where
  "setPendingMemOrder_store c store i = do {
     check (isDolma c); check (\<not> isSquashed i);
     let i1 = reset_status CanCommit (set_status PendingMemOrder i);
     let i2 = (if colliderSeqNum i1 = 0 \<or> seqNum store < colliderSeqNum i1
               then i1\<lparr>colliderSeqNum := seqNum store, collider_PC := instAddr store\<rparr> else i1);
     Some (i2\<lparr>violator_PC := instAddr i2\<rparr>) }"

definition clearPendingMemOrder :: "dyn_inst \<Rightarrow> dyn_inst" where
  "clearPendingMemOrder i = set_status CanCommit (reset_status PendingMemOrder i)"

definition setPendingBranch :: "dolma_cpu \<Rightarrow> bool \<Rightarrow> dyn_inst \<Rightarrow> dyn_inst option" where
  "setPendingBranch c taken i = do {
     check (isDolma c);
     let i1 = i\<lparr>branchTaken := taken\<rparr>;
     check (\<not> isPendingBranch i1);
     Some (set_status PendingBranch i1) }"

definition clearPendingBranch :: "dyn_inst \<Rightarrow> dyn_inst" where
  "clearPendingBranch i = set_status CanCommit (reset_status PendingBranch i)"

definition setControlInducer :: "dolma_cpu \<Rightarrow> dyn_inst \<Rightarrow> dyn_inst option" where
  "setControlInducer c i = do {
     check (isDolma c); check (\<not> isSquashed i);
     Some (set_status ControlInducer i) }"

definition clearControlInducer :: "dyn_inst \<Rightarrow> dyn_inst" where
  "clearControlInducer i = reset_status ControlInducer i"

definition setDataInducer :: "dolma_cpu \<Rightarrow> dyn_inst \<Rightarrow> dyn_inst option" where
  "setDataInducer c i = do {
     check (isDolma c); check (\<not> isSquashed i); check (\<not> strictlyOrdered i);
     Some (set_status DataInducer i) }"

definition clearDataInducer :: "dyn_inst \<Rightarrow> dyn_inst" where
  "clearDataInducer i = reset_status DataInducer i"

text \<open>
  Dropping the saved requests, the code shared by \<^verbatim>\<open>setDolmaStalled\<close> and
  \<^verbatim>\<open>setSquashed\<close>: the physical ones go only if there was a virtual one.
\<close>

definition drop_dolma_reqs :: "dyn_inst \<Rightarrow> dyn_inst" where
  "drop_dolma_reqs i =
     (if dolmaVirtualReq i = None then i else
        let i1 = i\<lparr>dolmaVirtualReq := None\<rparr>;
            i2 = (if dolmaVirtualSreqLow i1 = None then i1
                  else i1\<lparr>dolmaVirtualSreqLow := None, dolmaVirtualSreqHigh := None\<rparr>)
        in if dolmaPhysicalReq i2 = None then i2 else
             let i3 = i2\<lparr>dolmaPhysicalReq := None\<rparr>;
                 i4 = (if dolmaPhysicalSreqLow i3 = None then i3
                       else i3\<lparr>dolmaPhysicalSreqLow := None\<rparr>)
             in if dolmaPhysicalSreqHigh i4 = None then i4
                else i4\<lparr>dolmaPhysicalSreqHigh := None\<rparr>)"

definition setDolmaStalled :: "dolma_cpu \<Rightarrow> dyn_inst \<Rightarrow> dyn_inst option" where
  "setDolmaStalled c i = do {
     check (isSTT c \<longrightarrow> \<not> isStore i);
     check (\<not> isSquashed i);
     check (\<not> isDolmaStalled i);
     check (isDolmaRestricted i);
     check (\<not> isTotalStoreBufferHit i);
     check (\<not> isPartialStoreBufferHit i);
     Some (drop_dolma_reqs
             (set_status DolmaStalled (reset_status PendingBranch (reset_status PendingMemOrder i)))) }"

definition clearDolmaStalled :: "dyn_inst \<Rightarrow> dyn_inst" where
  "clearDolmaStalled i = reset_status DolmaStalled i"

definition setControlRestricted :: "dolma_cpu \<Rightarrow> dyn_inst \<Rightarrow> dyn_inst option" where
  "setControlRestricted c i = do {
     check (isDolma c); check (\<not> isSquashed i); check (\<not> isControlRestricted i);
     Some (set_status ControlRestricted i) }"

definition clearControlRestricted :: "dyn_inst \<Rightarrow> dyn_inst" where
  "clearControlRestricted i = reset_status ControlRestricted i"

definition setDataRestricted :: "dolma_cpu \<Rightarrow> dyn_inst \<Rightarrow> dyn_inst option" where
  "setDataRestricted c i = do {
     check (isDolma c); check (\<not> isSquashed i);
     Some (set_status DataRestricted i) }"

definition clearDataRestricted :: "dyn_inst \<Rightarrow> dyn_inst" where
  "clearDataRestricted i = reset_status DataRestricted i"

definition untaint :: "dyn_inst \<Rightarrow> dyn_inst option" where
  "untaint i = do {
     check (isDolmaRestricted i);
     Some (reset_status DataRestricted (reset_status ControlRestricted (reset_status DolmaStalled i))) }"

definition setCanCommit :: "dyn_inst \<Rightarrow> dyn_inst option" where
  "setCanCommit i = do {
     check (\<not> isPendingMemOrder i); check (\<not> isPendingBranch i);
     Some (set_status CanCommit i) }"

definition setSquashed :: "dyn_inst \<Rightarrow> dyn_inst" where
  "setSquashed i = drop_dolma_reqs (set_status Squashed i)"

definition setSquashedInIQ :: "dyn_inst \<Rightarrow> dyn_inst" where
  "setSquashedInIQ i = set_status Squashed (set_status SquashedInIQ i)"

definition clearInROB :: "dyn_inst \<Rightarrow> dyn_inst option" where
  "clearInROB i = do {
     check (\<not> isPendingMemOrder i);
     check (\<not> isPendingBranch i);
     check (\<not> isControlInducer i);
     check (\<not> isDataInducer i);
     check (\<not> isDolmaRestricted i);
     check (\<not> isDolmaStalled i);
     Some (reset_status RobEntry i) }"

text \<open>
  \<^verbatim>\<open>markSrcRegReady\<close>: the count is a byte compared as an \<^verbatim>\<open>int\<close>; more ready
  registers than sources is a panic.
\<close>

definition markSrcRegReady :: "dyn_inst \<Rightarrow> dyn_inst option" where
  "markSrcRegReady i = do {
     let i1 = i\<lparr>readyRegs := readyRegs i + 1\<rparr>;
     let i2 = (if uint (readyRegs i1) = numSrcRegs i1 then set_status CanIssue i1 else i1);
     check (\<not> uint (readyRegs i2) > numSrcRegs i2);
     Some i2 }"

definition markSrcRegReady_idx :: "nat \<Rightarrow> dyn_inst \<Rightarrow> dyn_inst option" where
  "markSrcRegReady_idx idx i = markSrcRegReady (i\<lparr>readySrcRegIdx := insert idx (readySrcRegIdx i)\<rparr>)"

definition eaSrcsReady :: "dyn_inst \<Rightarrow> bool" where
  "eaSrcsReady i \<longleftrightarrow> (\<forall>k \<in> set [1..<nat (numSrcRegs i)]. k \<in> readySrcRegIdx i)"

text \<open>
  \<^verbatim>\<open>mispredicted\<close>: \<^verbatim>\<open>advancePC\<close> is the ISA's function, an argument here.
\<close>

definition mispredicted :: "(pc_state \<Rightarrow> static_inst \<Rightarrow> pc_state) \<Rightarrow> dyn_inst \<Rightarrow> bool" where
  "mispredicted advancePC i \<longleftrightarrow> advancePC (pcState i) (staticInst i) \<noteq> predPC i"

section \<open>Facts about the operations\<close>

lemma seqNum_set_status [simp]: "seqNum (set_status b i) = seqNum i"
  and seqNum_reset_status [simp]: "seqNum (reset_status b i) = seqNum i"
  and status_set_status [simp]: "status (set_status b i) = insert b (status i)"
  and status_reset_status [simp]: "status (reset_status b i) = status i - {b}"
  and staticInst_set_status [simp]: "staticInst (set_status b i) = staticInst i"
  and staticInst_reset_status [simp]: "staticInst (reset_status b i) = staticInst i"
  and threadNumber_set_status [simp]: "threadNumber (set_status b i) = threadNumber i"
  and threadNumber_reset_status [simp]: "threadNumber (reset_status b i) = threadNumber i"
  by (simp_all add: set_status_def reset_status_def)

lemma drop_dolma_reqs_frame [simp]:
  "status (drop_dolma_reqs i) = status i" "seqNum (drop_dolma_reqs i) = seqNum i"
  "ydi (drop_dolma_reqs i) = ydi i" "staticInst (drop_dolma_reqs i) = staticInst i"
  "threadNumber (drop_dolma_reqs i) = threadNumber i"
  "instFlags (drop_dolma_reqs i) = instFlags i"
  "violatorSeqNum (drop_dolma_reqs i) = violatorSeqNum i"
  "violator (drop_dolma_reqs i) = violator i"
  by (auto simp: drop_dolma_reqs_def Let_def)

lemma drop_dolma_reqs_virtual [simp]: "dolmaVirtualReq (drop_dolma_reqs i) = None"
  by (auto simp: drop_dolma_reqs_def Let_def)

end
