(* ===== verification/Metadata.thy ===== *)
theory Metadata
  imports Dyn_Inst
begin

text \<open>
  The delayed replacement metadata update of DOLMA: a restricted access leaves the replacement
  state of the TLB and of the data cache alone and keeps copies of its requests; once it is safe,
  the copies are replayed, unrestricted and marked as metadata updates
  (\<^verbatim>\<open>BaseDynInst::updateLRU\<close>, \<^verbatim>\<open>LSQUnit::dolmaLoad\<close>,
  \<^verbatim>\<open>DefaultIEW::updateMetadataIfNeeded\<close>). What reaches the memory system is
  recorded as a list of events, oldest first.
\<close>

datatype tlb_mode = TlbRead | TlbWrite

datatype mem_event = DtbUpdateLRU request tlb_mode | DcacheRead request

text \<open>The X86 target performs unaligned accesses.\<close>

definition HasUnalignedMemAcc :: bool where "HasUnalignedMemAcc = True"

definition updateLRU :: "dyn_inst \<times> mem_event list \<Rightarrow> (dyn_inst \<times> mem_event list) option" where
  "updateLRU = (\<lambda>(i, tr). do {
     let mode = (if isStore i then TlbWrite else TlbRead);
     tr1 \<leftarrow> (if \<not> HasUnalignedMemAcc \<or> dolmaVirtualSreqLow i = None then do {
               q \<leftarrow> dolmaVirtualReq i; Some (tr @ [DtbUpdateLRU q mode]) }
            else do {
               lo \<leftarrow> dolmaVirtualSreqLow i; hi \<leftarrow> dolmaVirtualSreqHigh i;
               Some (tr @ [DtbUpdateLRU lo mode, DtbUpdateLRU hi mode]) });
     let i1 = i\<lparr>dolmaVirtualReq := None\<rparr>;
     let i2 = (if dolmaVirtualSreqLow i1 = None then i1
               else i1\<lparr>dolmaVirtualSreqLow := None, dolmaVirtualSreqHigh := None\<rparr>);
     Some (i2, tr1) })"

definition setMetadataUpdate :: "request \<Rightarrow> request" where
  "setMetadataUpdate q = q\<lparr>req_metadataUpdate := True\<rparr>"

text \<open>
  \<^verbatim>\<open>dolmaLoad\<close>. \<open>port\<close> is what \<^verbatim>\<open>dcachePort->sendTimingReq\<close> returns
  for the request of a packet; the code asserts that a metadata update is not accepted as an
  ordinary read.
\<close>

definition dolmaLoad ::
  "(request \<Rightarrow> bool) \<Rightarrow> dyn_inst \<times> mem_event list \<Rightarrow> (dyn_inst \<times> mem_event list) option" where
  "dolmaLoad port = (\<lambda>(i, tr). do {
     q0 \<leftarrow> dolmaPhysicalReq i;
     let q = setMetadataUpdate (clearUnsafe q0);
     check (\<not> validationData i);
     let i1 = i\<lparr>dolmaPhysicalReq := Some q, validationData := True\<rparr>;
     (if \<not> HasUnalignedMemAcc \<or> dolmaPhysicalSreqLow i = None then do {
        check (\<not> port q);
        Some (i1\<lparr>dolmaPhysicalReq := None\<rparr>, tr @ [DcacheRead q]) }
      else do {
        lo0 \<leftarrow> dolmaPhysicalSreqLow i;
        hi0 \<leftarrow> dolmaPhysicalSreqHigh i;
        let lo = setMetadataUpdate (clearUnsafe lo0);
        let hi = setMetadataUpdate (clearUnsafe hi0);
        check (\<not> port lo);
        check (\<not> port hi);
        Some (i1\<lparr>dolmaPhysicalReq := None, dolmaPhysicalSreqLow := None, dolmaPhysicalSreqHigh := None\<rparr>,
              tr @ [DcacheRead lo, DcacheRead hi]) }) })"

definition updateMetadataIfNeeded ::
  "(request \<Rightarrow> bool) \<Rightarrow> dyn_inst \<times> mem_event list \<Rightarrow> (dyn_inst \<times> mem_event list) option" where
  "updateMetadataIfNeeded port = (\<lambda>(i, tr). do {
     check (\<not> isSquashed i);
     (if isMemRef i \<and> dolmaVirtualReq i \<noteq> None then do {
        (i1, tr1) \<leftarrow> updateLRU (i, tr);
        (if isLoad i1 \<and> dolmaPhysicalReq i1 \<noteq> None then dolmaLoad port (i1, tr1) else Some (i1, tr1)) }
      else Some (i, tr)) })"

section \<open>What the replay sends\<close>

text \<open>The accesses of an instruction: the two halves if it was split, the whole otherwise.\<close>

definition accesses :: "request option \<Rightarrow> request option \<Rightarrow> request option \<Rightarrow> request list" where
  "accesses whole low high =
     (case (low, high) of (Some lo, Some hi) \<Rightarrow> [lo, hi] | _ \<Rightarrow> (case whole of None \<Rightarrow> [] | Some q \<Rightarrow> [q]))"

text \<open>
  What has to reach the memory system once an instruction is safe: the TLB hears of every access, in order, and the
  cache gets the accesses of a load, without the flag of a restricted request and marked as metadata updates.
\<close>

definition due_updates :: "dyn_inst \<Rightarrow> mem_event list" where
  "due_updates i =
     map (\<lambda>q. DtbUpdateLRU q (if isStore i then TlbWrite else TlbRead))
       (accesses (dolmaVirtualReq i) (dolmaVirtualSreqLow i) (dolmaVirtualSreqHigh i)) @
     (if isLoad i
      then map (\<lambda>q. DcacheRead (q\<lparr>req_flags := req_flags q AND NOT 0x4000, req_metadataUpdate := True\<rparr>))
        (accesses (dolmaPhysicalReq i) (dolmaPhysicalSreqLow i) (dolmaPhysicalSreqHigh i))
      else [])"

text \<open>The saved requests come as one request, with both halves or with none.\<close>

definition saved_ok :: "request option \<Rightarrow> request option \<Rightarrow> request option \<Rightarrow> bool" where
  "saved_ok whole low high \<longleftrightarrow> (low = None \<longleftrightarrow> high = None) \<and> (whole = None \<longrightarrow> low = None)"

lemma updateMetadata_sends:
  assumes "\<not> isSquashed i" "isMemRef i" "dolmaVirtualReq i \<noteq> None" "\<not> validationData i" "\<forall>q. req_metadataUpdate q \<longrightarrow> \<not> port q"
    and "saved_ok (dolmaVirtualReq i) (dolmaVirtualSreqLow i) (dolmaVirtualSreqHigh i)"
    and "saved_ok (dolmaPhysicalReq i) (dolmaPhysicalSreqLow i) (dolmaPhysicalSreqHigh i)"
  shows "\<exists>i'. updateMetadataIfNeeded port (i, tr) = Some (i', tr @ due_updates i) \<and> dolmaVirtualReq i' = None \<and>
    (isLoad i \<longrightarrow> dolmaPhysicalReq i' = None) \<and> status i' = status i"
proof -
  let ?mode = "if isStore i then TlbWrite else TlbRead"
  let ?virtual = "map (\<lambda>q. DtbUpdateLRU q ?mode) (accesses (dolmaVirtualReq i) (dolmaVirtualSreqLow i) (dolmaVirtualSreqHigh i))"
  define i1 where "i1 = (if dolmaVirtualSreqLow i = None then i\<lparr>dolmaVirtualReq := None\<rparr>
    else i\<lparr>dolmaVirtualReq := None, dolmaVirtualSreqLow := None, dolmaVirtualSreqHigh := None\<rparr>)"
  have lru: "updateLRU (i, tr) = Some (i1, tr @ ?virtual)"
    using assms(3,6) by (auto simp: updateLRU_def Let_def HasUnalignedMemAcc_def accesses_def saved_ok_def i1_def)
  have i1: "dolmaVirtualReq i1 = None" "status i1 = status i" "staticInst i1 = staticInst i" "dolmaPhysicalReq i1 = dolmaPhysicalReq i"
    "dolmaPhysicalSreqLow i1 = dolmaPhysicalSreqLow i" "dolmaPhysicalSreqHigh i1 = dolmaPhysicalSreqHigh i" "validationData i1 = validationData i"
    by (simp_all add: i1_def)
  have q: "setMetadataUpdate (clearUnsafe q) = q\<lparr>req_flags := req_flags q AND NOT 0x4000, req_metadataUpdate := True\<rparr>" for q
    by (simp add: setMetadataUpdate_def clearUnsafe_def RESTRICTED_def)
  have run: "updateMetadataIfNeeded port (i, tr) =
    (if isLoad i \<and> dolmaPhysicalReq i \<noteq> None then dolmaLoad port (i1, tr @ ?virtual) else Some (i1, tr @ ?virtual))"
    using assms(1-3) lru i1(3,4) by (simp add: updateMetadataIfNeeded_def)
  show ?thesis
  proof (cases "isLoad i \<and> dolmaPhysicalReq i \<noteq> None")
    case True
    then obtain r where r: "dolmaPhysicalReq i = Some r" by blast
    show ?thesis
    proof (cases "dolmaPhysicalSreqLow i")
      case None
      then show ?thesis using run True r i1 assms(4,5,7) q by (auto simp: dolmaLoad_def Let_def due_updates_def accesses_def saved_ok_def)
    next
      case (Some lo)
      then obtain hi where "dolmaPhysicalSreqHigh i = Some hi" using assms(7) by (auto simp: saved_ok_def)
      then show ?thesis using run True r Some i1 assms(4,5) q
        by (auto simp: dolmaLoad_def Let_def due_updates_def accesses_def HasUnalignedMemAcc_def)
    qed
  next
    case False
    then show ?thesis using run i1 assms(7) by (auto simp: due_updates_def accesses_def saved_ok_def)
  qed
qed

lemma updateMetadata_frame:
  assumes "updateMetadataIfNeeded port (i, tr) = Some (i', tr')"
  shows "status i' = status i \<and> seqNum i' = seqNum i \<and> ydi i' = ydi i \<and> staticInst i' = staticInst i
     \<and> instFlags i' = instFlags i \<and> threadNumber i' = threadNumber i
     \<and> violator i' = violator i \<and> violatorSeqNum i' = violatorSeqNum i"
  using assms
  by (auto simp: updateMetadataIfNeeded_def updateLRU_def dolmaLoad_def Let_def split: if_splits)

end
