(* ===== verification/Rob.thy ===== *)
theory Rob
  imports Metadata
begin

text \<open>
  The reorder buffer (\<^verbatim>\<open>src/cpu/o3/rob.hh\<close>, \<^verbatim>\<open>rob_impl.hh\<close>). The
  instructions live in a heap indexed by instruction pointers, because the reorder buffer, the
  instruction queue and the load and store queues share them; an operation takes the heap and
  the buffer and returns both. A list iterator is the pointer of the instruction it stands on,
  \<open>None\<close> for \<^verbatim>\<open>end()\<close>.
\<close>

type_synonym inst_heap = "iptr \<Rightarrow> dyn_inst"

datatype rob_status = RobRunning | RobIdle | ROBSquashing
datatype rob_policy = Dynamic | Partitioned | Threshold

record rob =
  robStatus :: "thread_id \<Rightarrow> rob_status"
  robPolicy :: rob_policy
  activeThreads :: "thread_id list"
  numEntries :: "32 word"
  threadEntries :: "thread_id \<Rightarrow> 32 word"
  maxEntries :: "thread_id \<Rightarrow> 32 word"
  instList :: "thread_id \<Rightarrow> iptr list"
  squashWidth :: "32 word"
  rob_tail :: "iptr option"
  rob_head :: "iptr option"
  squashIt :: "thread_id \<Rightarrow> iptr option"
  numInstsInROB :: int
  squashedSeqNum :: "thread_id \<Rightarrow> inst_seq_num"
  doneSquashing :: "thread_id \<Rightarrow> bool"
  numThreads :: nat

text \<open>What \<^verbatim>\<open>FullO3CPU::removeFrontInst\<close> writes.\<close>

record o3_remove =
  removeInstsThisCycle :: bool
  removeList :: "iptr list"

definition removeFrontInst :: "iptr \<Rightarrow> o3_remove \<Rightarrow> o3_remove" where
  "removeFrontInst p s = s\<lparr>removeInstsThisCycle := True, removeList := removeList s @ [p]\<rparr>"

section \<open>Construction and partitioning\<close>

definition resetState :: "rob \<Rightarrow> rob" where
  "resetState r = r\<lparr>
     doneSquashing := (\<lambda>t. if t < numThreads r then True else doneSquashing r t),
     threadEntries := (\<lambda>t. if t < numThreads r then 0 else threadEntries r t),
     squashIt := (\<lambda>t. if t < numThreads r then None else squashIt r t),
     squashedSeqNum := (\<lambda>t. if t < numThreads r then 0 else squashedSeqNum r t),
     numInstsInROB := 0, rob_head := None, rob_tail := None\<rparr>"

text \<open>
  The constructor: the policy name in lower case selects the sharing policy and the share of
  each thread; any other name fails the assertion.
\<close>

definition tolower :: "char \<Rightarrow> char" where
  "tolower c = (let n = of_char c :: nat in if 65 \<le> n \<and> n \<le> 90 then char_of (n + 32) else c)"

definition init_rob ::
  "rob \<Rightarrow> 32 word \<Rightarrow> 32 word \<Rightarrow> nat \<Rightarrow> string \<Rightarrow> 32 word \<Rightarrow> rob option" where
  "init_rob r entries sw nthreads smtROBPolicy smtROBThreshold =
     (let r1 = r\<lparr>numEntries := entries, squashWidth := sw, numInstsInROB := 0,
                 numThreads := nthreads, instList := (\<lambda>_. [])\<rparr>;
          policy = map tolower smtROBPolicy;
          share = (\<lambda>pol amt. r1\<lparr>robPolicy := pol,
                     maxEntries := (\<lambda>t. if t < nthreads then amt else maxEntries r1 t)\<rparr>)
      in if policy = ''dynamic'' then Some (resetState (share Dynamic entries))
         else if policy = ''partitioned'' then Some (resetState (share Partitioned (entries div of_nat nthreads)))
         else if policy = ''threshold'' then Some (resetState (share Threshold smtROBThreshold))
         else None)"

text \<open>\<^verbatim>\<open>resetEntries\<close>: the loop over the active threads rewrites their shares.\<close>

definition resetEntries :: "rob \<Rightarrow> rob" where
  "resetEntries r =
     (if robPolicy r \<noteq> Dynamic \<or> numThreads r > 1 then
        let active = length (activeThreads r) in
        fold (\<lambda>t r. if robPolicy r = Partitioned then
                      r\<lparr>maxEntries := (maxEntries r)(t := numEntries r div of_nat active)\<rparr>
                    else if robPolicy r = Threshold \<and> active = 1 then
                      r\<lparr>maxEntries := (maxEntries r)(t := numEntries r)\<rparr>
                    else r)
          (activeThreads r) r
      else r)"

definition entryAmount :: "rob \<Rightarrow> nat \<Rightarrow> 32 word" where
  "entryAmount r num_threads =
     (if robPolicy r = Partitioned then numEntries r div of_nat num_threads else 0)"

definition countInsts_tid :: "rob \<Rightarrow> thread_id \<Rightarrow> nat" where
  "countInsts_tid r tid = length (instList r tid)"

definition countInsts :: "rob \<Rightarrow> nat" where
  "countInsts r = sum_list (map (countInsts_tid r) [0..<numThreads r])"

definition numFreeEntries :: "rob \<Rightarrow> 32 word" where
  "numFreeEntries r = numEntries r - word_of_int (numInstsInROB r)"

definition numFreeEntries_tid :: "rob \<Rightarrow> thread_id \<Rightarrow> 32 word" where
  "numFreeEntries_tid r tid = maxEntries r tid - threadEntries r tid"

definition isFull :: "rob \<Rightarrow> bool" where
  "isFull r \<longleftrightarrow> word_of_int (numInstsInROB r) = numEntries r"

definition isFull_tid :: "rob \<Rightarrow> thread_id \<Rightarrow> bool" where
  "isFull_tid r tid \<longleftrightarrow> threadEntries r tid = numEntries r"

definition isEmpty :: "rob \<Rightarrow> bool" where
  "isEmpty r \<longleftrightarrow> numInstsInROB r = 0"

definition isEmpty_tid :: "rob \<Rightarrow> thread_id \<Rightarrow> bool" where
  "isEmpty_tid r tid \<longleftrightarrow> threadEntries r tid = 0"

definition drainSanityCheck :: "rob \<Rightarrow> unit option" where
  "drainSanityCheck r = do {
     check (\<forall>t \<in> set [0..<numThreads r]. instList r t = []);
     check (isEmpty r) }"

section \<open>Insertion\<close>

definition isspace :: "char \<Rightarrow> bool" where
  "isspace c \<longleftrightarrow> (of_char c :: nat) \<in> {9, 10, 11, 12, 13, 32}"

text \<open>The mnemonic: leading white space dropped, up to the first blank.\<close>

definition inst_name :: "dyn_inst \<Rightarrow> string" where
  "inst_name i =
     takeWhile (\<lambda>c. c \<noteq> CHR '' '') (dropWhile isspace (si_disassemble (staticInst i) (instAddr i)))"

definition ends_with :: "string \<Rightarrow> string \<Rightarrow> bool" where
  "ends_with s t \<longleftrightarrow> length s \<ge> length t \<and> drop (length s - length t) s = t"

text \<open>
  Whether a control instruction induces control speculation: from its static flags where they
  are conclusive, from its mnemonic otherwise.
\<close>

definition hasCtrlInfo :: "dyn_inst \<Rightarrow> bool" where
  "hasCtrlInfo i \<longleftrightarrow> isDirectCtrl i \<noteq> isIndirectCtrl i \<and> isUncondCtrl i \<noteq> isCondCtrl i"

definition induces_control :: "dyn_inst \<Rightarrow> bool" where
  "induces_control i =
     (if hasCtrlInfo i then \<not> (isDirectCtrl i \<and> isUncondCtrl i)
      else if isReturn i then True
      else if ends_with (inst_name i) ''_I'' then
        (if isCall i then False
         else if take 3 (inst_name i) = ''JMP'' then False else True)
      else True)"

text \<open>The control part of \<^verbatim>\<open>insertInst\<close>, on the list that already ends with \<open>p\<close>.\<close>

definition mark_control :: "dolma_cpu \<Rightarrow> iptr list \<Rightarrow> iptr \<Rightarrow> inst_heap \<Rightarrow> inst_heap option" where
  "mark_control c l p h =
     (if isDolma c \<and> \<not> isSquashed (h p) then do {
        i1 \<leftarrow> (if \<not> isDolmaMemOnly c \<and> list_ex (\<lambda>q. isControlInducer (h q)) l
              then setControlRestricted c (h p) else Some (h p));
        i2 \<leftarrow> (if isControl i1 \<and> induces_control i1 then setControlInducer c i1 else Some i1);
        Some (h(p := i2)) }
      else Some h)"

definition insertInst ::
  "dolma_cpu \<Rightarrow> iptr \<Rightarrow> inst_heap \<times> rob \<Rightarrow> (inst_heap \<times> rob) option" where
  "insertInst c p = (\<lambda>(h, r). do {
     check (word_of_int (numInstsInROB r) \<noteq> numEntries r);
     let tid = threadNumber (h p);
     let l = instList r tid @ [p];
     let r1 = r\<lparr>instList := (instList r)(tid := l)\<rparr>;
     r2 \<leftarrow> (if numInstsInROB r1 = 0 then do { check (hd l = p); Some (r1\<lparr>rob_head := Some (hd l)\<rparr>) }
           else Some r1);
     let r3 = r2\<lparr>rob_tail := Some (last l)\<rparr>;
     h1 \<leftarrow> mark_control c l p (h(p := set_status RobEntry (h p)));
     Some (h1, r3\<lparr>numInstsInROB := numInstsInROB r3 + 1,
                  threadEntries := (threadEntries r3)(tid := threadEntries r3 tid + 1)\<rparr>) })"

section \<open>The DOLMA scans\<close>

definition findInst :: "rob \<Rightarrow> inst_heap \<Rightarrow> thread_id \<Rightarrow> inst_seq_num \<Rightarrow> iptr option" where
  "findInst r h tid sn = find (\<lambda>p. seqNum (h p) = sn) (instList r tid)"

text \<open>
  \<^verbatim>\<open>getResolvedRedirect\<close>: the oldest unrestricted instruction with a pending redirect
  that can be taken.
\<close>

definition resolved_redirect :: "dolma_cpu \<Rightarrow> dyn_inst \<Rightarrow> bool" where
  "resolved_redirect c i \<longleftrightarrow> \<not> isDolmaRestricted i \<and>
     (isPendingBranch i \<or> (isPendingMemOrder i \<and> (collider_PC i \<noteq> 0 \<or> isSTT c)))"

definition getResolvedRedirect :: "dolma_cpu \<Rightarrow> rob \<Rightarrow> inst_heap \<Rightarrow> thread_id \<Rightarrow> iptr option" where
  "getResolvedRedirect c r h tid = find (\<lambda>p. resolved_redirect c (h p)) (instList r tid)"

text \<open>The local variables of \<^verbatim>\<open>updateSafeStatus\<close>, and the heap.\<close>

record safe_scan =
  ss_heap :: inst_heap
  foundUnresolvedBranch :: bool
  foundUnresolvedStore :: bool
  ydis :: "inst_seq_num set"
  oldestViolator :: inst_seq_num

text \<open>What happens to an instruction that has just lost its last restriction.\<close>

definition on_release :: "dolma_cpu \<Rightarrow> iptr \<Rightarrow> inst_heap \<Rightarrow> inst_heap option" where
  "on_release c p h = do {
     i \<leftarrow> (if \<not> isSTT c \<and> \<not> isDolmaStalled (h p) \<and> dolmaVirtualReq (h p) \<noteq> None
          then setPendingMetadata c (h p) else Some (h p));
     let h1 = h(p := i);
     (if isDolmaStalled i then Some (h1(p := clearDolmaStalled i))
      else if isStore i \<and> \<not> isSTT c then
        (case violator i of
           None \<Rightarrow> Some h1
         | Some v \<Rightarrow> (if isSquashed (h1 v) then Some h1
                     else do { w \<leftarrow> setPendingMemOrder_store c i (h1 v); Some (h1(v := w)) }))
      else Some h1) }"

definition clear_restrictions :: "bool \<Rightarrow> inst_seq_num set \<Rightarrow> dyn_inst \<Rightarrow> dyn_inst" where
  "clear_restrictions unresolved ys i =
     (let i1 = (if isControlRestricted i \<and> \<not> unresolved then clearControlRestricted i else i)
      in if isDataRestricted i1 \<and> ydi i1 \<notin> ys then clearDataRestricted i1 else i1)"

definition scan_restricted :: "dolma_cpu \<Rightarrow> iptr \<Rightarrow> safe_scan \<Rightarrow> safe_scan option" where
  "scan_restricted c p s =
     (let h = ss_heap s in
      if isDolmaRestricted (h p) then
        let i = clear_restrictions (foundUnresolvedBranch s) (ydis s) (h p);
            h1 = h(p := i)
        in if isDolmaRestricted i then Some (s\<lparr>ss_heap := h1\<rparr>)
           else do { h2 \<leftarrow> on_release c p h1; Some (s\<lparr>ss_heap := h2\<rparr>) }
      else Some s)"

text \<open>Whether a data inducer stays unresolved.\<close>

definition inducer_blocked :: "dolma_cpu \<Rightarrow> dyn_inst \<Rightarrow> safe_scan \<Rightarrow> bool" where
  "inducer_blocked c i s \<longleftrightarrow>
     isDolmaConservative c \<or> isPendingMemOrder i \<or>
     (isDolmaMemOnly c \<and> foundUnresolvedBranch s) \<or>
     (\<not> isSTT c \<and> (foundUnresolvedStore s \<or> seqNum i \<ge> oldestViolator s))"

definition scan_inducer :: "dolma_cpu \<Rightarrow> iptr \<Rightarrow> safe_scan \<Rightarrow> safe_scan" where
  "scan_inducer c p s =
     (let i = ss_heap s p in
      if isDataInducer i then
        (if inducer_blocked c i s then s\<lparr>ydis := insert (seqNum i) (ydis s)\<rparr>
         else s\<lparr>ss_heap := (ss_heap s)(p := clearDataInducer i)\<rparr>)
      else s)"

definition scan_branch :: "iptr \<Rightarrow> safe_scan \<Rightarrow> safe_scan" where
  "scan_branch p s = (if isControlInducer (ss_heap s p) then s\<lparr>foundUnresolvedBranch := True\<rparr> else s)"

definition scan_store :: "dolma_cpu \<Rightarrow> iptr list \<Rightarrow> iptr \<Rightarrow> safe_scan \<Rightarrow> safe_scan" where
  "scan_store c l p s =
     (let h = ss_heap s; i = h p in
      if isStore i \<and> \<not> isSquashed i \<and> \<not> isSTT c \<and> \<not> isDolmaConservative c then
        if \<not> effAddrValid i then s\<lparr>foundUnresolvedStore := True\<rparr>
        else if violatorSeqNum i \<noteq> 0 \<and> violatorSeqNum i < oldestViolator s then
          (case find (\<lambda>q. seqNum (h q) = violatorSeqNum i) l of
             Some v \<Rightarrow> (if \<not> isSquashed (h v) then s\<lparr>oldestViolator := violatorSeqNum i\<rparr>
                       else s\<lparr>ss_heap := h(p := i\<lparr>violatorSeqNum := 0\<rparr>)\<rparr>)
           | None \<Rightarrow> s\<lparr>ss_heap := h(p := i\<lparr>violatorSeqNum := 0\<rparr>)\<rparr>)
        else s
      else s)"

definition safe_step :: "dolma_cpu \<Rightarrow> iptr list \<Rightarrow> iptr \<Rightarrow> safe_scan \<Rightarrow> safe_scan option" where
  "safe_step c l p s = do {
     s1 \<leftarrow> scan_restricted c p s;
     Some (scan_store c l p (scan_branch p (scan_inducer c p s1))) }"

definition scan_init :: "inst_heap \<Rightarrow> safe_scan" where
  "scan_init h = \<lparr>ss_heap = h, foundUnresolvedBranch = False, foundUnresolvedStore = False,
                  ydis = {}, oldestViolator = -1\<rparr>"

definition updateSafeStatus :: "dolma_cpu \<Rightarrow> rob \<Rightarrow> thread_id \<Rightarrow> inst_heap \<Rightarrow> inst_heap option" where
  "updateSafeStatus c r tid h =
     map_option ss_heap (foldM (safe_step c (instList r tid)) (instList r tid) (scan_init h))"

section \<open>Head, tail and retirement\<close>

text \<open>
  \<^verbatim>\<open>updateHead\<close>: the oldest of the active threads' first instructions. The
  accumulator is \<open>None\<close> while \<^verbatim>\<open>first_valid\<close> holds.
\<close>

definition updateHead :: "inst_heap \<Rightarrow> rob \<Rightarrow> rob" where
  "updateHead h r =
     (let best = fold (\<lambda>tid acc.
                   case instList r tid of
                     [] \<Rightarrow> acc
                   | p # _ \<Rightarrow> (case acc of
                       None \<Rightarrow> Some (p, seqNum (h p))
                     | Some (q, lowest) \<Rightarrow> (if seqNum (h p) < lowest then Some (p, seqNum (h p)) else acc)))
                 (activeThreads r) None
      in r\<lparr>rob_head := map_option fst best\<rparr>)"

definition updateTail :: "inst_heap \<Rightarrow> rob \<Rightarrow> rob" where
  "updateTail h r =
     r\<lparr>rob_tail := fold (\<lambda>tid acc.
          if instList r tid = [] then acc
          else case acc of
                 None \<Rightarrow> Some (last (instList r tid))
               | Some q \<Rightarrow> (if seqNum (h (last (instList r tid))) > seqNum (h q)
                           then Some (last (instList r tid)) else acc))
        (activeThreads r) None\<rparr>"

definition readHeadInst :: "inst_heap \<Rightarrow> rob \<Rightarrow> thread_id \<Rightarrow> iptr \<Rightarrow> iptr option" where
  "readHeadInst h r tid dummyInst =
     (if threadEntries r tid \<noteq> 0 then
        (case instList r tid of
           [] \<Rightarrow> None
         | p # _ \<Rightarrow> do { check (isInROB (h p)); Some p })
      else Some dummyInst)"

definition readTailInst :: "rob \<Rightarrow> thread_id \<Rightarrow> iptr option" where
  "readTailInst r tid = (if instList r tid = [] then None else Some (last (instList r tid)))"

definition isHeadReady :: "inst_heap \<Rightarrow> rob \<Rightarrow> thread_id \<Rightarrow> bool option" where
  "isHeadReady h r tid =
     (if threadEntries r tid \<noteq> 0 then
        (case instList r tid of [] \<Rightarrow> None | p # _ \<Rightarrow> Some (readyToCommit (h p)))
      else Some False)"

fun canCommit_loop :: "inst_heap \<Rightarrow> rob \<Rightarrow> thread_id list \<Rightarrow> bool option" where
  "canCommit_loop h r [] = Some False"
| "canCommit_loop h r (tid # ts) = do {
     ready \<leftarrow> isHeadReady h r tid;
     if ready then Some True else canCommit_loop h r ts }"

definition canCommit :: "inst_heap \<Rightarrow> rob \<Rightarrow> bool option" where
  "canCommit h r = canCommit_loop h r (activeThreads r)"

text \<open>
  \<^verbatim>\<open>retireHead\<close>: a head whose replacement metadata update is pending gets it from
  the IEW stage; a data inducer resolves here in the conservative modes.
\<close>

definition retireHead ::
  "dolma_cpu \<Rightarrow> (request \<Rightarrow> bool) \<Rightarrow> thread_id \<Rightarrow> inst_heap \<times> rob \<times> o3_remove \<times> mem_event list \<Rightarrow>
     (inst_heap \<times> rob \<times> o3_remove \<times> mem_event list) option" where
  "retireHead c port tid = (\<lambda>(h, r, cpu, tr). do {
     check (numInstsInROB r > 0);
     check (instList r tid \<noteq> []);
     let p = hd (instList r tid);
     check (readyToCommit (h p));
     (i1, tr1) \<leftarrow> (if isPendingMetadata (h p) then updateMetadataIfNeeded port (h p, tr)
                   else Some (h p, tr));
     let h1 = h(p := i1);
     h2 \<leftarrow> (if isDataInducer i1 then do {
             check (isDolmaConservative c);
             updateSafeStatus c r tid (h1(p := clearDataInducer i1)) }
           else Some h1);
     i2 \<leftarrow> clearInROB (h2 p);
     let h3 = h2(p := set_status Committed i2);
     let r1 = r\<lparr>numInstsInROB := numInstsInROB r - 1,
                threadEntries := (threadEntries r)(tid := threadEntries r tid - 1),
                instList := (instList r)(tid := tl (instList r tid))\<rparr>;
     Some (h3, updateHead h3 r1, removeFrontInst p cpu, tr1) })"

section \<open>Squashing\<close>

text \<open>\<^verbatim>\<open>it--\<close> on a list iterator that is not \<^verbatim>\<open>begin()\<close>.\<close>

fun prev_in :: "'a list \<Rightarrow> 'a \<Rightarrow> 'a option" where
  "prev_in (x # y # ys) p = (if p = y then Some x else prev_in (y # ys) p)"
| "prev_in _ p = None"

text \<open>
  The loop of \<^verbatim>\<open>doSquash\<close>: at most \<open>squashWidth\<close> rounds. The iterator of the result
  is \<open>None\<close> when the head of the list was squashed, which is the early return.
\<close>

fun doSquash_loop ::
  "nat \<Rightarrow> inst_seq_num \<Rightarrow> iptr list \<Rightarrow> iptr \<Rightarrow> inst_heap \<Rightarrow> bool \<Rightarrow> (inst_heap \<times> iptr option \<times> bool) option"
where
  "doSquash_loop 0 sn l p h tu = Some (h, Some p, tu)"
| "doSquash_loop (Suc n) sn l p h tu =
     (if seqNum (h p) > sn then do {
        i \<leftarrow> setCanCommit (setSquashed (h p));
        let h1 = h(p := i);
        (if p = hd l then Some (h1, None, tu)
         else do { q \<leftarrow> prev_in l p; doSquash_loop n sn l q h1 (tu \<or> p = last l) }) }
      else Some (h, Some p, tu))"

definition doSquash :: "thread_id \<Rightarrow> inst_heap \<times> rob \<Rightarrow> (inst_heap \<times> rob) option" where
  "doSquash tid = (\<lambda>(h, r).
     case squashIt r tid of
       None \<Rightarrow> None
     | Some p \<Rightarrow>
         let sn = squashedSeqNum r tid;
             finish = (\<lambda>r. r\<lparr>squashIt := (squashIt r)(tid := None),
                             doneSquashing := (doneSquashing r)(tid := True)\<rparr>)
         in if seqNum (h p) < sn then Some (h, finish r)
            else do {
              (h1, it, tu) \<leftarrow> doSquash_loop (unat (squashWidth r)) sn (instList r tid) p h False;
              (case it of
                 None \<Rightarrow> Some (h1, finish r)
               | Some q \<Rightarrow>
                   let r1 = r\<lparr>squashIt := (squashIt r)(tid := Some q)\<rparr>;
                       r2 = (if seqNum (h1 q) \<le> sn then finish r1 else r1)
                   in Some (h1, if tu then updateTail h1 r2 else r2)) })"

definition squash :: "inst_seq_num \<Rightarrow> thread_id \<Rightarrow> inst_heap \<times> rob \<Rightarrow> (inst_heap \<times> rob) option" where
  "squash squash_num tid = (\<lambda>(h, r).
     if isEmpty_tid r tid then Some (h, r)
     else
       let r1 = r\<lparr>robStatus := (robStatus r)(tid := ROBSquashing),
                  doneSquashing := (doneSquashing r)(tid := False),
                  squashedSeqNum := (squashedSeqNum r)(tid := squash_num)\<rparr>
       in if instList r1 tid \<noteq> [] then
            doSquash tid (h, r1\<lparr>squashIt := (squashIt r1)(tid := Some (last (instList r1 tid)))\<rparr>)
          else Some (h, r1))"

end
