(* ===== verification/Rob_Squash.thy ===== *)
theory Rob_Squash
  imports Rob
begin

text \<open>
  Squashing: \<^verbatim>\<open>ROB::squash\<close> marks the instructions of a thread younger than a
  sequence number, a bounded number per cycle, walking back from the tail. The lemmas give the
  exact result of one cycle and of all of them.
\<close>

section \<open>One cycle\<close>

definition squash_mark :: "dyn_inst \<Rightarrow> dyn_inst" where
  "squash_mark i = set_status CanCommit (setSquashed i)"

definition marks :: "iptr set \<Rightarrow> inst_heap \<Rightarrow> inst_heap" where
  "marks S h = (\<lambda>q. if q \<in> S then squash_mark (h q) else h q)"

lemma squash_mark_simps [simp]:
  "seqNum (squash_mark i) = seqNum i" "threadNumber (squash_mark i) = threadNumber i"
  "staticInst (squash_mark i) = staticInst i"
  "status (squash_mark i) = insert CanCommit (insert Squashed (status i))"
  by (auto simp: squash_mark_def setSquashed_def)

lemma setCanCommit_setSquashed [simp]: "setCanCommit (setSquashed i) = Some (squash_mark i)"
  by (simp add: setCanCommit_def squash_mark_def setSquashed_def isPendingMemOrder_def isPendingBranch_def)

lemma seqNum_marks [simp]: "seqNum (marks S h q) = seqNum (h q)"
  and threadNumber_marks [simp]: "threadNumber (marks S h q) = threadNumber (h q)"
  by (simp_all add: marks_def)

lemma marks_empty [simp]: "marks {} h = h"
  by (simp add: marks_def)

lemma marks_marks: "S \<inter> T = {} \<Longrightarrow> marks S (marks T h) = marks (S \<union> T) h"
  by (auto simp: marks_def fun_eq_iff)

lemma marks_single: "h(p := squash_mark (h p)) = marks {p} h"
  by (auto simp: marks_def fun_eq_iff)

lemma prev_in_append: "distinct (xs @ x # p # ys) \<Longrightarrow> prev_in (xs @ x # p # ys) p = Some x"
proof (induction xs)
  case (Cons a xs)
  then show ?case by (cases xs) auto
qed simp

text \<open>The instructions one cycle squashes, youngest first, from \<open>p\<close> down.\<close>

definition squash_batch :: "nat \<Rightarrow> inst_seq_num \<Rightarrow> inst_heap \<Rightarrow> iptr list \<Rightarrow> iptr list" where
  "squash_batch n sn h l = take n (takeWhile (\<lambda>q. seqNum (h q) > sn) l)"

lemma doSquash_loop_spec:
  assumes "distinct (xs @ p # ys)"
  shows "\<exists>tu'. doSquash_loop n sn (xs @ p # ys) p h tu =
     Some (marks (set (squash_batch n sn h (p # rev xs))) h,
           (if length (squash_batch n sn h (p # rev xs)) = Suc (length xs) then None
            else Some ((p # rev xs) ! length (squash_batch n sn h (p # rev xs)))), tu')"
  using assms
proof (induction n arbitrary: xs p ys h tu)
  case (Suc n)
  show ?case
  proof (cases "seqNum (h p) > sn")
    case True
    show ?thesis
    proof (cases xs rule: rev_cases)
      case Nil
      with True show ?thesis
        by (auto simp: squash_batch_def marks_single)
    next
      case (snoc zs z)
      from Suc.prems snoc have d: "distinct (zs @ z # p # ys)" by simp
      have hd: "hd (xs @ p # ys) \<noteq> p" using Suc.prems snoc by (cases zs) auto
      let ?h1 = "h(p := squash_mark (h p))"
      have pz: "p \<notin> set zs" "p \<noteq> z" using d by auto
      have tw: "takeWhile (\<lambda>q. sn < seqNum (?h1 q)) (z # rev zs) = takeWhile (\<lambda>q. sn < seqNum (h q)) (z # rev zs)"
        using pz by (intro takeWhile_cong) auto
      have b: "squash_batch (Suc n) sn h (p # rev xs) = p # squash_batch n sn ?h1 (z # rev zs)"
        unfolding squash_batch_def tw using True snoc by simp
      let ?b = "squash_batch n sn ?h1 (z # rev zs)"
      have sub: "set ?b \<subseteq> set (z # rev zs)"
        unfolding squash_batch_def by (auto dest!: in_set_takeD set_takeWhileD simp del: takeWhile.simps)
      then have m: "marks (set ?b) ?h1 = marks (set (p # ?b)) h"
        using pz by (auto simp: marks_def fun_eq_iff)
      obtain tu' where "doSquash_loop n sn (zs @ z # p # ys) z ?h1 (tu \<or> p = last (xs @ p # ys)) =
          Some (marks (set ?b) ?h1, (if length ?b = Suc (length zs) then None
            else Some ((z # rev zs) ! length ?b)), tu')"
        using Suc.IH[OF d] by blast
      then have "doSquash_loop (Suc n) sn (xs @ p # ys) p h tu =
          Some (marks (set ?b) ?h1, (if length ?b = Suc (length zs) then None
            else Some ((z # rev zs) ! length ?b)), tu')"
        using True hd snoc prev_in_append[OF d] by simp
      then show ?thesis unfolding b m by (simp add: snoc)
    qed
  next
    case False
    then show ?thesis by (simp add: squash_batch_def)
  qed
qed (simp add: squash_batch_def)

text \<open>What squashing keeps of the buffer.\<close>

definition squash_frame :: "thread_id \<Rightarrow> rob \<Rightarrow> rob \<Rightarrow> bool" where
  "squash_frame tid r r' \<longleftrightarrow>
     instList r' = instList r \<and> squashWidth r' = squashWidth r \<and> numEntries r' = numEntries r \<and>
     numInstsInROB r' = numInstsInROB r \<and> threadEntries r' = threadEntries r \<and>
     numThreads r' = numThreads r \<and> activeThreads r' = activeThreads r \<and>
     (\<forall>t. t \<noteq> tid \<longrightarrow> squashIt r' t = squashIt r t \<and> doneSquashing r' t = doneSquashing r t \<and>
        squashedSeqNum r' t = squashedSeqNum r t)"

lemma squash_frame_trans: "squash_frame tid r r' \<Longrightarrow> squash_frame tid r' r'' \<Longrightarrow> squash_frame tid r r''"
  by (simp add: squash_frame_def)

lemma squash_frame_updateTail [simp]: "squash_frame tid r (updateTail h r') = squash_frame tid r r'"
  by (simp add: squash_frame_def updateTail_def)

lemma updateTail_simps [simp]:
  "squashIt (updateTail h r) = squashIt r" "doneSquashing (updateTail h r) = doneSquashing r"
  "squashedSeqNum (updateTail h r) = squashedSeqNum r" "instList (updateTail h r) = instList r"
  "squashWidth (updateTail h r) = squashWidth r" "numEntries (updateTail h r) = numEntries r"
  "numInstsInROB (updateTail h r) = numInstsInROB r" "threadEntries (updateTail h r) = threadEntries r"
  "numThreads (updateTail h r) = numThreads r" "activeThreads (updateTail h r) = activeThreads r"
  by (simp_all add: updateTail_def)

text \<open>
  One cycle from an iterator at \<open>p\<close>: the batch is marked; the cycle is the last one when the
  head was squashed or the iterator reaches an instruction that survives.
\<close>

lemma doSquash_spec:
  fixes h :: inst_heap
  assumes it: "squashIt r tid = Some p" and l: "instList r tid = xs @ p # ys"
    and d: "distinct (instList r tid)"
  defines "sn \<equiv> squashedSeqNum r tid"
  defines "b \<equiv> squash_batch (unat (squashWidth r)) sn h (p # rev xs)"
  shows "\<exists>r'. doSquash tid (h, r) = Some (marks (set b) h, r') \<and> squash_frame tid r r' \<and>
     squashedSeqNum r' tid = sn \<and>
     (if length b = Suc (length xs) \<or> seqNum (h ((p # rev xs) ! length b)) \<le> sn
      then squashIt r' tid = None \<and> doneSquashing r' tid
      else squashIt r' tid = Some ((p # rev xs) ! length b) \<and> doneSquashing r' tid = doneSquashing r tid)"
proof (cases "seqNum (h p) < sn")
  case True
  then have "b = []" by (simp add: b_def squash_batch_def not_less)
  with True it show ?thesis
    by (auto simp: doSquash_def Let_def sn_def[symmetric] squash_frame_def)
next
  case False
  obtain tu where loop: "doSquash_loop (unat (squashWidth r)) sn (instList r tid) p h False =
     Some (marks (set b) h, (if length b = Suc (length xs) then None else Some ((p # rev xs) ! length b)), tu)"
    using doSquash_loop_spec[of xs p ys "unat (squashWidth r)" sn h False] d l unfolding b_def by auto
  show ?thesis using False it loop
    by (cases "length b = Suc (length xs)")
       (auto simp: doSquash_def Let_def sn_def[symmetric] squash_frame_def)
qed

section \<open>All cycles\<close>

text \<open>Commit calls \<^verbatim>\<open>doSquash\<close> once per cycle until the buffer is done.\<close>

fun squash_cycles :: "nat \<Rightarrow> thread_id \<Rightarrow> inst_heap \<times> rob \<Rightarrow> (inst_heap \<times> rob) option" where
  "squash_cycles 0 tid s = Some s"
| "squash_cycles (Suc n) tid (h, r) =
     (if doneSquashing r tid then Some (h, r) else doSquash tid (h, r) \<bind> squash_cycles n tid)"

definition younger :: "inst_seq_num \<Rightarrow> inst_heap \<Rightarrow> iptr list \<Rightarrow> iptr set" where
  "younger sn h l = {q \<in> set l. seqNum (h q) > sn}"

lemma take_takeWhile_prefix:
  "length (take w (takeWhile P l)) \<le> length l"
  "take w (takeWhile P l) = take (length (take w (takeWhile P l))) l"
proof -
  have m: "length (takeWhile P l) \<le> length l" by (rule length_takeWhile_le)
  then show "length (take w (takeWhile P l)) \<le> length l" by simp
  have "take w (takeWhile P l) = take w (take (length (takeWhile P l)) l)"
    by (metis takeWhile_eq_take)
  also have "\<dots> = take (min w (length (takeWhile P l))) l" by simp
  finally have e: "take w (takeWhile P l) = take (min w (length (takeWhile P l))) l" .
  show "take w (takeWhile P l) = take (length (take w (takeWhile P l))) l"
    unfolding e by (simp add: min_def)
qed

lemma batch_younger:
  assumes "increasing (\<lambda>q. seqNum (h q)) (xs @ [p])"
    and "length b = Suc (length xs) \<or> seqNum (h ((p # rev xs) ! length b)) \<le> sn"
    and "b = squash_batch w sn h (p # rev xs)"
  shows "set b = younger sn h (xs @ [p])"
proof
  let ?tw = "takeWhile (\<lambda>q. seqNum (h q) > sn) (p # rev xs)"
  have b: "b = take w ?tw" using assms(3) by (simp only: squash_batch_def)
  then show "set b \<subseteq> younger sn h (xs @ [p])"
    by (auto dest!: in_set_takeD set_takeWhileD simp: younger_def simp del: takeWhile.simps)
  note pre = take_takeWhile_prefix[of w "\<lambda>q. seqNum (h q) > sn" "p # rev xs", folded b]
  show "younger sn h (xs @ [p]) \<subseteq> set b"
  proof (cases "length b = Suc (length xs)")
    case True
    with pre have "b = p # rev xs" by simp
    then show ?thesis by (auto simp: younger_def)
  next
    case False
    have lb: "length b < length (p # rev xs)"
      using False pre(1) by simp
    let ?l = "p # rev xs" and ?q = "(p # rev xs) ! length b"
    have split: "?l = b @ ?q # drop (Suc (length b)) ?l"
      using pre(2) lb by (metis id_take_nth_drop)
    have dec: "sorted_wrt (\<lambda>x y. seqNum (h y) < seqNum (h x)) ?l"
      using assms(1) by (simp add: increasing_def sorted_wrt_rev sorted_wrt_append)
    have "sorted_wrt (\<lambda>x y. seqNum (h y) < seqNum (h x)) (b @ ?q # drop (Suc (length b)) ?l)"
      using dec split by metis
    then have low: "\<And>z. z \<in> set (?q # drop (Suc (length b)) ?l) \<Longrightarrow> seqNum (h z) \<le> sn"
      using assms(2) False by (auto simp: sorted_wrt_append)
    show ?thesis
    proof
      fix z assume "z \<in> younger sn h (xs @ [p])"
      then have z: "z \<in> set ?l" "seqNum (h z) > sn" by (auto simp: younger_def)
      then have "z \<in> set b \<or> z \<in> set (?q # drop (Suc (length b)) ?l)"
        using split by (metis set_append Un_iff)
      with z(2) low show "z \<in> set b" by (metis leD)
    qed
  qed
qed

lemma younger_marks [simp]: "younger sn (marks S h) l = younger sn h l"
  by (simp add: younger_def)

lemma younger_append: "younger sn h (xs @ ys) = younger sn h xs \<union> younger sn h ys"
  by (auto simp: younger_def)

lemma squash_cycles_more:
  "squash_cycles n tid s = Some (h, r) \<Longrightarrow> doneSquashing r tid \<Longrightarrow>
   squash_cycles (n + m) tid s = Some (h, r)"
proof (induction n arbitrary: s)
  case 0
  then show ?case by (cases m) auto
next
  case (Suc n)
  then show ?case by (cases s) (auto split: if_splits)
qed

text \<open>A cycle that is not the last one moves the iterator towards the head.\<close>

lemma squash_batch_split:
  assumes "b = squash_batch w sn h (p # rev xs)" and "w > 0" and "length b \<noteq> Suc (length xs)"
    and "\<not> seqNum (h ((p # rev xs) ! length b)) \<le> sn"
  obtains xs' q zs where "xs = xs' @ q # zs" and "q = (p # rev xs) ! length b"
    and "set b = set (zs @ [p])" and "set b = younger sn h (zs @ [p])"
proof -
  note pre = take_takeWhile_prefix[of w "\<lambda>q. seqNum (h q) > sn" "p # rev xs",
      folded squash_batch_def assms(1)]
  have "b \<noteq> []"
    using assms by (cases w) (auto simp: squash_batch_def split: if_splits)
  then obtain n where n: "length b = Suc n" by (cases b) auto
  with pre(1) assms(3) have lt: "n < length xs" by simp
  define k where "k = length xs - Suc n"
  have q: "(p # rev xs) ! length b = xs ! k" using n lt by (simp add: rev_nth k_def)
  have xs: "xs = take k xs @ xs ! k # drop (Suc k) xs"
    using lt by (intro id_take_nth_drop) (simp add: k_def)
  have "rev b = rev (take (length b) (p # rev xs))" using pre(2) by simp
  also have "\<dots> = drop (Suc k) (xs @ [p])"
    using n lt by (simp add: rev_take k_def Suc_diff_Suc)
  also have "\<dots> = drop (Suc k) xs @ [p]" using lt by (simp add: k_def)
  finally have sb: "set b = set (drop (Suc k) xs @ [p])" by (metis set_rev)
  have "set b \<subseteq> {q. seqNum (h q) > sn}"
    unfolding assms(1) squash_batch_def by (auto dest!: in_set_takeD set_takeWhileD simp del: takeWhile.simps)
  with sb have "set b = younger sn h (drop (Suc k) xs @ [p])" by (auto simp: younger_def)
  with xs q sb that show ?thesis by metis
qed

lemma squash_cycles_complete:
  fixes h :: inst_heap
  assumes "squashIt r tid = Some p" and "instList r tid = xs @ p # ys"
    and "increasing (\<lambda>q. seqNum (h q)) (instList r tid)" and "squashWidth r \<noteq> 0"
    and "\<not> doneSquashing r tid" and "squashedSeqNum r tid = sn"
  shows "\<exists>r'. squash_cycles (Suc (length xs)) tid (h, r) = Some (marks (younger sn h (xs @ [p])) h, r') \<and>
     squash_frame tid r r' \<and> squashIt r' tid = None \<and> doneSquashing r' tid"
  using assms
proof (induction "length xs" arbitrary: xs p ys h r rule: less_induct)
  case less
  let ?w = "unat (squashWidth r)"
  define b where "b = squash_batch ?w sn h (p # rev xs)"
  have inc: "increasing (\<lambda>q. seqNum (h q)) (xs @ [p])" using less.prems(2,3) by simp
  obtain r1 where r1: "doSquash tid (h, r) = Some (marks (set b) h, r1)" "squash_frame tid r r1"
    "squashedSeqNum r1 tid = sn"
    "if length b = Suc (length xs) \<or> seqNum (h ((p # rev xs) ! length b)) \<le> sn
      then squashIt r1 tid = None \<and> doneSquashing r1 tid
      else squashIt r1 tid = Some ((p # rev xs) ! length b) \<and> doneSquashing r1 tid = doneSquashing r tid"
    using doSquash_spec[OF less.prems(1,2) increasing_distinct[OF less.prems(3)], of h]
    unfolding less.prems(6) b_def[symmetric] by auto
  show ?case
  proof (cases "length b = Suc (length xs) \<or> seqNum (h ((p # rev xs) ! length b)) \<le> sn")
    case True
    have "set b = younger sn h (xs @ [p])" by (rule batch_younger[OF inc True b_def])
    moreover have "squash_cycles (length xs) tid (marks (set b) h, r1) = Some (marks (set b) h, r1)"
      using r1(4) True by (cases "length xs") auto
    ultimately show ?thesis using r1 True less.prems(5) by auto
  next
    case False
    have w: "?w > 0" using less.prems(4) by (simp add: unat_gt_0)
    from False have nf: "length b \<noteq> Suc (length xs)" "\<not> seqNum (h ((p # rev xs) ! length b)) \<le> sn"
      by blast+
    obtain xs' q zs where xs: "xs = xs' @ q # zs" and q: "q = (p # rev xs) ! length b"
      and sb: "set b = set (zs @ [p])" "set b = younger sn h (zs @ [p])"
      by (rule squash_batch_split[OF b_def w nf])
    have l1: "instList r1 tid = xs' @ q # (zs @ p # ys)"
      using r1(2) less.prems(2) xs by (simp add: squash_frame_def)
    have it1: "squashIt r1 tid = Some q" "\<not> doneSquashing r1 tid"
      using r1(4) nf less.prems(5) unfolding q by simp_all
    have f1: "squashWidth r1 \<noteq> 0" "increasing (\<lambda>z. seqNum (marks (set b) h z)) (instList r1 tid)"
      using r1(2) less.prems(3,4) by (simp_all add: squash_frame_def)
    have lt: "length xs' < length xs" unfolding xs by simp
    obtain r' where r': "squash_cycles (Suc (length xs')) tid (marks (set b) h, r1) =
        Some (marks (younger sn (marks (set b) h) (xs' @ [q])) (marks (set b) h), r')"
      "squash_frame tid r1 r'" "squashIt r' tid = None" "doneSquashing r' tid"
      using less.hyps[OF lt it1(1) l1 f1(2,1) it1(2) r1(3)] by blast
    have "younger sn h (xs' @ [q]) \<inter> set b = {}"
      using increasing_distinct[OF inc] xs sb(1) by (auto simp: younger_def)
    note mm = marks_marks[OF this]
    have e: "xs @ [p] = (xs' @ [q]) @ (zs @ [p])" using xs by simp
    have "younger sn h (xs @ [p]) = younger sn h (xs' @ [q]) \<union> set b"
      unfolding e sb(2) by (rule younger_append)
    then have m: "marks (younger sn (marks (set b) h) (xs' @ [q])) (marks (set b) h) =
        marks (younger sn h (xs @ [p])) h"
      using mm by simp
    have "squash_cycles (length xs) tid (marks (set b) h, r1) = Some (marks (younger sn h (xs @ [p])) h, r')"
      using squash_cycles_more[OF r'(1) r'(4), of "length zs"] unfolding m by (simp add: xs)
    with r1 r' less.prems(5) show ?thesis by (auto intro: squash_frame_trans)
  qed
qed

end
