(* ===== verification/Rob_Safety.thy ===== *)
theory Rob_Safety
  imports Rob_Squash
begin

text \<open>
  What the reorder buffer promises about speculation: the exact effect of a scan by
  \<^verbatim>\<open>updateSafeStatus\<close> on the restrictions of every instruction, the step
  relation of the buffer with its DOLMA state, and the invariants of its reachable states.
\<close>

section \<open>The scan\<close>

text \<open>The part of an instruction the scan decides on, and what only the scanned one loses.\<close>

definition fixed_view :: "dyn_inst \<Rightarrow>
    inst_seq_num \<times> inst_seq_num \<times> bool \<times> bool \<times> static_inst \<times> inst_flag set \<times> thread_id" where
  "fixed_view i =
     (seqNum i, ydi i, isSquashed i, isControlInducer i, staticInst i, instFlags i, threadNumber i)"

definition dolma_view :: "dyn_inst \<Rightarrow> bool \<times> bool \<times> bool" where
  "dolma_view i = (isControlRestricted i, isDataRestricted i, isDataInducer i)"

lemmas view_defs = fixed_view_def dolma_view_def dolma_query_defs

lemma fixed_viewD:
  assumes "fixed_view i = fixed_view j"
  shows "seqNum i = seqNum j" and "ydi i = ydi j" and "isSquashed i \<longleftrightarrow> isSquashed j"
    and "isControlInducer i \<longleftrightarrow> isControlInducer j" and "staticInst i = staticInst j"
    and "instFlags i = instFlags j" and "threadNumber i = threadNumber j"
  using assms by (auto simp: fixed_view_def)

lemma view_setPendingMetadata:
  "setPendingMetadata c i = Some j \<Longrightarrow> fixed_view j = fixed_view i \<and> dolma_view j = dolma_view i"
  by (auto simp: setPendingMetadata_def view_defs set_status_def split: if_splits)

lemma view_clearDolmaStalled [simp]:
  "fixed_view (clearDolmaStalled i) = fixed_view i" "dolma_view (clearDolmaStalled i) = dolma_view i"
  by (auto simp: clearDolmaStalled_def view_defs reset_status_def)

lemma view_setPendingMemOrder_store:
  "setPendingMemOrder_store c st i = Some j \<Longrightarrow> fixed_view j = fixed_view i \<and> dolma_view j = dolma_view i"
  by (auto simp: setPendingMemOrder_store_def view_defs set_status_def reset_status_def Let_def split: if_splits)

lemma on_release_view:
  assumes "on_release c p h = Some h'"
  shows "fixed_view (h' q) = fixed_view (h q) \<and> dolma_view (h' q) = dolma_view (h q)"
  using assms unfolding on_release_def
proof (elim bind_eq_SomeE)
  fix i
  assume i: "(if \<not> isSTT c \<and> \<not> isDolmaStalled (h p) \<and> dolmaVirtualReq (h p) \<noteq> None
      then setPendingMetadata c (h p) else Some (h p)) = Some i"
  then have "fixed_view i = fixed_view (h p) \<and> dolma_view i = dolma_view (h p)"
    by (auto dest: view_setPendingMetadata split: if_splits)
  moreover assume "(let h1 = h(p := i)
     in if isDolmaStalled i then Some (h1(p := clearDolmaStalled i))
        else if isStore i \<and> \<not> isSTT c then
          (case violator i of
             None \<Rightarrow> Some h1
           | Some v \<Rightarrow> (if isSquashed (h1 v) then Some h1
                       else do { w \<leftarrow> setPendingMemOrder_store c i (h1 v); Some (h1(v := w)) }))
        else Some h1) = Some h'"
  ultimately show ?thesis
    by (auto simp: Let_def split: if_splits option.splits dest!: view_setPendingMemOrder_store)
qed

lemma fixed_view_clear_restrictions [simp]: "fixed_view (clear_restrictions u ys i) = fixed_view i"
  by (auto simp: clear_restrictions_def clearControlRestricted_def clearDataRestricted_def
      view_defs reset_status_def Let_def)

lemma dolma_view_clear_restrictions:
  "dolma_view (clear_restrictions u ys i) =
     (isControlRestricted i \<and> u, isDataRestricted i \<and> ydi i \<in> ys, isDataInducer i)"
  by (auto simp: clear_restrictions_def clearControlRestricted_def clearDataRestricted_def
      view_defs reset_status_def Let_def)

lemma scan_restricted_spec:
  assumes "scan_restricted c p s = Some s'"
  shows "fixed_view (ss_heap s' q) = fixed_view (ss_heap s q)"
    and "q \<noteq> p \<Longrightarrow> dolma_view (ss_heap s' q) = dolma_view (ss_heap s q)"
    and "dolma_view (ss_heap s' p) =
       (isControlRestricted (ss_heap s p) \<and> foundUnresolvedBranch s,
        isDataRestricted (ss_heap s p) \<and> ydi (ss_heap s p) \<in> ydis s, isDataInducer (ss_heap s p))"
    and "foundUnresolvedBranch s' = foundUnresolvedBranch s \<and> ydis s' = ydis s
       \<and> foundUnresolvedStore s' = foundUnresolvedStore s \<and> oldestViolator s' = oldestViolator s"
proof -
  let ?h = "ss_heap s"
  let ?i = "clear_restrictions (foundUnresolvedBranch s) (ydis s) (?h p)"
  consider (unr) "\<not> isDolmaRestricted (?h p)" "s' = s"
    | (still) "isDolmaRestricted (?h p)" "s' = s\<lparr>ss_heap := ?h(p := ?i)\<rparr>"
    | (rel) h2 where "isDolmaRestricted (?h p)" "on_release c p (?h(p := ?i)) = Some h2" "s' = s\<lparr>ss_heap := h2\<rparr>"
    using assms by (auto simp: scan_restricted_def Let_def split: if_splits)
  note cs = this
  show "fixed_view (ss_heap s' q) = fixed_view (ss_heap s q)"
    by (cases rule: cs) (auto dest: on_release_view[where q = q])
  show "dolma_view (ss_heap s' q) = dolma_view (ss_heap s q)" if "q \<noteq> p"
    using that by (cases rule: cs) (auto dest: on_release_view[where q = q])
  show "dolma_view (ss_heap s' p) =
       (isControlRestricted (?h p) \<and> foundUnresolvedBranch s,
        isDataRestricted (?h p) \<and> ydi (?h p) \<in> ydis s, isDataInducer (?h p))"
  proof (cases rule: cs)
    case unr then show ?thesis by (auto simp: view_defs)
  next
    case still then show ?thesis by (simp add: dolma_view_clear_restrictions)
  next
    case rel
    from on_release_view[OF rel(2), of p] rel(3) show ?thesis
      by (simp add: dolma_view_clear_restrictions)
  qed
  show "foundUnresolvedBranch s' = foundUnresolvedBranch s \<and> ydis s' = ydis s
     \<and> foundUnresolvedStore s' = foundUnresolvedStore s \<and> oldestViolator s' = oldestViolator s"
    by (cases rule: cs) auto
qed

lemma scan_inducer_spec:
  "fixed_view (ss_heap (scan_inducer c p s) q) = fixed_view (ss_heap s q)"
  "q \<noteq> p \<Longrightarrow> dolma_view (ss_heap (scan_inducer c p s) q) = dolma_view (ss_heap s q)"
  "dolma_view (ss_heap (scan_inducer c p s) p) =
     (isControlRestricted (ss_heap s p), isDataRestricted (ss_heap s p),
      isDataInducer (ss_heap s p) \<and> inducer_blocked c (ss_heap s p) s)"
  "foundUnresolvedBranch (scan_inducer c p s) = foundUnresolvedBranch s"
  "ydis (scan_inducer c p s) =
     (if isDataInducer (ss_heap (scan_inducer c p s) p) then insert (seqNum (ss_heap s p)) (ydis s)
      else ydis s)"
  by (auto simp: scan_inducer_def Let_def clearDataInducer_def view_defs reset_status_def)

lemma scan_branch_spec:
  "ss_heap (scan_branch p s) = ss_heap s"
  "foundUnresolvedBranch (scan_branch p s) \<longleftrightarrow> foundUnresolvedBranch s \<or> isControlInducer (ss_heap s p)"
  "ydis (scan_branch p s) = ydis s"
  by (auto simp: scan_branch_def)

lemma scan_store_spec:
  "fixed_view (ss_heap (scan_store c l p s) q) = fixed_view (ss_heap s q)"
  "dolma_view (ss_heap (scan_store c l p s) q) = dolma_view (ss_heap s q)"
  "foundUnresolvedBranch (scan_store c l p s) = foundUnresolvedBranch s"
  "ydis (scan_store c l p s) = ydis s"
  by (auto simp: scan_store_def Let_def view_defs split: option.splits)

text \<open>
  One round of the scan: only the scanned instruction changes its restrictions, and it loses a
  restriction exactly when nothing older that is unresolved causes it.
\<close>

lemma safe_step_spec:
  assumes "safe_step c l p s = Some s'"
  shows "fixed_view (ss_heap s' q) = fixed_view (ss_heap s q)"
    and "q \<noteq> p \<Longrightarrow> dolma_view (ss_heap s' q) = dolma_view (ss_heap s q)"
    and "isControlRestricted (ss_heap s' p) \<longleftrightarrow>
           isControlRestricted (ss_heap s p) \<and> foundUnresolvedBranch s"
    and "isDataRestricted (ss_heap s' p) \<longleftrightarrow>
           isDataRestricted (ss_heap s p) \<and> ydi (ss_heap s p) \<in> ydis s"
    and "isDataInducer (ss_heap s' p) \<longrightarrow> isDataInducer (ss_heap s p)"
    and "foundUnresolvedBranch s' \<longleftrightarrow> foundUnresolvedBranch s \<or> isControlInducer (ss_heap s p)"
    and "ydis s' = (if isDataInducer (ss_heap s' p) then insert (seqNum (ss_heap s p)) (ydis s) else ydis s)"
proof -
  from assms obtain s1 where s1: "scan_restricted c p s = Some s1"
    and s': "s' = scan_store c l p (scan_branch p (scan_inducer c p s1))"
    by (auto simp: safe_step_def)
  note r = scan_restricted_spec[OF s1] and o = scan_inducer_spec scan_branch_spec scan_store_spec
  have ctl: "isControlInducer (ss_heap (scan_inducer c p s1) p) = isControlInducer (ss_heap s p)"
    using o(1)[of c p s1 p] r(1)[of p] by (auto dest: fixed_viewD)
  have sn: "seqNum (ss_heap s1 p) = seqNum (ss_heap s p)"
    using r(1)[of p] by (auto dest: fixed_viewD)
  have dv: "dolma_view (ss_heap s' p) = dolma_view (ss_heap (scan_inducer c p s1) p)"
    unfolding s' by (simp add: o)
  show "fixed_view (ss_heap s' q) = fixed_view (ss_heap s q)"
    unfolding s' by (simp add: o r)
  show "q \<noteq> p \<Longrightarrow> dolma_view (ss_heap s' q) = dolma_view (ss_heap s q)"
    unfolding s' by (simp add: o r)
  show "isControlRestricted (ss_heap s' p) \<longleftrightarrow> isControlRestricted (ss_heap s p) \<and> foundUnresolvedBranch s"
    and "isDataRestricted (ss_heap s' p) \<longleftrightarrow> isDataRestricted (ss_heap s p) \<and> ydi (ss_heap s p) \<in> ydis s"
    and "isDataInducer (ss_heap s' p) \<longrightarrow> isDataInducer (ss_heap s p)"
    using dv o(3)[of c p s1] r(3) by (auto simp: dolma_view_def)
  show "foundUnresolvedBranch s' \<longleftrightarrow> foundUnresolvedBranch s \<or> isControlInducer (ss_heap s p)"
    unfolding s' using r(4) by (simp add: o ctl)
  have "isDataInducer (ss_heap s' p) = isDataInducer (ss_heap (scan_inducer c p s1) p)"
    using dv by (simp add: dolma_view_def)
  then show "ydis s' = (if isDataInducer (ss_heap s' p) then insert (seqNum (ss_heap s p)) (ydis s) else ydis s)"
    unfolding s' using r(4) sn by (simp add: o)
qed

text \<open>The scan of a list: the accumulated facts, and the frame.\<close>

lemma scan_spec:
  assumes "foldM (safe_step c l) xs s = Some s'" and "distinct xs"
  shows "fixed_view (ss_heap s' q) = fixed_view (ss_heap s q)"
    and "q \<notin> set xs \<Longrightarrow> dolma_view (ss_heap s' q) = dolma_view (ss_heap s q)"
    and "foundUnresolvedBranch s' \<longleftrightarrow>
           foundUnresolvedBranch s \<or> (\<exists>q \<in> set xs. isControlInducer (ss_heap s q))"
    and "ydis s' = ydis s \<union> {seqNum (ss_heap s q) | q. q \<in> set xs \<and> isDataInducer (ss_heap s' q)}"
proof -
  have "(\<forall>q. fixed_view (ss_heap s' q) = fixed_view (ss_heap s q)) \<and>
        (\<forall>q. q \<notin> set xs \<longrightarrow> dolma_view (ss_heap s' q) = dolma_view (ss_heap s q)) \<and>
        (foundUnresolvedBranch s' \<longleftrightarrow>
           foundUnresolvedBranch s \<or> (\<exists>q \<in> set xs. isControlInducer (ss_heap s q))) \<and>
        ydis s' = ydis s \<union> {seqNum (ss_heap s q) | q. q \<in> set xs \<and> isDataInducer (ss_heap s' q)}"
    using assms
  proof (induction xs arbitrary: s)
    case (Cons x xs)
    then obtain t where t: "safe_step c l x s = Some t" and rest: "foldM (safe_step c l) xs t = Some s'"
      by auto
    note st = safe_step_spec[OF t]
    from Cons rest have IH:
      "\<And>q. fixed_view (ss_heap s' q) = fixed_view (ss_heap t q)"
      "\<And>q. q \<notin> set xs \<Longrightarrow> dolma_view (ss_heap s' q) = dolma_view (ss_heap t q)"
      "foundUnresolvedBranch s' \<longleftrightarrow> foundUnresolvedBranch t \<or> (\<exists>q \<in> set xs. isControlInducer (ss_heap t q))"
      "ydis s' = ydis t \<union> {seqNum (ss_heap t q) | q. q \<in> set xs \<and> isDataInducer (ss_heap s' q)}"
      by auto
    have x: "isDataInducer (ss_heap s' x) = isDataInducer (ss_heap t x)"
      using IH(2)[of x] Cons.prems(2) by (simp add: dolma_view_def)
    have ft: "seqNum (ss_heap t q) = seqNum (ss_heap s q)"
      "isControlInducer (ss_heap t q) = isControlInducer (ss_heap s q)" for q
      using st(1)[of q] by (auto dest: fixed_viewD)
    have "ydis s' = ydis s \<union> {seqNum (ss_heap s q) | q. q \<in> set (x # xs) \<and> isDataInducer (ss_heap s' q)}"
      unfolding IH(4) st(7) using x ft by auto
    then show ?case using IH(1-3) st(1,2,6) ft by auto
  qed auto
  then show "fixed_view (ss_heap s' q) = fixed_view (ss_heap s q)"
    and "q \<notin> set xs \<Longrightarrow> dolma_view (ss_heap s' q) = dolma_view (ss_heap s q)"
    and "foundUnresolvedBranch s' \<longleftrightarrow>
           foundUnresolvedBranch s \<or> (\<exists>q \<in> set xs. isControlInducer (ss_heap s q))"
    and "ydis s' = ydis s \<union> {seqNum (ss_heap s q) | q. q \<in> set xs \<and> isDataInducer (ss_heap s' q)}"
    by blast+
qed

text \<open>
  The scan of a whole thread list, at the position of one of its instructions: a control
  restriction survives exactly under an older unresolved control inducer, a data restriction
  exactly while its youngest data inducer is an older instruction that is still a data inducer
  after the scan.
\<close>

lemma updateSafeStatus_view:
  assumes run: "updateSafeStatus c r tid h = Some h'" and d: "distinct (instList r tid)"
  shows "fixed_view (h' q) = fixed_view (h q)"
    and "q \<notin> set (instList r tid) \<Longrightarrow> dolma_view (h' q) = dolma_view (h q)"
proof -
  from run obtain s where s: "foldM (safe_step c (instList r tid)) (instList r tid) (scan_init h) = Some s"
    "h' = ss_heap s" by (auto simp: updateSafeStatus_def)
  show "fixed_view (h' q) = fixed_view (h q)"
    and "q \<notin> set (instList r tid) \<Longrightarrow> dolma_view (h' q) = dolma_view (h q)"
    using scan_spec(1,2)[OF s(1) d] s(2) by (simp_all add: scan_init_def)
qed

lemma updateSafeStatus_at:
  assumes run: "updateSafeStatus c r tid h = Some h'" and l: "instList r tid = xs @ p # ys"
    and d: "distinct (instList r tid)"
  shows "isControlRestricted (h' p) \<longleftrightarrow> isControlRestricted (h p) \<and> (\<exists>q \<in> set xs. isControlInducer (h q))"
    and "isDataRestricted (h' p) \<longleftrightarrow>
           isDataRestricted (h p) \<and> (\<exists>q \<in> set xs. seqNum (h q) = ydi (h p) \<and> isDataInducer (h' q))"
    and "isDataInducer (h' p) \<longrightarrow> isDataInducer (h p)"
proof -
  let ?f = "safe_step c (instList r tid)"
  from run l obtain s where s: "foldM ?f (xs @ p # ys) (scan_init h) = Some s"
    and h': "h' = ss_heap s" by (auto simp: updateSafeStatus_def)
  then obtain s1 s2 where s1: "foldM ?f xs (scan_init h) = Some s1" and s2: "?f p s1 = Some s2"
    and s3: "foldM ?f ys s2 = Some s"
    by (auto simp: foldM_append)
  from d l have dx: "distinct xs" and px: "p \<notin> set xs" "p \<notin> set ys" and dy: "distinct ys"
    and xy: "\<And>q. q \<in> set xs \<Longrightarrow> q \<noteq> p \<and> q \<notin> set ys" by auto
  note a = scan_spec[OF s1 dx] and b = safe_step_spec[OF s2] and e = scan_spec[OF s3 dy]
  have later: "dolma_view (h' q) = dolma_view (ss_heap s1 q)" if "q \<in> set xs" for q
    using xy[OF that] b(2) e(2) h' by simp
  have p': "dolma_view (h' p) = dolma_view (ss_heap s2 p)" using e(2) px h' by simp
  have p1: "dolma_view (ss_heap s1 p) = dolma_view (h p)" using a(2)[of p] px by (simp add: scan_init_def)
  have y: "ydi (ss_heap s1 p) = ydi (h p)" using a(1)[of p] by (auto simp: scan_init_def dest: fixed_viewD)
  have ys1: "ydis s1 = {seqNum (h q) |q. q \<in> set xs \<and> isDataInducer (h' q)}"
    using a(4) later by (auto simp: scan_init_def dolma_view_def)
  show "isControlRestricted (h' p) \<longleftrightarrow> isControlRestricted (h p) \<and> (\<exists>q \<in> set xs. isControlInducer (h q))"
    using p' p1 b(3) a(3) by (simp add: dolma_view_def scan_init_def)
  show "isDataRestricted (h' p) \<longleftrightarrow>
      isDataRestricted (h p) \<and> (\<exists>q \<in> set xs. seqNum (h q) = ydi (h p) \<and> isDataInducer (h' q))"
    using p' p1 b(4) y ys1 by (auto simp: dolma_view_def)
  show "isDataInducer (h' p) \<longrightarrow> isDataInducer (h p)"
    using p' p1 b(5) by (simp add: dolma_view_def)
qed

text \<open>No assertion on the way of a scan can fail on a DOLMA CPU.\<close>

lemma on_release_total: "isDolma c \<Longrightarrow> \<exists>h'. on_release c p h = Some h'"
  by (auto simp: on_release_def setPendingMetadata_def setPendingMemOrder_store_def Let_def
      split: option.splits)

lemma scan_restricted_total: "isDolma c \<Longrightarrow> \<exists>s'. scan_restricted c p s = Some s'"
  using on_release_total[of c p "(ss_heap s)(p := clear_restrictions (foundUnresolvedBranch s) (ydis s) (ss_heap s p))"]
  by (auto simp: scan_restricted_def Let_def)

lemma scan_total: "isDolma c \<Longrightarrow> \<exists>s'. foldM (safe_step c l) xs s = Some s'"
proof (induction xs arbitrary: s)
  case (Cons x xs)
  obtain t where "scan_restricted c x s = Some t"
    using scan_restricted_total Cons.prems by blast
  with Cons show ?case by (simp add: safe_step_def)
qed simp

lemma updateSafeStatus_total: "isDolma c \<Longrightarrow> \<exists>h'. updateSafeStatus c r tid h = Some h'"
  using scan_total[of c "instList r tid" "instList r tid" "scan_init h"]
  by (auto simp: updateSafeStatus_def)

section \<open>The order in which data inducers resolve\<close>

text \<open>
  The instruction remembers only its youngest data inducer, so inducers have to resolve oldest
  first. What the scan accumulates only grows, the oldest violator only decreases, and a pending
  redirect is never dropped by the scan.
\<close>

definition scan_le :: "safe_scan \<Rightarrow> safe_scan \<Rightarrow> bool" where
  "scan_le s t \<longleftrightarrow>
     (foundUnresolvedBranch s \<longrightarrow> foundUnresolvedBranch t) \<and>
     (foundUnresolvedStore s \<longrightarrow> foundUnresolvedStore t) \<and> oldestViolator t \<le> oldestViolator s \<and>
     (\<forall>q. PendingMemOrder \<in> status (ss_heap s q) \<longrightarrow> PendingMemOrder \<in> status (ss_heap t q))"

lemma scan_le_refl [simp]: "scan_le s s"
  by (simp add: scan_le_def)

lemma scan_le_trans: "scan_le s t \<Longrightarrow> scan_le t u \<Longrightarrow> scan_le s u"
  unfolding scan_le_def by (meson order_trans)

lemma on_release_pending:
  assumes "on_release c p h = Some h'" and "PendingMemOrder \<in> status (h q)"
  shows "PendingMemOrder \<in> status (h' q)"
  using assms
  by (auto simp: on_release_def Let_def setPendingMetadata_def setPendingMemOrder_store_def clearDolmaStalled_def
      split: if_splits option.splits)

lemma scan_restricted_le:
  assumes "scan_restricted c p s = Some s'"
  shows "scan_le s s'"
proof -
  let ?i = "clear_restrictions (foundUnresolvedBranch s) (ydis s) (ss_heap s p)"
  have i: "PendingMemOrder \<in> status (ss_heap s q) \<Longrightarrow> PendingMemOrder \<in> status (((ss_heap s)(p := ?i)) q)" for q
    by (auto simp: clear_restrictions_def Let_def clearControlRestricted_def clearDataRestricted_def)
  show ?thesis
    using assms i on_release_pending[of c p "(ss_heap s)(p := ?i)"]
    by (auto simp: scan_restricted_def Let_def scan_le_def simp del: fun_upd_apply split: if_splits)
qed

lemma scan_inducer_le: "scan_le s (scan_inducer c p s)"
  by (auto simp: scan_inducer_def scan_le_def Let_def clearDataInducer_def)

lemma scan_branch_le: "scan_le s (scan_branch p s)"
  by (auto simp: scan_branch_def scan_le_def)

lemma scan_store_le: "scan_le s (scan_store c l p s)"
  by (auto simp: scan_store_def scan_le_def Let_def split: option.splits)

lemma safe_step_le:
  assumes "safe_step c l p s = Some s'"
  shows "scan_le s s'"
proof -
  from assms obtain s1 where "scan_restricted c p s = Some s1"
    and s': "s' = scan_store c l p (scan_branch p (scan_inducer c p s1))"
    by (auto simp: safe_step_def)
  then have "scan_le s s1" by (blast intro: scan_restricted_le)
  then show ?thesis unfolding s' by (meson scan_inducer_le scan_branch_le scan_store_le scan_le_trans)
qed

lemma scan_fold_le: "foldM (safe_step c l) xs s = Some s' \<Longrightarrow> scan_le s s'"
proof (induction xs arbitrary: s)
  case (Cons x xs)
  then obtain t where "safe_step c l x s = Some t" "foldM (safe_step c l) xs t = Some s'" by auto
  with Cons.IH show ?case by (blast intro: safe_step_le scan_le_trans)
qed simp

text \<open>When the scanned instruction stays a data inducer.\<close>

lemma safe_step_inducer:
  assumes "safe_step c l p s = Some s'"
  obtains i where "isDataInducer (ss_heap s' p) \<longleftrightarrow> isDataInducer (ss_heap s p) \<and> inducer_blocked c i s"
    and "seqNum i = seqNum (ss_heap s p)"
    and "isPendingMemOrder i \<Longrightarrow> isPendingMemOrder (ss_heap s' p)"
proof -
  from assms obtain s1 where s1: "scan_restricted c p s = Some s1"
    and s': "s' = scan_store c l p (scan_branch p (scan_inducer c p s1))"
    by (auto simp: safe_step_def)
  note r = scan_restricted_spec[OF s1] and o = scan_inducer_spec scan_branch_spec scan_store_spec
  have le: "scan_le s1 s'" unfolding s'
    by (meson scan_inducer_le scan_branch_le scan_store_le scan_le_trans)
  have "dolma_view (ss_heap s' p) = dolma_view (ss_heap (scan_inducer c p s1) p)" unfolding s' by (simp add: o)
  then have ind: "isDataInducer (ss_heap s' p) \<longleftrightarrow> isDataInducer (ss_heap s p) \<and> inducer_blocked c (ss_heap s1 p) s"
    using o(3)[of c p s1] r(3,4) by (auto simp: dolma_view_def inducer_blocked_def)
  have "fixed_view (ss_heap s' p) = fixed_view (ss_heap s1 p)" unfolding s' by (simp add: o)
  then have "isPendingMemOrder (ss_heap s1 p) \<Longrightarrow> isPendingMemOrder (ss_heap s' p)"
    using le by (auto simp: scan_le_def isPendingMemOrder_def dest: fixed_viewD)
  moreover have "seqNum (ss_heap s1 p) = seqNum (ss_heap s p)" using r(1)[of p] by (auto dest: fixed_viewD)
  ultimately show ?thesis using that ind by blast
qed

lemma updateSafeStatus_in_order:
  assumes run: "updateSafeStatus c r tid h = Some h'" and l: "instList r tid = xs @ q # ys @ p # zs"
    and inc: "increasing (\<lambda>z. seqNum (h z)) (instList r tid)"
    and p: "isDataInducer (h p)" "\<not> isDataInducer (h' p)" and q: "isDataInducer (h' q)"
  shows "isPendingMemOrder (h' q)"
proof -
  let ?f = "safe_step c (instList r tid)"
  from run l obtain s where s: "foldM ?f (xs @ q # ys @ p # zs) (scan_init h) = Some s" and h': "h' = ss_heap s"
    by (auto simp: updateSafeStatus_def)
  then obtain s1 s2 s3 s4 where s1: "foldM ?f xs (scan_init h) = Some s1" and s2: "?f q s1 = Some s2"
    and s3: "foldM ?f ys s2 = Some s3" and s4: "?f p s3 = Some s4" and s5: "foldM ?f zs s4 = Some s"
    by (auto simp: foldM_append)
  note d = increasing_distinct[OF inc, unfolded l]
  have a3: "foldM ?f (xs @ q # ys) (scan_init h) = Some s3" using s1 s2 s3 by (simp add: foldM_append)
  have b: "foldM ?f (ys @ p # zs) s2 = Some s" using s3 s4 s5 by (simp add: foldM_append)
  have ip: "isDataInducer (ss_heap s3 p)" "\<not> isDataInducer (ss_heap s4 p)"
    using scan_spec(2)[OF a3, of p] scan_spec(2)[OF s5, of p] d p h' by (auto simp: dolma_view_def scan_init_def)
  have iq: "isDataInducer (ss_heap s2 q)"
    using scan_spec(2)[OF b, of q] d q h' by (auto simp: dolma_view_def)
  obtain i where i: "inducer_blocked c i s1" "seqNum i = seqNum (ss_heap s1 q)"
    "isPendingMemOrder i \<Longrightarrow> isPendingMemOrder (ss_heap s2 q)"
    using safe_step_inducer[OF s2] iq by metis
  obtain j where j: "\<not> inducer_blocked c j s3" "seqNum j = seqNum (ss_heap s3 p)"
    using safe_step_inducer[OF s4] ip by metis
  have "seqNum (ss_heap s1 q) = seqNum (h q)" "seqNum (ss_heap s3 p) = seqNum (h p)"
    using scan_spec(1)[OF s1, of q] scan_spec(1)[OF a3, of p] d by (auto simp: scan_init_def dest: fixed_viewD)
  with i(2) j(2) inc l have lt: "seqNum i < seqNum j" by auto
  have le: "scan_le s1 s3" using safe_step_le[OF s2] scan_fold_le[OF s3] scan_le_trans by blast
  have "isPendingMemOrder i"
    using i(1) j(1) le lt unfolding inducer_blocked_def scan_le_def by (metis less_imp_le order_trans)
  then have "isPendingMemOrder (ss_heap s2 q)" by (rule i(3))
  then show ?thesis
    using scan_fold_le[OF b] scan_spec(1)[OF b, of q] d h'
    by (auto simp: isPendingMemOrder_def scan_le_def dest: fixed_viewD)
qed

section \<open>The buffer as a state machine\<close>

text \<open>
  The state of the machine: the instruction heap, the buffer, the CPU's removal list and the
  events sent to the memory system. The operations the other stages apply to one instruction of
  the heap, with their assertions, are the constructors of \<open>inst_op\<close>.
\<close>

type_synonym rob_state = "inst_heap \<times> rob \<times> o3_remove \<times> mem_event list"

datatype inst_op =
    OpClearControlInducer | OpSetDataInducer | OpClearDataInducer | OpSetDataRestricted inst_seq_num
  | OpSetPendingBranch bool | OpSetPendingMemOrder | OpSetPendingMemOrderStore dyn_inst
  | OpRedirected | OpSetDolmaStalled | OpSetCanCommit | OpSetSquashed | OpSetSquashedInIQ

fun inst_op_step :: "dolma_cpu \<Rightarrow> inst_op \<Rightarrow> dyn_inst \<Rightarrow> dyn_inst option" where
  "inst_op_step c OpClearControlInducer i = Some (clearControlInducer i)"
| "inst_op_step c OpSetDataInducer i = setDataInducer c i"
| "inst_op_step c OpClearDataInducer i = Some (clearDataInducer i)"
| "inst_op_step c (OpSetDataRestricted y) i = map_option (\<lambda>j. j\<lparr>ydi := y\<rparr>) (setDataRestricted c i)"
| "inst_op_step c (OpSetPendingBranch b) i = setPendingBranch c b i"
| "inst_op_step c OpSetPendingMemOrder i = setPendingMemOrder c i"
| "inst_op_step c (OpSetPendingMemOrderStore st) i = setPendingMemOrder_store c st i"
| "inst_op_step c OpRedirected i =
     Some (clearPendingMemOrder (clearControlInducer (clearPendingBranch i)))"
| "inst_op_step c OpSetDolmaStalled i = setDolmaStalled c i"
| "inst_op_step c OpSetCanCommit i = setCanCommit i"
| "inst_op_step c OpSetSquashed i = Some (setSquashed i)"
| "inst_op_step c OpSetSquashedInIQ i = Some (setSquashedInIQ i)"

text \<open>
  Commit inserts only instructions that are new, not squashed and younger than those of their
  thread, and only while the thread is not being squashed (\<^verbatim>\<open>DefaultCommit::getInsts\<close>);
  it retires only from a thread that is not being squashed.
\<close>

definition insertable :: "iptr \<Rightarrow> inst_heap \<Rightarrow> rob \<Rightarrow> bool" where
  "insertable p h r \<longleftrightarrow>
     (let tid = threadNumber (h p) in
      tid < numThreads r \<and> \<not> isSquashed (h p) \<and> squashIt r tid = None \<and>
      (\<forall>t. p \<notin> set (instList r t)) \<and>
      ControlRestricted \<notin> status (h p) \<and> ControlInducer \<notin> status (h p) \<and>
      (\<forall>q \<in> set (instList r tid). seqNum (h q) < seqNum (h p)))"

inductive rob_step :: "dolma_cpu \<Rightarrow> (request \<Rightarrow> bool) \<Rightarrow> rob_state \<Rightarrow> rob_state \<Rightarrow> bool"
  for c port where
  step_insert: "insertable p h r \<Longrightarrow> insertInst c p (h, r) = Some (h', r') \<Longrightarrow>
     rob_step c port (h, r, cpu, tr) (h', r', cpu, tr)"
| step_safe: "updateSafeStatus c r tid h = Some h' \<Longrightarrow>
     rob_step c port (h, r, cpu, tr) (h', r, cpu, tr)"
| step_inst: "inst_op_step c op (h p) = Some i \<Longrightarrow>
     rob_step c port (h, r, cpu, tr) (h(p := i), r, cpu, tr)"
| step_squash: "squash sn tid (h, r) = Some (h', r') \<Longrightarrow>
     rob_step c port (h, r, cpu, tr) (h', r', cpu, tr)"
| step_doSquash: "doSquash tid (h, r) = Some (h', r') \<Longrightarrow>
     rob_step c port (h, r, cpu, tr) (h', r', cpu, tr)"
| step_retire: "squashIt r tid = None \<Longrightarrow> tid < numThreads r \<Longrightarrow>
     retireHead c port tid (h, r, cpu, tr) = Some (h', r', cpu', tr') \<Longrightarrow>
     rob_step c port (h, r, cpu, tr) (h', r', cpu', tr')"

definition rob_initial :: "rob_state \<Rightarrow> bool" where
  "rob_initial = (\<lambda>(h, r, cpu, tr).
     (\<forall>t. instList r t = [] \<and> threadEntries r t = 0 \<and> squashIt r t = None) \<and> numInstsInROB r = 0)"

inductive rob_reach :: "dolma_cpu \<Rightarrow> (request \<Rightarrow> bool) \<Rightarrow> rob_state \<Rightarrow> bool"
  for c port where
  reach_init: "rob_initial s \<Longrightarrow> rob_reach c port s"
| reach_step: "rob_reach c port s \<Longrightarrow> rob_step c port s s' \<Longrightarrow> rob_reach c port s'"

inductive_cases rob_stepE: "rob_step c port (h, r, cpu, tr) s'"

section \<open>Well-formed buffers\<close>

text \<open>
  Each thread's list is in program order and holds that thread's instructions, a squash iterator
  stands on the list, and the counters count.
\<close>

definition rob_lists :: "inst_heap \<Rightarrow> rob \<Rightarrow> bool" where
  "rob_lists h r \<longleftrightarrow>
     (\<forall>t. increasing (\<lambda>p. seqNum (h p)) (instList r t)) \<and>
     (\<forall>t. \<forall>p \<in> set (instList r t). threadNumber (h p) = t \<and> t < numThreads r) \<and>
     (\<forall>t p. squashIt r t = Some p \<longrightarrow> p \<in> set (instList r t))"

definition rob_counts :: "rob \<Rightarrow> bool" where
  "rob_counts r \<longleftrightarrow>
     (\<forall>t. threadEntries r t = of_nat (length (instList r t))) \<and>
     numInstsInROB r = (\<Sum>t<numThreads r. int (length (instList r t))) \<and>
     numInstsInROB r \<le> uint (numEntries r)"

definition rob_wf :: "inst_heap \<Rightarrow> rob \<Rightarrow> bool" where
  "rob_wf h r \<longleftrightarrow> rob_lists h r \<and> rob_counts r"

lemma rob_lists_distinct: "rob_lists h r \<Longrightarrow> distinct (instList r t)"
  by (auto simp: rob_lists_def intro: increasing_distinct)

lemma rob_lists_disjoint:
  "rob_lists h r \<Longrightarrow> p \<in> set (instList r t) \<Longrightarrow> p \<in> set (instList r t') \<Longrightarrow> t = t'"
  unfolding rob_lists_def by metis

lemma rob_lists_heap:
  assumes "rob_lists h r" and "\<And>q. seqNum (h' q) = seqNum (h q) \<and> threadNumber (h' q) = threadNumber (h q)"
  shows "rob_lists h' r"
  using assms by (simp add: rob_lists_def)

text \<open>
  The control half of DOLMA: an instruction with an older unresolved control inducer is
  restricted.
\<close>

definition control_inv :: "inst_heap \<Rightarrow> rob \<Rightarrow> bool" where
  "control_inv h r \<longleftrightarrow>
     (\<forall>t xs p ys. instList r t = xs @ p # ys \<longrightarrow> \<not> isSquashed (h p) \<longrightarrow>
        (\<exists>q \<in> set xs. isControlInducer (h q)) \<longrightarrow> isControlRestricted (h p))"

text \<open>A change of an instruction that can only make it less of an inducer and keeps its restriction.\<close>

definition control_le :: "dyn_inst \<Rightarrow> dyn_inst \<Rightarrow> bool" where
  "control_le i j \<longleftrightarrow>
     seqNum j = seqNum i \<and> threadNumber j = threadNumber i \<and>
     (isSquashed i \<longrightarrow> isSquashed j) \<and> (ControlInducer \<in> status j \<longrightarrow> ControlInducer \<in> status i) \<and>
     (ControlRestricted \<in> status i \<longrightarrow> ControlRestricted \<in> status j)"

lemma control_le_refl [simp]: "control_le i i"
  by (simp add: control_le_def)

lemma control_le_trans: "control_le i j \<Longrightarrow> control_le j k \<Longrightarrow> control_le i k"
  by (auto simp: control_le_def)

lemma control_inv_le:
  assumes "control_inv h r" and le: "\<And>q. control_le (h q) (h' q)"
  shows "control_inv h' r"
  unfolding control_inv_def
proof (intro allI impI)
  fix t xs p ys
  assume l: "instList r t = xs @ p # ys" and ns: "\<not> isSquashed (h' p)" and "\<exists>q \<in> set xs. isControlInducer (h' q)"
  then obtain q where q: "q \<in> set xs" "isControlInducer (h' q)" by blast
  from le[of p] ns have nsp: "\<not> isSquashed (h p)" by (auto simp: control_le_def)
  from le[of q] q(2) have "isControlInducer (h q)" by (auto simp: control_le_def isControlInducer_def)
  with assms(1) l nsp q(1) have "isControlRestricted (h p)" by (auto simp: control_inv_def)
  with le[of p] ns show "isControlRestricted (h' p)" by (auto simp: control_le_def isControlRestricted_def)
qed

lemma inst_op_control_le: "inst_op_step c op i = Some j \<Longrightarrow> control_le i j"
  by (cases op)
     (auto simp: control_le_def clearControlInducer_def clearDataInducer_def clearPendingBranch_def
      clearPendingMemOrder_def setDataInducer_def setDataRestricted_def setPendingBranch_def
      setPendingMemOrder_def setPendingMemOrder_store_def setDolmaStalled_def setCanCommit_def
      setSquashed_def setSquashedInIQ_def Let_def split: if_splits)

lemma marks_control_le: "control_le (h q) (marks S h q)"
  by (auto simp: marks_def control_le_def)

lemma control_inv_marks: "control_inv h r \<Longrightarrow> control_inv (marks S h) r"
  by (erule control_inv_le) (rule marks_control_le)

lemma updateSafeStatus_control_inv:
  assumes run: "updateSafeStatus c r tid h = Some h'" and wf: "rob_lists h r" and inv: "control_inv h r"
  shows "control_inv h' r"
  unfolding control_inv_def
proof (intro allI impI)
  fix t xs p ys
  assume l: "instList r t = xs @ p # ys" and ns: "\<not> isSquashed (h' p)" and "\<exists>q \<in> set xs. isControlInducer (h' q)"
  then obtain q where q: "q \<in> set xs" "isControlInducer (h' q)" by blast
  note d = rob_lists_distinct[OF wf] and fv = updateSafeStatus_view(1)[OF run rob_lists_distinct[OF wf]]
  from fv[of q] q(2) have q': "isControlInducer (h q)" by (auto dest: fixed_viewD)
  from fv[of p] ns have "\<not> isSquashed (h p)" by (auto dest: fixed_viewD)
  with inv l q(1) q' have p: "isControlRestricted (h p)" by (auto simp: control_inv_def)
  show "isControlRestricted (h' p)"
  proof (cases "t = tid")
    case True
    with updateSafeStatus_at(1)[OF run _ d] l p q(1) q' show ?thesis by blast
  next
    case False
    with rob_lists_disjoint[OF wf, of p t tid] l have "p \<notin> set (instList r tid)" by auto
    with updateSafeStatus_view(2)[OF run d] p show ?thesis by (simp add: dolma_view_def)
  qed
qed

lemma updateSafeStatus_lists:
  assumes "updateSafeStatus c r tid h = Some h'" and "rob_lists h r"
  shows "rob_lists h' r"
proof (rule rob_lists_heap[OF assms(2)])
  fix q
  show "seqNum (h' q) = seqNum (h q) \<and> threadNumber (h' q) = threadNumber (h q)"
    using updateSafeStatus_view(1)[OF assms(1) rob_lists_distinct[OF assms(2)], of q]
    by (auto dest: fixed_viewD)
qed

section \<open>Every step keeps the invariants\<close>

lemma doSquash_frame:
  assumes run: "doSquash tid (h, r) = Some (h', r')" and wf: "rob_lists h r"
  shows "(\<exists>S. h' = marks S h) \<and> squash_frame tid r r' \<and>
     (\<forall>q. squashIt r' tid = Some q \<longrightarrow> q \<in> set (instList r tid))"
proof -
  from run obtain p where it: "squashIt r tid = Some p"
    by (cases "squashIt r tid") (auto simp: doSquash_def)
  with wf have "p \<in> set (instList r tid)" by (auto simp: rob_lists_def)
  then obtain xs ys where l: "instList r tid = xs @ p # ys" by (meson split_list)
  define b where "b = squash_batch (unat (squashWidth r)) (squashedSeqNum r tid) h (p # rev xs)"
  from doSquash_spec[OF it l rob_lists_distinct[OF wf], of h] run
  have *: "h' = marks (set b) h" "squash_frame tid r r'"
    "if length b = Suc (length xs) \<or> seqNum (h ((p # rev xs) ! length b)) \<le> squashedSeqNum r tid
     then squashIt r' tid = None \<and> doneSquashing r' tid
     else squashIt r' tid = Some ((p # rev xs) ! length b) \<and> doneSquashing r' tid = doneSquashing r tid"
    unfolding b_def[symmetric] by auto
  have "length b \<le> Suc (length xs)"
    unfolding b_def squash_batch_def by (rule order_trans[OF take_takeWhile_prefix(1)]) simp
  then have "length b \<noteq> Suc (length xs) \<Longrightarrow> (p # rev xs) ! length b \<in> set (p # rev xs)"
    by (intro nth_mem) simp
  with * l show ?thesis by (auto split: if_splits)
qed

lemma squash_steps_lists:
  assumes "rob_lists h r" and "squash_frame tid r r'"
    and "\<forall>q. squashIt r' tid = Some q \<longrightarrow> q \<in> set (instList r tid)"
  shows "rob_lists (marks S h) r'"
  using assms unfolding rob_lists_def squash_frame_def by (simp, metis)

lemma squash_frame_counts: "rob_counts r \<Longrightarrow> squash_frame tid r r' \<Longrightarrow> rob_counts r'"
  by (simp add: rob_counts_def squash_frame_def)

lemma squash_frame_control: "control_inv h r \<Longrightarrow> squash_frame tid r r' \<Longrightarrow> control_inv h r'"
  by (simp add: control_inv_def squash_frame_def)

text \<open>A squash is a cycle from the tail, or nothing on an empty thread.\<close>

lemma squash_frame_start:
  assumes run: "squash sn tid (h, r) = Some (h', r')" and wf: "rob_wf h r"
  shows "(\<exists>S. h' = marks S h) \<and> squash_frame tid r r' \<and>
     (\<forall>q. squashIt r' tid = Some q \<longrightarrow> q \<in> set (instList r tid))"
proof (cases "isEmpty_tid r tid \<or> instList r tid = []")
  case True
  with run wf have "h' = h \<and> squash_frame tid r r' \<and> squashIt r' tid = squashIt r tid"
    by (auto simp: squash_def squash_frame_def Let_def split: if_splits)
  with wf show ?thesis by (auto simp: rob_wf_def rob_lists_def intro: exI[of _ "{}"])
next
  case False
  let ?r1 = "r\<lparr>robStatus := (robStatus r)(tid := ROBSquashing), doneSquashing := (doneSquashing r)(tid := False),
     squashedSeqNum := (squashedSeqNum r)(tid := sn), squashIt := (squashIt r)(tid := Some (last (instList r tid)))\<rparr>"
  from False run have d: "doSquash tid (h, ?r1) = Some (h', r')" by (auto simp: squash_def Let_def)
  from wf False have "rob_lists h ?r1" by (auto simp: rob_wf_def rob_lists_def)
  from doSquash_frame[OF d this] show ?thesis by (auto simp: squash_frame_def)
qed

text \<open>Insertion.\<close>

lemma mark_control_spec:
  assumes "mark_control c l p h = Some h'"
  shows "\<forall>q. q \<noteq> p \<longrightarrow> h' q = h q"
    and "seqNum (h' p) = seqNum (h p) \<and> threadNumber (h' p) = threadNumber (h p) \<and>
         (isSquashed (h' p) \<longleftrightarrow> isSquashed (h p))"
    and "isDolma c \<Longrightarrow> \<not> isDolmaMemOnly c \<Longrightarrow> \<not> isSquashed (h p) \<Longrightarrow>
         \<exists>q \<in> set l. isControlInducer (h q) \<Longrightarrow> isControlRestricted (h' p)"
  using assms
  by (auto simp: mark_control_def setControlRestricted_def setControlInducer_def isControlRestricted_def
      list_ex_iff split: if_splits)

lemma insertInst_spec:
  assumes "insertInst c p (h, r) = Some (h', r')"
  defines "tid \<equiv> threadNumber (h p)"
  shows "instList r' = (instList r)(tid := instList r tid @ [p])"
    and "threadEntries r' = (threadEntries r)(tid := threadEntries r tid + 1)"
    and "numInstsInROB r' = numInstsInROB r + 1" and "word_of_int (numInstsInROB r) \<noteq> numEntries r"
    and "squashIt r' = squashIt r \<and> numThreads r' = numThreads r \<and> numEntries r' = numEntries r"
    and "mark_control c (instList r tid @ [p]) p (h(p := set_status RobEntry (h p))) = Some h'"
  using assms by (auto simp: insertInst_def Let_def split: if_splits)

lemma sum_fun_upd:
  fixes N :: nat and f g :: "nat \<Rightarrow> int"
  assumes "k < N" and "\<And>t. t \<noteq> k \<Longrightarrow> g t = f t"
  shows "(\<Sum>t<N. g t) = (\<Sum>t<N. f t) + (g k - f k)"
proof -
  have "(\<Sum>t<N. g t) = (\<Sum>t<N. f t + (if t = k then g k - f k else 0))"
    using assms(2) by (intro sum.cong) auto
  also have "\<dots> = (\<Sum>t<N. f t) + (\<Sum>t<N. (if t = k then g k - f k else 0))"
    by (rule sum.distrib)
  finally show ?thesis using assms(1) by (simp add: sum.delta)
qed

lemma insertInst_wf:
  assumes run: "insertInst c p (h, r) = Some (h', r')" and ok: "insertable p h r" and wf: "rob_wf h r"
  shows "rob_wf h' r'"
proof -
  define tid where "tid = threadNumber (h p)"
  note i = insertInst_spec[OF run, folded tid_def] and m = mark_control_spec[OF insertInst_spec(6)[OF run]]
  from ok have o: "tid < numThreads r" "squashIt r tid = None" "\<And>t. p \<notin> set (instList r t)"
    "\<And>q. q \<in> set (instList r tid) \<Longrightarrow> seqNum (h q) < seqNum (h p)"
    by (auto simp: insertable_def tid_def Let_def)
  have same: "seqNum (h' q) = seqNum (h q)" "threadNumber (h' q) = threadNumber (h q)" for q
    using m(1,2) by (cases "q = p"; auto)+
  have "rob_lists h' r'"
    using wf o i(1,5) same unfolding rob_wf_def rob_lists_def tid_def by auto
  moreover have "rob_counts r'"
  proof -
    from wf have c: "rob_counts r" by (simp add: rob_wf_def)
    have "(\<Sum>t<numThreads r. int (length (instList r' t))) = (\<Sum>t<numThreads r. int (length (instList r t))) + 1"
      by (subst sum_fun_upd[OF o(1), of _ "\<lambda>t. int (length (instList r t))"]) (auto simp: i(1))
    moreover have "numInstsInROB r \<noteq> uint (numEntries r)" using i(4) by auto
    ultimately show ?thesis using c i by (auto simp: rob_counts_def)
  qed
  ultimately show ?thesis by (simp add: rob_wf_def)
qed

lemma insertInst_control:
  assumes run: "insertInst c p (h, r) = Some (h', r')" and ok: "insertable p h r" and wf: "rob_wf h r"
    and inv: "control_inv h r" and c: "isDolma c" "\<not> isDolmaMemOnly c"
  shows "control_inv h' r'"
  unfolding control_inv_def
proof (intro allI impI)
  fix t xs z ys
  assume l: "instList r' t = xs @ z # ys" and ns: "\<not> isSquashed (h' z)" and "\<exists>q \<in> set xs. isControlInducer (h' q)"
  then obtain q where q: "q \<in> set xs" "isControlInducer (h' q)" by blast
  note i = insertInst_spec[OF run] and m = mark_control_spec[OF insertInst_spec(6)[OF run]]
  from ok have fresh: "\<And>t. p \<notin> set (instList r t)" and nsp: "\<not> isSquashed (h p)"
    by (auto simp: insertable_def Let_def)
  show "isControlRestricted (h' z)"
  proof (cases "z = p")
    case False
    have l': "\<exists>ys'. instList r t = xs @ z # ys'"
    proof (cases "t = threadNumber (h p)")
      case True
      with l i(1) have e: "instList r t @ [p] = xs @ z # ys" by simp
      with False obtain ys' where "ys = ys' @ [p]" by (cases ys rule: rev_cases) auto
      with e show ?thesis by simp
    next
      case False
      with l i(1) show ?thesis by simp
    qed
    with q(1) have "q \<noteq> p" using fresh[of t] by auto
    with q(2) m(1) have "isControlInducer (h q)" by simp
    with inv l' q(1) ns m(1) False show ?thesis by (fastforce simp: control_inv_def)
  next
    case True
    have t: "t = threadNumber (h p)" using l i(1) fresh[of t] True by (cases "t = threadNumber (h p)") auto
    have e: "instList r t @ [p] = xs @ p # ys" using l i(1) t True by simp
    then have ys: "ys = []" using fresh[of t]
      by (cases ys rule: rev_cases) auto
    then have q': "q \<in> set (instList r t)" "q \<noteq> p" using e q(1) fresh[of t] by auto
    with q(2) m(1) have "isControlInducer (h q)" by simp
    then have "\<exists>z \<in> set (instList r t @ [p]). isControlInducer ((h(p := set_status RobEntry (h p))) z)"
      using q' by auto
    with m(3)[OF c] nsp t True show ?thesis by simp
  qed
qed

text \<open>Retirement.\<close>

lemma updateHead_simps [simp]:
  "instList (updateHead h r) = instList r" "threadEntries (updateHead h r) = threadEntries r"
  "numInstsInROB (updateHead h r) = numInstsInROB r" "squashIt (updateHead h r) = squashIt r"
  "numThreads (updateHead h r) = numThreads r" "numEntries (updateHead h r) = numEntries r"
  by (simp_all add: updateHead_def)

lemma retireHead_spec:
  assumes "retireHead c port tid (h, r, cpu, tr) = Some (h', r', cpu', tr')"
  obtains p l i1 h1 h2 i2 where "instList r tid = p # l"
    and "i1 = h p \<or> updateMetadataIfNeeded port (h p, tr) = Some (i1, tr')" and "h1 = h(p := i1)"
    and "h2 = h1 \<or> updateSafeStatus c r tid (h1(p := clearDataInducer i1)) = Some h2"
    and "clearInROB (h2 p) = Some i2" and "h' = h2(p := set_status Committed i2)"
    and "instList r' = (instList r)(tid := l)"
    and "threadEntries r' = (threadEntries r)(tid := threadEntries r tid - 1)"
    and "numInstsInROB r' = numInstsInROB r - 1"
    and "squashIt r' = squashIt r \<and> numThreads r' = numThreads r \<and> numEntries r' = numEntries r"
proof -
  have "instList r tid \<noteq> []"
    using assms by (auto simp: retireHead_def split: if_splits)
  then obtain p l where l: "instList r tid = p # l" by (meson neq_Nil_conv)
  obtain i1 h2 i2 where
    m: "(if isPendingMetadata (h p) then updateMetadataIfNeeded port (h p, tr) else Some (h p, tr)) = Some (i1, tr')"
    and u: "(if isDataInducer i1 then do { check (isDolmaConservative c);
          updateSafeStatus c r tid (h(p := i1, p := clearDataInducer i1)) } else Some (h(p := i1))) = Some h2"
    and i2: "clearInROB (h2 p) = Some i2" and h': "h' = h2(p := set_status Committed i2)"
    and r': "r' = updateHead h' (r\<lparr>numInstsInROB := numInstsInROB r - 1,
        threadEntries := (threadEntries r)(tid := threadEntries r tid - 1), instList := (instList r)(tid := l)\<rparr>)"
  proof -
    have g: "(0 < numInstsInROB r) = True" "readyToCommit (h p) = True"
      using assms by (auto simp: retireHead_def l Let_def split: if_splits)
    from assms have A: "((if isPendingMetadata (h p) then updateMetadataIfNeeded port (h p, tr) else Some (h p, tr)) \<bind>
      (\<lambda>(i1, tr1). (if isDataInducer i1 then do { check (isDolmaConservative c);
          updateSafeStatus c r tid (h(p := i1, p := clearDataInducer i1)) } else Some (h(p := i1))) \<bind>
      (\<lambda>h2. clearInROB (h2 p) \<bind> (\<lambda>i2. Some (h2(p := set_status Committed i2),
         updateHead (h2(p := set_status Committed i2)) (r\<lparr>numInstsInROB := numInstsInROB r - 1,
           threadEntries := (threadEntries r)(tid := threadEntries r tid - 1), instList := (instList r)(tid := l)\<rparr>),
         removeFrontInst p cpu, tr1))))) = Some (h', r', cpu', tr')"
      unfolding retireHead_def prod.case Let_def l list.sel bind_check rob.simps fun_upd_same
      by (simp only: g if_True simp_thms list.distinct)
    then obtain x where x: "(if isPendingMetadata (h p) then updateMetadataIfNeeded port (h p, tr) else Some (h p, tr)) = Some x"
      by (rule bind_eq_SomeE)
    obtain i1 tr1 where i1: "x = (i1, tr1)" by (cases x)
    note B = A[unfolded x i1 bind.bind_lunit prod.case]
    then obtain h2 where u: "(if isDataInducer i1 then do { check (isDolmaConservative c);
          updateSafeStatus c r tid (h(p := i1, p := clearDataInducer i1)) } else Some (h(p := i1))) = Some h2"
      by (rule bind_eq_SomeE)
    note C = B[unfolded u bind.bind_lunit]
    then obtain i2 where i2: "clearInROB (h2 p) = Some i2" by (rule bind_eq_SomeE)
    have tr: "tr1 = tr'" using C i2 by auto
    show ?thesis using C i2 by (intro that[OF x[unfolded i1 tr] u i2]) auto
  qed
  show ?thesis
  proof (rule that[of p l i1 "h(p := i1)" h2 i2])
    show "i1 = h p \<or> updateMetadataIfNeeded port (h p, tr) = Some (i1, tr')"
      using m by (auto split: if_splits)
    show "h2 = h(p := i1) \<or> updateSafeStatus c r tid (h(p := i1, p := clearDataInducer i1)) = Some h2"
      using u by (auto split: if_splits)
  qed (use l i2 h' r' in auto)
qed

lemma clearInROB_le: "clearInROB i = Some j \<Longrightarrow> control_le i (set_status Committed j)"
  by (auto simp: clearInROB_def control_le_def split: if_splits)

lemma rob_lists_tl:
  assumes wf: "rob_lists h r" and l: "instList r tid = p # l" "instList r' = (instList r)(tid := l)"
    and f: "squashIt r' = squashIt r \<and> numThreads r' = numThreads r \<and> numEntries r' = numEntries r"
    and idle: "squashIt r tid = None"
  shows "rob_lists h r'"
  unfolding rob_lists_def
proof (intro conjI allI ballI impI)
  fix t
  have "increasing (\<lambda>p. seqNum (h p)) (instList r t)" using wf by (simp add: rob_lists_def)
  then show "increasing (\<lambda>p. seqNum (h p)) (instList r' t)" using l by (cases "t = tid") auto
next
  fix t q assume "q \<in> set (instList r' t)"
  then have "q \<in> set (instList r t)" using l by (cases "t = tid") auto
  with wf f show "threadNumber (h q) = t" "t < numThreads r'" by (auto simp: rob_lists_def)
next
  fix t q assume q: "squashIt r' t = Some q"
  with f idle have "t \<noteq> tid" by auto
  with q wf f l show "q \<in> set (instList r' t)" by (auto simp: rob_lists_def)
qed

lemma retireHead_lists_control:
  assumes run: "retireHead c port tid (h, r, cpu, tr) = Some (h', r', cpu', tr')"
    and wf: "rob_lists h r" and idle: "squashIt r tid = None"
  shows "rob_lists h' r'" and "control_inv h r \<Longrightarrow> control_inv h' r'"
proof -
  obtain p l i1 h1 h2 i2 where R: "instList r tid = p # l"
    "i1 = h p \<or> updateMetadataIfNeeded port (h p, tr) = Some (i1, tr')" "h1 = h(p := i1)"
    "h2 = h1 \<or> updateSafeStatus c r tid (h1(p := clearDataInducer i1)) = Some h2"
    "clearInROB (h2 p) = Some i2" "h' = h2(p := set_status Committed i2)"
    "instList r' = (instList r)(tid := l)"
    "squashIt r' = squashIt r \<and> numThreads r' = numThreads r \<and> numEntries r' = numEntries r"
    using retireHead_spec[OF run] by metis
  have le1: "control_le (h q) (h1 q)" "control_le (h q) ((h1(p := clearDataInducer i1)) q)" for q
    using R(2,3) updateMetadata_frame[of port "h p" tr i1 tr']
    by (auto simp: control_le_def clearDataInducer_def)
  have l1: "rob_lists h1 r" "rob_lists (h1(p := clearDataInducer i1)) r"
    using le1 by (auto intro!: rob_lists_heap[OF wf] simp: control_le_def)
  have l2: "rob_lists h2 r" using R(4) l1 updateSafeStatus_lists by blast
  have le3: "control_le (h2 q) (h' q)" for q
    using clearInROB_le[OF R(5)] R(6) by simp
  have l3: "rob_lists h' r" using le3 by (auto intro!: rob_lists_heap[OF l2] simp: control_le_def)
  show "rob_lists h' r'" by (rule rob_lists_tl[OF l3 R(1,7,8) idle])
  assume inv: "control_inv h r"
  have "control_inv h1 r" "control_inv (h1(p := clearDataInducer i1)) r"
    using control_inv_le[OF inv] le1 by blast+
  then have "control_inv h2 r"
    using R(4) updateSafeStatus_control_inv l1(2) by blast
  then have i3: "control_inv h' r" using le3 by (rule control_inv_le)
  show "control_inv h' r'" unfolding control_inv_def
  proof (intro allI impI)
    fix t xs z ys
    assume "instList r' t = xs @ z # ys" "\<not> isSquashed (h' z)" "\<exists>q \<in> set xs. isControlInducer (h' q)"
    moreover from this(1) R(1,7) have "instList r t = xs @ z # ys \<or> instList r t = (p # xs) @ z # ys"
      by (auto split: if_splits)
    ultimately show "isControlRestricted (h' z)"
      using i3 unfolding control_inv_def by (metis list.set_intros(2))
  qed
qed

lemma retireHead_counts:
  assumes run: "retireHead c port tid (h, r, cpu, tr) = Some (h', r', cpu', tr')"
    and c: "rob_counts r" and t: "tid < numThreads r"
  shows "rob_counts r'"
proof -
  obtain p l where R: "instList r tid = p # l" "instList r' = (instList r)(tid := l)"
    "threadEntries r' = (threadEntries r)(tid := threadEntries r tid - 1)"
    "numInstsInROB r' = numInstsInROB r - 1" "numThreads r' = numThreads r" "numEntries r' = numEntries r"
    using retireHead_spec[OF run] by metis
  have "(\<Sum>k<numThreads r. int (length (instList r' k))) = (\<Sum>k<numThreads r. int (length (instList r k))) - 1"
    by (subst sum_fun_upd[OF t, of _ "\<lambda>k. int (length (instList r k))"]) (auto simp: R)
  with c R show ?thesis by (auto simp: rob_counts_def)
qed

section \<open>Invariants of the reachable states\<close>

lemma rob_step_wf:
  assumes "rob_step c port (h, r, cpu, tr) (h', r', cpu', tr')" and wf: "rob_wf h r"
  shows "rob_wf h' r'"
  using assms(1)
proof (cases rule: rob_step.cases)
  case (step_insert p)
  then show ?thesis using insertInst_wf wf by blast
next
  case (step_safe tid)
  then show ?thesis using wf updateSafeStatus_lists by (auto simp: rob_wf_def)
next
  case (step_inst op p i)
  then show ?thesis using wf inst_op_control_le[of c op "h p" i]
    by (auto simp: rob_wf_def control_le_def intro!: rob_lists_heap[of h r])
next
  case (step_squash sn tid)
  then show ?thesis using squash_frame_start[of sn tid h r h' r'] wf
    by (auto simp: rob_wf_def intro: squash_steps_lists squash_frame_counts)
next
  case (step_doSquash tid)
  then show ?thesis using doSquash_frame[of tid h r h' r'] wf
    by (auto simp: rob_wf_def intro: squash_steps_lists squash_frame_counts)
next
  case (step_retire tid)
  then show ?thesis using wf retireHead_lists_control(1) retireHead_counts by (auto simp: rob_wf_def)
qed

lemma rob_step_control:
  assumes "rob_step c port (h, r, cpu, tr) (h', r', cpu', tr')" and wf: "rob_wf h r"
    and inv: "control_inv h r" and c: "isDolma c" "\<not> isDolmaMemOnly c"
  shows "control_inv h' r'"
  using assms(1)
proof (cases rule: rob_step.cases)
  case (step_insert p)
  then show ?thesis using insertInst_control[OF _ _ wf inv c] by blast
next
  case (step_safe tid)
  then show ?thesis using wf inv updateSafeStatus_control_inv by (auto simp: rob_wf_def)
next
  case (step_inst op p i)
  then show ?thesis using inst_op_control_le[of c op "h p" i]
    by (auto intro!: control_inv_le[OF inv])
next
  case (step_squash sn tid)
  then show ?thesis using squash_frame_start[of sn tid h r h' r'] wf control_inv_marks[OF inv]
    by (auto intro: squash_frame_control)
next
  case (step_doSquash tid)
  then show ?thesis using doSquash_frame[of tid h r h' r'] wf control_inv_marks[OF inv]
    by (auto simp: rob_wf_def intro: squash_frame_control)
next
  case (step_retire tid)
  then show ?thesis using wf inv retireHead_lists_control(2) by (auto simp: rob_wf_def)
qed

lemma rob_reach_wf: "rob_reach c port (h, r, cpu, tr) \<Longrightarrow> rob_wf h r"
proof (induction "(h, r, cpu, tr)" arbitrary: h r cpu tr rule: rob_reach.induct)
  case reach_init
  then show ?case by (simp add: rob_initial_def rob_wf_def rob_lists_def rob_counts_def)
next
  case (reach_step s)
  then show ?case by (cases s) (auto intro: rob_step_wf)
qed

lemma rob_reach_control:
  assumes "rob_reach c port (h, r, cpu, tr)" and "isDolma c" and "\<not> isDolmaMemOnly c"
  shows "control_inv h r"
  using assms(1)
proof (induction "(h, r, cpu, tr)" arbitrary: h r cpu tr rule: rob_reach.induct)
  case reach_init
  then show ?case by (simp add: rob_initial_def control_inv_def)
next
  case (reach_step s)
  obtain h0 r0 cpu0 tr0 where s: "s = (h0, r0, cpu0, tr0)" by (cases s)
  note st = reach_step(1-3)[unfolded s]
  show ?case
    by (rule rob_step_control[OF st(3) rob_reach_wf[OF st(1)] _ assms(2,3)]) (simp add: st(2))
qed

end
