(* ===== verification/O3_Examples.thy ===== *)
theory O3_Examples
  imports Rob
begin

text \<open>
  Concrete instructions and a concrete configuration, on which the properties of the components
  are instantiated.
\<close>

definition ex_si :: "static_flag set \<Rightarrow> static_inst" where
  "ex_si fs = \<lparr>si_flags = fs, si_opClass = IntAlu, si_numSrcRegs = 0, si_numDestRegs = 0,
     si_srcRegIdx = [], si_destRegIdx = [], si_disassemble = (\<lambda>_. ''NOP'')\<rparr>"

definition ex_pc :: pc_state where
  "ex_pc = \<lparr>pc_pc = 0, pc_npc = 1, pc_upc = 0, pc_nupc = 1\<rparr>"

definition ex_req :: request where
  "ex_req = \<lparr>req_vaddr = 0, req_size = 8, req_flags = 0, req_paddr = None, req_metadataUpdate = False\<rparr>"

definition ex_inst :: "inst_seq_num \<Rightarrow> static_flag set \<Rightarrow> status_bit set \<Rightarrow> dyn_inst" where
  "ex_inst sn fs st = \<lparr>seqNum = sn, violatorSeqNum = 0, ydi = 0, staticInst = ex_si fs, fault = NoFault,
     pcState = ex_pc, instFlags = {}, status = st, readySrcRegIdx = {}, collider_PC = 0,
     colliderSeqNum = 0, violator = None, violator_PC = 0, threadNumber = 0, predPC = ex_pc,
     readyRegs = 0, effAddr = 0, physEffAddrLow = 0, physEffAddrHigh = 0, memReqFlags = 0,
     effSize = 0, lqIdx = -1, sqIdx = -1, savedReq = None, savedSreqLow = None,
     savedSreqHigh = None, dolmaVirtualReq = None, dolmaVirtualSreqLow = None,
     dolmaVirtualSreqHigh = None, dolmaPhysicalReq = None, dolmaPhysicalSreqLow = None,
     dolmaPhysicalSreqHigh = None, validationData = False,
     flatDestRegIdx = (\<lambda>_. \<lparr>regClass = IntRegClass, regIdx = 0, elemIdx = 0\<rparr>),
     destRegIdx = (\<lambda>_. \<lparr>regClass = IntRegClass, regIdx = 0, elemIdx = 0, flatIdx = 0\<rparr>),
     srcRegIdx = (\<lambda>_. \<lparr>regClass = IntRegClass, regIdx = 0, elemIdx = 0, flatIdx = 0\<rparr>),
     prevDestRegIdx = (\<lambda>_. \<lparr>regClass = IntRegClass, regIdx = 0, elemIdx = 0, flatIdx = 0\<rparr>),
     branchTaken = False\<rparr>"

definition ex_cpu :: dolma_cpu where
  "ex_cpu = \<lparr>isDolma = True, isDolmaConservative = False, isDolmaMemOnly = False, isSTT = False\<rparr>"

lemma ex_cpu_modes [simp]: "isDolma ex_cpu" "\<not> isDolmaMemOnly ex_cpu" "\<not> isDolmaConservative ex_cpu" "\<not> isSTT ex_cpu"
  by (simp_all add: ex_cpu_def)

definition ex_rob :: rob where
  "ex_rob = \<lparr>robStatus = (\<lambda>_. RobRunning), robPolicy = Dynamic, activeThreads = [0], numEntries = 8,
     threadEntries = (\<lambda>_. 0), maxEntries = (\<lambda>_. 8), instList = (\<lambda>_. []), squashWidth = 1,
     rob_tail = None, rob_head = None, squashIt = (\<lambda>_. None), numInstsInROB = 0,
     squashedSeqNum = (\<lambda>_. 0), doneSquashing = (\<lambda>_. True), numThreads = 1\<rparr>"

end
