(* ===== verification/Rob_Props.thy ===== *)
theory Rob_Props
  imports Rob_Safety O3_Examples
begin

text \<open>
  The properties of the reorder buffer and of the DOLMA state it keeps, with a small concrete
  machine on which their hypotheses hold: one thread, a conditional branch and two loads behind
  it.
\<close>

section \<open>A concrete machine\<close>

definition ex_remove :: o3_remove where
  "ex_remove = \<lparr>removeInstsThisCycle = False, removeList = []\<rparr>"

definition ex_heap :: inst_heap where
  "ex_heap p = (if p = 1 then ex_inst 1 {IsControl, IsCondControl, IsDirectControl} {}
                else ex_inst (of_nat p) {IsMemRef, IsLoad} {})"

text \<open>The machine after inserting instructions 1 and 2.\<close>

definition ex_heap1 :: inst_heap where
  "ex_heap1 = ex_heap(1 := set_status ControlInducer (set_status RobEntry (ex_heap 1)))"

definition ex_rob1 :: rob where
  "ex_rob1 = ex_rob\<lparr>instList := (\<lambda>_. [])(0 := [1]), rob_head := Some 1, rob_tail := Some 1,
     numInstsInROB := 1, threadEntries := (\<lambda>_. 0)(0 := 1)\<rparr>"

definition ex_heap2 :: inst_heap where
  "ex_heap2 = ex_heap1(2 := set_status ControlRestricted (set_status RobEntry (ex_heap 2)))"

definition ex_rob2 :: rob where
  "ex_rob2 = ex_rob1\<lparr>instList := (\<lambda>_. [])(0 := [1, 2]), rob_tail := Some 2,
     numInstsInROB := 2, threadEntries := (\<lambda>_. 0)(0 := 2)\<rparr>"

lemmas ex_defs = ex_si_def ex_pc_def ex_inst_def ex_rob_def ex_cpu_def ex_heap_def

lemma ex_insert1: "insertInst ex_cpu 1 (ex_heap, ex_rob) = Some (ex_heap1, ex_rob1)"
  by (simp add: insertInst_def ex_defs mark_control_def induces_control_def hasCtrlInfo_def
      setControlInducer_def isControlInducer_def ex_heap1_def ex_rob1_def set_status_def)

lemma ex_insert2: "insertInst ex_cpu 2 (ex_heap1, ex_rob1) = Some (ex_heap2, ex_rob2)"
  by (simp add: insertInst_def ex_defs mark_control_def setControlRestricted_def isControlInducer_def
      isControlRestricted_def ex_heap1_def ex_rob1_def ex_heap2_def ex_rob2_def set_status_def)

lemma ex_reach2: "rob_reach ex_cpu port (ex_heap2, ex_rob2, ex_remove, [])"
proof -
  have "rob_reach ex_cpu port (ex_heap, ex_rob, ex_remove, [])"
    by (rule reach_init) (simp add: rob_initial_def ex_rob_def)
  moreover have "insertable 1 ex_heap ex_rob"
    by (simp add: insertable_def ex_defs Let_def)
  ultimately have "rob_reach ex_cpu port (ex_heap1, ex_rob1, ex_remove, [])"
    using ex_insert1 by (meson reach_step step_insert)
  moreover have "insertable 2 ex_heap1 ex_rob1"
    by (simp add: insertable_def ex_defs Let_def ex_heap1_def ex_rob1_def)
  ultimately show ?thesis
    using ex_insert2 by (meson reach_step step_insert)
qed

lemma ex_views [simp]:
  "isControlInducer (ex_heap2 (Suc 0))" "\<not> isSquashed (ex_heap2 2)" "isControlRestricted (ex_heap2 2)"
  "\<not> isSquashed (ex_heap2 (Suc 0))"
  by (simp_all add: ex_heap2_def ex_heap1_def ex_defs isControlInducer_def isControlRestricted_def)

lemma ex_list2 [simp]: "instList ex_rob2 0 = [Suc 0, 2]"
  by (simp add: ex_rob2_def)

section \<open>Speculation is restricted\<close>

text \<open>
  C1: in the modes that restrict under control speculation, in every reachable state of the
  buffer, an instruction that is not squashed and has an older unresolved control inducer in its
  thread is control restricted, hence restricted.
\<close>

theorem control_speculation_restricted:
  assumes "rob_reach c port (h, r, cpu, tr)" and "isDolma c" and "\<not> isDolmaMemOnly c"
    and "instList r tid = xs @ p # ys" and "q \<in> set xs" and "isControlInducer (h q)"
    and "\<not> isSquashed (h p)"
  shows "isControlRestricted (h p) \<and> isDolmaRestricted (h p)"
proof -
  have "isControlRestricted (h p)"
    using rob_reach_control[OF assms(1-3)] assms(4-7) unfolding control_inv_def by blast
  with assms(7) show ?thesis by (simp add: isDolmaRestricted_def)
qed

theorem control_speculation_restricted_witness:
  "rob_reach ex_cpu (\<lambda>_. False) (ex_heap2, ex_rob2, ex_remove, []) \<and>
   isControlInducer (ex_heap2 1) \<and> isDolmaRestricted (ex_heap2 2)"
  using control_speculation_restricted[OF ex_reach2, of 0 "[1]" 2 "[]" 1] ex_reach2 by simp

text \<open>
  C2: a scan by \<^verbatim>\<open>updateSafeStatus\<close> removes exactly the restrictions whose cause
  is gone. The control restriction stays iff an older instruction of the thread is an unresolved
  control inducer; the data restriction stays iff the youngest data inducer recorded in the
  instruction is an older instruction that is still a data inducer after the scan; nothing else
  of the speculation state changes.
\<close>

theorem updateSafeStatus_exact:
  assumes "updateSafeStatus c r tid h = Some h'" and "instList r tid = xs @ p # ys"
    and "distinct (instList r tid)"
  shows "(isControlRestricted (h' p) \<longleftrightarrow>
            isControlRestricted (h p) \<and> (\<exists>q \<in> set xs. isControlInducer (h q))) \<and>
         (isDataRestricted (h' p) \<longleftrightarrow>
            isDataRestricted (h p) \<and> (\<exists>q \<in> set xs. seqNum (h q) = ydi (h p) \<and> isDataInducer (h' q))) \<and>
         (isDataInducer (h' p) \<longrightarrow> isDataInducer (h p)) \<and>
         isControlInducer (h' p) = isControlInducer (h p) \<and> isSquashed (h' p) = isSquashed (h p)"
  using updateSafeStatus_at[OF assms] updateSafeStatus_view(1)[OF assms(1,3), of p]
  by (auto dest: fixed_viewD)

text \<open>The scan of the concrete machine after its branch has resolved releases the load.\<close>

definition ex_heap3 :: inst_heap where
  "ex_heap3 = ex_heap2(1 := clearControlInducer (ex_heap2 1))"

definition ex_heap4 :: inst_heap where
  "ex_heap4 = ex_heap3(2 := clearControlRestricted (ex_heap3 2))"

lemmas safe_scan_defs = updateSafeStatus_def safe_step_def scan_restricted_def scan_inducer_def
  scan_branch_def scan_store_def scan_init_def on_release_def clear_restrictions_def

lemma ex_scan: "updateSafeStatus ex_cpu ex_rob2 0 ex_heap3 = Some ex_heap4"
  by (simp add: safe_scan_defs Let_def ex_heap3_def ex_heap2_def ex_heap1_def ex_heap4_def ex_defs
      dolma_query_defs clearControlInducer_def clearControlRestricted_def set_status_def reset_status_def)

theorem updateSafeStatus_exact_witness:
  "updateSafeStatus ex_cpu ex_rob2 0 ex_heap3 = Some ex_heap4 \<and>
   isControlRestricted (ex_heap3 2) \<and> \<not> isControlRestricted (ex_heap4 2)"
proof -
  have "isControlRestricted (ex_heap3 2)"
    by (simp add: ex_heap3_def)
  moreover have "\<not> isControlInducer (ex_heap3 1)"
    by (simp add: ex_heap3_def isControlInducer_def clearControlInducer_def)
  moreover note updateSafeStatus_exact[OF ex_scan, of "[1]" 2 "[]"]
  ultimately show ?thesis using ex_scan by simp
qed

text \<open>
  C3: on a CPU that defends itself and is not in a memory-only mode, in every reachable state, right after a scan, an
  instruction that is not squashed is control restricted if and only if an older control inducer of its thread is
  unresolved: the buffer neither misses a speculative instruction nor keeps one restricted too long. The memory-only
  modes never restrict for control.
\<close>

theorem control_restriction_precise:
  assumes "rob_reach c port (h, r, cpu, tr)" and "isDolma c" and "\<not> isDolmaMemOnly c"
    and "updateSafeStatus c r tid h = Some h'"
    and "instList r tid = xs @ p # ys" and "\<not> isSquashed (h p)"
  shows "isControlRestricted (h' p) \<longleftrightarrow> (\<exists>q \<in> set xs. isControlInducer (h' q))"
proof -
  have wf: "rob_lists h r" using rob_reach_wf[OF assms(1)] by (simp add: rob_wf_def)
  note d = rob_lists_distinct[OF wf, of tid]
  have ci: "isControlInducer (h' q) = isControlInducer (h q)" for q
    using updateSafeStatus_view(1)[OF assms(4) d, of q] by (auto dest: fixed_viewD)
  have "(\<exists>q \<in> set xs. isControlInducer (h q)) \<Longrightarrow> isControlRestricted (h p)"
    using rob_reach_control[OF assms(1-3)] assms(5,6) unfolding control_inv_def by blast
  with updateSafeStatus_at(1)[OF assms(4,5) d] ci show ?thesis by auto
qed

lemma ex_reach3: "rob_reach ex_cpu port (ex_heap3, ex_rob2, ex_remove, [])"
  unfolding ex_heap3_def
  by (rule reach_step[OF ex_reach2], rule step_inst[where op = OpClearControlInducer]) simp

theorem control_restriction_precise_witness:
  "rob_reach ex_cpu (\<lambda>_. False) (ex_heap3, ex_rob2, ex_remove, []) \<and>
   updateSafeStatus ex_cpu ex_rob2 0 ex_heap3 = Some ex_heap4 \<and> \<not> isControlRestricted (ex_heap4 2)"
proof -
  have "\<not> isSquashed (ex_heap3 2)" "\<not> isControlInducer (ex_heap4 1)"
    by (simp_all add: ex_heap4_def ex_heap3_def isControlInducer_def clearControlInducer_def)
  with control_restriction_precise[OF ex_reach3 _ _ ex_scan, of "[1]" 2 "[]"] ex_scan ex_reach3
  show ?thesis by simp
qed

section \<open>Data inducers resolve oldest first\<close>

text \<open>
  C4: if a scan resolves a data inducer while an older data inducer of the thread stays
  unresolved, then the older one has a pending memory order redirect, so the younger one is about
  to be squashed with it. Remembering only the youngest data inducer loses nothing otherwise.
\<close>

theorem data_inducers_resolve_in_order:
  assumes "updateSafeStatus c r tid h = Some h'" and "instList r tid = xs @ q # ys @ p # zs"
    and "increasing (\<lambda>z. seqNum (h z)) (instList r tid)"
    and "isDataInducer (h p)" and "\<not> isDataInducer (h' p)" and "isDataInducer (h' q)"
  shows "isPendingMemOrder (h' q)"
  by (rule updateSafeStatus_in_order[OF assms])

text \<open>Two loads that induce, the older one with a pending redirect, under STT.\<close>

definition ex_stt :: dolma_cpu where
  "ex_stt = \<lparr>isDolma = True, isDolmaConservative = False, isDolmaMemOnly = True, isSTT = True\<rparr>"

definition ex_loads :: inst_heap where
  "ex_loads p = (if p = 1 then ex_inst 1 {IsMemRef, IsLoad} {RobEntry, DataInducer, PendingMemOrder}
                 else ex_inst 2 {IsMemRef, IsLoad} {RobEntry, DataInducer})"

lemma ex_loads_scan:
  "updateSafeStatus ex_stt ex_rob2 0 ex_loads = Some (ex_loads(2 := clearDataInducer (ex_loads 2)))"
  by (simp add: safe_scan_defs Let_def ex_loads_def ex_stt_def ex_inst_def ex_si_def
      dolma_query_defs inducer_blocked_def clearDataInducer_def reset_status_def)

theorem data_inducers_resolve_in_order_witness:
  "updateSafeStatus ex_stt ex_rob2 0 ex_loads = Some (ex_loads(2 := clearDataInducer (ex_loads 2))) \<and>
   isPendingMemOrder (ex_loads 1)"
proof -
  have "increasing (\<lambda>z. seqNum (ex_loads z)) (instList ex_rob2 0)"
    by (simp add: ex_loads_def ex_inst_def)
  moreover have "isDataInducer (ex_loads 2)" "isDataInducer (ex_loads 1)"
    "\<not> isDataInducer (clearDataInducer (ex_loads 2))"
    by (simp_all add: ex_loads_def ex_inst_def isDataInducer_def clearDataInducer_def)
  moreover note data_inducers_resolve_in_order[OF ex_loads_scan, of "[]" 1 "[]" 2 "[]"]
  ultimately show ?thesis using ex_loads_scan by simp
qed

section \<open>Squashing completes\<close>

lemma rob_wf_nonempty:
  assumes "rob_wf h r" and "instList r tid \<noteq> []"
  shows "\<not> isEmpty_tid r tid"
proof -
  obtain p where p: "p \<in> set (instList r tid)" using assms(2) by (cases "instList r tid") auto
  with assms(1) have t: "tid < numThreads r" by (auto simp: rob_wf_def rob_lists_def)
  have "int (length (instList r tid)) \<le> (\<Sum>t<numThreads r. int (length (instList r t)))"
    using t by (intro member_le_sum) auto
  also have "\<dots> \<le> uint (numEntries r)" using assms(1) by (simp add: rob_wf_def rob_counts_def)
  also have "\<dots> < 2 ^ 32" using uint_lt2p[of "numEntries r"] by simp
  finally have lt: "length (instList r tid) < 2 ^ 32" by simp
  have "unat (of_nat (length (instList r tid)) :: 32 word) = length (instList r tid)"
    using lt by (simp add: unsigned_of_nat take_bit_nat_eq_self)
  with assms show ?thesis by (auto simp: isEmpty_tid_def rob_wf_def rob_counts_def)
qed

text \<open>
  C5: squashing a well-formed thread of a buffer with a positive squash width ends, within as many
  cycles as the thread has instructions, with exactly the instructions younger than the given
  sequence number marked squashed and ready to commit, and every other instruction unchanged; no
  assertion fails on the way.
\<close>

theorem squash_completes:
  assumes "rob_wf h r" and "instList r tid \<noteq> []" and "squashWidth r \<noteq> 0"
  shows "\<exists>h' r'. (squash sn tid (h, r) \<bind> squash_cycles (length (instList r tid)) tid) = Some (h', r') \<and>
     doneSquashing r' tid \<and> squashIt r' tid = None \<and> instList r' = instList r \<and>
     (\<forall>q. h' q = (if q \<in> set (instList r tid) \<and> seqNum (h q) > sn
                  then set_status CanCommit (setSquashed (h q)) else h q))"
proof -
  obtain xs p where l: "instList r tid = xs @ [p]" using assms(2) by (metis rev_exhaust)
  let ?r1 = "r\<lparr>robStatus := (robStatus r)(tid := ROBSquashing), doneSquashing := (doneSquashing r)(tid := False),
     squashedSeqNum := (squashedSeqNum r)(tid := sn), squashIt := (squashIt r)(tid := Some p)\<rparr>"
  have sq: "squash sn tid (h, r) = doSquash tid (h, ?r1)"
    using rob_wf_nonempty[OF assms(1,2)] l by (simp add: squash_def Let_def)
  have inc: "increasing (\<lambda>q. seqNum (h q)) (instList ?r1 tid)"
    using assms(1) by (simp add: rob_wf_def rob_lists_def)
  have l1: "instList ?r1 tid = xs @ p # []" using l by simp
  obtain r' where r': "squash_cycles (Suc (length xs)) tid (h, ?r1) = Some (marks (younger sn h (xs @ [p])) h, r')"
    "squash_frame tid ?r1 r'" "squashIt r' tid = None" "doneSquashing r' tid"
    using squash_cycles_complete[OF _ l1 inc, of sn] assms(3) by auto
  then have "(doSquash tid (h, ?r1) \<bind> squash_cycles (length xs) tid) = Some (marks (younger sn h (xs @ [p])) h, r')"
    by simp
  then obtain s where s: "doSquash tid (h, ?r1) = Some s"
    "squash_cycles (length xs) tid s = Some (marks (younger sn h (xs @ [p])) h, r')" by auto
  have "squash_cycles (length (instList r tid)) tid s = Some (marks (younger sn h (xs @ [p])) h, r')"
    using squash_cycles_more[OF s(2) r'(4), of 1] l by simp
  then have run: "(squash sn tid (h, r) \<bind> squash_cycles (length (instList r tid)) tid) =
      Some (marks (younger sn h (xs @ [p])) h, r')"
    using sq s(1) by simp
  show ?thesis
    by (rule exI[of _ "marks (younger sn h (xs @ [p])) h"], rule exI[of _ r'])
       (use run r' l in \<open>simp add: squash_frame_def marks_def younger_def squash_mark_def\<close>)
qed

theorem squash_completes_witness:
  "\<exists>h' r'. (squash 1 0 (ex_heap2, ex_rob2) \<bind> squash_cycles 2 0) = Some (h', r') \<and>
     doneSquashing r' 0 \<and> isSquashed (h' 2) \<and> \<not> isSquashed (h' 1)"
proof -
  have "rob_wf ex_heap2 ex_rob2" using ex_reach2 by (rule rob_reach_wf)
  moreover have "squashWidth ex_rob2 \<noteq> 0" by (simp add: ex_rob2_def ex_rob1_def ex_rob_def)
  moreover have "seqNum (ex_heap2 2) > 1" "\<not> seqNum (ex_heap2 (Suc 0)) > 1"
    by (simp_all add: ex_heap2_def ex_heap1_def ex_defs)
  ultimately show ?thesis
    using squash_completes[of ex_heap2 ex_rob2 0 1] by (fastforce simp: numeral_2_eq_2 setSquashed_def)
qed

section \<open>The buffer stays well formed\<close>

text \<open>
  C6: in every reachable state each thread's instructions are in program order and belong to the
  thread, no instruction is in two lists, the per-thread and total counts agree with the lists and
  the buffer never holds more instructions than it has entries.
\<close>

theorem rob_reachable_wf:
  assumes "rob_reach c port (h, r, cpu, tr)"
  shows "(\<forall>t. increasing (\<lambda>p. seqNum (h p)) (instList r t)) \<and>
     (\<forall>t p. p \<in> set (instList r t) \<longrightarrow> threadNumber (h p) = t) \<and>
     (\<forall>t. threadEntries r t = of_nat (length (instList r t))) \<and>
     numInstsInROB r = int (countInsts r) \<and> countInsts r \<le> unat (numEntries r)"
proof -
  have wf: "rob_wf h r" using assms by (rule rob_reach_wf)
  have c: "int (countInsts r) = (\<Sum>t<numThreads r. int (length (instList r t)))"
    by (simp add: countInsts_def countInsts_tid_def interv_sum_list_conv_sum_set_nat atLeast0LessThan)
  have "int (countInsts r) \<le> uint (numEntries r)"
    using wf c by (simp add: rob_wf_def rob_counts_def)
  then have "countInsts r \<le> unat (numEntries r)" by (simp only: uint_nat of_nat_le_iff)
  with wf c show ?thesis by (auto simp: rob_wf_def rob_lists_def rob_counts_def)
qed

theorem rob_reachable_wf_witness:
  "rob_reach ex_cpu (\<lambda>_. False) (ex_heap2, ex_rob2, ex_remove, []) \<and>
   numInstsInROB ex_rob2 = 2 \<and> countInsts ex_rob2 = 2"
proof -
  have "numInstsInROB ex_rob2 = int (countInsts ex_rob2)"
    using rob_reachable_wf[OF ex_reach2] by (elim conjE)
  moreover have "numInstsInROB ex_rob2 = 2" by (simp add: ex_rob2_def)
  ultimately show ?thesis using ex_reach2 by simp
qed

text \<open>
  C7: on a DOLMA CPU no assertion can fail during a scan, whatever the state of the buffer.
\<close>

theorem updateSafeStatus_never_fails:
  assumes "isDolma c"
  shows "\<exists>h'. updateSafeStatus c r tid h = Some h'"
  using assms by (rule updateSafeStatus_total)

theorem updateSafeStatus_never_fails_witness: "\<exists>h'. updateSafeStatus ex_cpu ex_rob2 0 ex_heap2 = Some h'"
  by (rule updateSafeStatus_never_fails) simp

section \<open>Redirects\<close>

text \<open>
  An instruction that may redirect fetch, by its status bits: it is neither squashed nor restricted, and it is a branch that found
  itself mispredicted, or an access with an order violation whose store is known. STT does not wait for the store.
\<close>

definition may_redirect :: "dolma_cpu \<Rightarrow> dyn_inst \<Rightarrow> bool" where
  "may_redirect c i \<longleftrightarrow> {Squashed, ControlRestricted, DataRestricted} \<inter> status i = {} \<and>
     (PendingBranch \<in> status i \<or> (PendingMemOrder \<in> status i \<and> (collider_PC i \<noteq> 0 \<or> isSTT c)))"

lemma resolved_redirect_bits: "resolved_redirect c i = may_redirect c i"
  by (auto simp: resolved_redirect_def may_redirect_def dolma_query_defs)

text \<open>
  C8: \<^verbatim>\<open>getResolvedRedirect\<close> returns the oldest instruction of the thread whose status bits let it
  redirect fetch, that is a resolved branch or order violation that is neither squashed nor restricted, and nothing
  only if there is none. In every reachable state of a CPU that restricts under control speculation no older branch of the thread
  is unresolved then: fetch is not redirected from behind an unresolved branch.
\<close>

theorem getResolvedRedirect_oldest:
  assumes "rob_reach c port (h, r, cpu, tr)"
  shows "case getResolvedRedirect c r h tid of
     None \<Rightarrow> \<forall>p \<in> set (instList r tid). \<not> may_redirect c (h p)
   | Some p \<Rightarrow> may_redirect c (h p) \<and>
       (\<exists>xs ys. instList r tid = xs @ p # ys \<and> (\<forall>q \<in> set xs. \<not> may_redirect c (h q)) \<and>
          (isDolma c \<and> \<not> isDolmaMemOnly c \<longrightarrow> (\<forall>q \<in> set xs. Squashed \<in> status (h q) \<or> ControlInducer \<notin> status (h q))))"
proof (cases "getResolvedRedirect c r h tid")
  case None
  then have "\<forall>p \<in> set (instList r tid). \<not> may_redirect c (h p)"
    by (simp add: getResolvedRedirect_def find_None_iff resolved_redirect_bits)
  with None show ?thesis by simp
next
  case (Some p)
  obtain xs ys where l: "instList r tid = xs @ p # ys" "may_redirect c (h p)" "\<And>q. q \<in> set xs \<Longrightarrow> \<not> may_redirect c (h q)"
    using find_split[OF Some[unfolded getResolvedRedirect_def]] by (auto simp: resolved_redirect_bits)
  have p: "\<not> isSquashed (h p)" "\<not> isControlRestricted (h p)" using l(2) by (auto simp: may_redirect_def isControlRestricted_def)
  have "\<forall>q \<in> set xs. \<not> isControlInducer (h q)" if "isDolma c" "\<not> isDolmaMemOnly c"
    using rob_reach_control[OF assms that] l(1) p unfolding control_inv_def by blast
  then show ?thesis using Some l by (auto simp: isControlInducer_def)
qed

text \<open>The branch of the concrete machine finds that it was mispredicted.\<close>

definition ex_heap5 :: inst_heap where
  "ex_heap5 = ex_heap2(1 := set_status PendingBranch ((ex_heap2 1)\<lparr>branchTaken := True\<rparr>))"

lemma ex_reach5: "rob_reach ex_cpu port (ex_heap5, ex_rob2, ex_remove, [])"
  unfolding ex_heap5_def
  by (rule reach_step[OF ex_reach2], rule step_inst[where op = "OpSetPendingBranch True"])
    (simp add: setPendingBranch_def Let_def isPendingBranch_def ex_heap2_def ex_heap1_def ex_defs)

theorem getResolvedRedirect_oldest_witness:
  "rob_reach ex_cpu (\<lambda>_. False) (ex_heap5, ex_rob2, ex_remove, []) \<and> getResolvedRedirect ex_cpu ex_rob2 ex_heap5 0 = Some 1 \<and>
   may_redirect ex_cpu (ex_heap5 1)"
proof -
  have "getResolvedRedirect ex_cpu ex_rob2 ex_heap5 0 = Some 1"
    by (simp add: getResolvedRedirect_def resolved_redirect_bits may_redirect_def ex_heap5_def ex_heap2_def ex_heap1_def ex_defs)
  with getResolvedRedirect_oldest[OF ex_reach5, of 0] ex_reach5 show ?thesis by simp
qed

section \<open>The delayed metadata update\<close>

text \<open>
  C9: the update of the replacement metadata of a safe memory instruction. When the instruction has saved its requests,
  \<^verbatim>\<open>updateMetadataIfNeeded\<close> sends exactly what is due, and sends it once: one update of the TLB for each access, the
  two halves of a split access in order, and for a load then the same accesses to the cache, unrestricted and marked as metadata
  updates. The saved requests are used up, so a second call sends nothing. This holds for a cache port that does not
  take a metadata update for an ordinary read.
\<close>

theorem metadata_replayed_once:
  assumes "\<not> isSquashed i" "isMemRef i" "dolmaVirtualReq i \<noteq> None" "\<not> validationData i" "\<forall>q. req_metadataUpdate q \<longrightarrow> \<not> port q"
    and "saved_ok (dolmaVirtualReq i) (dolmaVirtualSreqLow i) (dolmaVirtualSreqHigh i)"
    and "saved_ok (dolmaPhysicalReq i) (dolmaPhysicalSreqLow i) (dolmaPhysicalSreqHigh i)"
  shows "\<exists>i'. updateMetadataIfNeeded port (i, tr) = Some (i', tr @ due_updates i) \<and> dolmaVirtualReq i' = None \<and>
     (isLoad i \<longrightarrow> dolmaPhysicalReq i' = None) \<and> (\<forall>tr'. updateMetadataIfNeeded port (i', tr') = Some (i', tr'))"
proof -
  from updateMetadata_sends[OF assms, of tr] obtain i' where "updateMetadataIfNeeded port (i, tr) = Some (i', tr @ due_updates i)"
    "dolmaVirtualReq i' = None" "isLoad i \<longrightarrow> dolmaPhysicalReq i' = None" "status i' = status i" by blast
  then show ?thesis using assms(1) by (intro exI[of _ i']) (simp add: updateMetadataIfNeeded_def)
qed

text \<open>A split load.\<close>

definition ex_split_load :: dyn_inst where
  "ex_split_load = (ex_inst 1 {IsMemRef, IsLoad} {})\<lparr>
     dolmaVirtualReq := Some ex_req, dolmaVirtualSreqLow := Some (ex_req\<lparr>req_size := 4\<rparr>), dolmaVirtualSreqHigh := Some (ex_req\<lparr>req_vaddr := 4, req_size := 4\<rparr>),
     dolmaPhysicalReq := Some (setUnsafe ex_req), dolmaPhysicalSreqLow := Some (setUnsafe (ex_req\<lparr>req_size := 4\<rparr>)),
     dolmaPhysicalSreqHigh := Some (setUnsafe (ex_req\<lparr>req_vaddr := 4, req_size := 4\<rparr>))\<rparr>"

theorem metadata_replayed_once_witness:
  "\<exists>i'. updateMetadataIfNeeded (\<lambda>_. False) (ex_split_load, []) =
     Some (i', [DtbUpdateLRU (ex_req\<lparr>req_size := 4\<rparr>) TlbRead, DtbUpdateLRU (ex_req\<lparr>req_vaddr := 4, req_size := 4\<rparr>) TlbRead,
                DcacheRead (ex_req\<lparr>req_size := 4, req_metadataUpdate := True\<rparr>),
                DcacheRead (ex_req\<lparr>req_vaddr := 4, req_size := 4, req_metadataUpdate := True\<rparr>)]) \<and>
   updateMetadataIfNeeded (\<lambda>_. False) (i', []) = Some (i', [])"
proof -
  have "\<exists>i'. updateMetadataIfNeeded (\<lambda>_. False) (ex_split_load, []) = Some (i', [] @ due_updates ex_split_load) \<and>
      dolmaVirtualReq i' = None \<and> (isLoad ex_split_load \<longrightarrow> dolmaPhysicalReq i' = None) \<and>
      (\<forall>tr'. updateMetadataIfNeeded (\<lambda>_. False) (i', tr') = Some (i', tr'))"
    by (rule metadata_replayed_once) (simp_all add: ex_split_load_def ex_inst_def ex_si_def saved_ok_def)
  moreover have "due_updates ex_split_load = [DtbUpdateLRU (ex_req\<lparr>req_size := 4\<rparr>) TlbRead,
      DtbUpdateLRU (ex_req\<lparr>req_vaddr := 4, req_size := 4\<rparr>) TlbRead, DcacheRead (ex_req\<lparr>req_size := 4, req_metadataUpdate := True\<rparr>),
      DcacheRead (ex_req\<lparr>req_vaddr := 4, req_size := 4, req_metadataUpdate := True\<rparr>)]"
    by code_simp
  ultimately show ?thesis by auto
qed

end
