(* ===== verification/Rename_Map.thy ===== *)
theory Rename_Map
  imports Dyn_Inst
begin

text \<open>
  The physical register identifiers, the free lists, the rename maps and the scoreboard
  (\<^verbatim>\<open>src/cpu/o3/regfile.cc\<close>, \<^verbatim>\<open>free_list.hh\<close>,
  \<^verbatim>\<open>rename_map.hh\<close>, \<^verbatim>\<open>rename_map.cc\<close>, \<^verbatim>\<open>scoreboard.hh\<close>).
  The unified free list and the unified rename map hold one member per register class and switch
  on the class; here they are functions of the class.
\<close>

section \<open>Register identifiers\<close>

definition ZeroReg :: "16 word" where "ZeroReg = 16"

definition NumVecElemPerVecReg :: "16 word" where "NumVecElemPerVecReg = 2"

definition isZeroReg :: "('a) reg_id_scheme \<Rightarrow> bool" where
  "isZeroReg r \<longleftrightarrow> regClass r = IntRegClass \<and> regIdx r = ZeroReg"

text \<open>\<^verbatim>\<open>RegId::index\<close> and \<^verbatim>\<open>RegId::flatIndex\<close>.\<close>

definition reg_index :: "('a) reg_id_scheme \<Rightarrow> nat" where
  "reg_index r = unat (regIdx r)"

definition reg_flatIndex :: "('a) reg_id_scheme \<Rightarrow> nat" where
  "reg_flatIndex r =
     (if regClass r = VecElemClass then unat (NumVecElemPerVecReg * regIdx r + elemIdx r)
      else unat (regIdx r))"

text \<open>The register file: the identifiers of a class, with consecutive flat indices.\<close>

definition phys_reg :: "reg_class \<Rightarrow> nat \<Rightarrow> nat \<Rightarrow> phys_reg_id" where
  "phys_reg c i flat = \<lparr>regClass = c, regIdx = of_nat i, elemIdx = -1, flatIdx = of_nat flat\<rparr>"

definition phys_elem :: "nat \<Rightarrow> nat \<Rightarrow> nat \<Rightarrow> phys_reg_id" where
  "phys_elem i e flat = \<lparr>regClass = VecElemClass, regIdx = of_nat i, elemIdx = of_nat e, flatIdx = of_nat flat\<rparr>"

record phys_reg_file =
  numPhysicalIntRegs :: nat
  numPhysicalFloatRegs :: nat
  numPhysicalVecRegs :: nat
  numPhysicalCCRegs :: nat

definition regIds :: "phys_reg_file \<Rightarrow> reg_class \<Rightarrow> phys_reg_id list" where
  "regIds f c =
     (let i = numPhysicalIntRegs f; fl = numPhysicalFloatRegs f; v = numPhysicalVecRegs f;
          n = unat NumVecElemPerVecReg
      in case c of
           IntRegClass \<Rightarrow> map (\<lambda>k. phys_reg IntRegClass k k) [0..<i]
         | FloatRegClass \<Rightarrow> map (\<lambda>k. phys_reg FloatRegClass k (i + k)) [0..<fl]
         | VecRegClass \<Rightarrow> map (\<lambda>k. phys_reg VecRegClass k (i + fl + k)) [0..<v]
         | VecElemClass \<Rightarrow> concat (map (\<lambda>k. map (\<lambda>e. phys_elem k e (i + fl + v + k * n + e)) [0..<n]) [0..<v])
         | CCRegClass \<Rightarrow> map (\<lambda>k. phys_reg CCRegClass k (i + fl + v + v * n + k)) [0..<numPhysicalCCRegs f]
         | MiscRegClass \<Rightarrow> [])"

definition totalNumRegs :: "phys_reg_file \<Rightarrow> nat" where
  "totalNumRegs f = numPhysicalIntRegs f + numPhysicalFloatRegs f + numPhysicalVecRegs f
     + numPhysicalVecRegs f * unat NumVecElemPerVecReg + numPhysicalCCRegs f"

text \<open>A miscellaneous register has a fixed identifier whose flat index is always 0.\<close>

text \<open>
  The code reads a vector with one identifier per miscellaneous register, without a bound check; the index is taken to be
  that of a register of the ISA.
\<close>

definition getMiscRegId :: "nat \<Rightarrow> phys_reg_id" where
  "getMiscRegId i = phys_reg MiscRegClass i 0"

section \<open>Free lists\<close>

type_synonym free_list = "reg_class \<Rightarrow> phys_reg_id list"

datatype vec_mode = Full | Elem

text \<open>\<^verbatim>\<open>PhysRegFile::initFreeList\<close>: all registers, the vector ones by the mode.\<close>

definition initFreeList :: "phys_reg_file \<Rightarrow> vec_mode \<Rightarrow> free_list" where
  "initFreeList f vm = (\<lambda>c.
     if c = MiscRegClass \<or> (c = VecRegClass \<and> vm = Elem) \<or> (c = VecElemClass \<and> vm = Full) then []
     else regIds f c)"

definition addReg :: "phys_reg_id \<Rightarrow> free_list \<Rightarrow> free_list option" where
  "addReg freed_reg fl = do {
     check (regClass freed_reg \<noteq> MiscRegClass);
     Some (fl(regClass freed_reg := fl (regClass freed_reg) @ [freed_reg])) }"

definition getReg :: "reg_class \<Rightarrow> free_list \<Rightarrow> (phys_reg_id \<times> free_list) option" where
  "getReg c fl = (case fl c of [] \<Rightarrow> None | r # rs \<Rightarrow> Some (r, fl(c := rs)))"

definition numFreeRegs :: "reg_class \<Rightarrow> free_list \<Rightarrow> nat" where
  "numFreeRegs c fl = length (fl c)"

section \<open>Rename maps\<close>

record simple_rename_map =
  arch_map :: "phys_reg_id list"
  zeroReg :: reg_id

definition simple_rename ::
  "reg_class \<Rightarrow> reg_id \<Rightarrow> simple_rename_map \<times> free_list \<Rightarrow>
     ((phys_reg_id \<times> phys_reg_id) \<times> simple_rename_map \<times> free_list) option" where
  "simple_rename c arch_reg = (\<lambda>(m, fl). do {
     prev_reg \<leftarrow> vec_get (arch_map m) (reg_index arch_reg);
     (if arch_reg \<noteq> zeroReg m then do {
        (renamed_reg, fl1) \<leftarrow> getReg c fl;
        Some ((renamed_reg, prev_reg), m\<lparr>arch_map := (arch_map m)[reg_index arch_reg := renamed_reg]\<rparr>, fl1) }
      else do {
        check (isZeroReg prev_reg);
        Some ((prev_reg, prev_reg), m, fl) }) })"

definition simple_lookup :: "reg_id \<Rightarrow> simple_rename_map \<Rightarrow> phys_reg_id option" where
  "simple_lookup arch_reg m = do {
     check (reg_flatIndex arch_reg \<le> length (arch_map m));
     vec_get (arch_map m) (reg_flatIndex arch_reg) }"

definition simple_setEntry :: "reg_id \<Rightarrow> phys_reg_id \<Rightarrow> simple_rename_map \<Rightarrow> simple_rename_map option" where
  "simple_setEntry arch_reg r m = do {
     check (reg_flatIndex arch_reg \<le> length (arch_map m));
     l \<leftarrow> vec_set (arch_map m) (reg_flatIndex arch_reg) r;
     Some (m\<lparr>arch_map := l\<rparr>) }"

record unified_rename_map =
  class_map :: "reg_class \<Rightarrow> simple_rename_map"
  vecMode :: vec_mode

text \<open>The assertion on the vector mode of the two vector classes.\<close>

definition mode_ok :: "unified_rename_map \<Rightarrow> reg_class \<Rightarrow> bool" where
  "mode_ok m c \<longleftrightarrow> (c = VecRegClass \<longrightarrow> vecMode m = Full) \<and> (c = VecElemClass \<longrightarrow> vecMode m = Elem)"

definition um_lookup :: "reg_id \<Rightarrow> unified_rename_map \<Rightarrow> phys_reg_id option" where
  "um_lookup arch_reg m =
     (if regClass arch_reg = MiscRegClass then Some (getMiscRegId (reg_flatIndex arch_reg))
      else do {
        check (mode_ok m (regClass arch_reg));
        simple_lookup arch_reg (class_map m (regClass arch_reg)) })"

definition um_rename ::
  "reg_id \<Rightarrow> unified_rename_map \<times> free_list \<Rightarrow>
     ((phys_reg_id \<times> phys_reg_id) \<times> unified_rename_map \<times> free_list) option" where
  "um_rename arch_reg = (\<lambda>(m, fl).
     if regClass arch_reg = MiscRegClass then do {
       r \<leftarrow> um_lookup arch_reg m;
       Some ((r, r), m, fl) }
     else do {
       check (mode_ok m (regClass arch_reg));
       (res, sm, fl1) \<leftarrow> simple_rename (regClass arch_reg) arch_reg (class_map m (regClass arch_reg), fl);
       Some (res, m\<lparr>class_map := (class_map m)(regClass arch_reg := sm)\<rparr>, fl1) })"

definition um_setEntry :: "reg_id \<Rightarrow> phys_reg_id \<Rightarrow> unified_rename_map \<Rightarrow> unified_rename_map option" where
  "um_setEntry arch_reg r m =
     (if regClass arch_reg = MiscRegClass then do {
        q \<leftarrow> um_lookup arch_reg m;
        check (r = q);
        Some m }
      else do {
        check (regClass r = regClass arch_reg);
        check (mode_ok m (regClass arch_reg));
        sm \<leftarrow> simple_setEntry arch_reg r (class_map m (regClass arch_reg));
        Some (m\<lparr>class_map := (class_map m)(regClass arch_reg := sm)\<rparr>) })"

definition canRename :: "(reg_class \<Rightarrow> nat) \<Rightarrow> free_list \<Rightarrow> bool" where
  "canRename needed fl \<longleftrightarrow>
     list_all (\<lambda>c. needed c \<le> numFreeRegs c fl) [IntRegClass, FloatRegClass, VecRegClass, VecElemClass, CCRegClass]"

section \<open>The scoreboard\<close>

definition new_scoreboard :: "nat \<Rightarrow> bool list" where
  "new_scoreboard n = replicate n True"

definition sb_getReg :: "phys_reg_id \<Rightarrow> bool list \<Rightarrow> bool option" where
  "sb_getReg r sb = do {
     check (flatIndex r < length sb);
     (if isFixedMapping r then Some True
      else do {
        ready \<leftarrow> vec_get sb (flatIndex r);
        check (isZeroReg r \<longrightarrow> ready);
        Some ready }) }"

definition sb_setReg :: "phys_reg_id \<Rightarrow> bool list \<Rightarrow> bool list option" where
  "sb_setReg r sb = do {
     check (flatIndex r < length sb);
     (if isFixedMapping r then Some sb else vec_set sb (flatIndex r) True) }"

definition sb_unsetReg :: "phys_reg_id \<Rightarrow> bool list \<Rightarrow> bool list option" where
  "sb_unsetReg r sb = do {
     check (flatIndex r < length sb);
     (if isFixedMapping r then Some sb
      else if isZeroReg r then Some sb
      else vec_set sb (flatIndex r) False) }"

end
