(* ===== verification/Rename.thy ===== *)
theory Rename
  imports Rename_Map Rob
begin

text \<open>
  The rename stage (\<^verbatim>\<open>src/cpu/o3/rename_impl.hh\<close>): renaming of the source and
  destination registers of an instruction with the DOLMA taint of ready sources, the history
  buffer and its rollback and commit. \<^verbatim>\<open>flatten\<close> is the thread context's
  \<^verbatim>\<open>flattenRegId\<close>, which depends on the floating point stack of the thread.
\<close>

record rename_history =
  hb_instSeqNum :: inst_seq_num
  hb_archReg :: reg_id
  hb_newPhysReg :: phys_reg_id
  hb_prevPhysReg :: phys_reg_id

record rename_state =
  renameMap :: "thread_id \<Rightarrow> unified_rename_map"
  freeList :: free_list
  scoreboard :: "bool list"
  historyBuffer :: "thread_id \<Rightarrow> rename_history list"
  regToProducerInst :: "nat \<Rightarrow> iptr option"

section \<open>Source registers\<close>

text \<open>
  The DOLMA corner case of \<^verbatim>\<open>renameSrcRegs\<close>: the register is ready but its producer
  is a data inducer or data restricted.
\<close>

definition src_taint ::
  "dolma_cpu \<Rightarrow> inst_heap \<Rightarrow> (nat \<Rightarrow> iptr option) \<Rightarrow> reg_id \<Rightarrow> phys_reg_id \<Rightarrow> dyn_inst \<Rightarrow> dyn_inst option" where
  "src_taint c h producers src_reg renamed_reg i =
     (case producers (flatIndex renamed_reg) of
        None \<Rightarrow> Some i
      | Some q \<Rightarrow>
          if \<not> isZeroReg src_reg \<and> threadNumber (h q) = threadNumber i \<and>
             (isDataInducer (h q) \<or> isDataRestricted (h q)) then do {
            check (\<not> isCommitted (h q));
            let new_ydi = (if isDataInducer (h q) then seqNum (h q) else ydi (h q));
            let i1 = (if ydi i = 0 \<or> ydi i < new_ydi then i\<lparr>ydi := new_ydi\<rparr> else i);
            (if \<not> isDataRestricted i1 then setDataRestricted c i1 else Some i1) }
          else Some i)"

definition renameSrcReg ::
  "dolma_cpu \<Rightarrow> (reg_id \<Rightarrow> reg_id) \<Rightarrow> thread_id \<Rightarrow> rename_state \<Rightarrow> iptr \<Rightarrow> nat \<Rightarrow> inst_heap \<Rightarrow> inst_heap option" where
  "renameSrcReg c flatten tid s p src_idx h = do {
     src_reg \<leftarrow> vec_get (si_srcRegIdx (staticInst (h p))) src_idx;
     renamed_reg \<leftarrow> um_lookup (flatten src_reg) (renameMap s tid);
     check (regClass src_reg \<noteq> VecElemClass);
     let i = (h p)\<lparr>srcRegIdx := (srcRegIdx (h p))(src_idx := renamed_reg)\<rparr>;
     check (isZeroReg src_reg = isZeroReg renamed_reg);
     ready \<leftarrow> sb_getReg renamed_reg (scoreboard s);
     (if ready then do {
        i1 \<leftarrow> markSrcRegReady_idx src_idx i;
        i2 \<leftarrow> src_taint c (h(p := i1)) (regToProducerInst s) src_reg renamed_reg i1;
        Some (h(p := i2)) }
      else Some (h(p := i))) }"

definition renameSrcRegs ::
  "dolma_cpu \<Rightarrow> (reg_id \<Rightarrow> reg_id) \<Rightarrow> thread_id \<Rightarrow> rename_state \<Rightarrow> iptr \<Rightarrow> inst_heap \<Rightarrow> inst_heap option" where
  "renameSrcRegs c flatten tid s p h =
     foldM (renameSrcReg c flatten tid s p) [0..<nat (numSrcRegs (h p))] h"

section \<open>Destination registers\<close>

definition renameDestReg ::
  "(reg_id \<Rightarrow> reg_id) \<Rightarrow> thread_id \<Rightarrow> iptr \<Rightarrow> nat \<Rightarrow> inst_heap \<times> rename_state \<Rightarrow> (inst_heap \<times> rename_state) option" where
  "renameDestReg flatten tid p dest_idx = (\<lambda>(h, s). do {
     dest_reg \<leftarrow> vec_get (si_destRegIdx (staticInst (h p))) dest_idx;
     let flat_dest_regid = flatten dest_reg;
     ((newr, prevr), m, fl) \<leftarrow> um_rename flat_dest_regid (renameMap s tid, freeList s);
     sb \<leftarrow> sb_unsetReg newr (scoreboard s);
     let i = (h p)\<lparr>flatDestRegIdx := (flatDestRegIdx (h p))(dest_idx := flat_dest_regid),
                   destRegIdx := (destRegIdx (h p))(dest_idx := newr),
                   prevDestRegIdx := (prevDestRegIdx (h p))(dest_idx := prevr)\<rparr>;
     let e = \<lparr>hb_instSeqNum = seqNum (h p), hb_archReg = flat_dest_regid,
              hb_newPhysReg = newr, hb_prevPhysReg = prevr\<rparr>;
     Some (h(p := i),
           s\<lparr>renameMap := (renameMap s)(tid := m), freeList := fl, scoreboard := sb,
             regToProducerInst := (regToProducerInst s)(flatIndex newr := Some p),
             historyBuffer := (historyBuffer s)(tid := e # historyBuffer s tid)\<rparr>) })"

definition renameDestRegs ::
  "(reg_id \<Rightarrow> reg_id) \<Rightarrow> thread_id \<Rightarrow> iptr \<Rightarrow> inst_heap \<times> rename_state \<Rightarrow> (inst_heap \<times> rename_state) option" where
  "renameDestRegs flatten tid p = (\<lambda>(h, s).
     foldM (renameDestReg flatten tid p) [0..<nat (numDestRegs (h p))] (h, s))"

section \<open>Rollback and commit\<close>

text \<open>One turn of the loop of \<^verbatim>\<open>doSquash\<close>, and the loop.\<close>

definition undo_entry ::
  "rename_history \<Rightarrow> unified_rename_map \<times> free_list \<Rightarrow> (unified_rename_map \<times> free_list) option" where
  "undo_entry e = (\<lambda>(m, fl).
     if hb_newPhysReg e \<noteq> hb_prevPhysReg e then do {
       m1 \<leftarrow> um_setEntry (hb_archReg e) (hb_prevPhysReg e) m;
       fl1 \<leftarrow> addReg (hb_newPhysReg e) fl;
       Some (m1, fl1) }
     else Some (m, fl))"

fun undo_loop ::
  "inst_seq_num \<Rightarrow> rename_history list \<Rightarrow> unified_rename_map \<times> free_list \<Rightarrow>
     (rename_history list \<times> unified_rename_map \<times> free_list) option" where
  "undo_loop sn [] mf = Some ([], mf)"
| "undo_loop sn (e # es) mf =
     (if hb_instSeqNum e > sn then undo_entry e mf \<bind> undo_loop sn es else Some (e # es, mf))"

definition rename_doSquash :: "inst_seq_num \<Rightarrow> thread_id \<Rightarrow> rename_state \<Rightarrow> rename_state option" where
  "rename_doSquash squashed_seq_num tid s = do {
     (hb, m, fl) \<leftarrow> undo_loop squashed_seq_num (historyBuffer s tid) (renameMap s tid, freeList s);
     Some (s\<lparr>renameMap := (renameMap s)(tid := m), freeList := fl,
             historyBuffer := (historyBuffer s)(tid := hb)\<rparr>) }"

text \<open>\<^verbatim>\<open>removeFromHistory\<close> walks the history from its back, the oldest entry.\<close>

fun commit_loop ::
  "inst_seq_num \<Rightarrow> rename_history list \<Rightarrow> free_list \<Rightarrow> (rename_history list \<times> free_list) option" where
  "commit_loop sn [] fl = Some ([], fl)"
| "commit_loop sn (e # es) fl =
     (if hb_instSeqNum e \<le> sn then
        (if hb_newPhysReg e \<noteq> hb_prevPhysReg e then addReg (hb_prevPhysReg e) fl else Some fl)
          \<bind> commit_loop sn es
      else Some (e # es, fl))"

definition removeFromHistory :: "inst_seq_num \<Rightarrow> thread_id \<Rightarrow> rename_state \<Rightarrow> rename_state option" where
  "removeFromHistory inst_seq_num tid s = do {
     (hb, fl) \<leftarrow> commit_loop inst_seq_num (rev (historyBuffer s tid)) (freeList s);
     Some (s\<lparr>freeList := fl, historyBuffer := (historyBuffer s)(tid := rev hb)\<rparr>) }"

section \<open>One rename and its undoing\<close>

lemma flatIndex_index: "regClass r \<noteq> VecElemClass \<Longrightarrow> reg_flatIndex r = reg_index r"
  by (simp add: reg_flatIndex_def reg_index_def)

definition set_arch :: "reg_class \<Rightarrow> nat \<Rightarrow> phys_reg_id \<Rightarrow> unified_rename_map \<Rightarrow> unified_rename_map" where
  "set_arch c i r m = m\<lparr>class_map := (class_map m)(c := (class_map m c)\<lparr>arch_map := (arch_map (class_map m c))[i := r]\<rparr>)\<rparr>"

abbreviation arch_of :: "unified_rename_map \<Rightarrow> reg_class \<Rightarrow> phys_reg_id list" where
  "arch_of m c \<equiv> arch_map (class_map m c)"

text \<open>A rename keeps everything, for a fixed or the zero register, or takes the first free register.\<close>

lemma um_rename_cases:
  assumes "um_rename a (m, fl) = Some ((new, prev), m', fl')"
  obtains (fixed) "new = prev" and "m' = m" and "fl' = fl"
      and "regClass a = MiscRegClass \<or> (a = zeroReg (class_map m (regClass a)) \<and> isZeroReg prev)"
  | (renamed) "regClass a \<noteq> MiscRegClass" and "mode_ok m (regClass a)"
      and "reg_index a < length (arch_of m (regClass a))" and "prev = arch_of m (regClass a) ! reg_index a"
      and "fl (regClass a) = new # fl' (regClass a)" and "fl' = fl(regClass a := fl' (regClass a))"
      and "m' = set_arch (regClass a) (reg_index a) new m" and "a \<noteq> zeroReg (class_map m (regClass a))"
proof (cases "regClass a = MiscRegClass")
  case True
  with assms fixed show ?thesis by (auto simp: um_rename_def)
next
  case False
  let ?c = "regClass a"
  from assms False have mode: "mode_ok m ?c" by (auto simp: um_rename_def split: if_splits)
  from assms False mode obtain sm where
    s: "simple_rename ?c a (class_map m ?c, fl) = Some ((new, prev), sm, fl')"
    and m': "m' = m\<lparr>class_map := (class_map m)(?c := sm)\<rparr>"
    by (auto simp: um_rename_def)
  then have i: "reg_index a < length (arch_of m ?c)" and pv: "prev = arch_of m ?c ! reg_index a"
    by (auto simp: simple_rename_def vec_get_eq_Some split: if_splits)
  show ?thesis
  proof (cases "a = zeroReg (class_map m ?c)")
    case True
    with s i have "new = prev" "sm = class_map m ?c" "fl' = fl" "isZeroReg prev"
      by (auto simp: simple_rename_def split: if_splits)
    with m' True fixed show ?thesis by simp
  next
    case nz: False
    with s i have f: "fl ?c = new # fl' ?c" "fl' = fl(?c := fl' ?c)"
      and "sm = (class_map m ?c)\<lparr>arch_map := (arch_of m ?c)[reg_index a := new]\<rparr>"
      by (auto simp: simple_rename_def getReg_def split: list.splits)
    with m' i pv mode False nz renamed show ?thesis by (simp add: set_arch_def)
  qed
qed

lemma set_arch_back:
  "i < length (arch_of m c) \<Longrightarrow> set_arch c i (arch_of m c ! i) (set_arch c i r m) = m"
  by (simp add: set_arch_def)

lemma arch_of_set_arch:
  "arch_of (set_arch c i r m) d = (if d = c then (arch_of m c)[i := r] else arch_of m d)"
  by (simp add: set_arch_def)

lemma mode_ok_set_arch [simp]: "mode_ok (set_arch c i r m) d = mode_ok m d"
  by (simp add: mode_ok_def set_arch_def)

lemma um_setEntry_set_arch:
  assumes "regClass a \<noteq> MiscRegClass" and "regClass a \<noteq> VecElemClass" and "regClass r = regClass a"
    and "mode_ok m (regClass a)" and "reg_index a < length (arch_of m (regClass a))"
  shows "um_setEntry a r m = Some (set_arch (regClass a) (reg_index a) r m)"
  using assms by (simp add: um_setEntry_def simple_setEntry_def flatIndex_index set_arch_def)

text \<open>Every register of a map and of a free list has the class of its table.\<close>

definition classes_ok :: "unified_rename_map \<Rightarrow> free_list \<Rightarrow> bool" where
  "classes_ok m fl \<longleftrightarrow>
     (\<forall>c. \<forall>r \<in> set (arch_of m c). regClass r = c) \<and>
     (\<forall>c. \<forall>r \<in> set (fl c). regClass r = c)"

text \<open>
  Undoing a rename that took place gives back the map and, in another order, the free list.
\<close>

lemma undo_rename:
  assumes "um_rename a (m, fl) = Some ((new, prev), m', fl')" and "regClass a \<noteq> VecElemClass"
    and ok: "classes_ok m fl" and fresh: "prev \<notin> set (fl (regClass a))"
    and e: "hb_archReg e = a" "hb_newPhysReg e = new" "hb_prevPhysReg e = prev"
    and g: "\<And>c. mset (g c) = mset (fl' c)"
  shows "\<exists>g'. undo_entry e (m', g) = Some (m, g') \<and> (\<forall>c. mset (g' c) = mset (fl c))"
  using assms(1)
proof (cases rule: um_rename_cases)
  case fixed
  then show ?thesis using e g by (simp add: undo_entry_def)
next
  case renamed
  let ?c = "regClass a"
  from renamed(5) fresh have ne: "new \<noteq> prev" by auto
  have cl: "regClass prev = ?c" "regClass new = ?c"
    using ok renamed(3,4,5) by (auto simp: classes_ok_def)
  have "um_setEntry a prev m' = Some m"
    using um_setEntry_set_arch[of a prev m'] renamed cl assms(2)
    by (simp add: arch_of_set_arch set_arch_back)
  moreover have "addReg new g = Some (g(?c := g ?c @ [new]))"
    using cl renamed(1) by (simp add: addReg_def)
  moreover have "mset ((g(?c := g ?c @ [new])) c) = mset (fl c)" for c
    using renamed(5) fun_cong[OF renamed(6), of c] g[of c] by (cases "c = ?c") auto
  ultimately show ?thesis using ne e by (auto simp: undo_entry_def)
qed

section \<open>Where the physical registers are\<close>

text \<open>
  Every physical register of a class is free, mapped by a thread, or the previous mapping of a
  rename in some history. The three together are the multiset \<open>all_regs\<close> of the class.
\<close>

definition changed :: "rename_history \<Rightarrow> bool" where
  "changed e \<longleftrightarrow> hb_newPhysReg e \<noteq> hb_prevPhysReg e"

definition hist_prevs :: "reg_class \<Rightarrow> rename_history list \<Rightarrow> phys_reg_id multiset" where
  "hist_prevs c hb = mset (map hb_prevPhysReg (filter (\<lambda>e. changed e \<and> regClass (hb_prevPhysReg e) = c) hb))"

definition all_regs :: "nat \<Rightarrow> rename_state \<Rightarrow> reg_class \<Rightarrow> phys_reg_id multiset" where
  "all_regs N s c = mset (freeList s c) +
     (\<Sum>t<N. mset (arch_of (renameMap s t) c) + hist_prevs c (historyBuffer s t))"

text \<open>The newest changed entry of the history is what its map holds now, and so on backwards.\<close>

fun chain :: "rename_history list \<Rightarrow> unified_rename_map \<Rightarrow> bool" where
  "chain [] m = True"
| "chain (e # es) m =
     (if changed e then
        (let c = regClass (hb_archReg e); i = reg_index (hb_archReg e)
         in c \<noteq> MiscRegClass \<and> c \<noteq> VecElemClass \<and> mode_ok m c \<and> i < length (arch_of m c) \<and>
            arch_of m c ! i = hb_newPhysReg e \<and> regClass (hb_newPhysReg e) = c \<and>
            regClass (hb_prevPhysReg e) = c \<and> \<not> isZeroReg (hb_newPhysReg e) \<and>
            \<not> isZeroReg (hb_prevPhysReg e) \<and> chain es (set_arch c i (hb_prevPhysReg e) m))
      else chain es m)"

text \<open>Only the architectural zero register is mapped to the physical one.\<close>

definition zero_ok :: "unified_rename_map \<Rightarrow> bool" where
  "zero_ok m \<longleftrightarrow> (\<forall>c i. i < length (arch_of m c) \<longrightarrow> isZeroReg (arch_of m c ! i) \<longrightarrow>
     i = unat ZeroReg \<and> zeroReg (class_map m c) = \<lparr>regClass = c, regIdx = ZeroReg, elemIdx = -1\<rparr>)"

text \<open>A flattened register identifier that is not a vector element.\<close>

definition scalar_reg :: "reg_id \<Rightarrow> bool" where
  "scalar_reg a \<longleftrightarrow> regClass a \<noteq> VecElemClass \<and> elemIdx a = -1"

lemma zero_ok_renamed:
  assumes "zero_ok m" and "scalar_reg a" and "reg_index a < length (arch_of m (regClass a))"
    and "a \<noteq> zeroReg (class_map m (regClass a))"
  shows "\<not> isZeroReg (arch_of m (regClass a) ! reg_index a)"
proof
  assume "isZeroReg (arch_of m (regClass a) ! reg_index a)"
  with assms(1,3) have "reg_index a = unat ZeroReg"
    "zeroReg (class_map m (regClass a)) = \<lparr>regClass = regClass a, regIdx = ZeroReg, elemIdx = -1\<rparr>"
    by (auto simp: zero_ok_def)
  moreover from this(1) have "regIdx a = ZeroReg" by (simp add: reg_index_def unsigned_word_eqI)
  ultimately show False using assms(2,4) by (simp add: scalar_reg_def)
qed

lemma zero_ok_set_arch: "zero_ok m \<Longrightarrow> \<not> isZeroReg r \<Longrightarrow> zero_ok (set_arch c i r m)"
  by (cases "i < length (arch_of m c)")
     (auto simp: zero_ok_def set_arch_def nth_list_update list_update_beyond split: if_splits)

definition rename_wf :: "nat \<Rightarrow> rename_state \<Rightarrow> bool" where
  "rename_wf N s \<longleftrightarrow>
     (\<forall>t<N. classes_ok (renameMap s t) (freeList s) \<and> zero_ok (renameMap s t) \<and>
        chain (historyBuffer s t) (renameMap s t)) \<and>
     (\<forall>c r. \<not> isZeroReg r \<longrightarrow> count (all_regs N s c) r \<le> 1) \<and>
     (\<forall>c. \<forall>r \<in> set (freeList s c). \<not> isZeroReg r)"

lemma sum_upd_add:
  fixes f g :: "nat \<Rightarrow> 'a::comm_monoid_add"
  assumes "k < N" and "\<And>t. t \<noteq> k \<Longrightarrow> g t = f t"
  shows "(\<Sum>t<N. g t) + f k = (\<Sum>t<N. f t) + g k"
proof -
  have k: "k \<in> {..<N}" "finite {..<N}" using assms(1) by auto
  have "(\<Sum>t \<in> {..<N} - {k}. g t) = (\<Sum>t \<in> {..<N} - {k}. f t)" using assms(2) by (intro sum.cong) auto
  then show ?thesis
    by (simp add: sum.remove[OF k(2,1), of g] sum.remove[OF k(2,1), of f] ac_simps)
qed

lemma chain_append: "chain (xs @ ys) m \<Longrightarrow> chain xs m"
  by (induction xs arbitrary: m) (auto simp: Let_def split: if_splits)

text \<open>What a thread changes of the registers of a class is balanced by its share.\<close>

definition share :: "rename_state \<Rightarrow> thread_id \<Rightarrow> reg_class \<Rightarrow> phys_reg_id multiset" where
  "share s t c = mset (arch_of (renameMap s t) c) + hist_prevs c (historyBuffer s t)"

lemma all_regs_share: "all_regs N s c = mset (freeList s c) + (\<Sum>t<N. share s t c)"
  by (simp add: all_regs_def share_def)

lemma all_regs_balance:
  assumes "k < N" and "\<And>t. t \<noteq> k \<Longrightarrow> share s' t c = share s t c"
    and "mset (freeList s' c) + share s' k c = mset (freeList s c) + share s k c"
  shows "all_regs N s' c = all_regs N s c"
proof -
  have "(\<Sum>t<N. share s' t c) + share s k c = (\<Sum>t<N. share s t c) + share s' k c"
    using assms(1,2) by (rule sum_upd_add)
  note sum = this
  have "all_regs N s' c + share s k c = mset (freeList s' c) + ((\<Sum>t<N. share s' t c) + share s k c)"
    unfolding all_regs_share by (simp only: add.assoc)
  also have "\<dots> = (mset (freeList s' c) + share s' k c) + (\<Sum>t<N. share s t c)"
    unfolding sum by (simp only: ac_simps)
  also have "\<dots> = all_regs N s c + share s k c"
    unfolding assms(3) all_regs_share by (simp only: ac_simps)
  finally show ?thesis by simp
qed

text \<open>A free register is mapped nowhere.\<close>

lemma free_not_mapped:
  assumes wf: "rename_wf N s" and k: "k < N" and r: "r \<in> set (freeList s c)"
  shows "r \<notin># share s k c"
proof
  assume "r \<in># share s k c"
  then have a: "1 \<le> count (share s k c) r" by simp
  have b: "1 \<le> count (mset (freeList s c)) r" using r by (simp add: Suc_le_eq count_greater_zero_iff)
  have e: "(\<Sum>t<N. share s t c) = share s k c + (\<Sum>t \<in> {..<N} - {k}. share s t c)"
    using k by (simp add: sum.remove)
  have "count (all_regs N s c) r =
      count (mset (freeList s c)) r + (count (share s k c) r + count (\<Sum>t \<in> {..<N} - {k}. share s t c) r)"
    unfolding all_regs_share e by (simp only: count_union)
  with a b have "2 \<le> count (all_regs N s c) r" by linarith
  moreover have "\<not> isZeroReg r" using wf r by (auto simp: rename_wf_def)
  then have "count (all_regs N s c) r \<le> 1" using wf by (simp add: rename_wf_def)
  ultimately show False by simp
qed

lemma renameDestReg_effect:
  assumes "renameDestReg flatten tid p d (h, s) = Some (h', s')"
  obtains dest new prev m fl sb where "vec_get (si_destRegIdx (staticInst (h p))) d = Some dest"
    and "um_rename (flatten dest) (renameMap s tid, freeList s) = Some ((new, prev), m, fl)"
    and "renameMap s' = (renameMap s)(tid := m)" and "freeList s' = fl"
    and "historyBuffer s' = (historyBuffer s)(tid := \<lparr>hb_instSeqNum = seqNum (h p), hb_archReg = flatten dest,
              hb_newPhysReg = new, hb_prevPhysReg = prev\<rparr> # historyBuffer s tid)"
    and "regToProducerInst s' = (regToProducerInst s)(flatIndex new := Some p)"
    and "seqNum (h' p) = seqNum (h p) \<and> staticInst (h' p) = staticInst (h p) \<and> status (h' p) = status (h p) \<and>
         (\<forall>q. q \<noteq> p \<longrightarrow> h' q = h q)"
    and "sb_unsetReg new (scoreboard s) = Some sb" and "scoreboard s' = sb"
  using assms by (auto simp: renameDestReg_def Let_def split: prod.splits)

lemma count_mset_update:
  "i < length l \<Longrightarrow> mset (l[i := x]) + {#l ! i#} = mset l + {#x#}"
  by (simp add: mset_update)

lemma wf_class: "rename_wf N s \<Longrightarrow> t < N \<Longrightarrow> classes_ok (renameMap s t) (freeList s)"
  and wf_zero: "rename_wf N s \<Longrightarrow> t < N \<Longrightarrow> zero_ok (renameMap s t)"
  and wf_chain: "rename_wf N s \<Longrightarrow> t < N \<Longrightarrow> chain (historyBuffer s t) (renameMap s t)"
  by (simp_all add: rename_wf_def)

lemma prev_not_free:
  assumes wf: "rename_wf N s" and t: "t < N" and i: "i < length (arch_of (renameMap s t) c)"
  shows "arch_of (renameMap s t) c ! i \<notin> set (freeList s c)"
  using free_not_mapped[OF wf t, of "arch_of (renameMap s t) c ! i" c] i by (auto simp: share_def)

lemma classes_ok_set_arch:
  "classes_ok m fl \<Longrightarrow> regClass r = c \<Longrightarrow> classes_ok (set_arch c i r m) fl"
  by (auto simp: classes_ok_def arch_of_set_arch dest!: subsetD[OF set_update_subset_insert])

lemma classes_ok_free:
  "classes_ok m fl \<Longrightarrow> (\<And>c. set (fl' c) \<subseteq> set (fl c)) \<Longrightarrow> classes_ok m fl'"
  unfolding classes_ok_def by blast

lemma wf_from_conserved:
  assumes wf: "rename_wf N s" and all: "\<And>c. all_regs N s' c = all_regs N s c"
    and loc: "\<And>t. t < N \<Longrightarrow> classes_ok (renameMap s' t) (freeList s') \<and> zero_ok (renameMap s' t) \<and>
       chain (historyBuffer s' t) (renameMap s' t)"
    and nz: "\<And>c r. r \<in> set (freeList s' c) \<Longrightarrow> \<not> isZeroReg r"
  shows "rename_wf N s'"
  using assms unfolding rename_wf_def by simp

lemma renameDestReg_conserves:
  assumes wf: "rename_wf N s" and t: "tid < N"
    and run: "renameDestReg flatten tid p d (h, s) = Some (h', s')"
    and ve: "\<And>r. r \<in> set (si_destRegIdx (staticInst (h p))) \<Longrightarrow> scalar_reg (flatten r)"
  shows "(\<forall>c. all_regs N s' c = all_regs N s c) \<and> rename_wf N s'"
proof -
  obtain dest new prev m fl where d: "vec_get (si_destRegIdx (staticInst (h p))) d = Some dest"
    and ren: "um_rename (flatten dest) (renameMap s tid, freeList s) = Some ((new, prev), m, fl)"
    and s': "renameMap s' = (renameMap s)(tid := m)" "freeList s' = fl"
      "historyBuffer s' = (historyBuffer s)(tid := \<lparr>hb_instSeqNum = seqNum (h p), hb_archReg = flatten dest,
              hb_newPhysReg = new, hb_prevPhysReg = prev\<rparr> # historyBuffer s tid)"
    using renameDestReg_effect[OF run] by metis
  let ?e = "\<lparr>hb_instSeqNum = seqNum (h p), hb_archReg = flatten dest, hb_newPhysReg = new, hb_prevPhysReg = prev\<rparr>"
  from d ve have sc: "scalar_reg (flatten dest)" by (auto simp: vec_get_eq_Some)
  then have cne: "regClass (flatten dest) \<noteq> VecElemClass" by (simp add: scalar_reg_def)
  note ok = wf_class[OF wf] and ch = wf_chain[OF wf]
  have other: "share s' k c = share s k c" if "k \<noteq> tid" for k c
    using that s' by (simp add: share_def)
  from ren show ?thesis
  proof (cases rule: um_rename_cases)
    case fixed
    then have "\<not> changed ?e" by (simp add: changed_def)
    with fixed s' have "share s' tid c = share s tid c" "freeList s' = freeList s" for c
      by (simp_all add: share_def hist_prevs_def)
    then have all: "all_regs N s' c = all_regs N s c" for c
      using all_regs_balance[OF t other] by simp
    have "chain (historyBuffer s' k) (renameMap s' k)" "renameMap s' k = renameMap s k" if "k < N" for k
      using ch[OF that] s' fixed \<open>\<not> changed ?e\<close> by (cases "k = tid"; simp)+
    with all ok wf \<open>freeList s' = freeList s\<close> show ?thesis
      by (auto intro!: wf_from_conserved[OF wf] simp: rename_wf_def)
  next
    case renamed
    let ?c = "regClass (flatten dest)" and ?i = "reg_index (flatten dest)"
    have nf: "prev \<notin> set (freeList s ?c)" using prev_not_free[OF wf t renamed(3)] renamed(4) by simp
    then have ce: "changed ?e" using renamed(5) by (auto simp: changed_def)
    have "new \<in> set (freeList s ?c)" using renamed(5) by simp
    then have nz: "\<not> isZeroReg new" "\<not> isZeroReg prev"
      using wf zero_ok_renamed[OF wf_zero[OF wf t] sc renamed(3,8)] renamed(4)
      by (auto simp: rename_wf_def)
    have cl: "regClass prev = ?c" "regClass new = ?c"
      using ok[OF t] renamed(3,4,5) by (auto simp: classes_ok_def)
    have fr: "freeList s' c = (if c = ?c then tl (freeList s c) else freeList s c)" for c
      using s'(2) renamed(5) fun_cong[OF renamed(6), of c] by (cases "c = ?c") auto
    have "mset (freeList s' c) + share s' tid c = mset (freeList s c) + share s tid c" for c
    proof (cases "c = ?c")
      case True
      have "mset (freeList s c) = {#new#} + mset (freeList s' c)" using renamed(5) s'(2) True by simp
      moreover have "mset (arch_of (renameMap s' tid) c) + {#prev#} = mset (arch_of (renameMap s tid) c) + {#new#}"
        using True s'(1) renamed(3,4,7) count_mset_update[OF renamed(3)] by (simp add: arch_of_set_arch)
      moreover have "hist_prevs c (historyBuffer s' tid) = {#prev#} + hist_prevs c (historyBuffer s tid)"
        using True s'(3) ce cl by (simp add: hist_prevs_def)
      ultimately show ?thesis unfolding share_def by (simp add: ac_simps)
    next
      case False
      with fr s' renamed(7) cl show ?thesis
        by (simp add: share_def arch_of_set_arch hist_prevs_def)
    qed
    then have all: "all_regs N s' c = all_regs N s c" for c using all_regs_balance[OF t other] by blast
    have sub: "set (freeList s' c) \<subseteq> set (freeList s c)" for c
      using fr[of c] by (cases "freeList s c") (auto split: if_splits)
    have "classes_ok (renameMap s' k) (freeList s') \<and> zero_ok (renameMap s' k) \<and>
        chain (historyBuffer s' k) (renameMap s' k)" if k: "k < N" for k
    proof (cases "k = tid")
      case True
      have "chain (?e # historyBuffer s tid) m"
        using ce ch[OF t] cl renamed cne nz by (simp add: arch_of_set_arch set_arch_back Let_def)
      moreover have "zero_ok m" using zero_ok_set_arch[OF wf_zero[OF wf t] nz(1)] renamed(7) by simp
      moreover have "classes_ok m (freeList s')"
        using classes_ok_free[OF classes_ok_set_arch[OF ok[OF t] cl(2)] sub] renamed(7) by simp
      ultimately show ?thesis using True s' by simp
    next
      case False
      with s' ch[OF k] wf_zero[OF wf k] classes_ok_free[OF ok[OF k] sub] show ?thesis by simp
    qed
    moreover have "\<not> isZeroReg r" if "r \<in> set (freeList s' c)" for c r
      using that sub[of c] wf unfolding rename_wf_def by blast
    ultimately show ?thesis using all wf_from_conserved[OF wf all] by blast
  qed
qed

text \<open>Undoing the newest entry of a history, and committing the oldest, move registers only.\<close>

lemma undo_entry_chain:
  assumes ch: "chain (e # es) m"
  obtains m' fl' where "undo_entry e (m, fl) = Some (m', fl')" and "chain es m'"
    and "changed e \<Longrightarrow> m' = set_arch (regClass (hb_archReg e)) (reg_index (hb_archReg e)) (hb_prevPhysReg e) m"
    and "fl' = (if changed e then fl(regClass (hb_newPhysReg e) := fl (regClass (hb_newPhysReg e)) @ [hb_newPhysReg e]) else fl)"
    and "\<not> changed e \<Longrightarrow> m' = m"
proof (cases "changed e")
  case True
  let ?a = "hb_archReg e"
  from ch True have c: "regClass ?a \<noteq> MiscRegClass" "regClass ?a \<noteq> VecElemClass" "mode_ok m (regClass ?a)"
    "reg_index ?a < length (arch_of m (regClass ?a))" "regClass (hb_newPhysReg e) = regClass ?a"
    "regClass (hb_prevPhysReg e) = regClass ?a"
    "chain es (set_arch (regClass ?a) (reg_index ?a) (hb_prevPhysReg e) m)"
    by (auto simp: Let_def)
  with True that show ?thesis
    using um_setEntry_set_arch[of ?a "hb_prevPhysReg e" m]
    by (simp add: undo_entry_def changed_def addReg_def)
next
  case False
  with ch that show ?thesis by (simp add: undo_entry_def changed_def)
qed

definition undone :: "rename_state \<Rightarrow> thread_id \<Rightarrow> rename_history list \<Rightarrow> unified_rename_map \<Rightarrow> free_list \<Rightarrow> rename_state" where
  "undone s tid hb m fl =
     s\<lparr>renameMap := (renameMap s)(tid := m), freeList := fl, historyBuffer := (historyBuffer s)(tid := hb)\<rparr>"

lemma undo_entry_conserves:
  assumes wf: "rename_wf N s" and t: "tid < N" and hb: "historyBuffer s tid = e # es"
    and run: "undo_entry e (renameMap s tid, freeList s) = Some (m, fl)"
  shows "(\<forall>c. all_regs N (undone s tid es m fl) c = all_regs N s c) \<and> rename_wf N (undone s tid es m fl)"
proof -
  let ?s = "undone s tid es m fl" and ?n = "hb_newPhysReg e" and ?p = "hb_prevPhysReg e" and ?a = "hb_archReg e"
  note ch = wf_chain[OF wf t, unfolded hb]
  have u: "chain es m"
    "changed e \<Longrightarrow> m = set_arch (regClass ?a) (reg_index ?a) ?p (renameMap s tid)"
    "fl = (if changed e then (freeList s)(regClass ?n := freeList s (regClass ?n) @ [?n]) else freeList s)"
    "\<not> changed e \<Longrightarrow> m = renameMap s tid"
    using undo_entry_chain[OF ch, of "freeList s"] run by fastforce+
  have f: "renameMap ?s = (renameMap s)(tid := m)" "freeList ?s = fl" "historyBuffer ?s = (historyBuffer s)(tid := es)"
    by (simp_all add: undone_def)
  have other: "share ?s k c = share s k c" if "k \<noteq> tid" for k c using that f by (simp add: share_def)
  show ?thesis
  proof (cases "changed e")
    case False
    then have "share ?s tid c = share s tid c" "freeList ?s = freeList s" for c
      using u f hb by (simp_all add: share_def hist_prevs_def)
    then have all: "all_regs N ?s c = all_regs N s c" for c using all_regs_balance[OF t other] by simp
    have "classes_ok (renameMap ?s k) (freeList ?s) \<and> zero_ok (renameMap ?s k) \<and>
        chain (historyBuffer ?s k) (renameMap ?s k)" if "k < N" for k
      using wf_class[OF wf that] wf_zero[OF wf that] wf_chain[OF wf that] u False f by (cases "k = tid") auto
    moreover have "\<not> isZeroReg r" if "r \<in> set (freeList ?s c)" for c r
      using that wf \<open>freeList ?s = freeList s\<close> by (auto simp: rename_wf_def)
    ultimately show ?thesis using all wf_from_conserved[OF wf all] by blast
  next
    case True
    let ?c = "regClass ?a"
    from ch True have c: "reg_index ?a < length (arch_of (renameMap s tid) ?c)"
      "arch_of (renameMap s tid) ?c ! reg_index ?a = ?n" "regClass ?n = ?c" "regClass ?p = ?c"
      "\<not> isZeroReg ?n" "\<not> isZeroReg ?p"
      by (auto simp: Let_def)
    have "mset (freeList ?s d) + share ?s tid d = mset (freeList s d) + share s tid d" for d
    proof (cases "d = ?c")
      case d: True
      have "mset (arch_of (renameMap ?s tid) d) + {#?n#} = mset (arch_of (renameMap s tid) d) + {#?p#}"
        using d f(1) u(2)[OF True] c count_mset_update[OF c(1), of ?p] by (simp add: arch_of_set_arch)
      moreover have "hist_prevs d (historyBuffer s tid) = {#?p#} + hist_prevs d (historyBuffer ?s tid)"
        using d f(3) hb True c by (simp add: hist_prevs_def)
      moreover have "mset (freeList ?s d) = mset (freeList s d) + {#?n#}" using d f(2) u(3) True c by simp
      ultimately show ?thesis unfolding share_def by (simp add: ac_simps)
    next
      case False
      then show ?thesis using f u(2)[OF True] u(3) True c hb
        by (simp add: share_def arch_of_set_arch hist_prevs_def)
    qed
    then have all: "all_regs N ?s d = all_regs N s d" for d using all_regs_balance[OF t other] by blast
    have cok: "classes_ok M fl" if "classes_ok M (freeList s)" for M
      using that u(3) True c by (auto simp: classes_ok_def)
    have "classes_ok (renameMap ?s k) (freeList ?s) \<and> zero_ok (renameMap ?s k) \<and>
        chain (historyBuffer ?s k) (renameMap ?s k)" if k: "k < N" for k
      using wf_class[OF wf k] wf_zero[OF wf k] zero_ok_set_arch[OF wf_zero[OF wf t] c(6)] wf_chain[OF wf k] u(1) u(2)[OF True] f
        cok[OF classes_ok_set_arch[OF wf_class[OF wf t] c(4)]] cok by (cases "k = tid") auto
    moreover have "\<not> isZeroReg r" if r: "r \<in> set (freeList ?s d)" for d r
      using r f(2) u(3) True c(5) wf by (auto simp: rename_wf_def split: if_splits)
    ultimately show ?thesis using all wf_from_conserved[OF wf all] by blast
  qed
qed

lemma undone_simps [simp]:
  "renameMap (undone s tid hb m fl) tid = m" "freeList (undone s tid hb m fl) = fl"
  "historyBuffer (undone s tid hb m fl) tid = hb"
  "undone (undone s tid hb m fl) tid hb' m' fl' = undone s tid hb' m' fl'"
  by (simp_all add: undone_def)

lemma undo_loop_conserves:
  assumes "rename_wf N s" and "tid < N" and "historyBuffer s tid = es"
  shows "\<exists>m fl. undo_loop sn es (renameMap s tid, freeList s) = Some (dropWhile (\<lambda>e. hb_instSeqNum e > sn) es, m, fl) \<and>
     (\<forall>c. all_regs N (undone s tid (dropWhile (\<lambda>e. hb_instSeqNum e > sn) es) m fl) c = all_regs N s c) \<and>
     rename_wf N (undone s tid (dropWhile (\<lambda>e. hb_instSeqNum e > sn) es) m fl)"
  using assms
proof (induction es arbitrary: s)
  case Nil
  then have "undone s tid [] (renameMap s tid) (freeList s) = s" by (simp add: undone_def fun_upd_idem)
  with Nil show ?case by auto
next
  case (Cons e es)
  show ?case
  proof (cases "hb_instSeqNum e > sn")
    case True
    obtain m fl where u: "undo_entry e (renameMap s tid, freeList s) = Some (m, fl)"
      using undo_entry_chain[OF wf_chain[OF Cons.prems(1,2), unfolded Cons.prems(3)]] by metis
    let ?s = "undone s tid es m fl"
    have c: "\<And>c. all_regs N ?s c = all_regs N s c" and w: "rename_wf N ?s"
      using undo_entry_conserves[OF Cons.prems u] by auto
    from Cons.IH[OF w Cons.prems(2)] c u True show ?thesis by auto
  next
    case False
    then have "undone s tid (e # es) (renameMap s tid) (freeList s) = s"
      using Cons.prems(3) by (simp add: undone_def fun_upd_idem)
    with False Cons.prems show ?thesis by auto
  qed
qed

lemma chain_last:
  "chain (xs @ [e]) m \<Longrightarrow> changed e \<Longrightarrow>
   regClass (hb_prevPhysReg e) \<noteq> MiscRegClass \<and> \<not> isZeroReg (hb_prevPhysReg e)"
  by (induction xs arbitrary: m) (auto simp: Let_def split: if_splits)

definition committed :: "rename_state \<Rightarrow> thread_id \<Rightarrow> rename_history list \<Rightarrow> free_list \<Rightarrow> rename_state" where
  "committed s tid hb fl = s\<lparr>freeList := fl, historyBuffer := (historyBuffer s)(tid := hb)\<rparr>"

lemma committed_simps [simp]:
  "freeList (committed s tid hb fl) = fl" "historyBuffer (committed s tid hb fl) = (historyBuffer s)(tid := hb)"
  "renameMap (committed s tid hb fl) = renameMap s"
  "committed (committed s tid hb fl) tid hb' fl' = committed s tid hb' fl'"
  by (simp_all add: committed_def)

lemma commit_entry_conserves:
  assumes wf: "rename_wf N s" and t: "tid < N" and hb: "historyBuffer s tid = es @ [e]"
  shows "\<exists>fl. (if hb_newPhysReg e \<noteq> hb_prevPhysReg e then addReg (hb_prevPhysReg e) (freeList s) else Some (freeList s)) = Some fl \<and>
     (\<forall>c. all_regs N (committed s tid es fl) c = all_regs N s c) \<and> rename_wf N (committed s tid es fl)"
proof -
  let ?p = "hb_prevPhysReg e"
  define fl where "fl = (if changed e then (freeList s)(regClass ?p := freeList s (regClass ?p) @ [?p]) else freeList s)"
  let ?s = "committed s tid es fl"
  note ch = wf_chain[OF wf t, unfolded hb]
  have p: "changed e \<Longrightarrow> regClass ?p \<noteq> MiscRegClass \<and> \<not> isZeroReg ?p" using chain_last[OF ch] .
  have run: "(if hb_newPhysReg e \<noteq> ?p then addReg ?p (freeList s) else Some (freeList s)) = Some fl"
    using p by (auto simp: fl_def changed_def addReg_def)
  have other: "share ?s k c = share s k c" if "k \<noteq> tid" for k c using that by (simp add: share_def)
  have "mset (freeList ?s c) + share ?s tid c = mset (freeList s c) + share s tid c" for c
    using hb by (auto simp: share_def hist_prevs_def fl_def)
  then have all: "all_regs N ?s c = all_regs N s c" for c using all_regs_balance[OF t other] by blast
  have "classes_ok M fl" if "classes_ok M (freeList s)" for M
    using that by (auto simp: classes_ok_def fl_def)
  then have "classes_ok (renameMap ?s k) (freeList ?s) \<and> zero_ok (renameMap ?s k) \<and>
      chain (historyBuffer ?s k) (renameMap ?s k)" if "k < N" for k
    using wf_class[OF wf that] wf_zero[OF wf that] wf_chain[OF wf that] chain_append[OF ch]
    by (cases "k = tid") auto
  moreover have "\<not> isZeroReg r" if "r \<in> set (freeList ?s c)" for c r
    using that p wf by (auto simp: rename_wf_def fl_def split: if_splits)
  ultimately have "rename_wf N ?s" using wf_from_conserved[OF wf all] by blast
  with run all show ?thesis by blast
qed

lemma commit_loop_conserves:
  assumes "rename_wf N s" and "tid < N" and "rev (historyBuffer s tid) = es"
  shows "\<exists>fl. commit_loop sn es (freeList s) = Some (dropWhile (\<lambda>e. hb_instSeqNum e \<le> sn) es, fl) \<and>
     (\<forall>c. all_regs N (committed s tid (rev (dropWhile (\<lambda>e. hb_instSeqNum e \<le> sn) es)) fl) c = all_regs N s c) \<and>
     rename_wf N (committed s tid (rev (dropWhile (\<lambda>e. hb_instSeqNum e \<le> sn) es)) fl)"
  using assms
proof (induction es arbitrary: s)
  case Nil
  then have "committed s tid [] (freeList s) = s" by (simp add: committed_def fun_upd_idem)
  with Nil show ?case by auto
next
  case (Cons e es)
  have hb: "historyBuffer s tid = rev es @ [e]" using Cons.prems(3) by (metis rev.simps(2) rev_rev_ident)
  show ?case
  proof (cases "hb_instSeqNum e \<le> sn")
    case True
    obtain fl where u: "(if hb_newPhysReg e \<noteq> hb_prevPhysReg e then addReg (hb_prevPhysReg e) (freeList s)
        else Some (freeList s)) = Some fl"
      and c: "\<And>c. all_regs N (committed s tid (rev es) fl) c = all_regs N s c"
      and w: "rename_wf N (committed s tid (rev es) fl)"
      using commit_entry_conserves[OF Cons.prems(1,2) hb] by blast
    from Cons.IH[OF w Cons.prems(2)] c True show ?thesis by (simp add: u)
  next
    case False
    then have "committed s tid (rev (e # es)) (freeList s) = s"
      using hb by (simp add: committed_def fun_upd_idem)
    with False Cons.prems show ?thesis by auto
  qed
qed

end
