(* ===== verification/Rename_Props.thy ===== *)
theory Rename_Props
  imports Rename O3_Examples
begin

text \<open>
  The properties of renaming: physical registers are conserved, a squash restores the map, a
  renamed register is found by a lookup, and the taint of ready sources. Two behaviours of the
  code that differ from its intent are stated as theorems: renaming of vector elements and the
  producer table under miscellaneous destinations.
\<close>

section \<open>Conservation\<close>

definition dests_scalar :: "(reg_id \<Rightarrow> reg_id) \<Rightarrow> dyn_inst \<Rightarrow> bool" where
  "dests_scalar flatten i \<longleftrightarrow> (\<forall>r \<in> set (si_destRegIdx (staticInst i)). scalar_reg (flatten r))"

lemma foldM_dest_conserves:
  assumes "rename_wf N s" and "tid < N" and "dests_scalar flatten (h p)"
    and "foldM (renameDestReg flatten tid p) ds (h, s) = Some (h', s')"
  shows "(\<forall>c. all_regs N s' c = all_regs N s c) \<and> rename_wf N s'"
  using assms
proof (induction ds arbitrary: h s)
  case (Cons d ds)
  then obtain h1 s1 where r: "renameDestReg flatten tid p d (h, s) = Some (h1, s1)"
    "foldM (renameDestReg flatten tid p) ds (h1, s1) = Some (h', s')" by auto
  from Cons.prems(3) have sc: "\<And>r. r \<in> set (si_destRegIdx (staticInst (h p))) \<Longrightarrow> scalar_reg (flatten r)"
    by (simp add: dests_scalar_def)
  have "staticInst (h1 p) = staticInst (h p)" using renameDestReg_effect[OF r(1)] by metis
  with Cons.prems(3) have "dests_scalar flatten (h1 p)" by (simp add: dests_scalar_def)
  with Cons.IH[of s1 h1] r(2) renameDestReg_conserves[OF Cons.prems(1,2) r(1) sc] Cons.prems(2)
  show ?case by auto
qed simp

text \<open>The operations of the stage that move physical registers.\<close>

inductive rename_step :: "nat \<Rightarrow> (reg_id \<Rightarrow> reg_id) \<Rightarrow> rename_state \<Rightarrow> rename_state \<Rightarrow> bool"
  for N flatten where
  rename_inst: "tid < N \<Longrightarrow> dests_scalar flatten (h p) \<Longrightarrow>
     renameDestRegs flatten tid p (h, s) = Some (h', s') \<Longrightarrow> rename_step N flatten s s'"
| rename_squash: "tid < N \<Longrightarrow> rename_doSquash sn tid s = Some s' \<Longrightarrow> rename_step N flatten s s'"
| rename_commit: "tid < N \<Longrightarrow> removeFromHistory sn tid s = Some s' \<Longrightarrow> rename_step N flatten s s'"

text \<open>
  C10: renaming an instruction that has no vector element among its destinations, squashing and committing never lose, duplicate or invent a physical
  register: the registers that are free, mapped by a thread or held by a history entry are the
  same multiset before and after, and the free lists stay disjoint from what is mapped. A vector element is excluded: its rename and its lookup use different
  places of the map.
\<close>

theorem physical_registers_conserved:
  assumes "rename_step N flatten s s'" and "rename_wf N s"
  shows "(\<forall>c. all_regs N s' c = all_regs N s c) \<and> rename_wf N s'"
  using assms(1)
proof (cases rule: rename_step.cases)
  case (rename_inst tid h p h')
  then show ?thesis
    using foldM_dest_conserves[where h = h and p = p, OF assms(2) rename_inst(1,2)]
    by (simp add: renameDestRegs_def)
next
  case (rename_squash tid sn)
  obtain hb m fl where u: "undo_loop sn (historyBuffer s tid) (renameMap s tid, freeList s) = Some (hb, m, fl)"
    "\<forall>c. all_regs N (undone s tid hb m fl) c = all_regs N s c" "rename_wf N (undone s tid hb m fl)"
    using undo_loop_conserves[OF assms(2) rename_squash(1) refl] by blast
  then have "s' = undone s tid hb m fl" using rename_squash(2) by (simp add: rename_doSquash_def undone_def)
  with u show ?thesis by simp
next
  case (rename_commit tid sn)
  obtain hb fl where u: "commit_loop sn (rev (historyBuffer s tid)) (freeList s) = Some (hb, fl)"
    "\<forall>c. all_regs N (committed s tid (rev hb) fl) c = all_regs N s c" "rename_wf N (committed s tid (rev hb) fl)"
    using commit_loop_conserves[OF assms(2) rename_commit(1) refl] by blast
  then have "s' = committed s tid (rev hb) fl" using rename_commit(2) by (simp add: removeFromHistory_def committed_def)
  with u show ?thesis by simp
qed

text \<open>One integer register renamed on a machine with two free physical registers.\<close>

definition ex_map :: unified_rename_map where
  "ex_map = \<lparr>class_map = (\<lambda>c. \<lparr>arch_map = (if c = IntRegClass then [phys_reg IntRegClass 0 0] else []),
      zeroReg = \<lparr>regClass = IntRegClass, regIdx = ZeroReg, elemIdx = -1\<rparr>\<rparr>), vecMode = Full\<rparr>"

definition ex_rename :: rename_state where
  "ex_rename = \<lparr>renameMap = (\<lambda>_. ex_map),
     freeList = (\<lambda>c. if c = IntRegClass then [phys_reg IntRegClass 1 1, phys_reg IntRegClass 2 2] else []),
     scoreboard = [True, True, True], historyBuffer = (\<lambda>_. []), regToProducerInst = (\<lambda>_. None)\<rparr>"

definition ex_int :: reg_id where "ex_int = \<lparr>regClass = IntRegClass, regIdx = 0, elemIdx = -1\<rparr>"

lemma ex_rename_wf: "rename_wf 1 ex_rename"
proof -
  have "count (all_regs 1 ex_rename c) r \<le> 1" for c r
    by (cases "c = IntRegClass") (auto simp: all_regs_def hist_prevs_def ex_rename_def ex_map_def phys_reg_def)
  then show ?thesis
    by (auto simp: rename_wf_def classes_ok_def zero_ok_def ex_rename_def ex_map_def phys_reg_def isZeroReg_def ZeroReg_def)
qed

definition ex_dest_inst :: dyn_inst where
  "ex_dest_inst = (ex_inst 5 {} {})\<lparr>staticInst := (ex_si {})\<lparr>si_numDestRegs := 1, si_destRegIdx := [ex_int]\<rparr>\<rparr>"

lemmas ex_rename_defs = ex_rename_def ex_map_def ex_int_def ex_dest_inst_def ex_inst_def ex_si_def

lemma ex_rename_run:
  "\<exists>h' s'. renameDestRegs id 0 7 (\<lambda>_. ex_dest_inst, ex_rename) = Some (h', s') \<and>
     arch_of (renameMap s' 0) IntRegClass = [phys_reg IntRegClass 1 1] \<and>
     map hb_instSeqNum (historyBuffer s' 0) = [5]"
  by (simp add: renameDestRegs_def renameDestReg_def ex_rename_defs um_rename_def simple_rename_def mode_ok_def
      reg_index_def getReg_def sb_unsetReg_def flatIndex_def phys_reg_def isFixedMapping_def isZeroReg_def
      ZeroReg_def vec_get_def vec_set_def)

lemma ex_dest_seq: "seqNum ex_dest_inst = 5"
  by (simp add: ex_dest_inst_def ex_inst_def)

lemma ex_scalar: "dests_scalar id ex_dest_inst"
  by (simp add: dests_scalar_def scalar_reg_def ex_dest_inst_def ex_int_def)

theorem physical_registers_conserved_witness:
  "\<exists>s'. rename_step 1 id ex_rename s' \<and> all_regs 1 s' IntRegClass = all_regs 1 ex_rename IntRegClass \<and>
     arch_of (renameMap s' 0) IntRegClass = [phys_reg IntRegClass 1 1]"
proof -
  obtain h' s' where r: "renameDestRegs id 0 7 (\<lambda>_. ex_dest_inst, ex_rename) = Some (h', s')"
    "arch_of (renameMap s' 0) IntRegClass = [phys_reg IntRegClass 1 1]" using ex_rename_run by blast
  have "rename_step 1 id ex_rename s'"
    by (rule rename_inst[OF _ _ r(1)]) (simp_all add: ex_scalar)
  with physical_registers_conserved[OF this ex_rename_wf] r(2) show ?thesis by blast
qed

section \<open>Rollback\<close>

text \<open>Undoing the entries that one instruction added, on any free list with the same registers.\<close>

lemma rename_dests_undo:
  assumes "rename_wf N s" and "tid < N" and "dests_scalar flatten (h p)"
    and "foldM (renameDestReg flatten tid p) ds (h, s) = Some (h', s')" and "sn < seqNum (h p)"
    and "\<And>c. mset (g c) = mset (freeList s' c)"
  shows "\<exists>es g'. historyBuffer s' tid = es @ historyBuffer s tid \<and>
     (\<forall>rest. undo_loop sn (es @ rest) (renameMap s' tid, g) = undo_loop sn rest (renameMap s tid, g')) \<and>
     (\<forall>c. mset (g' c) = mset (freeList s c))"
  using assms
proof (induction ds arbitrary: h s)
  case Nil
  then show ?case by (intro exI[of _ "[]"] exI[of _ g]) auto
next
  case (Cons d ds)
  then obtain h1 s1 where r: "renameDestReg flatten tid p d (h, s) = Some (h1, s1)"
    "foldM (renameDestReg flatten tid p) ds (h1, s1) = Some (h', s')" by auto
  from Cons.prems(3) have sc: "\<And>r. r \<in> set (si_destRegIdx (staticInst (h p))) \<Longrightarrow> scalar_reg (flatten r)"
    by (simp add: dests_scalar_def)
  obtain dest new prev m fl where ef: "vec_get (si_destRegIdx (staticInst (h p))) d = Some dest"
    "um_rename (flatten dest) (renameMap s tid, freeList s) = Some ((new, prev), m, fl)"
    "renameMap s1 = (renameMap s)(tid := m)" "freeList s1 = fl"
    "historyBuffer s1 = (historyBuffer s)(tid := \<lparr>hb_instSeqNum = seqNum (h p), hb_archReg = flatten dest,
              hb_newPhysReg = new, hb_prevPhysReg = prev\<rparr> # historyBuffer s tid)"
    "seqNum (h1 p) = seqNum (h p)" "staticInst (h1 p) = staticInst (h p)"
    using renameDestReg_effect[OF r(1)] by metis
  let ?e = "\<lparr>hb_instSeqNum = seqNum (h p), hb_archReg = flatten dest, hb_newPhysReg = new, hb_prevPhysReg = prev\<rparr>"
  have w1: "rename_wf N s1" using renameDestReg_conserves[OF Cons.prems(1,2) r(1) sc] by blast
  have sc1: "dests_scalar flatten (h1 p)" using Cons.prems(3) ef(7) by (simp add: dests_scalar_def)
  obtain es g1 where IH: "historyBuffer s' tid = es @ historyBuffer s1 tid"
    "\<forall>rest. undo_loop sn (es @ rest) (renameMap s' tid, g) = undo_loop sn rest (renameMap s1 tid, g1)"
    "\<forall>c. mset (g1 c) = mset (freeList s1 c)"
    using Cons.IH[OF w1 Cons.prems(2) sc1 r(2)] Cons.prems(5,6) ef(6) by auto
  have cl: "regClass (flatten dest) \<noteq> VecElemClass" using ef(1) sc by (auto simp: vec_get_eq_Some scalar_reg_def)
  have "prev \<notin> set (freeList s (regClass (flatten dest))) \<or> (m = renameMap s tid \<and> new = prev \<and> fl = freeList s)"
    using ef(2)
  proof (cases rule: um_rename_cases)
    case renamed
    with prev_not_free[OF Cons.prems(1,2) renamed(3)] show ?thesis by blast
  qed blast
  then obtain g2 where g2: "undo_entry ?e (m, g1) = Some (renameMap s tid, g2)" "\<forall>c. mset (g2 c) = mset (freeList s c)"
  proof
    assume "prev \<notin> set (freeList s (regClass (flatten dest)))"
    from undo_rename[OF ef(2) cl wf_class[OF Cons.prems(1,2)] this, of ?e g1] IH(3) ef(4) that show ?thesis by auto
  next
    assume "m = renameMap s tid \<and> new = prev \<and> fl = freeList s"
    with that[of g1] IH(3) ef(4) show ?thesis by (simp add: undo_entry_def)
  qed
  have "undo_loop sn ((es @ [?e]) @ rest) (renameMap s' tid, g) = undo_loop sn rest (renameMap s tid, g2)" for rest
    using IH(2) g2(1) ef(3) Cons.prems(5) by simp
  moreover have "historyBuffer s' tid = (es @ [?e]) @ historyBuffer s tid" using IH(1) ef(5) by simp
  ultimately show ?case using g2(2) by blast
qed

text \<open>
  C11: squashing an instruction that has no vector element among its destinations undoes its renames exactly: the thread's rename map and history are
  what they were before the instruction was renamed and every free list holds the same registers.
\<close>

theorem rename_squash_rolls_back:
  assumes "rename_wf N s" and "tid < N" and "dests_scalar flatten (h p)"
    and "renameDestRegs flatten tid p (h, s) = Some (h', s')"
    and "sn < seqNum (h p)" and "\<forall>e \<in> set (historyBuffer s tid). hb_instSeqNum e \<le> sn"
  shows "\<exists>s''. rename_doSquash sn tid s' = Some s'' \<and> renameMap s'' tid = renameMap s tid \<and>
     historyBuffer s'' tid = historyBuffer s tid \<and> (\<forall>c. mset (freeList s'' c) = mset (freeList s c))"
proof -
  have f: "foldM (renameDestReg flatten tid p) [0..<nat (numDestRegs (h p))] (h, s) = Some (h', s')"
    using assms(4) by (simp add: renameDestRegs_def)
  obtain es g' where u: "historyBuffer s' tid = es @ historyBuffer s tid"
    "\<forall>rest. undo_loop sn (es @ rest) (renameMap s' tid, freeList s') = undo_loop sn rest (renameMap s tid, g')"
    "\<forall>c. mset (g' c) = mset (freeList s c)"
    using rename_dests_undo[OF assms(1-3) f assms(5), of "freeList s'"] by blast
  have "undo_loop sn (historyBuffer s tid) (renameMap s tid, g') = Some (historyBuffer s tid, renameMap s tid, g')"
    using assms(6) by (cases "historyBuffer s tid") (auto simp: not_less)
  with u show ?thesis by (simp add: rename_doSquash_def)
qed

theorem rename_squash_rolls_back_witness:
  "\<exists>h' s' s''. renameDestRegs id 0 7 (\<lambda>_. ex_dest_inst, ex_rename) = Some (h', s') \<and>
     renameMap s' 0 \<noteq> ex_map \<and> rename_doSquash 4 0 s' = Some s'' \<and> renameMap s'' 0 = ex_map"
proof -
  obtain h' s' where r: "renameDestRegs id 0 7 (\<lambda>_. ex_dest_inst, ex_rename) = Some (h', s')"
    "arch_of (renameMap s' 0) IntRegClass = [phys_reg IntRegClass 1 1]" using ex_rename_run by blast
  have "renameMap s' 0 \<noteq> ex_map" using r(2) by (auto simp: ex_map_def phys_reg_def)
  moreover have "\<exists>s''. rename_doSquash 4 0 s' = Some s'' \<and> renameMap s'' 0 = renameMap ex_rename 0"
    using rename_squash_rolls_back[OF ex_rename_wf _ _ r(1), of 4] ex_scalar ex_dest_seq
    by (auto simp: ex_rename_def)
  moreover have "renameMap ex_rename 0 = ex_map" by (simp add: ex_rename_def)
  ultimately show ?thesis using r(1) by auto
qed

section \<open>Taint of ready sources\<close>

text \<open>
  The data inducer behind source operand \<open>k\<close> of an instruction that is renamed, if the
  operand is ready and its producer is tainted.
\<close>

definition source_inducer ::
  "(reg_id \<Rightarrow> reg_id) \<Rightarrow> thread_id \<Rightarrow> rename_state \<Rightarrow> inst_heap \<Rightarrow> iptr \<Rightarrow> nat \<Rightarrow> inst_seq_num option" where
  "source_inducer flatten tid s h p k = do {
     src \<leftarrow> vec_get (si_srcRegIdx (staticInst (h p))) k;
     r \<leftarrow> um_lookup (flatten src) (renameMap s tid);
     ready \<leftarrow> sb_getReg r (scoreboard s);
     q \<leftarrow> regToProducerInst s (flatIndex r);
     check (ready \<and> \<not> isZeroReg src \<and> threadNumber (h q) = threadNumber (h p));
     (if isDataInducer (h q) then Some (seqNum (h q))
      else if isDataRestricted (h q) then Some (ydi (h q)) else None) }"

definition absorb :: "inst_seq_num option \<Rightarrow> dyn_inst \<Rightarrow> dyn_inst \<Rightarrow> bool" where
  "absorb t i i' \<longleftrightarrow> staticInst i' = staticInst i \<and> threadNumber i' = threadNumber i \<and>
     (case t of None \<Rightarrow> ydi i' = ydi i \<and> (isDataRestricted i \<longrightarrow> isDataRestricted i')
      | Some y \<Rightarrow> isDataRestricted i' \<and> ydi i' = (if ydi i = 0 then y else max (ydi i) y))"

lemma markSrcRegReady_idx_keeps:
  "markSrcRegReady_idx k i = Some i' \<Longrightarrow> staticInst i' = staticInst i \<and> threadNumber i' = threadNumber i \<and>
     ydi i' = ydi i \<and> isDataRestricted i' = isDataRestricted i"
  by (auto simp: markSrcRegReady_idx_def markSrcRegReady_def set_status_def isDataRestricted_def Let_def split: if_splits)

lemma src_taint_absorbs:
  assumes "src_taint c h pr src r i = Some i'"
  shows "absorb (case pr (flatIndex r) of None \<Rightarrow> None | Some q \<Rightarrow>
      if \<not> isZeroReg src \<and> threadNumber (h q) = threadNumber i then
        (if isDataInducer (h q) then Some (seqNum (h q)) else if isDataRestricted (h q) then Some (ydi (h q)) else None)
      else None) i i'"
  using assms
  by (auto simp: src_taint_def absorb_def setDataRestricted_def set_status_def isDataRestricted_def
      Let_def max_def split: option.splits if_splits)

lemma renameSrcReg_absorbs:
  assumes run: "renameSrcReg c flatten tid s p k h = Some h'"
    and fresh: "\<forall>f. regToProducerInst s f \<noteq> Some p"
  shows "\<exists>i'. h' = h(p := i') \<and> absorb (source_inducer flatten tid s h p k) (h p) i'"
proof -
  obtain src r ready where g: "vec_get (si_srcRegIdx (staticInst (h p))) k = Some src"
    "um_lookup (flatten src) (renameMap s tid) = Some r" "sb_getReg r (scoreboard s) = Some ready"
    using run by (auto simp: renameSrcReg_def Let_def split: if_splits)
  let ?i = "(h p)\<lparr>srcRegIdx := (srcRegIdx (h p))(k := r)\<rparr>"
  have same: "isDataRestricted ?i = isDataRestricted (h p)" by (simp add: isDataRestricted_def)
  show ?thesis
  proof (cases ready)
    case False
    have "h' = h(p := ?i)" using run g False by (auto simp: renameSrcReg_def Let_def split: if_splits)
    moreover have "source_inducer flatten tid s h p k = None"
      using g False by (simp add: source_inducer_def split: Option.bind_splits)
    ultimately show ?thesis using same by (auto simp: absorb_def)
  next
    case True
    obtain i1 i2 where t: "markSrcRegReady_idx k ?i = Some i1"
      "src_taint c (h(p := i1)) (regToProducerInst s) src r i1 = Some i2" "h' = h(p := i2)"
      using run g True by (auto simp: renameSrcReg_def Let_def split: if_splits)
    have i1: "staticInst i1 = staticInst (h p)" "threadNumber i1 = threadNumber (h p)" "ydi i1 = ydi (h p)"
      "isDataRestricted i1 = isDataRestricted (h p)"
      using markSrcRegReady_idx_keeps[OF t(1)] same by simp_all
    have "absorb (source_inducer flatten tid s h p k) i1 i2"
      using src_taint_absorbs[OF t(2)] fresh g True i1(2)
      by (cases "regToProducerInst s (flatIndex r)") (auto simp: source_inducer_def fun_upd_apply split: if_splits)
    then have "absorb (source_inducer flatten tid s h p k) (h p) i2"
      using i1 by (auto simp: absorb_def split: option.splits)
    then show ?thesis using t(3) by blast
  qed
qed

lemma source_inducer_other:
  assumes "\<forall>f. regToProducerInst s f \<noteq> Some p" "staticInst i' = staticInst (h p)" "threadNumber i' = threadNumber (h p)"
  shows "source_inducer flatten tid s (h(p := i')) p k = source_inducer flatten tid s h p k"
  using assms by (auto simp: source_inducer_def intro!: Option.bind_cong)

lemma foldM_src_absorbs:
  assumes "foldM (renameSrcReg c flatten tid s p) ks h = Some h'" and fresh: "\<forall>f. regToProducerInst s f \<noteq> Some p"
  shows "\<exists>i'. h' = h(p := i') \<and> staticInst i' = staticInst (h p) \<and> threadNumber i' = threadNumber (h p) \<and>
     ydi (h p) \<le> ydi i' \<and> (isDataRestricted (h p) \<longrightarrow> isDataRestricted i') \<and>
     (\<forall>k \<in> set ks. \<forall>y. source_inducer flatten tid s h p k = Some y \<longrightarrow> isDataRestricted i' \<and> y \<le> ydi i') \<and>
     (ydi i' = ydi (h p) \<or> (\<exists>k \<in> set ks. source_inducer flatten tid s h p k = Some (ydi i')))"
  using assms(1)
proof (induction ks arbitrary: h)
  case Nil
  then show ?case by (intro exI[of _ "h p"]) auto
next
  case (Cons k ks)
  then obtain h1 where r: "renameSrcReg c flatten tid s p k h = Some h1"
    "foldM (renameSrcReg c flatten tid s p) ks h1 = Some h'" by auto
  obtain i1 where i1: "h1 = h(p := i1)" "absorb (source_inducer flatten tid s h p k) (h p) i1"
    using renameSrcReg_absorbs[OF r(1) fresh] by blast
  have st: "staticInst i1 = staticInst (h p)" "threadNumber i1 = threadNumber (h p)"
    using i1(2) by (simp_all add: absorb_def)
  have same: "source_inducer flatten tid s h1 p j = source_inducer flatten tid s h p j" for j
    unfolding i1(1) using fresh st by (rule source_inducer_other)
  have step: "ydi (h p) \<le> ydi i1" "isDataRestricted (h p) \<longrightarrow> isDataRestricted i1"
    "\<forall>y. source_inducer flatten tid s h p k = Some y \<longrightarrow> isDataRestricted i1 \<and> y \<le> ydi i1"
    "ydi i1 = ydi (h p) \<or> source_inducer flatten tid s h p k = Some (ydi i1)"
    using i1(2) by (auto simp: absorb_def max_def split: option.splits if_splits)
  from Cons.IH[OF r(2)] obtain i' where "h' = h1(p := i')" "staticInst i' = staticInst (h1 p)"
    "threadNumber i' = threadNumber (h1 p)" "ydi (h1 p) \<le> ydi i'" "isDataRestricted (h1 p) \<longrightarrow> isDataRestricted i'"
    "\<forall>k \<in> set ks. \<forall>y. source_inducer flatten tid s h p k = Some y \<longrightarrow> isDataRestricted i' \<and> y \<le> ydi i'"
    "ydi i' = ydi (h1 p) \<or> (\<exists>k \<in> set ks. source_inducer flatten tid s h p k = Some (ydi i'))"
    unfolding same by blast
  with step st show ?case unfolding i1(1) by (intro exI[of _ i']) fastforce
qed

text \<open>
  C12: an instruction that reads a ready register leaves rename tainted by the youngest data inducer
  behind its ready operands: it is data restricted as soon as one of its ready operands was produced
  by a data inducer or a data restricted instruction, and its recorded inducer is the youngest of
  these. No other instruction is changed.
\<close>

theorem ready_sources_taint:
  assumes "renameSrcRegs c flatten tid s p h = Some h'"
    and "\<forall>f. regToProducerInst s f \<noteq> Some p" and "ydi (h p) = 0"
  shows "(\<forall>k < nat (numSrcRegs (h p)). \<forall>y. source_inducer flatten tid s h p k = Some y \<longrightarrow>
            isDataRestricted (h' p) \<and> y \<le> ydi (h' p)) \<and>
         (ydi (h' p) = 0 \<or> (\<exists>k < nat (numSrcRegs (h p)). source_inducer flatten tid s h p k = Some (ydi (h' p)))) \<and>
         (\<forall>q. q \<noteq> p \<longrightarrow> h' q = h q)"
  using foldM_src_absorbs[OF assms(1)[unfolded renameSrcRegs_def] assms(2)] assms(3) by auto

definition ex_src_inst :: dyn_inst where
  "ex_src_inst = (ex_inst 9 {} {})\<lparr>staticInst := (ex_si {})\<lparr>si_numSrcRegs := 1, si_srcRegIdx := [ex_int]\<rparr>\<rparr>"

definition ex_src_heap :: inst_heap where
  "ex_src_heap = (\<lambda>_. ex_inst 5 {} {DataInducer})(7 := ex_src_inst)"

definition ex_src_state :: rename_state where
  "ex_src_state = ex_rename\<lparr>regToProducerInst := (\<lambda>_. None)(0 := Some 3)\<rparr>"

lemmas ex_src_defs = ex_src_state_def ex_src_heap_def ex_src_inst_def ex_rename_defs

lemma ex_src_run: "\<exists>h'. renameSrcRegs ex_cpu id 0 ex_src_state 7 ex_src_heap = Some h'"
  by (simp add: renameSrcRegs_def renameSrcReg_def ex_src_defs um_lookup_def simple_lookup_def mode_ok_def
      reg_flatIndex_def sb_getReg_def flatIndex_def phys_reg_def isFixedMapping_def isZeroReg_def ZeroReg_def
      markSrcRegReady_idx_def markSrcRegReady_def src_taint_def isDataInducer_def isDataRestricted_def
      setDataRestricted_def set_status_def ex_cpu_def)

lemma ex_src_inducer: "source_inducer id 0 ex_src_state ex_src_heap 7 0 = Some 5"
  by (simp add: source_inducer_def ex_src_defs um_lookup_def simple_lookup_def mode_ok_def
      reg_flatIndex_def sb_getReg_def flatIndex_def phys_reg_def isFixedMapping_def isZeroReg_def ZeroReg_def
      isDataInducer_def)

theorem ready_sources_taint_witness:
  "\<exists>h'. renameSrcRegs ex_cpu id 0 ex_src_state 7 ex_src_heap = Some h' \<and> isDataRestricted (h' 7) \<and> ydi (h' 7) \<ge> 5"
proof -
  obtain h' where r: "renameSrcRegs ex_cpu id 0 ex_src_state 7 ex_src_heap = Some h'" using ex_src_run by blast
  have "\<forall>f. regToProducerInst ex_src_state f \<noteq> Some 7" "ydi (ex_src_heap 7) = 0" "nat (numSrcRegs (ex_src_heap 7)) = 1"
    by (auto simp: ex_src_state_def ex_src_heap_def ex_src_inst_def ex_inst_def)
  with ready_sources_taint[OF r] ex_src_inducer r show ?thesis by auto
qed

section \<open>Lookup after rename\<close>

lemma simple_rename_Some:
  assumes "simple_rename c a (sm, fl) = Some ((new, prev), sm', fl')"
  shows "reg_index a < length (arch_map sm)" and "sm' = sm\<lparr>arch_map := (arch_map sm)[reg_index a := new]\<rparr>"
  using assms by (auto simp: simple_rename_def getReg_def vec_get_eq_Some split: if_splits list.splits)

lemma um_rename_Some:
  assumes "um_rename a (m, fl) = Some ((new, prev), m', fl')" and "regClass a \<noteq> MiscRegClass"
  obtains sm where "mode_ok m (regClass a)"
    and "simple_rename (regClass a) a (class_map m (regClass a), fl) = Some ((new, prev), sm, fl')"
    and "m' = m\<lparr>class_map := (class_map m)(regClass a := sm)\<rparr>"
  using assms by (auto simp: um_rename_def split: if_splits)

text \<open>
  C13: after a register other than a vector element is renamed, a lookup of it returns the new
  physical register, and every other register that is not a vector element keeps its mapping.
\<close>

theorem lookup_after_rename:
  assumes "um_rename a (m, fl) = Some ((new, prev), m', fl')" and "regClass a \<noteq> VecElemClass"
    and "regClass b \<noteq> VecElemClass"
  shows "um_lookup b m' = (if reg_index b = reg_index a \<and> regClass b = regClass a then Some new else um_lookup b m)"
proof (cases "regClass a = MiscRegClass")
  case True
  with assms show ?thesis by (auto simp: um_rename_def um_lookup_def flatIndex_index)
next
  case False
  then obtain sm where sm: "simple_rename (regClass a) a (class_map m (regClass a), fl) = Some ((new, prev), sm, fl')"
    "m' = m\<lparr>class_map := (class_map m)(regClass a := sm)\<rparr>" "mode_ok m (regClass a)"
    using um_rename_Some[OF assms(1)] by blast
  note s = simple_rename_Some[OF sm(1)]
  show ?thesis
    using sm(3) s(1) assms(2,3) False
    by (simp add: um_lookup_def sm(2) s(2) simple_lookup_def flatIndex_index mode_ok_def vec_get_def nth_list_update)
qed

theorem lookup_after_rename_witness:
  "\<exists>new prev m' fl'. um_rename ex_int (ex_map, freeList ex_rename) = Some ((new, prev), m', fl') \<and>
     um_lookup ex_int m' = Some new \<and> um_lookup ex_int ex_map \<noteq> Some new"
proof -
  obtain new prev m' fl' where r: "um_rename ex_int (ex_map, freeList ex_rename) = Some ((new, prev), m', fl')"
    "new = phys_reg IntRegClass 1 1"
    by (simp add: um_rename_def simple_rename_def ex_rename_defs mode_ok_def reg_index_def getReg_def ZeroReg_def)
  have "um_lookup ex_int m' = Some new" using lookup_after_rename[OF r(1), of ex_int] by (simp add: ex_int_def)
  moreover have "um_lookup ex_int ex_map \<noteq> Some new"
    by (simp add: r(2) um_lookup_def simple_lookup_def ex_int_def ex_map_def mode_ok_def reg_flatIndex_def phys_reg_def)
  ultimately show ?thesis using r(1) by blast
qed

text \<open>
  C14: in element mode the rename of a vector element writes the entry of its vector index while a
  lookup reads the entry of its flat index. So after the rename of an element whose two indices
  differ, the lookup of that element still returns the old physical register.
\<close>

theorem vec_elem_rename_not_seen:
  assumes "um_rename a (m, fl) = Some ((new, prev), m', fl')" and "regClass a = VecElemClass"
    and "reg_flatIndex a \<noteq> reg_index a"
  shows "um_lookup a m' = um_lookup a m"
proof -
  obtain sm where sm: "simple_rename (regClass a) a (class_map m (regClass a), fl) = Some ((new, prev), sm, fl')"
    "m' = m\<lparr>class_map := (class_map m)(regClass a := sm)\<rparr>"
    using um_rename_Some[OF assms(1)] assms(2) by auto
  show ?thesis
    using assms(2,3)
    by (simp add: um_lookup_def sm(2) simple_rename_Some(2)[OF sm(1)] simple_lookup_def mode_ok_def vec_get_def)
qed

definition ex_elem :: reg_id where "ex_elem = \<lparr>regClass = VecElemClass, regIdx = 1, elemIdx = 1\<rparr>"

definition ex_elem_map :: unified_rename_map where
  "ex_elem_map = \<lparr>class_map = (\<lambda>_. \<lparr>arch_map = map (\<lambda>k. phys_elem (k div 2) (k mod 2) k) [0..<4],
      zeroReg = \<lparr>regClass = IntRegClass, regIdx = ZeroReg, elemIdx = -1\<rparr>\<rparr>), vecMode = Elem\<rparr>"

theorem vec_elem_rename_not_seen_witness:
  "\<exists>m' fl'. um_rename ex_elem (ex_elem_map, \<lambda>_. [phys_elem 2 0 4]) = Some ((phys_elem 2 0 4, phys_elem 0 1 1), m', fl') \<and>
     um_lookup ex_elem m' = um_lookup ex_elem ex_elem_map"
proof -
  have "\<exists>m' fl'. um_rename ex_elem (ex_elem_map, \<lambda>_. [phys_elem 2 0 4]) =
      Some ((phys_elem 2 0 4, phys_elem 0 1 1), m', fl')"
    by (simp add: um_rename_def simple_rename_def ex_elem_def ex_elem_map_def mode_ok_def reg_index_def getReg_def
        upt_rec)
  then obtain m' fl' where r: "um_rename ex_elem (ex_elem_map, \<lambda>_. [phys_elem 2 0 4]) =
      Some ((phys_elem 2 0 4, phys_elem 0 1 1), m', fl')" by blast
  have "um_lookup ex_elem m' = um_lookup ex_elem ex_elem_map"
    by (rule vec_elem_rename_not_seen[OF r]) (simp_all add: ex_elem_def reg_flatIndex_def reg_index_def NumVecElemPerVecReg_def)
  with r show ?thesis by blast
qed

text \<open>
  C15: an instruction that writes a miscellaneous register becomes the recorded producer of flat
  register 0, although that is the first integer register and its mapping does not change.
\<close>

theorem misc_dest_takes_register_0:
  assumes "renameDestReg flatten tid p d (h, s) = Some (h', s')"
    and "vec_get (si_destRegIdx (staticInst (h p))) d = Some r" and "regClass (flatten r) = MiscRegClass"
  shows "regToProducerInst s' 0 = Some p \<and> renameMap s' tid = renameMap s tid \<and> freeList s' = freeList s"
  using assms by (auto simp: renameDestReg_def um_rename_def um_lookup_def getMiscRegId_def phys_reg_def flatIndex_def Let_def)

definition ex_misc_inst :: dyn_inst where
  "ex_misc_inst = (ex_inst 5 {} {})\<lparr>staticInst := (ex_si {})\<lparr>si_numDestRegs := 1,
     si_destRegIdx := [\<lparr>regClass = MiscRegClass, regIdx = 3, elemIdx = -1\<rparr>]\<rparr>\<rparr>"

theorem misc_dest_takes_register_0_witness:
  "\<exists>h' s'. renameDestReg id 0 7 0 (\<lambda>_. ex_misc_inst, ex_src_state) = Some (h', s') \<and>
     regToProducerInst s' 0 = Some 7 \<and> um_lookup ex_int (renameMap s' 0) = Some (phys_reg IntRegClass 0 0)"
proof -
  have "\<exists>h' s'. renameDestReg id 0 7 0 (\<lambda>_. ex_misc_inst, ex_src_state) = Some (h', s')"
    by (simp add: renameDestReg_def ex_src_defs ex_misc_inst_def um_rename_def um_lookup_def getMiscRegId_def
        sb_unsetReg_def flatIndex_def phys_reg_def isFixedMapping_def)
  then obtain h' s' where r: "renameDestReg id 0 7 0 (\<lambda>_. ex_misc_inst, ex_src_state) = Some (h', s')" by blast
  have "regToProducerInst s' 0 = Some 7 \<and> renameMap s' 0 = renameMap ex_src_state 0 \<and> freeList s' = freeList ex_src_state"
    by (rule misc_dest_takes_register_0[OF r, of "\<lparr>regClass = MiscRegClass, regIdx = 3, elemIdx = -1\<rparr>"])
      (simp_all add: ex_misc_inst_def)
  with r show ?thesis
    by (auto simp: ex_src_defs um_lookup_def simple_lookup_def mode_ok_def reg_flatIndex_def)
qed

end
