(* ===== verification/Store_Set.thy ===== *)
theory Store_Set
  imports O3_Prelude
begin

text \<open>
  The store set memory dependence predictor (\<^verbatim>\<open>src/cpu/o3/store_set.hh\<close>,
  \<^verbatim>\<open>store_set.cc\<close>). Table indices and store set identifiers are natural numbers:
  the tables are far smaller than the range of \<^verbatim>\<open>int\<close>. The list of stores is the
  \<^verbatim>\<open>std::map\<close> ordered youngest first, an association list.
\<close>

record store_set =
  SSIT :: "nat list"
  validSSIT :: "bool list"
  LFST :: "inst_seq_num list"
  validLFST :: "bool list"
  storeList :: "(inst_seq_num \<times> nat) list"
  clearPeriod :: "64 word"
  SSITSize :: nat
  LFSTSize :: nat
  indexMask :: nat
  offsetBits :: nat
  memOpsPred :: int

section \<open>Operations\<close>

definition isPowerOf2 :: "nat \<Rightarrow> bool" where
  "isPowerOf2 n \<longleftrightarrow> n \<noteq> 0 \<and> n AND (n - 1) = 0"

text \<open>\<^verbatim>\<open>init\<close>, on tables that were empty before.\<close>

definition init_store_set :: "64 word \<Rightarrow> nat \<Rightarrow> nat \<Rightarrow> store_set" where
  "init_store_set clear_period ssit_size lfst_size =
     \<lparr>SSIT = replicate ssit_size 0, validSSIT = replicate ssit_size False,
      LFST = replicate lfst_size 0, validLFST = replicate lfst_size False, storeList = [],
      clearPeriod = clear_period, SSITSize = ssit_size, LFSTSize = lfst_size,
      indexMask = ssit_size - 1, offsetBits = 2, memOpsPred = 0\<rparr>"

text \<open>The constructor, which rejects sizes that are not powers of two.\<close>

definition new_store_set :: "64 word \<Rightarrow> nat \<Rightarrow> nat \<Rightarrow> store_set option" where
  "new_store_set clear_period ssit_size lfst_size = do {
     check (isPowerOf2 ssit_size);
     check (isPowerOf2 lfst_size);
     Some (init_store_set clear_period ssit_size lfst_size) }"

definition calcIndex :: "store_set \<Rightarrow> addr \<Rightarrow> nat" where
  "calcIndex s PC = unat (drop_bit (offsetBits s) PC AND of_nat (indexMask s))"

definition calcSSID :: "store_set \<Rightarrow> addr \<Rightarrow> nat" where
  "calcSSID s PC = unat ((PC XOR drop_bit 10 PC) mod of_nat (LFSTSize s))"

definition set_ssit :: "nat \<Rightarrow> nat \<Rightarrow> store_set \<Rightarrow> store_set option" where
  "set_ssit i ssid s = do {
     v \<leftarrow> vec_set (validSSIT s) i True;
     t \<leftarrow> vec_set (SSIT s) i ssid;
     Some (s\<lparr>validSSIT := v, SSIT := t\<rparr>) }"

definition violation :: "addr \<Rightarrow> addr \<Rightarrow> store_set \<Rightarrow> store_set option" where
  "violation store_PC load_PC s = do {
     let load_index = calcIndex s load_PC;
     let store_index = calcIndex s store_PC;
     check (load_index < SSITSize s \<and> store_index < SSITSize s);
     valid_load_SSID \<leftarrow> vec_get (validSSIT s) load_index;
     valid_store_SSID \<leftarrow> vec_get (validSSIT s) store_index;
     (if \<not> valid_load_SSID \<and> \<not> valid_store_SSID then do {
        let new_set = calcSSID s load_PC;
        s1 \<leftarrow> set_ssit load_index new_set s;
        s2 \<leftarrow> set_ssit store_index new_set s1;
        check (new_set < LFSTSize s2);
        Some s2 }
      else if valid_load_SSID \<and> \<not> valid_store_SSID then do {
        load_SSID \<leftarrow> vec_get (SSIT s) load_index;
        s1 \<leftarrow> set_ssit store_index load_SSID s;
        check (load_SSID < LFSTSize s1);
        Some s1 }
      else if \<not> valid_load_SSID \<and> valid_store_SSID then do {
        store_SSID \<leftarrow> vec_get (SSIT s) store_index;
        set_ssit load_index store_SSID s }
      else do {
        load_SSID \<leftarrow> vec_get (SSIT s) load_index;
        store_SSID \<leftarrow> vec_get (SSIT s) store_index;
        check (load_SSID < LFSTSize s \<and> store_SSID < LFSTSize s);
        (if store_SSID > load_SSID then do {
           t \<leftarrow> vec_set (SSIT s) store_index load_SSID; Some (s\<lparr>SSIT := t\<rparr>) }
         else do {
           t \<leftarrow> vec_set (SSIT s) load_index store_SSID; Some (s\<lparr>SSIT := t\<rparr>) }) }) }"

definition clear :: "store_set \<Rightarrow> store_set" where
  "clear s = s\<lparr>validSSIT := map (\<lambda>_. False) (validSSIT s), validLFST := map (\<lambda>_. False) (validLFST s),
               storeList := []\<rparr>"

definition checkClear :: "store_set \<Rightarrow> store_set" where
  "checkClear s =
     (let s1 = s\<lparr>memOpsPred := memOpsPred s + 1\<rparr>
      in if (word_of_int (memOpsPred s1) :: 64 word) > clearPeriod s1
         then clear (s1\<lparr>memOpsPred := 0\<rparr>) else s1)"

definition insertLoad :: "addr \<Rightarrow> inst_seq_num \<Rightarrow> store_set \<Rightarrow> store_set" where
  "insertLoad load_PC load_seq_num s = checkClear s"

text \<open>\<^verbatim>\<open>storeList[k] = v\<close> and \<^verbatim>\<open>erase\<close> on the map ordered by \<^verbatim>\<open>>\<close>.\<close>

fun map_put :: "inst_seq_num \<Rightarrow> nat \<Rightarrow> (inst_seq_num \<times> nat) list \<Rightarrow> (inst_seq_num \<times> nat) list" where
  "map_put k v [] = [(k, v)]"
| "map_put k v ((k', v') # l) =
     (if k > k' then (k, v) # (k', v') # l
      else if k = k' then (k, v) # l
      else (k', v') # map_put k v l)"

definition map_erase :: "inst_seq_num \<Rightarrow> (inst_seq_num \<times> nat) list \<Rightarrow> (inst_seq_num \<times> nat) list" where
  "map_erase k l = filter (\<lambda>e. fst e \<noteq> k) l"

definition insertStore :: "addr \<Rightarrow> inst_seq_num \<Rightarrow> store_set \<Rightarrow> store_set option" where
  "insertStore store_PC store_seq_num s0 = do {
     let index = calcIndex s0 store_PC;
     let s = checkClear s0;
     check (index < SSITSize s);
     valid \<leftarrow> vec_get (validSSIT s) index;
     (if \<not> valid then Some s
      else do {
        store_SSID \<leftarrow> vec_get (SSIT s) index;
        check (store_SSID < LFSTSize s);
        lf \<leftarrow> vec_set (LFST s) store_SSID store_seq_num;
        vl \<leftarrow> vec_set (validLFST s) store_SSID True;
        Some (s\<lparr>LFST := lf, validLFST := vl,
                storeList := map_put store_seq_num store_SSID (storeList s)\<rparr>) }) }"

definition checkInst :: "addr \<Rightarrow> store_set \<Rightarrow> inst_seq_num option" where
  "checkInst PC s = do {
     let index = calcIndex s PC;
     check (index < SSITSize s);
     valid \<leftarrow> vec_get (validSSIT s) index;
     (if \<not> valid then Some 0
      else do {
        inst_SSID \<leftarrow> vec_get (SSIT s) index;
        check (inst_SSID < LFSTSize s);
        vl \<leftarrow> vec_get (validLFST s) inst_SSID;
        (if \<not> vl then Some 0 else vec_get (LFST s) inst_SSID) }) }"

definition issued :: "addr \<Rightarrow> inst_seq_num \<Rightarrow> bool \<Rightarrow> store_set \<Rightarrow> store_set option" where
  "issued issued_PC issued_seq_num is_store s0 =
     (if \<not> is_store then Some s0
      else do {
        let index = calcIndex s0 issued_PC;
        check (index < SSITSize s0);
        let s = s0\<lparr>storeList := map_erase issued_seq_num (storeList s0)\<rparr>;
        valid \<leftarrow> vec_get (validSSIT s) index;
        (if \<not> valid then Some s
         else do {
           store_SSID \<leftarrow> vec_get (SSIT s) index;
           check (store_SSID < LFSTSize s);
           vl \<leftarrow> vec_get (validLFST s) store_SSID;
           lf \<leftarrow> vec_get (LFST s) store_SSID;
           (if vl \<and> lf = issued_seq_num then do {
              v \<leftarrow> vec_set (validLFST s) store_SSID False; Some (s\<lparr>validLFST := v\<rparr>) }
            else Some s) }) })"

text \<open>
  The loop of \<^verbatim>\<open>squash\<close>. It looks at the youngest store of the list, and when it
  neither stops nor erases it, it looks at it again: \<open>None\<close> is a loop that does not end.
\<close>

partial_function (option) squash_loop :: "inst_seq_num \<Rightarrow> store_set \<Rightarrow> store_set option" where
  "squash_loop squashed_num s =
     (case storeList s of
        [] \<Rightarrow> Some s
      | (k, idx) # rest \<Rightarrow>
          if k \<le> squashed_num then Some s
          else do {
            lf \<leftarrow> vec_get (LFST s) idx;
            vl \<leftarrow> vec_get (validLFST s) idx;
            let younger = lf > squashed_num;
            (if vl \<and> younger then
               squash_loop squashed_num (s\<lparr>validLFST := (validLFST s)[idx := False], storeList := rest\<rparr>)
             else if \<not> vl \<and> younger then squash_loop squashed_num (s\<lparr>storeList := rest\<rparr>)
             else squash_loop squashed_num s) })"

definition squash_store_set :: "inst_seq_num \<Rightarrow> store_set \<Rightarrow> store_set option" where
  "squash_store_set squashed_num s = squash_loop squashed_num s"

section \<open>Well-formed predictors\<close>

definition tables_wf :: "store_set \<Rightarrow> bool" where
  "tables_wf s \<longleftrightarrow>
     (\<exists>n. SSITSize s = 2 ^ n) \<and> indexMask s = SSITSize s - 1 \<and> 0 < LFSTSize s \<and> LFSTSize s < 2 ^ 31 \<and>
     length (SSIT s) = SSITSize s \<and> length (validSSIT s) = SSITSize s \<and>
     length (LFST s) = LFSTSize s \<and> length (validLFST s) = LFSTSize s \<and>
     (\<forall>i < SSITSize s. validSSIT s ! i \<longrightarrow> SSIT s ! i < LFSTSize s)"

definition stores_wf :: "store_set \<Rightarrow> bool" where
  "stores_wf s \<longleftrightarrow>
     sorted_wrt (\<lambda>a b. fst b < fst a) (storeList s) \<and>
     (\<forall>(k, idx) \<in> set (storeList s). idx < LFSTSize s \<and> k \<le> LFST s ! idx)"

definition store_set_wf :: "store_set \<Rightarrow> bool" where
  "store_set_wf s \<longleftrightarrow> tables_wf s \<and> stores_wf s"

lemma bit_top:
  fixes x :: nat
  assumes "2 ^ m \<le> x" and "x < 2 ^ Suc m"
  shows "bit x m"
proof -
  have "x div 2 ^ m = 1" using assms by (intro div_nat_eqI) auto
  then show ?thesis by (simp add: bit_iff_odd)
qed

lemma isPowerOf2_exp:
  assumes "isPowerOf2 n"
  shows "\<exists>k. n = 2 ^ k"
proof (rule ccontr)
  assume no: "\<nexists>k. n = 2 ^ k"
  from assms have n: "n \<noteq> 0" "n AND (n - 1) = 0" by (auto simp: isPowerOf2_def)
  obtain m where m: "2 ^ m \<le> n" "n < 2 ^ Suc m" using n(1) ex_power_ivl1[of 2 n] by auto
  with no have "2 ^ m < n" by (metis order_le_imp_less_or_eq)
  then have "bit (n - 1) m" "bit n m" using m by (auto intro!: bit_top)
  then have "bit (n AND (n - 1)) m" by (simp add: bit_and_iff)
  with n(2) show False by simp
qed

lemma init_store_set_wf:
  assumes "isPowerOf2 ssit_size" and "isPowerOf2 lfst_size" and "lfst_size < 2 ^ 31"
  shows "store_set_wf (init_store_set p ssit_size lfst_size)"
proof -
  have "0 < lfst_size" using assms(2) by (auto simp: isPowerOf2_def)
  with assms isPowerOf2_exp[OF assms(1)] show ?thesis
    by (simp add: store_set_wf_def tables_wf_def stores_wf_def init_store_set_def)
qed

lemma calcIndex_less:
  assumes "tables_wf s"
  shows "calcIndex s PC < SSITSize s"
proof -
  obtain n where n: "SSITSize s = 2 ^ n" "indexMask s = 2 ^ n - 1"
    using assms by (auto simp: tables_wf_def)
  have "(of_nat (2 ^ n - 1) :: 64 word) = mask n"
    by (simp add: mask_eq_exp_minus_1 of_nat_diff)
  with n show ?thesis by (simp add: calcIndex_def unat_and_mask_less)
qed

lemma calcSSID_less:
  assumes "tables_wf s"
  shows "calcSSID s PC < LFSTSize s"
proof -
  from assms have l: "0 < LFSTSize s" "LFSTSize s < 2 ^ 31" by (auto simp: tables_wf_def)
  then have "unat (of_nat (LFSTSize s) :: 64 word) = LFSTSize s"
    by (simp add: unsigned_of_nat take_bit_nat_eq_self)
  with l show ?thesis by (simp add: calcSSID_def unat_mod_distrib)
qed

lemma calc_cong [simp]:
  "calcIndex (s\<lparr>SSIT := a\<rparr>) PC = calcIndex s PC" "calcIndex (s\<lparr>validSSIT := b\<rparr>) PC = calcIndex s PC"
  "calcIndex (s\<lparr>LFST := c\<rparr>) PC = calcIndex s PC" "calcIndex (s\<lparr>validLFST := b\<rparr>) PC = calcIndex s PC"
  "calcIndex (s\<lparr>storeList := d\<rparr>) PC = calcIndex s PC" "calcIndex (s\<lparr>memOpsPred := e\<rparr>) PC = calcIndex s PC"
  by (simp_all add: calcIndex_def)

section \<open>Each operation\<close>

text \<open>
  After a violation the load and the store are in one store set; nothing else is lost from the
  tables of last fetched stores.
\<close>

lemma violation_spec:
  assumes wf: "store_set_wf s"
  shows "\<exists>s' ssid. violation store_PC load_PC s = Some s' \<and> store_set_wf s' \<and>
     validSSIT s' ! calcIndex s load_PC \<and> validSSIT s' ! calcIndex s store_PC \<and>
     SSIT s' ! calcIndex s load_PC = ssid \<and> SSIT s' ! calcIndex s store_PC = ssid \<and>
     LFST s' = LFST s \<and> validLFST s' = validLFST s \<and> storeList s' = storeList s \<and>
     calcIndex s' = calcIndex s \<and> memOpsPred s' = memOpsPred s \<and> clearPeriod s' = clearPeriod s"
proof -
  let ?l = "calcIndex s load_PC" and ?t = "calcIndex s store_PC"
  from wf have t: "tables_wf s" and st: "stores_wf s" by (auto simp: store_set_wf_def)
  note il = calcIndex_less[OF t, of load_PC] and it = calcIndex_less[OF t, of store_PC]
    and nw = calcSSID_less[OF t, of load_PC]
  from t have len: "length (SSIT s) = SSITSize s" "length (validSSIT s) = SSITSize s"
    and ok: "\<And>i. i < SSITSize s \<Longrightarrow> validSSIT s ! i \<Longrightarrow> SSIT s ! i < LFSTSize s"
    by (auto simp: tables_wf_def)
  have ci: "calcIndex (s\<lparr>validSSIT := v, SSIT := u\<rparr>) = calcIndex s" for v u
    by (simp add: fun_eq_iff calcIndex_def)
  have tw: "store_set_wf (s\<lparr>validSSIT := v, SSIT := u\<rparr>)"
    if "length v = SSITSize s" "length u = SSITSize s"
      "\<And>i. i < SSITSize s \<Longrightarrow> v ! i \<Longrightarrow> u ! i < LFSTSize s" for v u
    using that t st by (auto simp: store_set_wf_def tables_wf_def stores_wf_def)
  consider (none) "\<not> validSSIT s ! ?l" "\<not> validSSIT s ! ?t" | (load) "validSSIT s ! ?l" "\<not> validSSIT s ! ?t"
    | (store) "\<not> validSSIT s ! ?l" "validSSIT s ! ?t" | (both) "validSSIT s ! ?l" "validSSIT s ! ?t" by blast
  then show ?thesis
  proof cases
    case none
    let ?n = "calcSSID s load_PC"
    let ?s = "s\<lparr>validSSIT := (validSSIT s)[?l := True, ?t := True], SSIT := (SSIT s)[?l := ?n, ?t := ?n]\<rparr>"
    have "violation store_PC load_PC s = Some ?s"
      using none il it nw len by (simp add: violation_def set_ssit_def Let_def)
    moreover have "store_set_wf ?s"
      using len nw ok il it by (intro tw) (auto simp: nth_list_update split: if_splits)
    ultimately show ?thesis using il it len ci by (auto simp: nth_list_update)
  next
    case load
    let ?s = "s\<lparr>validSSIT := (validSSIT s)[?t := True], SSIT := (SSIT s)[?t := SSIT s ! ?l]\<rparr>"
    have "violation store_PC load_PC s = Some ?s"
      using load il it len ok[OF il] by (simp add: violation_def set_ssit_def Let_def)
    moreover have "store_set_wf ?s"
      using len ok il it load by (intro tw) (auto simp: nth_list_update split: if_splits)
    ultimately show ?thesis using il it len ci load by (auto simp: nth_list_update)
  next
    case store
    let ?s = "s\<lparr>validSSIT := (validSSIT s)[?l := True], SSIT := (SSIT s)[?l := SSIT s ! ?t]\<rparr>"
    have "violation store_PC load_PC s = Some ?s"
      using store il it len by (simp add: violation_def set_ssit_def Let_def)
    moreover have "store_set_wf ?s"
      using len ok il it store by (intro tw) (auto simp: nth_list_update split: if_splits)
    ultimately show ?thesis using il it len ci store by (auto simp: nth_list_update)
  next
    case both
    let ?m = "min (SSIT s ! ?l) (SSIT s ! ?t)"
    let ?i = "if SSIT s ! ?t > SSIT s ! ?l then ?t else ?l"
    let ?s = "s\<lparr>validSSIT := validSSIT s, SSIT := (SSIT s)[?i := ?m]\<rparr>"
    have "violation store_PC load_PC s = Some ?s"
      using both il it len ok[OF il] ok[OF it] by (simp add: violation_def Let_def min_def)
    moreover have "store_set_wf ?s"
      using len ok il it both by (intro tw) (auto simp: nth_list_update min_def)
    ultimately show ?thesis using il it len ci both by (auto simp: nth_list_update min_def)
  qed
qed

lemma clear_wf: "store_set_wf s \<Longrightarrow> store_set_wf (clear s)"
  by (auto simp: store_set_wf_def tables_wf_def stores_wf_def clear_def)

lemma wf_memOpsPred [simp]: "store_set_wf (s\<lparr>memOpsPred := n\<rparr>) = store_set_wf s"
  by (simp add: store_set_wf_def tables_wf_def stores_wf_def)

lemma checkClear_wf: "store_set_wf s \<Longrightarrow> store_set_wf (checkClear s)"
  by (auto simp: checkClear_def Let_def intro!: clear_wf)

lemma calcIndex_checkClear [simp]: "calcIndex (checkClear s) = calcIndex s"
  by (simp add: checkClear_def clear_def calcIndex_def fun_eq_iff Let_def)

lemma storeList_checkClear: "set (storeList (checkClear s)) \<subseteq> set (storeList s)"
  by (simp add: checkClear_def clear_def Let_def)

text \<open>Stores come in program order, so an inserted one is the youngest of the list.\<close>

definition newer :: "inst_seq_num \<Rightarrow> store_set \<Rightarrow> bool" where
  "newer sn s \<longleftrightarrow> list_all (\<lambda>e. fst e < sn) (storeList s)"

lemma map_put_newer: "list_all (\<lambda>e. fst e < sn) l \<Longrightarrow> map_put sn v l = (sn, v) # l"
  by (cases l) auto

lemma insertStore_spec:
  fixes PC :: addr
  assumes wf: "store_set_wf s" and nw: "newer sn s"
  defines "i \<equiv> calcIndex s PC" and "s1 \<equiv> checkClear s"
  shows "\<exists>s'. insertStore PC sn s = Some s' \<and> store_set_wf s' \<and>
     s' = (if validSSIT s1 ! i
           then s1\<lparr>LFST := (LFST s1)[SSIT s1 ! i := sn], validLFST := (validLFST s1)[SSIT s1 ! i := True],
                   storeList := (sn, SSIT s1 ! i) # storeList s1\<rparr>
           else s1)"
proof -
  have wf1: "store_set_wf s1" using checkClear_wf[OF wf] by (simp add: s1_def)
  then have t: "tables_wf s1" and st: "stores_wf s1" by (auto simp: store_set_wf_def)
  have i: "i < SSITSize s1" using calcIndex_less[OF t, of PC] by (simp add: i_def s1_def)
  from t have len: "length (SSIT s1) = SSITSize s1" "length (validSSIT s1) = SSITSize s1"
    "length (LFST s1) = LFSTSize s1" "length (validLFST s1) = LFSTSize s1"
    by (auto simp: tables_wf_def)
  show ?thesis
  proof (cases "validSSIT s1 ! i")
    case False
    then show ?thesis using wf1 i len by (simp add: insertStore_def i_def[symmetric] s1_def[symmetric])
  next
    case True
    let ?d = "SSIT s1 ! i"
    have d: "?d < LFSTSize s1" using t True i by (auto simp: tables_wf_def)
    have all: "list_all (\<lambda>e. fst e < sn) (storeList s1)"
      using nw storeList_checkClear[of s] by (auto simp: newer_def s1_def list_all_iff)
    let ?s = "s1\<lparr>LFST := (LFST s1)[?d := sn], validLFST := (validLFST s1)[?d := True],
                 storeList := (sn, ?d) # storeList s1\<rparr>"
    have "insertStore PC sn s = Some ?s"
      using True i d len by (simp add: insertStore_def i_def[symmetric] s1_def[symmetric] map_put_newer[OF all])
    moreover have "store_set_wf ?s"
      using t st d len all unfolding store_set_wf_def tables_wf_def stores_wf_def
      by (auto simp: nth_list_update list_all_iff less_imp_le)
    ultimately show ?thesis using True by simp
  qed
qed

lemma map_erase_sorted: "sorted_wrt R l \<Longrightarrow> sorted_wrt R (map_erase k l)"
  by (simp add: map_erase_def sorted_wrt_filter)

lemma issued_wf:
  assumes "store_set_wf s"
  shows "\<exists>s'. issued PC sn is_store s = Some s' \<and> store_set_wf s'"
proof -
  from assms have t: "tables_wf s" and st: "stores_wf s" by (auto simp: store_set_wf_def)
  have i: "calcIndex s PC < SSITSize s" by (rule calcIndex_less[OF t])
  have len: "length (SSIT s) = SSITSize s" "length (validSSIT s) = SSITSize s"
    "length (LFST s) = LFSTSize s" "length (validLFST s) = LFSTSize s"
    and d: "validSSIT s ! calcIndex s PC \<Longrightarrow> SSIT s ! calcIndex s PC < LFSTSize s"
    using t i by (auto simp: tables_wf_def)
  have st': "stores_wf (s\<lparr>storeList := map_erase sn (storeList s)\<rparr>)"
    using st map_erase_sorted by (auto simp: stores_wf_def map_erase_def)
  then have "stores_wf (s\<lparr>storeList := map_erase sn (storeList s), validLFST := v\<rparr>)" for v
    by (simp add: stores_wf_def)
  with st' t st i len d show ?thesis
    by (auto simp: issued_def Let_def store_set_wf_def tables_wf_def)
qed

text \<open>
  The squash loop returns, because a listed store is never younger than the last store recorded
  for its set: the stores above the limit are dropped, and the sets they belong to have no last
  store any more.
\<close>

lemma squash_loop_spec:
  assumes "store_set_wf s"
  shows "\<exists>v. squash_loop sn s =
       Some (s\<lparr>validLFST := v, storeList := filter (\<lambda>e. fst e \<le> sn) (storeList s)\<rparr>) \<and>
     length v = LFSTSize s \<and>
     (\<forall>i < LFSTSize s. v ! i \<longleftrightarrow> validLFST s ! i \<and> (\<forall>k. (k, i) \<in> set (storeList s) \<longrightarrow> k \<le> sn))"
  using assms
proof (induction "storeList s" arbitrary: s)
  case Nil
  then show ?case
    by (subst squash_loop.simps) (auto simp: store_set_wf_def tables_wf_def intro!: exI[of _ "validLFST s"])
next
  case (Cons e rest)
  obtain k idx where e: "e = (k, idx)" by (cases e)
  note sl = Cons.hyps(2)[symmetric, unfolded e]
  from Cons.prems have t: "tables_wf s" and st: "stores_wf s" by (auto simp: store_set_wf_def)
  have idx: "idx < LFSTSize s" "k \<le> LFST s ! idx" and srt: "\<And>a. a \<in> set rest \<Longrightarrow> fst a < k"
    using st sl by (auto simp: stores_wf_def)
  have len: "length (LFST s) = LFSTSize s" "length (validLFST s) = LFSTSize s"
    using t by (auto simp: tables_wf_def)
  show ?case
  proof (cases "k \<le> sn")
    case True
    have all: "\<forall>a \<in> set (storeList s). fst a \<le> sn" using True srt sl by fastforce
    then have "filter (\<lambda>e. fst e \<le> sn) (storeList s) = storeList s" by simp
    moreover have "squash_loop sn s = Some s" by (subst squash_loop.simps) (simp add: sl True)
    ultimately show ?thesis using all len by (auto intro!: exI[of _ "validLFST s"])
  next
    case False
    let ?v = "(validLFST s)[idx := False]"
    let ?s = "s\<lparr>validLFST := ?v, storeList := rest\<rparr>"
    have y: "LFST s ! idx > sn" using False idx(2) by auto
    have same: "\<not> validLFST s ! idx \<Longrightarrow> ?v = validLFST s"
      by (metis (full_types) list_update_id)
    have step: "squash_loop sn s = squash_loop sn ?s"
      using False y idx len same by (subst squash_loop.simps) (auto simp: sl)
    have wf': "store_set_wf ?s"
      using t st sl idx len by (auto simp: store_set_wf_def tables_wf_def stores_wf_def)
    obtain v where v: "squash_loop sn ?s = Some (?s\<lparr>validLFST := v, storeList := filter (\<lambda>e. fst e \<le> sn) rest\<rparr>)"
      "length v = LFSTSize s"
      "\<And>i. i < LFSTSize s \<Longrightarrow> v ! i \<longleftrightarrow> ?v ! i \<and> (\<forall>k. (k, i) \<in> set rest \<longrightarrow> k \<le> sn)"
      using Cons.hyps(1)[of ?s] wf' by auto
    show ?thesis
    proof (intro exI conjI allI impI)
      show "squash_loop sn s = Some (s\<lparr>validLFST := v, storeList := filter (\<lambda>e. fst e \<le> sn) (storeList s)\<rparr>)"
        using step v(1) False sl by simp
      show "length v = LFSTSize s" by (rule v(2))
      fix i assume "i < LFSTSize s"
      then show "v ! i \<longleftrightarrow> validLFST s ! i \<and> (\<forall>k. (k, i) \<in> set (storeList s) \<longrightarrow> k \<le> sn)"
        using v(3)[of i] len False sl idx by (auto simp: nth_list_update)
    qed
  qed
qed

section \<open>Sequences of operations\<close>

datatype ss_op =
    SSViolation addr addr | SSInsertLoad addr inst_seq_num | SSInsertStore addr inst_seq_num
  | SSIssued addr inst_seq_num bool | SSSquash inst_seq_num | SSClear

fun ss_step :: "ss_op \<Rightarrow> store_set \<Rightarrow> store_set option" where
  "ss_step (SSViolation st ld) s = violation st ld s"
| "ss_step (SSInsertLoad pc sn) s = Some (insertLoad pc sn s)"
| "ss_step (SSInsertStore pc sn) s = insertStore pc sn s"
| "ss_step (SSIssued pc sn b) s = issued pc sn b s"
| "ss_step (SSSquash sn) s = squash_store_set sn s"
| "ss_step SSClear s = Some (clear s)"

text \<open>The inserted stores come in program order, all younger than \<open>prev\<close>.\<close>

fun in_order :: "inst_seq_num \<Rightarrow> ss_op list \<Rightarrow> bool" where
  "in_order prev [] = True"
| "in_order prev (SSInsertStore pc sn # ops) = (prev < sn \<and> in_order sn ops)"
| "in_order prev (op # ops) = in_order prev ops"

definition upto_last :: "inst_seq_num \<Rightarrow> store_set \<Rightarrow> bool" where
  "upto_last prev s \<longleftrightarrow> list_all (\<lambda>e. fst e \<le> prev) (storeList s)"

lemma issued_storeList:
  "issued PC sn b s = Some s' \<Longrightarrow> set (storeList s') \<subseteq> set (storeList s)"
  by (auto simp: issued_def Let_def map_erase_def split: if_splits)

lemma ss_step_ok:
  assumes wf: "store_set_wf s" and up: "upto_last prev s" and ord: "in_order prev (op # ops)"
  shows "\<exists>s' prev'. ss_step op s = Some s' \<and> store_set_wf s' \<and> upto_last prev' s' \<and> in_order prev' ops \<and> prev \<le> prev'"
proof (cases op)
  case (SSViolation st ld)
  with violation_spec[OF wf, of st ld] up ord show ?thesis by (auto simp: upto_last_def intro!: exI[of _ prev])
next
  case (SSInsertLoad pc sn)
  with checkClear_wf[OF wf] storeList_checkClear[of s] up ord show ?thesis
    by (auto simp: insertLoad_def upto_last_def list_all_iff subset_iff intro!: exI[of _ prev])
next
  case (SSInsertStore pc sn)
  with up ord have nw: "newer sn s" by (auto simp: upto_last_def newer_def list_all_iff intro: le_less_trans)
  have le: "\<And>e. e \<in> set (storeList (checkClear s)) \<Longrightarrow> fst e \<le> sn"
    using storeList_checkClear[of s] nw unfolding newer_def list_all_iff by (meson less_imp_le subsetD)
  from insertStore_spec[OF wf nw, of pc] SSInsertStore ord le show ?thesis
    by (auto simp: upto_last_def list_all_iff intro!: exI[of _ sn])
next
  case (SSIssued pc sn b)
  from issued_wf[OF wf, of pc sn b] obtain s' where "issued pc sn b s = Some s'" "store_set_wf s'" by blast
  moreover from this have "upto_last prev s'"
    using issued_storeList[of pc sn b s s'] up by (fastforce simp: upto_last_def list_all_iff)
  ultimately show ?thesis using SSIssued ord by auto
next
  case (SSSquash sn)
  obtain v where v: "squash_loop sn s =
      Some (s\<lparr>validLFST := v, storeList := filter (\<lambda>e. fst e \<le> sn) (storeList s)\<rparr>)" "length v = LFSTSize s"
    using squash_loop_spec[OF wf] by blast
  then have "store_set_wf (s\<lparr>validLFST := v, storeList := filter (\<lambda>e. fst e \<le> sn) (storeList s)\<rparr>)"
    using wf by (auto simp: store_set_wf_def tables_wf_def stores_wf_def sorted_wrt_filter)
  with v SSSquash up ord show ?thesis
    by (force simp: squash_store_set_def upto_last_def list_all_iff intro!: exI[of _ prev])
next
  case SSClear
  moreover have "upto_last prev (clear s)" by (simp add: upto_last_def clear_def)
  ultimately show ?thesis using clear_wf[OF wf] ord by auto
qed

section \<open>Which set names a store\<close>

text \<open>A store is the last fetched store of no set but that of the table entry \<open>i\<close>.\<close>

definition named_by :: "nat \<Rightarrow> inst_seq_num \<Rightarrow> store_set \<Rightarrow> bool" where
  "named_by i sn s \<longleftrightarrow>
     (\<forall>k < LFSTSize s. validLFST s ! k \<and> LFST s ! k = sn \<longrightarrow> validSSIT s ! i \<and> SSIT s ! i = k)"

lemma named_by_checkClear: "tables_wf s \<Longrightarrow> named_by i sn s \<Longrightarrow> named_by i sn (checkClear s)"
  by (auto simp: named_by_def checkClear_def clear_def Let_def tables_wf_def)

lemma insertStore_named:
  assumes "store_set_wf s" "newer sn' s" "insertStore pc sn' s = Some s'" "named_by i sn s" "sn' = sn \<longrightarrow> i = calcIndex s pc"
  shows "named_by i sn s'"
proof -
  let ?s = "checkClear s" and ?j = "calcIndex s pc"
  have c: "named_by i sn ?s" and t: "tables_wf ?s"
    using assms(1,4) checkClear_wf by (auto simp: named_by_checkClear store_set_wf_def)
  have s': "s' = (if validSSIT ?s ! ?j
      then ?s\<lparr>LFST := (LFST ?s)[SSIT ?s ! ?j := sn'], validLFST := (validLFST ?s)[SSIT ?s ! ?j := True], storeList := (sn', SSIT ?s ! ?j) # storeList ?s\<rparr>
      else ?s)"
    using insertStore_spec[OF assms(1,2), of pc] assms(3) by simp
  show ?thesis
  proof (cases "validSSIT ?s ! ?j")
    case True
    show ?thesis unfolding named_by_def
    proof (intro allI impI)
      fix k assume k: "k < LFSTSize s'" "validLFST s' ! k \<and> LFST s' ! k = sn"
      have len: "length (LFST ?s) = LFSTSize ?s" "length (validLFST ?s) = LFSTSize ?s" using t by (simp_all add: tables_wf_def)
      show "validSSIT s' ! i \<and> SSIT s' ! i = k"
      proof (cases "k = SSIT ?s ! ?j")
        case True
        then have "sn' = sn" using k len s' \<open>validSSIT ?s ! ?j\<close> by simp
        then show ?thesis using assms(5) s' True \<open>validSSIT ?s ! ?j\<close> by simp
      next
        case False
        then have "k < LFSTSize ?s" "validLFST ?s ! k \<and> LFST ?s ! k = sn" using k s' \<open>validSSIT ?s ! ?j\<close> by simp_all
        then show ?thesis using c s' \<open>validSSIT ?s ! ?j\<close> by (simp add: named_by_def)
      qed
    qed
  next
    case False
    then show ?thesis using s' c by simp
  qed
qed

lemma insertStore_index: "insertStore pc sn s = Some s' \<Longrightarrow> calcIndex s' = calcIndex s"
  by (auto simp: insertStore_def Let_def fun_eq_iff split: if_splits)

lemma issued_index: "issued pc sn b s = Some s' \<Longrightarrow> calcIndex s' = calcIndex s"
  by (auto simp: issued_def Let_def fun_eq_iff split: if_splits)

lemma issued_cases:
  assumes "store_set_wf s" "issued pc sn b s = Some s'"
  shows "(\<exists>l. s' = s\<lparr>storeList := l\<rparr> \<and> (b \<longrightarrow> \<not> (validSSIT s ! calcIndex s pc \<and> validLFST s ! (SSIT s ! calcIndex s pc) \<and> LFST s ! (SSIT s ! calcIndex s pc) = sn))) \<or>
         (\<exists>l. s' = s\<lparr>storeList := l, validLFST := (validLFST s)[SSIT s ! calcIndex s pc := False]\<rparr> \<and> validSSIT s ! calcIndex s pc)"
proof -
  have t: "tables_wf s" using assms(1) by (simp add: store_set_wf_def)
  then have len: "calcIndex s pc < length (validSSIT s)" "calcIndex s pc < length (SSIT s)"
    "length (LFST s) = LFSTSize s" "length (validLFST s) = LFSTSize s"
    using calcIndex_less[OF t, of pc] by (simp_all add: tables_wf_def)
  show ?thesis
  proof (cases b)
    case True
    then show ?thesis using assms(2) len by (auto simp: issued_def Let_def split: if_splits)
  next
    case False
    then have "s' = s\<lparr>storeList := storeList s\<rparr>" using assms(2) by (simp add: issued_def)
    then show ?thesis using False by blast
  qed
qed

lemma nth_clear: "k < length xs \<Longrightarrow> xs[d := False] ! k \<longleftrightarrow> k \<noteq> d \<and> xs ! k"
  by (cases "k = d") auto

lemma issued_named:
  assumes "store_set_wf s" "issued pc sn' b s = Some s'" "named_by i sn s"
  shows "named_by i sn s'" "b \<Longrightarrow> sn' = sn \<Longrightarrow> i = calcIndex s pc \<Longrightarrow> k < LFSTSize s' \<Longrightarrow> validLFST s' ! k \<Longrightarrow> LFST s' ! k \<noteq> sn"
proof -
  have len: "length (validLFST s) = LFSTSize s" using assms(1) by (simp add: store_set_wf_def tables_wf_def)
  note ic = issued_cases[OF assms(1,2)]
  show "named_by i sn s'" using ic
  proof (elim disjE exE conjE)
    fix l assume "s' = s\<lparr>storeList := l\<rparr>"
    then show ?thesis using assms(3) by (simp add: named_by_def)
  next
    fix l assume "s' = s\<lparr>storeList := l, validLFST := (validLFST s)[SSIT s ! calcIndex s pc := False]\<rparr>"
    then show ?thesis using assms(3) len by (simp add: named_by_def nth_clear)
  qed
  show "LFST s' ! k \<noteq> sn" if h: "b" "sn' = sn" "i = calcIndex s pc" "k < LFSTSize s'" "validLFST s' ! k"
  proof
    assume "LFST s' ! k = sn"
    from ic show False
    proof (elim disjE exE conjE)
      fix l assume "s' = s\<lparr>storeList := l\<rparr>"
        "b \<longrightarrow> \<not> (validSSIT s ! calcIndex s pc \<and> validLFST s ! (SSIT s ! calcIndex s pc) \<and> LFST s ! (SSIT s ! calcIndex s pc) = sn')"
      then show False using h assms(3) \<open>LFST s' ! k = sn\<close> by (auto simp: named_by_def)
    next
      fix l assume s': "s' = s\<lparr>storeList := l, validLFST := (validLFST s)[SSIT s ! calcIndex s pc := False]\<rparr>"
      then have "k \<noteq> SSIT s ! calcIndex s pc" "validLFST s ! k" using h len by (simp_all add: nth_clear)
      then show False using h s' assms(3) \<open>LFST s' ! k = sn\<close> by (auto simp: named_by_def)
    qed
  qed
qed

lemma ss_step_named:
  assumes "store_set_wf s" "upto_last prev s" "in_order prev (op # ops)" "ss_step op s = Some s'" "\<forall>a b. op \<noteq> SSViolation a b"
    and "\<forall>pc. op \<noteq> SSInsertStore pc sn" "named_by i sn s"
  shows "named_by i sn s' \<and> calcIndex s' = calcIndex s"
proof (cases op)
  case (SSViolation a b)
  then show ?thesis using assms(5) by simp
next
  case (SSInsertLoad pc n)
  then show ?thesis using assms(1,4,7) named_by_checkClear by (auto simp: insertLoad_def store_set_wf_def)
next
  case (SSInsertStore pc n)
  then have nw: "newer n s" using assms(2,3) by (auto simp: upto_last_def newer_def list_all_iff intro: le_less_trans)
  have "named_by i sn s'" using insertStore_named[OF assms(1) nw _ assms(7), of pc s'] SSInsertStore assms(4,6) by auto
  then show ?thesis using insertStore_index SSInsertStore assms(4) by simp
next
  case (SSIssued pc n b)
  then show ?thesis using issued_index issued_named(1)[OF assms(1) _ assms(7)] SSIssued assms(4) by auto
next
  case (SSSquash n)
  then obtain v where "s' = s\<lparr>validLFST := v, storeList := filter (\<lambda>e. fst e \<le> n) (storeList s)\<rparr>" "\<forall>k < LFSTSize s. v ! k \<longrightarrow> validLFST s ! k"
    using squash_loop_spec[OF assms(1), of n] assms(4) by (auto simp: squash_store_set_def)
  then show ?thesis using assms(7) by (auto simp: named_by_def calcIndex_def fun_eq_iff)
next
  case SSClear
  then show ?thesis using assms(1,4) by (auto simp: named_by_def clear_def store_set_wf_def tables_wf_def calcIndex_def fun_eq_iff)
qed

lemma ss_steps_named:
  assumes "store_set_wf s" "upto_last prev s" "in_order prev ops" "sn \<le> prev" "\<forall>a b. SSViolation a b \<notin> set ops" "named_by i sn s"
  shows "\<exists>s'. foldM ss_step ops s = Some s' \<and> store_set_wf s' \<and> named_by i sn s' \<and> calcIndex s' = calcIndex s"
  using assms
proof (induction ops arbitrary: s prev)
  case (Cons op ops)
  from ss_step_ok[OF Cons.prems(1-3)] obtain s1 l1 where s1: "ss_step op s = Some s1" "store_set_wf s1" "upto_last l1 s1" "in_order l1 ops" "prev \<le> l1"
    by blast
  have "\<forall>pc. op \<noteq> SSInsertStore pc sn" using Cons.prems(3,4) by auto
  with ss_step_named[OF Cons.prems(1-3) s1(1) _ _ Cons.prems(6)] Cons.prems(5)
  have "named_by i sn s1" "calcIndex s1 = calcIndex s" by auto
  with Cons.IH[OF s1(2-4)] s1 Cons.prems(4,5) show ?case by auto
qed simp

section \<open>Properties\<close>

text \<open>
  C16: once a load was squashed for reading too early from a store, the next instance of the store
  that enters the predictor is reported as the dependence of the load: \<^verbatim>\<open>violation\<close>
  puts both into one store set and \<^verbatim>\<open>insertStore\<close> makes the store its last fetched
  one, unless the periodic clearing falls in between.
\<close>

theorem store_set_learns_dependence:
  assumes "store_set_wf s" and "newer sn s"
    and "\<not> (word_of_int (memOpsPred s + 1) :: 64 word) > clearPeriod s"
  shows "do { s1 \<leftarrow> violation store_PC load_PC s; s2 \<leftarrow> insertStore store_PC sn s1; checkInst load_PC s2 } = Some sn"
proof -
  obtain s1 ssid where v: "violation store_PC load_PC s = Some s1" "store_set_wf s1"
    "validSSIT s1 ! calcIndex s load_PC" "validSSIT s1 ! calcIndex s store_PC"
    "SSIT s1 ! calcIndex s load_PC = ssid" "SSIT s1 ! calcIndex s store_PC = ssid"
    "storeList s1 = storeList s" "calcIndex s1 = calcIndex s" "memOpsPred s1 = memOpsPred s" "clearPeriod s1 = clearPeriod s"
    using violation_spec[OF assms(1)] by blast
  have cc: "checkClear s1 = s1\<lparr>memOpsPred := memOpsPred s1 + 1\<rparr>"
    using assms(3) v by (simp add: checkClear_def)
  have nw: "newer sn s1" using assms(2) v(7) by (simp add: newer_def)
  let ?s2 = "s1\<lparr>memOpsPred := memOpsPred s1 + 1, LFST := (LFST s1)[ssid := sn],
     validLFST := (validLFST s1)[ssid := True], storeList := (sn, ssid) # storeList s1\<rparr>"
  have i2: "insertStore store_PC sn s1 = Some ?s2" "store_set_wf ?s2"
    using insertStore_spec[OF v(2) nw, of store_PC] v cc by auto
  then have t: "tables_wf ?s2" by (simp add: store_set_wf_def)
  have "calcIndex ?s2 load_PC = calcIndex s load_PC" using v(8) by (simp add: calcIndex_def fun_eq_iff)
  moreover from calcIndex_less[OF t, of load_PC] t v this
  have "ssid < LFSTSize s1" "calcIndex s load_PC < SSITSize s1" by (auto simp: tables_wf_def)
  ultimately show ?thesis using v i2 t by (auto simp: checkInst_def tables_wf_def)
qed

definition ex_ss :: store_set where
  "ex_ss = init_store_set 100 4 4"

lemma ex_ss_wf: "store_set_wf ex_ss"
  unfolding ex_ss_def by (rule init_store_set_wf) (simp_all add: isPowerOf2_def)

theorem store_set_learns_dependence_witness:
  "do { s1 \<leftarrow> violation 8 4 ex_ss; s2 \<leftarrow> insertStore 8 7 s1; checkInst 4 s2 } = Some 7"
  by (rule store_set_learns_dependence[OF ex_ss_wf]) (simp_all add: ex_ss_def init_store_set_def newer_def)

text \<open>
  C17: a store that has issued is forgotten: from the moment it enters the predictor other loads and stores may enter and issue, and
  squashes and clears may happen, in any order; once it has issued the predictor names it as the dependence of no
  instruction, at whatever address. The exception is a violation in between, which may move the store to another set.
\<close>

theorem store_set_issue_forgets:
  assumes "store_set_wf s" and "upto_last prev s" and "in_order prev (SSInsertStore PC sn # ops)" and "\<forall>a b. SSViolation a b \<notin> set ops"
    and "\<forall>k < LFSTSize s. validLFST s ! k \<longrightarrow> LFST s ! k \<noteq> sn"
  shows "\<exists>s'. foldM ss_step (SSInsertStore PC sn # ops @ [SSIssued PC sn True]) s = Some s' \<and>
     (\<forall>pc. \<exists>v. checkInst pc s' = Some v \<and> v \<noteq> sn)"
proof -
  let ?i = "calcIndex s PC"
  have ord: "prev < sn" "in_order sn ops" using assms(3) by simp_all
  then have nw: "newer sn s" using assms(2) by (auto simp: upto_last_def newer_def list_all_iff intro: le_less_trans)
  have "\<And>e. e \<in> set (storeList (checkClear s)) \<Longrightarrow> fst e \<le> sn"
    using storeList_checkClear[of s] nw unfolding newer_def list_all_iff by (meson less_imp_le subsetD)
  with insertStore_spec[OF assms(1) nw, of PC] obtain s1 where s1: "insertStore PC sn s = Some s1" "store_set_wf s1" "upto_last sn s1"
    by (auto simp: upto_last_def list_all_iff)
  note ci = insertStore_index[OF s1(1)]
  have "named_by ?i sn s1" using insertStore_named[OF assms(1) nw s1(1), of ?i sn] assms(5) by (auto simp: named_by_def)
  with ss_steps_named[OF s1(2,3) ord(2) order_refl assms(4)] obtain s2 where
    s2: "foldM ss_step ops s1 = Some s2" "store_set_wf s2" "named_by ?i sn s2" "calcIndex s2 = calcIndex s1" by blast
  from issued_wf[OF s2(2), of PC sn True] obtain s3 where s3: "issued PC sn True s2 = Some s3" "store_set_wf s3" by blast
  have gone: "LFST s3 ! k \<noteq> sn" if "k < LFSTSize s3" "validLFST s3 ! k" for k
    using issued_named(2)[OF s2(2) s3(1) s2(3)] s2(4) ci that by simp
  have "\<exists>v. checkInst pc s3 = Some v \<and> v \<noteq> sn" for pc
  proof -
    have t: "tables_wf s3" using s3(2) by (simp add: store_set_wf_def)
    have "sn \<noteq> 0" using ord(1) by auto
    then show ?thesis using calcIndex_less[OF t, of pc] t gone by (auto simp: checkInst_def Let_def tables_wf_def vec_get_def)
  qed
  then show ?thesis using s1(1) s2(1) s3(1) by (auto simp: foldM_append)
qed

theorem store_set_issue_forgets_witness:
  "do { s1 \<leftarrow> violation 8 4 ex_ss; s2 \<leftarrow> insertStore 8 7 s1; checkInst 4 s2 } = Some 7 \<and>
   (\<exists>s1 s'. violation 8 4 ex_ss = Some s1 \<and> foldM ss_step [SSInsertStore 8 7, SSInsertLoad 4 8, SSInsertStore 12 9, SSIssued 8 7 True] s1 = Some s' \<and>
      checkInst 4 s' \<noteq> Some 7)"
proof -
  have c: "violation 8 4 ex_ss \<noteq> None" "do { s1 \<leftarrow> violation 8 4 ex_ss; s2 \<leftarrow> insertStore 8 7 s1; checkInst 4 s2 } = Some 7" by code_simp+
  then obtain s1 where s1: "violation 8 4 ex_ss = Some s1" by blast
  from violation_spec[OF ex_ss_wf, of 8 4] s1 have wf: "store_set_wf s1" "storeList s1 = []" by (auto simp: ex_ss_def init_store_set_def)
  have "map_option (\<lambda>s. list_all (\<lambda>b. \<not> b) (validLFST s) \<and> length (validLFST s) = LFSTSize s) (violation 8 4 ex_ss) = Some True" by code_simp
  then have "\<forall>k < LFSTSize s1. validLFST s1 ! k \<longrightarrow> LFST s1 ! k \<noteq> 7" using s1 by (auto simp: list_all_length)
  with store_set_issue_forgets[OF wf(1), of 0 8 7 "[SSInsertLoad 4 8, SSInsertStore 12 9]"] wf(2)
  obtain s' where "foldM ss_step [SSInsertStore 8 7, SSInsertLoad 4 8, SSInsertStore 12 9, SSIssued 8 7 True] s1 = Some s'"
    "\<forall>pc. \<exists>v. checkInst pc s' = Some v \<and> v \<noteq> 7"
    by (auto simp: upto_last_def)
  with s1 c(2) show ?thesis by (metis option.inject)
qed

text \<open>
  C18: as long as stores enter the predictor in program order, every sequence of operations on a
  well-formed predictor runs through: no assertion fails, no table is read out of range and every
  squash loop ends.
\<close>

theorem store_set_never_stuck:
  assumes "store_set_wf s" and "upto_last prev s" and "in_order prev ops"
  shows "\<exists>s'. foldM ss_step ops s = Some s' \<and> store_set_wf s'"
  using assms
proof (induction ops arbitrary: s prev)
  case (Cons op ops)
  from ss_step_ok[OF Cons.prems] obtain s1 l1 where "ss_step op s = Some s1" "store_set_wf s1"
    "upto_last l1 s1" "in_order l1 ops" by blast
  with Cons.IH[of s1 l1] show ?case by simp
qed simp

theorem store_set_never_stuck_witness:
  "\<exists>s'. foldM ss_step [SSViolation 8 4, SSInsertStore 8 7, SSInsertStore 8 9, SSSquash 8] ex_ss = Some s'"
  using store_set_never_stuck[OF ex_ss_wf, of 0 "[SSViolation 8 4, SSInsertStore 8 7, SSInsertStore 8 9, SSSquash 8]"]
  by (auto simp: upto_last_def ex_ss_def init_store_set_def)

text \<open>
  C19: a squash ends and removes exactly the stores younger than the given sequence number, and a
  store set keeps its last fetched store exactly if none of its listed stores was removed.
\<close>

theorem store_set_squash_exact:
  assumes "store_set_wf s"
  shows "\<exists>s'. squash_store_set sn s = Some s' \<and> storeList s' = filter (\<lambda>e. fst e \<le> sn) (storeList s) \<and>
     LFST s' = LFST s \<and> SSIT s' = SSIT s \<and>
     (\<forall>i. i < LFSTSize s \<longrightarrow> (validLFST s' ! i \<longleftrightarrow>
        validLFST s ! i \<and> (\<forall>k. (k, i) \<in> set (storeList s) \<longrightarrow> k \<le> sn)))"
  using squash_loop_spec[OF assms, of sn] by (auto simp: squash_store_set_def)

definition ex_ss2 :: store_set where
  "ex_ss2 = ex_ss\<lparr>validSSIT := [False, True, True, False], SSIT := replicate 4 0, LFST := [7, 0, 0, 0],
     validLFST := [True, False, False, False], storeList := [(7, 0)], memOpsPred := 1\<rparr>"

theorem store_set_squash_exact_witness:
  "\<exists>s'. squash_store_set 5 ex_ss2 = Some s' \<and> storeList ex_ss2 = [(7, 0)] \<and> storeList s' = []"
proof -
  have "store_set_wf ex_ss2"
    using ex_ss_wf
    by (simp add: ex_ss2_def ex_ss_def init_store_set_def store_set_wf_def tables_wf_def stores_wf_def)
  from store_set_squash_exact[OF this, of 5] show ?thesis by (auto simp: ex_ss2_def)
qed

end
