(* ===== verification/Fu_Pool.thy ===== *)
theory Fu_Pool
  imports Dyn_Inst
begin

text \<open>
  The functional unit pool (\<^verbatim>\<open>src/cpu/o3/fu_pool.hh\<close>, \<^verbatim>\<open>fu_pool.cc\<close>).
  Unit indices are natural numbers; a busy unit holds the sequence number of its instruction, a
  free one holds 0. The result of \<^verbatim>\<open>getUnit\<close> is the code's \<^verbatim>\<open>int\<close>: a
  unit, or one of the two negative codes.
\<close>

section \<open>The circular queue of unit indices\<close>

record fu_idx_queue =
  fq_idx :: nat
  fq_size :: nat
  funcUnitsIdx :: "nat list"

definition empty_fu_queue :: fu_idx_queue where
  "empty_fu_queue = \<lparr>fq_idx = 0, fq_size = 0, funcUnitsIdx = []\<rparr>"

definition addFU :: "nat \<Rightarrow> fu_idx_queue \<Rightarrow> fu_idx_queue" where
  "addFU fu_idx q = q\<lparr>funcUnitsIdx := funcUnitsIdx q @ [fu_idx], fq_size := fq_size q + 1\<rparr>"

definition getFU :: "fu_idx_queue \<Rightarrow> (nat \<times> fu_idx_queue) option" where
  "getFU q = do {
     retval \<leftarrow> vec_get (funcUnitsIdx q) (fq_idx q);
     let i = fq_idx q + 1;
     Some (retval, q\<lparr>fq_idx := (if i = fq_size q then 0 else i)\<rparr>) }"

text \<open>
  What a user of the queue relies on: \<open>get\<close> hands out the first element and moves it to the
  back.
\<close>

locale cyclic_queue =
  fixes get :: "'q \<Rightarrow> ('a \<times> 'q) option" and contents :: "'q \<Rightarrow> 'a list" and ok :: "'q \<Rightarrow> bool"
  assumes get_contents: "ok q \<Longrightarrow> contents q \<noteq> [] \<Longrightarrow>
    \<exists>q'. get q = Some (hd (contents q), q') \<and> contents q' = rotate1 (contents q) \<and> ok q'"
begin

text \<open>Taking elements one by one visits the queue in order.\<close>

lemma get_Cons:
  assumes "ok q" and "contents q = x # xs"
  obtains q' where "get q = Some (x, q')" and "contents q' = xs @ [x]" and "ok q'"
  using get_contents[of q] assms by auto

lemma get_keeps_contents:
  assumes "ok q" and "get q = Some (x, q')" and "contents q \<noteq> []"
  shows "ok q'" and "set (contents q') = set (contents q)"
    and "distinct (contents q') = distinct (contents q)" and "x \<in> set (contents q)"
  using get_contents[OF assms(1,3)] assms(2,3) by auto

end

definition queue_ok :: "fu_idx_queue \<Rightarrow> bool" where
  "queue_ok q \<longleftrightarrow> fq_size q = length (funcUnitsIdx q) \<and> (fq_idx q < fq_size q \<or> fq_idx q = 0)"

definition queue_contents :: "fu_idx_queue \<Rightarrow> nat list" where
  "queue_contents q = drop (fq_idx q) (funcUnitsIdx q) @ take (fq_idx q) (funcUnitsIdx q)"

interpretation fuq: cyclic_queue getFU queue_contents queue_ok
proof
  fix q assume ok: "queue_ok q" and ne: "queue_contents q \<noteq> []"
  let ?l = "funcUnitsIdx q" and ?i = "fq_idx q"
  from ok ne have i: "?i < length ?l" by (auto simp: queue_ok_def queue_contents_def)
  then have d: "drop ?i ?l = ?l ! ?i # drop (Suc ?i) ?l" by (rule Cons_nth_drop_Suc[symmetric])
  let ?q = "q\<lparr>fq_idx := (if Suc ?i = length ?l then 0 else Suc ?i)\<rparr>"
  have "getFU q = Some (?l ! ?i, ?q)" using i ok by (simp add: getFU_def queue_ok_def)
  moreover have "queue_contents ?q = rotate1 (queue_contents q)"
  proof (cases "Suc ?i = length ?l")
    case True
    then have "?l = take ?i ?l @ [?l ! ?i]" using d by (metis append_take_drop_id drop_all order_refl)
    with True d show ?thesis by (simp add: queue_contents_def)
  next
    case False
    then show ?thesis using i d by (simp add: queue_contents_def take_Suc_conv_app_nth)
  qed
  moreover have "queue_ok ?q" using ok i by (auto simp: queue_ok_def)
  moreover have "hd (queue_contents q) = ?l ! ?i" using d by (simp add: queue_contents_def)
  ultimately show "\<exists>q'. getFU q = Some (hd (queue_contents q), q') \<and>
      queue_contents q' = rotate1 (queue_contents q) \<and> queue_ok q'" by metis
qed

lemma set_queue_contents: "set (queue_contents q) = set (funcUnitsIdx q)"
  by (metis Un_commute append_take_drop_id queue_contents_def set_append)

lemma distinct_queue_contents: "distinct (queue_contents q) = distinct (funcUnitsIdx q)"
  unfolding queue_contents_def by (metis append_take_drop_id distinct_append inf_commute)

section \<open>The pool\<close>

record op_desc =
  opd_opClass :: op_class
  opd_opLat :: nat
  opd_pipelined :: bool

record fu_desc =
  fud_opDescList :: "op_desc list"
  fud_number :: nat

record fu_pool =
  maxOpLatencies :: "op_class \<Rightarrow> nat"
  pipelined :: "op_class \<Rightarrow> bool"
  capabilityList :: "op_class set"
  unitsToBeFreed :: "nat list"
  numFU :: nat
  funcUnits :: "op_desc list list"
  unitBusy :: "inst_seq_num list"
  fuPerCapList :: "op_class \<Rightarrow> fu_idx_queue"

text \<open>The constructor: one operation description, one unit description, all of them.\<close>

definition add_op :: "nat \<Rightarrow> op_desc \<Rightarrow> fu_pool \<Rightarrow> fu_pool" where
  "add_op number d p =
     (let c = opd_opClass d in
      p\<lparr>capabilityList := insert c (capabilityList p),
        fuPerCapList := (fuPerCapList p)(c := fold (\<lambda>k. addFU (numFU p + k)) [0..<number] (fuPerCapList p c)),
        maxOpLatencies := (maxOpLatencies p)(c := max (opd_opLat d) (maxOpLatencies p c)),
        pipelined := (pipelined p)(c := pipelined p c \<and> opd_pipelined d)\<rparr>)"

definition add_desc :: "fu_desc \<Rightarrow> fu_pool \<Rightarrow> fu_pool" where
  "add_desc d p =
     (if fud_number d \<noteq> 0 then
        let p1 = fold (add_op (fud_number d)) (fud_opDescList d) p
        in p1\<lparr>numFU := numFU p1 + fud_number d,
              funcUnits := funcUnits p1 @ replicate (fud_number d) (fud_opDescList d)\<rparr>
      else p)"

definition new_fu_pool :: "fu_desc list \<Rightarrow> fu_pool" where
  "new_fu_pool descs =
     (let p = fold add_desc descs
                \<lparr>maxOpLatencies = (\<lambda>_. 0), pipelined = (\<lambda>_. True), capabilityList = {},
                 unitsToBeFreed = [], numFU = 0, funcUnits = [], unitBusy = [],
                 fuPerCapList = (\<lambda>_. empty_fu_queue)\<rparr>
      in p\<lparr>unitBusy := replicate (numFU p) 0\<rparr>)"

text \<open>The loop of \<^verbatim>\<open>getUnit\<close>: \<open>None\<close> also stands for a search that does not end.\<close>

partial_function (option) getUnit_loop ::
  "op_class \<Rightarrow> nat \<Rightarrow> nat \<Rightarrow> fu_pool \<Rightarrow> (nat option \<times> fu_pool) option" where
  "getUnit_loop capability start_idx fu_idx p = do {
     busy \<leftarrow> vec_get (unitBusy p) fu_idx;
     (if busy \<noteq> 0 then do {
        r \<leftarrow> getFU (fuPerCapList p capability);
        let p1 = p\<lparr>fuPerCapList := (fuPerCapList p)(capability := snd r)\<rparr>;
        (if fst r = start_idx then Some (None, p1)
         else getUnit_loop capability start_idx (fst r) p1) }
      else Some (Some fu_idx, p)) }"

definition getUnit :: "op_class \<Rightarrow> inst_seq_num \<Rightarrow> fu_pool \<Rightarrow> (int \<times> fu_pool) option" where
  "getUnit capability sn p = do {
     check (sn \<noteq> 0);
     (if capability \<notin> capabilityList p then Some (-2, p)
      else do {
        (fu_idx, q) \<leftarrow> getFU (fuPerCapList p capability);
        (res, p1) \<leftarrow> getUnit_loop capability fu_idx fu_idx (p\<lparr>fuPerCapList := (fuPerCapList p)(capability := q)\<rparr>);
        (case res of
           None \<Rightarrow> Some (-1, p1)
         | Some u \<Rightarrow> do {
             check (u < numFU p1);
             b \<leftarrow> vec_set (unitBusy p1) u sn;
             Some (int u, p1\<lparr>unitBusy := b\<rparr>) }) }) }"

definition freeUnitNextCycle :: "nat \<Rightarrow> fu_pool \<Rightarrow> fu_pool option" where
  "freeUnitNextCycle fu_idx p = do {
     b \<leftarrow> vec_get (unitBusy p) fu_idx;
     check (b \<noteq> 0);
     Some (p\<lparr>unitsToBeFreed := unitsToBeFreed p @ [fu_idx]\<rparr>) }"

fun free_loop :: "nat list \<Rightarrow> fu_pool \<Rightarrow> fu_pool option" where
  "free_loop [] p = Some p"
| "free_loop (fu_idx # l) p = do {
     b \<leftarrow> vec_get (unitBusy p) fu_idx;
     check (b \<noteq> 0);
     free_loop l (p\<lparr>unitBusy := (unitBusy p)[fu_idx := 0]\<rparr>) }"

text \<open>\<^verbatim>\<open>processFreeUnits\<close> takes the units from the back of the vector.\<close>

definition processFreeUnits :: "fu_pool \<Rightarrow> fu_pool option" where
  "processFreeUnits p = free_loop (rev (unitsToBeFreed p)) (p\<lparr>unitsToBeFreed := []\<rparr>)"

definition fu_isDrained :: "fu_pool \<Rightarrow> bool" where
  "fu_isDrained p \<longleftrightarrow> list_all (\<lambda>i. unitBusy p ! i = 0) [0..<numFU p]"

definition getOpLatency :: "op_class \<Rightarrow> fu_pool \<Rightarrow> nat" where
  "getOpLatency c p = maxOpLatencies p c"

definition isPipelined :: "op_class \<Rightarrow> fu_pool \<Rightarrow> bool" where
  "isPipelined c p = pipelined p c"

section \<open>Well-formed pools\<close>

definition queues_wf :: "fu_pool \<Rightarrow> bool" where
  "queues_wf p \<longleftrightarrow>
     (\<forall>c. queue_ok (fuPerCapList p c) \<and> distinct (queue_contents (fuPerCapList p c)) \<and>
          (\<forall>u \<in> set (queue_contents (fuPerCapList p c)). u < numFU p) \<and>
          (c \<in> capabilityList p \<longleftrightarrow> queue_contents (fuPerCapList p c) \<noteq> []))"

definition fu_pool_wf :: "fu_pool \<Rightarrow> bool" where
  "fu_pool_wf p \<longleftrightarrow> queues_wf p \<and> length (unitBusy p) = numFU p"

text \<open>
  The search from a unit: \<open>vis\<close> has been looked at, the last of it being the current unit, and
  \<open>rest\<close> has not. It finds the first free unit from the current one on, and moves the queue
  only.
\<close>

lemma getUnit_loop_spec:
  assumes "queue_ok (fuPerCapList p c)" and "queue_contents (fuPerCapList p c) = rest @ vis @ [fu]"
    and "distinct (rest @ vis @ [fu])" and "hd (vis @ [fu]) = start"
    and "\<forall>u \<in> set (rest @ vis @ [fu]). u < length (unitBusy p)"
  shows "\<exists>q. getUnit_loop c start fu p =
       Some (find (\<lambda>u. unitBusy p ! u = 0) (fu # rest), p\<lparr>fuPerCapList := (fuPerCapList p)(c := q)\<rparr>) \<and>
     queue_ok q \<and> distinct (queue_contents q) \<and> set (queue_contents q) = set (rest @ vis @ [fu])"
  using assms
proof (induction rest arbitrary: p vis fu)
  case Nil
  have e: "queue_contents (fuPerCapList p c) = start # tl (vis @ [fu])"
    using Nil.prems(2,4) by (cases vis) auto
  obtain q where q: "getFU (fuPerCapList p c) = Some (start, q)"
    "queue_contents q = tl (vis @ [fu]) @ [start]" "queue_ok q"
    using fuq.get_Cons[OF Nil.prems(1) e] by blast
  have d: "distinct (queue_contents q) \<and> set (queue_contents q) = set (vis @ [fu])"
    using q(2) Nil.prems(3,4) by (cases vis) auto
  show ?case
  proof (cases "unitBusy p ! fu = 0")
    case True
    then have "getUnit_loop c start fu p = Some (Some fu, p)"
      using Nil.prems(5) by (subst getUnit_loop.simps) simp
    then show ?thesis using True Nil.prems(1-3) by (intro exI[of _ "fuPerCapList p c"]) simp
  next
    case False
    then have "getUnit_loop c start fu p = Some (None, p\<lparr>fuPerCapList := (fuPerCapList p)(c := q)\<rparr>)"
      using Nil.prems(5) q(1) by (subst getUnit_loop.simps) simp
    then show ?thesis using False q d by (intro exI[of _ q]) (simp add: fun_upd_def)
  qed
next
  case (Cons x rest)
  have e: "queue_contents (fuPerCapList p c) = x # (rest @ vis @ [fu])" using Cons.prems(2) by simp
  obtain q where q: "getFU (fuPerCapList p c) = Some (x, q)"
    "queue_contents q = (rest @ vis @ [fu]) @ [x]" "queue_ok q"
    using fuq.get_Cons[OF Cons.prems(1) e] by blast
  show ?case
  proof (cases "unitBusy p ! fu = 0")
    case True
    then have "getUnit_loop c start fu p = Some (Some fu, p)"
      using Cons.prems(5) by (subst getUnit_loop.simps) simp
    then show ?thesis using True Cons.prems(1-3) by (intro exI[of _ "fuPerCapList p c"]) simp
  next
    case False
    let ?p = "p\<lparr>fuPerCapList := (fuPerCapList p)(c := q)\<rparr>"
    have ne: "x \<noteq> start" using Cons.prems(3,4) by (cases vis) auto
    have step: "getUnit_loop c start fu p = getUnit_loop c start x ?p"
      using False Cons.prems(5) q(1) ne by (subst getUnit_loop.simps) simp
    have "\<exists>q'. getUnit_loop c start x ?p =
         Some (find (\<lambda>u. unitBusy ?p ! u = 0) (x # rest), ?p\<lparr>fuPerCapList := (fuPerCapList ?p)(c := q')\<rparr>) \<and>
       queue_ok q' \<and> distinct (queue_contents q') \<and> set (queue_contents q') = set (rest @ (vis @ [fu]) @ [x])"
      using q Cons.prems by (intro Cons.IH) (auto simp: hd_append)
    then obtain q' where q': "getUnit_loop c start x ?p =
         Some (find (\<lambda>u. unitBusy p ! u = 0) (x # rest), p\<lparr>fuPerCapList := (fuPerCapList p)(c := q')\<rparr>)"
       "queue_ok q'" "distinct (queue_contents q')" "set (queue_contents q') = set (rest @ (vis @ [fu]) @ [x])"
      by auto
    show ?thesis unfolding step
      by (rule exI[of _ q']) (use q' False in \<open>auto simp: fun_upd_def\<close>)
  qed
qed

text \<open>
  \<^verbatim>\<open>getUnit\<close>: no capability, no free unit, or the first free unit in queue order, which
  becomes busy with the instruction.
\<close>

lemma getUnit_spec:
  assumes wf: "fu_pool_wf p" and sn: "sn \<noteq> 0"
  shows "\<exists>q. getUnit c sn p =
     Some (if c \<notin> capabilityList p then (-2, p)
           else case find (\<lambda>u. unitBusy p ! u = 0) (queue_contents (fuPerCapList p c)) of
              None \<Rightarrow> (-1, p\<lparr>fuPerCapList := (fuPerCapList p)(c := q)\<rparr>)
            | Some u \<Rightarrow> (int u, p\<lparr>fuPerCapList := (fuPerCapList p)(c := q), unitBusy := (unitBusy p)[u := sn]\<rparr>)) \<and>
     queue_ok q \<and> distinct (queue_contents q) \<and>
     set (queue_contents q) = set (queue_contents (fuPerCapList p c))"
proof (cases "c \<in> capabilityList p")
  case False
  then show ?thesis using sn wf
    by (intro exI[of _ "fuPerCapList p c"]) (simp add: getUnit_def fu_pool_wf_def queues_wf_def)
next
  case True
  let ?l = "queue_contents (fuPerCapList p c)"
  from wf have k: "queue_ok (fuPerCapList p c)" "distinct ?l" "\<forall>u \<in> set ?l. u < numFU p"
    and b: "length (unitBusy p) = numFU p"
    by (auto simp: fu_pool_wf_def queues_wf_def)
  from True wf have "?l \<noteq> []" by (simp add: fu_pool_wf_def queues_wf_def)
  then obtain x rest where l: "?l = x # rest" by (cases ?l) auto
  obtain q where q: "getFU (fuPerCapList p c) = Some (x, q)" "queue_contents q = rest @ [x]" "queue_ok q"
    using fuq.get_Cons[OF k(1) l] by blast
  let ?p = "p\<lparr>fuPerCapList := (fuPerCapList p)(c := q)\<rparr>"
  obtain q' where loop: "getUnit_loop c x x ?p =
       Some (find (\<lambda>u. unitBusy p ! u = 0) (x # rest), p\<lparr>fuPerCapList := (fuPerCapList p)(c := q')\<rparr>)"
     and q': "queue_ok q'" "distinct (queue_contents q')" "set (queue_contents q') = set (rest @ [x])"
    using getUnit_loop_spec[of ?p c rest "[]" x x] q k l b by auto
  show ?thesis
  proof (intro exI conjI)
    show "getUnit c sn p = Some (if c \<notin> capabilityList p then (-2, p)
           else case find (\<lambda>u. unitBusy p ! u = 0) ?l of
              None \<Rightarrow> (-1, p\<lparr>fuPerCapList := (fuPerCapList p)(c := q')\<rparr>)
            | Some u \<Rightarrow> (int u, p\<lparr>fuPerCapList := (fuPerCapList p)(c := q'), unitBusy := (unitBusy p)[u := sn]\<rparr>))"
    proof (cases "find (\<lambda>u. unitBusy p ! u = 0) ?l")
      case None
      then show ?thesis using True sn q(1) loop l by (simp add: getUnit_def)
    next
      case (Some u)
      then have "u < numFU p" using k(3) by (auto dest: find_SomeD)
      with Some True sn q(1) loop l b show ?thesis by (simp add: getUnit_def)
    qed
  qed (use q' l in auto)
qed

lemma queues_wf_upd:
  assumes wf: "queues_wf p" and q: "queue_ok q" "distinct (queue_contents q)"
    "set (queue_contents q) = set (queue_contents (fuPerCapList p c))"
  shows "queues_wf (p\<lparr>fuPerCapList := (fuPerCapList p)(c := q)\<rparr>)"
proof -
  have "queue_contents q = [] \<longleftrightarrow> queue_contents (fuPerCapList p c) = []" using q(3) by (metis set_empty)
  with wf q have "queue_ok (((fuPerCapList p)(c := q)) d) \<and> distinct (queue_contents (((fuPerCapList p)(c := q)) d)) \<and>
      (\<forall>u \<in> set (queue_contents (((fuPerCapList p)(c := q)) d)). u < numFU p) \<and>
      (d \<in> capabilityList p \<longleftrightarrow> queue_contents (((fuPerCapList p)(c := q)) d) \<noteq> [])" for d
    by (cases "d = c") (auto simp: queues_wf_def)
  then show ?thesis by (simp add: queues_wf_def)
qed

lemma getUnit_wf:
  assumes wf: "fu_pool_wf p" and run: "getUnit c sn p = Some (res, p')"
  shows "fu_pool_wf p'"
proof -
  from run have "sn \<noteq> 0" by (auto simp: getUnit_def split: if_splits)
  from getUnit_spec[OF wf this, of c] run obtain q where
    "p' = p \<or> p' = p\<lparr>fuPerCapList := (fuPerCapList p)(c := q)\<rparr> \<or>
     (\<exists>u. p' = p\<lparr>fuPerCapList := (fuPerCapList p)(c := q), unitBusy := (unitBusy p)[u := sn]\<rparr>)"
    "queue_ok q" "distinct (queue_contents q)"
    "set (queue_contents q) = set (queue_contents (fuPerCapList p c))"
    by (auto split: if_splits option.splits)
  moreover from this have "queues_wf (p\<lparr>fuPerCapList := (fuPerCapList p)(c := q)\<rparr>)"
    using wf by (intro queues_wf_upd) (auto simp: fu_pool_wf_def)
  moreover have "queues_wf (r\<lparr>unitBusy := b\<rparr>) = queues_wf r" for r b by (simp add: queues_wf_def)
  ultimately show ?thesis using wf unfolding fu_pool_wf_def by auto
qed

text \<open>The constructed pool, when no unit description names an operation class twice.\<close>

definition queue_extend :: "nat \<Rightarrow> nat \<Rightarrow> fu_idx_queue \<Rightarrow> fu_idx_queue" where
  "queue_extend n m q = q\<lparr>funcUnitsIdx := funcUnitsIdx q @ map (\<lambda>k. n + k) [0..<m], fq_size := fq_size q + m\<rparr>"

lemma fold_addFU: "fold (\<lambda>k. addFU (n + k)) [0..<m] q = queue_extend n m q"
  by (induction m) (simp_all add: queue_extend_def addFU_def)

lemma fold_add_op:
  assumes "distinct (map opd_opClass ops)"
  shows "fuPerCapList (fold (add_op m) ops p) c =
       (if c \<in> opd_opClass ` set ops then queue_extend (numFU p) m (fuPerCapList p c) else fuPerCapList p c) \<and>
     capabilityList (fold (add_op m) ops p) = capabilityList p \<union> opd_opClass ` set ops \<and>
     numFU (fold (add_op m) ops p) = numFU p"
  using assms
proof (induction ops arbitrary: p)
  case (Cons d ops)
  have p1: "numFU (add_op m d p) = numFU p"
    "capabilityList (add_op m d p) = insert (opd_opClass d) (capabilityList p)"
    "fuPerCapList (add_op m d p) = (fuPerCapList p)(opd_opClass d := queue_extend (numFU p) m (fuPerCapList p (opd_opClass d)))"
    by (simp_all add: add_op_def Let_def fold_addFU)
  show ?case using Cons.IH[of "add_op m d p"] Cons.prems by (auto simp: p1)
qed simp

definition building :: "fu_pool \<Rightarrow> bool" where
  "building p \<longleftrightarrow> queues_wf p \<and> (\<forall>c. fq_idx (fuPerCapList p c) = 0)"

lemma queue_extend_contents:
  assumes "fq_idx q = 0"
  shows "queue_contents (queue_extend n m q) = queue_contents q @ [n..<n + m]"
proof -
  have "map (\<lambda>k. n + k) [0..<m] = [n..<n + m]" by (rule nth_equalityI) auto
  with assms show ?thesis by (simp add: queue_contents_def queue_extend_def)
qed

lemma add_desc_building:
  assumes b: "building p" and d: "distinct (map opd_opClass (fud_opDescList d))"
  shows "building (add_desc d p)"
proof (cases "fud_number d = 0")
  case False
  let ?m = "fud_number d" and ?ops = "fud_opDescList d"
  let ?p1 = "fold (add_op ?m) ?ops p"
  have f: "fuPerCapList ?p1 c = (if c \<in> opd_opClass ` set ?ops then queue_extend (numFU p) ?m (fuPerCapList p c)
      else fuPerCapList p c)" for c
    using fold_add_op[OF d, of ?m p c] by blast
  have g: "capabilityList ?p1 = capabilityList p \<union> opd_opClass ` set ?ops" "numFU ?p1 = numFU p"
    using fold_add_op[OF d, of ?m p undefined] by blast+
  have key: "queue_ok q' \<and> distinct (queue_contents q') \<and> (\<forall>u \<in> set (queue_contents q'). u < numFU p + ?m) \<and>
      (c \<in> capabilityList p \<union> opd_opClass ` set ?ops \<longleftrightarrow> queue_contents q' \<noteq> []) \<and> fq_idx q' = 0"
    if "q' = (if c \<in> opd_opClass ` set ?ops then queue_extend (numFU p) ?m (fuPerCapList p c) else fuPerCapList p c)"
    for c q'
  proof -
    have w: "queue_ok (fuPerCapList p c)" "distinct (queue_contents (fuPerCapList p c))"
      "\<forall>u \<in> set (queue_contents (fuPerCapList p c)). u < numFU p"
      "c \<in> capabilityList p \<longleftrightarrow> queue_contents (fuPerCapList p c) \<noteq> []" "fq_idx (fuPerCapList p c) = 0"
      using b by (auto simp: building_def queues_wf_def)
    show ?thesis
    proof (cases "c \<in> opd_opClass ` set ?ops")
      case True
      have e: "queue_contents q' = queue_contents (fuPerCapList p c) @ [numFU p..<numFU p + ?m]"
        using that True queue_extend_contents[OF w(5)] by simp
      have "queue_ok q' \<and> fq_idx q' = 0" using that True w(1,5) by (auto simp: queue_ok_def queue_extend_def)
      with e w(2,3) True False show ?thesis by (fastforce simp: trans_less_add1)
    next
      case no: False
      with that w show ?thesis by (auto intro: trans_less_add1)
    qed
  qed
  show ?thesis
    using key[OF f] False by (simp add: building_def queues_wf_def add_desc_def Let_def g)
qed (use b in \<open>simp add: add_desc_def\<close>)

lemma fold_building:
  "building p \<Longrightarrow> \<forall>d \<in> set descs. distinct (map opd_opClass (fud_opDescList d)) \<Longrightarrow>
   building (fold add_desc descs p)"
  by (induction descs arbitrary: p) (auto intro: add_desc_building)

lemma new_fu_pool_wf:
  assumes "\<forall>d \<in> set descs. distinct (map opd_opClass (fud_opDescList d))"
  shows "fu_pool_wf (new_fu_pool descs)"
proof -
  let ?p0 = "\<lparr>maxOpLatencies = (\<lambda>_. 0), pipelined = (\<lambda>_. True), capabilityList = {},
                 unitsToBeFreed = [], numFU = 0, funcUnits = [], unitBusy = [],
                 fuPerCapList = (\<lambda>_. empty_fu_queue)\<rparr>"
  have "building ?p0"
    by (simp add: building_def queues_wf_def queue_ok_def queue_contents_def empty_fu_queue_def)
  then have "building (fold add_desc descs ?p0)"
    using assms by (rule fold_building)
  then show ?thesis by (auto simp: new_fu_pool_def fu_pool_wf_def building_def queues_wf_def Let_def)
qed

section \<open>Properties\<close>

text \<open>
  C20: \<^verbatim>\<open>getUnit\<close> always returns on a well-formed pool, and keeps it well formed. It
  answers -2 exactly if no unit has the capability and -1 exactly if all units that have it are
  busy; otherwise it returns a free capable unit, which is busy with the instruction afterwards
  while every other unit is unchanged.
\<close>

theorem getUnit_correct:
  assumes "fu_pool_wf p" and "sn \<noteq> 0"
  shows "\<exists>res p'. getUnit c sn p = Some (res, p') \<and> fu_pool_wf p' \<and> res \<ge> -2 \<and>
     (res = -2 \<longleftrightarrow> c \<notin> capabilityList p) \<and>
     (res = -1 \<longleftrightarrow> c \<in> capabilityList p \<and>
        list_all (\<lambda>u. unitBusy p ! u \<noteq> 0) (funcUnitsIdx (fuPerCapList p c))) \<and>
     (if res \<ge> 0
      then nat res \<in> set (funcUnitsIdx (fuPerCapList p c)) \<and> unitBusy p ! nat res = 0 \<and>
           unitBusy p' = (unitBusy p)[nat res := sn]
      else unitBusy p' = unitBusy p)"
proof -
  obtain q where run: "getUnit c sn p = Some (if c \<notin> capabilityList p then (-2, p)
           else case find (\<lambda>u. unitBusy p ! u = 0) (queue_contents (fuPerCapList p c)) of
              None \<Rightarrow> (-1, p\<lparr>fuPerCapList := (fuPerCapList p)(c := q)\<rparr>)
            | Some u \<Rightarrow> (int u, p\<lparr>fuPerCapList := (fuPerCapList p)(c := q), unitBusy := (unitBusy p)[u := sn]\<rparr>))"
    using getUnit_spec[OF assms] by blast
  note w = getUnit_wf[OF assms(1)]
  consider (cap) "c \<notin> capabilityList p" | (none) "c \<in> capabilityList p"
      "find (\<lambda>u. unitBusy p ! u = 0) (queue_contents (fuPerCapList p c)) = None"
    | (some) u where "c \<in> capabilityList p"
      "find (\<lambda>u. unitBusy p ! u = 0) (queue_contents (fuPerCapList p c)) = Some u"
    by (cases "find (\<lambda>u. unitBusy p ! u = 0) (queue_contents (fuPerCapList p c))") blast+
  then show ?thesis
  proof cases
    case cap
    then show ?thesis using run w by auto
  next
    case none
    then have "list_all (\<lambda>u. unitBusy p ! u \<noteq> 0) (funcUnitsIdx (fuPerCapList p c))"
      using set_queue_contents[of "fuPerCapList p c"] by (auto simp: list_all_iff find_None_iff)
    with none show ?thesis using run w by auto
  next
    case some
    then have u: "u \<in> set (funcUnitsIdx (fuPerCapList p c))" "unitBusy p ! u = 0"
      using set_queue_contents[of "fuPerCapList p c"] by (auto dest: find_SomeD)
    then have "\<not> list_all (\<lambda>u. unitBusy p ! u \<noteq> 0) (funcUnitsIdx (fuPerCapList p c))"
      by (auto simp: list_all_iff)
    with some u show ?thesis using run w by auto
  qed
qed

definition ex_descs :: "fu_desc list" where
  "ex_descs = [\<lparr>fud_opDescList = [\<lparr>opd_opClass = IntAlu, opd_opLat = 1, opd_pipelined = True\<rparr>,
      \<lparr>opd_opClass = IntDiv, opd_opLat = 20, opd_pipelined = False\<rparr>], fud_number = 2\<rparr>]"

lemma ex_pool_wf: "fu_pool_wf (new_fu_pool ex_descs)"
  by (rule new_fu_pool_wf) (simp add: ex_descs_def)

theorem getUnit_correct_witness:
  "\<exists>res p'. getUnit IntDiv 7 (new_fu_pool ex_descs) = Some (res, p') \<and> fu_pool_wf p' \<and>
     res \<ge> 0 \<and> unitBusy p' = [0, 0][nat res := 7]"
proof -
  have "IntDiv \<in> capabilityList (new_fu_pool ex_descs)" "unitBusy (new_fu_pool ex_descs) = [0, 0]"
    "funcUnitsIdx (fuPerCapList (new_fu_pool ex_descs) IntDiv) = [0, 1]"
    by (simp_all add: new_fu_pool_def ex_descs_def add_desc_def add_op_def addFU_def empty_fu_queue_def
        Let_def numeral_2_eq_2)
  with getUnit_correct[OF ex_pool_wf, of 7 IntDiv] obtain res p' where
    r: "getUnit IntDiv 7 (new_fu_pool ex_descs) = Some (res, p')" "fu_pool_wf p'" "res \<ge> -2" "res \<noteq> -2" "res \<noteq> -1"
    "res \<ge> 0 \<Longrightarrow> unitBusy p' = [0, 0][nat res := 7]" by auto
  moreover from r(3-5) have "res \<ge> 0" by linarith
  ultimately show ?thesis by blast
qed

end
