(* ===== verification/Ready_List.thy ===== *)
theory Ready_List
  imports Rob
begin

text \<open>
  The ready queues of the instruction queue and the list that orders them by the age of their
  oldest instruction (\<^verbatim>\<open>src/cpu/o3/inst_queue.hh\<close>, \<^verbatim>\<open>inst_queue_impl.hh\<close>).
  A \<^verbatim>\<open>std::priority_queue\<close> is a list in the order in which it is popped. The
  iterators of the \<^verbatim>\<open>std::list\<close> \<^verbatim>\<open>listOrder\<close> are node numbers,
  with \<open>None\<close> for \<^verbatim>\<open>end()\<close>; the use of an iterator whose node is gone fails.
\<close>

section \<open>Operations\<close>

record order_entry =
  node :: nat
  queueType :: op_class
  oldestInst :: inst_seq_num

record ready_state =
  readyInsts :: "op_class \<Rightarrow> iptr list"
  listOrder :: "order_entry list"
  queueOnList :: "op_class \<Rightarrow> bool"
  readyIt :: "op_class \<Rightarrow> nat option"
  nextNode :: nat

definition empty_ready :: ready_state where
  "empty_ready = \<lparr>readyInsts = (\<lambda>_. []), listOrder = [], queueOnList = (\<lambda>_. False), readyIt = (\<lambda>_. None),
     nextNode = 0\<rparr>"

fun pq_push :: "inst_heap \<Rightarrow> iptr \<Rightarrow> iptr list \<Rightarrow> iptr list" where
  "pq_push h p [] = [p]"
| "pq_push h p (q # qs) = (if seqNum (h p) < seqNum (h q) then p # q # qs else q # pq_push h p qs)"

definition pq_top :: "iptr list \<Rightarrow> iptr option" where
  "pq_top q = (case q of [] \<Rightarrow> None | p # _ \<Rightarrow> Some p)"

text \<open>The entry an iterator points to, the iterator after it, and \<^verbatim>\<open>erase\<close>.\<close>

definition deref :: "nat \<Rightarrow> order_entry list \<Rightarrow> order_entry option" where
  "deref it l = find (\<lambda>e. node e = it) l"

fun next_it :: "nat \<Rightarrow> order_entry list \<Rightarrow> nat option option" where
  "next_it it [] = None"
| "next_it it (e # es) =
     (if node e = it then Some (case es of [] \<Rightarrow> None | e' # _ \<Rightarrow> Some (node e')) else next_it it es)"

fun erase :: "nat \<Rightarrow> order_entry list \<Rightarrow> order_entry list option" where
  "erase it [] = None"
| "erase it (e # es) = (if node e = it then Some es else map_option ((#) e) (erase it es))"

text \<open>The insertion loop of \<^verbatim>\<open>addToOrderList\<close>.\<close>

fun insert_by_age :: "order_entry \<Rightarrow> order_entry list \<Rightarrow> order_entry list" where
  "insert_by_age q [] = [q]"
| "insert_by_age q (e # es) = (if oldestInst e > oldestInst q then q # e # es else e # insert_by_age q es)"

definition addToOrderList :: "op_class \<Rightarrow> inst_heap \<Rightarrow> ready_state \<Rightarrow> ready_state option" where
  "addToOrderList op_class h r = do {
     top \<leftarrow> pq_top (readyInsts r op_class);
     let queue_entry = \<lparr>node = nextNode r, queueType = op_class, oldestInst = seqNum (h top)\<rparr>;
     Some (r\<lparr>listOrder := insert_by_age queue_entry (listOrder r),
             readyIt := (readyIt r)(op_class := Some (nextNode r)),
             queueOnList := (queueOnList r)(op_class := True),
             nextNode := Suc (nextNode r)\<rparr>) }"

text \<open>
  The insertion of \<^verbatim>\<open>moveToYoungerInst\<close> starts after the entry of the queue and passes
  the entries that are older than the new top.
\<close>

fun insert_after :: "order_entry \<Rightarrow> order_entry list \<Rightarrow> order_entry list" where
  "insert_after q [] = [q]"
| "insert_after q (e # es) = (if oldestInst e < oldestInst q then e # insert_after q es else q # e # es)"

fun insert_behind :: "nat \<Rightarrow> order_entry \<Rightarrow> order_entry list \<Rightarrow> order_entry list option" where
  "insert_behind it q [] = None"
| "insert_behind it q (e # es) =
     (if node e = it then Some (e # insert_after q es) else map_option ((#) e) (insert_behind it q es))"

definition moveToYoungerInst :: "nat \<Rightarrow> inst_heap \<Rightarrow> ready_state \<Rightarrow> ready_state option" where
  "moveToYoungerInst it h r = do {
     e \<leftarrow> deref it (listOrder r);
     top \<leftarrow> pq_top (readyInsts r (queueType e));
     let queue_entry = \<lparr>node = nextNode r, queueType = queueType e, oldestInst = seqNum (h top)\<rparr>;
     l \<leftarrow> insert_behind it queue_entry (listOrder r);
     Some (r\<lparr>listOrder := l, readyIt := (readyIt r)(queueType e := Some (nextNode r)),
             nextNode := Suc (nextNode r)\<rparr>) }"

text \<open>
  \<^verbatim>\<open>addReadyMemInst\<close>, which is also the tail of \<^verbatim>\<open>addIfReady\<close>.
\<close>

definition addReadyMemInst :: "inst_heap \<Rightarrow> iptr \<Rightarrow> ready_state \<Rightarrow> ready_state option" where
  "addReadyMemInst h ready_inst r = do {
     let op_class = opClass (h ready_inst);
     let r1 = r\<lparr>readyInsts := (readyInsts r)(op_class := pq_push h ready_inst (readyInsts r op_class))\<rparr>;
     (if \<not> queueOnList r1 op_class then addToOrderList op_class h r1
      else do {
        top \<leftarrow> pq_top (readyInsts r1 op_class);
        it \<leftarrow> readyIt r1 op_class;
        e \<leftarrow> deref it (listOrder r1);
        (if seqNum (h top) < oldestInst e then do {
           l \<leftarrow> erase it (listOrder r1);
           addToOrderList op_class h (r1\<lparr>listOrder := l\<rparr>) }
         else Some r1) }) }"

text \<open>
  The steps that take the top off a queue during scheduling: pop, reposition the queue or take it
  off the list, and erase the old entry. The result is the iterator after the erased entry.
\<close>

definition take_top :: "nat \<Rightarrow> op_class \<Rightarrow> inst_heap \<Rightarrow> ready_state \<Rightarrow> (nat option \<times> ready_state) option" where
  "take_top order_it op_class h r = do {
     check (readyInsts r op_class \<noteq> []);
     let r1 = r\<lparr>readyInsts := (readyInsts r)(op_class := tl (readyInsts r op_class))\<rparr>;
     r2 \<leftarrow> (if readyInsts r1 op_class \<noteq> [] then moveToYoungerInst order_it h r1
            else Some (r1\<lparr>readyIt := (readyIt r1)(op_class := None),
                          queueOnList := (queueOnList r1)(op_class := False)\<rparr>));
     nxt \<leftarrow> next_it order_it (listOrder r2);
     l \<leftarrow> erase order_it (listOrder r2);
     Some (nxt, r2\<lparr>listOrder := l\<rparr>) }"

text \<open>The operation classes, in the order of their numbers.\<close>

definition op_classes :: "op_class list" where
  "op_classes = [No_OpClass, IntAlu, IntMult, IntDiv, FloatAdd, FloatCmp, FloatCvt, FloatMult,
     FloatMultAcc, FloatDiv, FloatMisc, FloatSqrt, SimdAdd, SimdAddAcc, SimdAlu, SimdCmp,
     SimdCvt, SimdMisc, SimdMult, SimdMultAcc, SimdShift, SimdShiftAcc, SimdSqrt,
     SimdFloatAdd, SimdFloatAlu, SimdFloatCmp, SimdFloatCvt, SimdFloatDiv, SimdFloatMisc,
     SimdFloatMult, SimdFloatMultAcc, SimdFloatSqrt, MemRead, MemWrite, FloatMemRead,
     FloatMemWrite, IprAccess, InstPrefetch]"

definition hasReadyInsts :: "ready_state \<Rightarrow> bool" where
  "hasReadyInsts r \<longleftrightarrow> listOrder r \<noteq> [] \<or> list_ex (\<lambda>c. readyInsts r c \<noteq> []) op_classes"

section \<open>The age order\<close>

definition ordered_by :: "('a \<Rightarrow> 'k::linorder) \<Rightarrow> 'a list \<Rightarrow> bool" where
  "ordered_by key l \<longleftrightarrow> sorted (map key l)"

lemma ordered_by_simps [simp]:
  "ordered_by key []"
  "ordered_by key (x # l) \<longleftrightarrow> (\<forall>y \<in> set l. key x \<le> key y) \<and> ordered_by key l"
  by (auto simp: ordered_by_def)

lemma ordered_by_append:
  "ordered_by key (l @ l') \<longleftrightarrow> ordered_by key l \<and> ordered_by key l' \<and> (\<forall>x \<in> set l. \<forall>y \<in> set l'. key x \<le> key y)"
  by (auto simp: ordered_by_def sorted_append)

text \<open>
  The list has one entry for every queue that is not empty, with the sequence number of its top;
  the entries are in the order of these; the stored iterators point to them.
\<close>

definition ready_wf :: "inst_heap \<Rightarrow> ready_state \<Rightarrow> bool" where
  "ready_wf h r \<longleftrightarrow>
     (\<forall>c. ordered_by (\<lambda>p. seqNum (h p)) (readyInsts r c)) \<and>
     ordered_by oldestInst (listOrder r) \<and>
     distinct (map node (listOrder r)) \<and> distinct (map queueType (listOrder r)) \<and>
     (\<forall>e \<in> set (listOrder r). node e < nextNode r \<and> readyIt r (queueType e) = Some (node e) \<and>
        readyInsts r (queueType e) \<noteq> [] \<and> oldestInst e = seqNum (h (hd (readyInsts r (queueType e))))) \<and>
     (\<forall>c. queueOnList r c \<longleftrightarrow> c \<in> queueType ` set (listOrder r)) \<and>
     (\<forall>c. readyInsts r c \<noteq> [] \<longrightarrow> queueOnList r c)"

definition all_ready :: "ready_state \<Rightarrow> iptr set" where
  "all_ready r = (\<Union>c. set (readyInsts r c))"

lemma empty_ready_wf: "ready_wf h empty_ready"
  by (simp add: ready_wf_def empty_ready_def)

lemma set_pq_push [simp]: "set (pq_push h p l) = insert p (set l)"
  by (induction l) auto

lemma pq_push_not_Nil [simp]: "pq_push h p l \<noteq> []"
  by (cases l) auto

lemma pq_push_ordered:
  "ordered_by (\<lambda>p. seqNum (h p)) l \<Longrightarrow> ordered_by (\<lambda>p. seqNum (h p)) (pq_push h p l)"
  by (induction l) auto

lemma hd_pq_push:
  "hd (pq_push h p l) = (if l = [] \<or> seqNum (h p) < seqNum (h (hd l)) then p else hd l)"
  by (cases l) auto

lemma insert_by_age_set [simp]: "set (insert_by_age q l) = insert q (set l)"
  and insert_by_age_map [simp]: "mset (map f (insert_by_age q l)) = add_mset (f q) (mset (map f l))"
  by (induction l) auto

lemma insert_by_age_ordered: "ordered_by oldestInst l \<Longrightarrow> ordered_by oldestInst (insert_by_age q l)"
  by (induction l) auto

lemma insert_after_set [simp]: "set (insert_after q l) = insert q (set l)"
  by (induction l) auto

lemma insert_after_ordered: "ordered_by oldestInst l \<Longrightarrow> ordered_by oldestInst (insert_after q l)"
  by (induction l) auto

lemma distinct_map_insert:
  assumes "mset l' = add_mset q (mset l)" and "distinct (map f l)" and "f q \<notin> f ` set l"
  shows "distinct (map f l')"
proof -
  have "mset (map f l') = add_mset (f q) (mset (map f l))" using assms(1) by simp
  then have "mset (map f l') = mset (map f (q # l))" by simp
  moreover have "distinct (map f (q # l))" using assms(2,3) by simp
  ultimately show ?thesis by (metis mset_eq_imp_distinct_iff)
qed

lemma mset_insert_by_age: "mset (insert_by_age q l) = add_mset q (mset l)"
  by (induction l) auto

lemma mset_insert_after: "mset (insert_after q l) = add_mset q (mset l)"
  by (induction l) auto

text \<open>Erasing and finding nodes.\<close>

lemma erase_split:
  assumes "distinct (map node l)" and "e \<in> set l"
  obtains pre post where "l = pre @ e # post" and "erase (node e) l = Some (pre @ post)"
    and "deref (node e) l = Some e"
    and "next_it (node e) l = Some (case post of [] \<Rightarrow> None | e' # _ \<Rightarrow> Some (node e'))"
    and "\<And>q. insert_behind (node e) q l = Some (pre @ e # insert_after q post)"
proof -
  have "\<exists>pre post. l = pre @ e # post \<and> erase (node e) l = Some (pre @ post) \<and> deref (node e) l = Some e \<and>
    next_it (node e) l = Some (case post of [] \<Rightarrow> None | e' # _ \<Rightarrow> Some (node e')) \<and>
    (\<forall>q. insert_behind (node e) q l = Some (pre @ e # insert_after q post))"
    using assms
  proof (induction l)
    case (Cons x l)
    show ?case
    proof (cases "x = e")
      case True
      then show ?thesis by (intro exI[of _ "[]"] exI[of _ l]) (simp add: deref_def)
    next
      case False
      with Cons.prems have ne: "node x \<noteq> node e" and e: "e \<in> set l" by auto
      with Cons obtain pre post where "l = pre @ e # post" "erase (node e) l = Some (pre @ post)" "deref (node e) l = Some e"
        "next_it (node e) l = Some (case post of [] \<Rightarrow> None | e' # _ \<Rightarrow> Some (node e'))"
        "\<forall>q. insert_behind (node e) q l = Some (pre @ e # insert_after q post)" by auto
      with ne show ?thesis by (intro exI[of _ "x # pre"] exI[of _ post]) (simp add: deref_def)
    qed
  qed simp
  then show ?thesis using that by blast
qed

text \<open>
  A state whose queues and order list agree except that one queue is not on the list: what
  \<open>addToOrderList\<close> repairs.
\<close>

definition off_list :: "inst_heap \<Rightarrow> op_class \<Rightarrow> ready_state \<Rightarrow> bool" where
  "off_list h c r \<longleftrightarrow>
     (\<forall>c. ordered_by (\<lambda>p. seqNum (h p)) (readyInsts r c)) \<and>
     ordered_by oldestInst (listOrder r) \<and>
     distinct (map node (listOrder r)) \<and> distinct (map queueType (listOrder r)) \<and>
     (\<forall>e \<in> set (listOrder r). queueType e \<noteq> c \<and> node e < nextNode r \<and> readyIt r (queueType e) = Some (node e) \<and>
        readyInsts r (queueType e) \<noteq> [] \<and> oldestInst e = seqNum (h (hd (readyInsts r (queueType e))))) \<and>
     (\<forall>c'. c' \<noteq> c \<longrightarrow> (queueOnList r c' \<longleftrightarrow> c' \<in> queueType ` set (listOrder r))) \<and>
     (\<forall>c'. c' \<noteq> c \<longrightarrow> readyInsts r c' \<noteq> [] \<longrightarrow> queueOnList r c')"

lemma other_queues:
  assumes "ready_wf h r" and "listOrder r = pre @ e # post" and "x \<in> set pre \<union> set post"
  shows "queueType x \<noteq> queueType e"
proof
  assume "queueType x = queueType e"
  with assms(3) have "queueType e \<in> queueType ` (set pre \<union> set post)" by (metis imageI)
  with assms(1,2) show False by (auto simp: ready_wf_def)
qed

lemma addToOrderList_wf:
  assumes "off_list h c r" and "readyInsts r c \<noteq> []"
  shows "\<exists>r'. addToOrderList c h r = Some r' \<and> ready_wf h r' \<and> readyInsts r' = readyInsts r"
proof -
  obtain top ps where t: "readyInsts r c = top # ps" using assms(2) by (cases "readyInsts r c") auto
  let ?q = "\<lparr>node = nextNode r, queueType = c, oldestInst = seqNum (h top)\<rparr>"
  let ?r' = "r\<lparr>listOrder := insert_by_age ?q (listOrder r), readyIt := (readyIt r)(c := Some (nextNode r)),
             queueOnList := (queueOnList r)(c := True), nextNode := Suc (nextNode r)\<rparr>"
  have off: "\<And>e. e \<in> set (listOrder r) \<Longrightarrow> queueType e \<noteq> c \<and> node e < nextNode r"
    using assms(1) by (auto simp: off_list_def)
  have "distinct (map node (insert_by_age ?q (listOrder r)))"
    by (rule distinct_map_insert[OF mset_insert_by_age]) (use assms(1) off in \<open>force simp: off_list_def\<close>)+
  moreover have "distinct (map queueType (insert_by_age ?q (listOrder r)))"
    by (rule distinct_map_insert[OF mset_insert_by_age]) (use assms(1) off in \<open>force simp: off_list_def\<close>)+
  ultimately have "ready_wf h ?r'"
    using assms(1) off t unfolding ready_wf_def off_list_def
    by (auto simp: insert_by_age_ordered less_Suc_eq image_iff)
  then show ?thesis using t by (simp add: addToOrderList_def pq_top_def)
qed

lemma addReadyMemInst_wf:
  assumes "ready_wf h r"
  shows "\<exists>r'. addReadyMemInst h p r = Some r' \<and> ready_wf h r' \<and>
     readyInsts r' = (readyInsts r)(opClass (h p) := pq_push h p (readyInsts r (opClass (h p))))"
proof -
  let ?c = "opClass (h p)"
  let ?r1 = "r\<lparr>readyInsts := (readyInsts r)(?c := pq_push h p (readyInsts r ?c))\<rparr>"
  have ord: "ordered_by (\<lambda>p. seqNum (h p)) (readyInsts ?r1 c)" for c
    using assms by (auto simp: ready_wf_def pq_push_ordered)
  show ?thesis
  proof (cases "queueOnList r ?c")
    case False
    then have "off_list h ?c ?r1" using assms ord unfolding ready_wf_def off_list_def by auto
    from addToOrderList_wf[OF this] False show ?thesis by (simp add: addReadyMemInst_def Let_def)
  next
    case True
    then obtain e where e: "e \<in> set (listOrder r)" "queueType e = ?c" using assms by (auto simp: ready_wf_def)
    then have it: "readyIt r ?c = Some (node e)" "readyInsts r ?c \<noteq> []" "oldestInst e = seqNum (h (hd (readyInsts r ?c)))"
      using assms by (auto simp: ready_wf_def)
    have d: "distinct (map node (listOrder r))" using assms by (simp add: ready_wf_def)
    obtain pre post where sp: "listOrder r = pre @ e # post" "erase (node e) (listOrder r) = Some (pre @ post)"
      "deref (node e) (listOrder r) = Some e" using erase_split[OF d e(1)] by metis
    obtain top ps where t: "pq_push h p (readyInsts r ?c) = top # ps" by (cases "pq_push h p (readyInsts r ?c)") auto
    have top: "top = (if seqNum (h p) < oldestInst e then p else hd (readyInsts r ?c))"
      using hd_pq_push[of h p "readyInsts r ?c"] t it by simp
    show ?thesis
    proof (cases "seqNum (h top) < oldestInst e")
      case True
      have others: "\<And>x. x \<in> set pre \<union> set post \<Longrightarrow> queueType x \<noteq> ?c"
        using other_queues[OF assms sp(1)] e(2) by simp
      have "off_list h ?c (?r1\<lparr>listOrder := pre @ post\<rparr>)"
        using assms ord e(2) others unfolding ready_wf_def off_list_def sp(1)
        by (auto simp: ordered_by_append)
      from addToOrderList_wf[OF this] True \<open>queueOnList r ?c\<close> it sp t show ?thesis
        by (simp add: addReadyMemInst_def pq_top_def Let_def)
    next
      case False
      then have "hd (pq_push h p (readyInsts r ?c)) = hd (readyInsts r ?c)" using top t it(3) by (auto split: if_splits)
      then have "ready_wf h ?r1" using assms ord True unfolding ready_wf_def by auto
      with False \<open>queueOnList r ?c\<close> it sp t show ?thesis by (simp add: addReadyMemInst_def pq_top_def Let_def)
    qed
  qed
qed

text \<open>The iterator that follows an erased entry.\<close>

definition first_node :: "order_entry list \<Rightarrow> nat option" where
  "first_node l = (case l of [] \<Rightarrow> None | e # _ \<Rightarrow> Some (node e))"

lemma take_top_wf:
  assumes wf: "ready_wf h r" and l: "listOrder r = pre @ e # post"
  shows "\<exists>r' post'. take_top (node e) (queueType e) h r = Some (first_node post', r') \<and> ready_wf h r' \<and>
     listOrder r' = pre @ post' \<and> set post \<subseteq> set post' \<and> length post' \<le> Suc (length post) \<and>
     readyInsts r' = (readyInsts r)(queueType e := tl (readyInsts r (queueType e)))"
proof -
  let ?c = "queueType e"
  have e: "e \<in> set (listOrder r)" using l by simp
  have d: "distinct (map node (listOrder r))" using wf by (simp add: ready_wf_def)
  have ne: "readyInsts r ?c \<noteq> []" and old: "oldestInst e = seqNum (h (hd (readyInsts r ?c)))"
    using wf e by (auto simp: ready_wf_def)
  then obtain top ps where q: "readyInsts r ?c = top # ps" by (cases "readyInsts r ?c") auto
  have split: "erase (node e) (pre @ e # l2) = Some (pre @ l2) \<and> deref (node e) (pre @ e # l2) = Some e \<and>
     next_it (node e) (pre @ e # l2) = Some (first_node l2) \<and>
     (\<forall>q. insert_behind (node e) q (pre @ e # l2) = Some (pre @ e # insert_after q l2))" for l2
  proof -
    have "node e \<notin> node ` set pre" using d l by auto
    then show ?thesis by (induction pre) (auto simp: deref_def first_node_def)
  qed
  let ?r1 = "r\<lparr>readyInsts := (readyInsts r)(?c := ps)\<rparr>"
  have ord: "ordered_by (\<lambda>p. seqNum (h p)) (readyInsts ?r1 c)" for c
    using wf q unfolding ready_wf_def by (cases "c = ?c") (auto dest: spec[of _ ?c])
  have others: "\<And>x. x \<in> set pre \<union> set post \<Longrightarrow> queueType x \<noteq> ?c"
    using other_queues[OF wf l] by blast
  show ?thesis
  proof (cases ps)
    case Nil
    let ?r' = "r\<lparr>readyInsts := (readyInsts r)(?c := []), readyIt := (readyIt r)(?c := None),
      queueOnList := (queueOnList r)(?c := False), listOrder := pre @ post\<rparr>"
    have "ready_wf h ?r'"
      using wf ord others Nil unfolding ready_wf_def l by (auto simp: ordered_by_append split: if_splits)
    moreover have "take_top (node e) ?c h r = Some (first_node post, ?r')"
      using q Nil split[of post] by (simp add: take_top_def l Let_def)
    ultimately show ?thesis using q Nil by (intro exI[of _ ?r'] exI[of _ post]) simp
  next
    case (Cons top' ps')
    let ?q = "\<lparr>node = nextNode r, queueType = ?c, oldestInst = seqNum (h top')\<rparr>"
    let ?post = "insert_after ?q post"
    let ?r' = "?r1\<lparr>readyIt := (readyIt r)(?c := Some (nextNode r)), nextNode := Suc (nextNode r), listOrder := pre @ ?post\<rparr>"
    have le: "oldestInst e \<le> seqNum (h top')" using wf q Cons old unfolding ready_wf_def
      by (auto dest: spec[of _ ?c])
    have m: "mset (pre @ ?post) = add_mset ?q (mset (pre @ post))" by (simp add: mset_insert_after)
    have "distinct (map node (pre @ ?post))"
      by (rule distinct_map_insert[OF m]) (use wf l in \<open>force simp: ready_wf_def\<close>)+
    moreover have "distinct (map queueType (pre @ ?post))"
      by (rule distinct_map_insert[OF m]) (use wf l others in \<open>force simp: ready_wf_def\<close>)+
    moreover have "ordered_by oldestInst (pre @ ?post)"
      using wf le unfolding ready_wf_def l ordered_by_append
      by (auto intro: insert_after_ordered order_trans)
    ultimately have "ready_wf h ?r'"
      using wf ord others Cons unfolding ready_wf_def l by (auto simp: less_Suc_eq image_iff split: if_splits)
    moreover have "take_top (node e) ?c h r = Some (first_node ?post, ?r')"
      using q Cons split by (simp add: take_top_def moveToYoungerInst_def l pq_top_def Let_def)
    ultimately show ?thesis using q mset_insert_after[of ?q post, THEN arg_cong[of _ _ size]]
      by (intro exI[of _ ?r'] exI[of _ ?post]) auto
  qed
qed

text \<open>The first queue of the order list has the oldest of all ready instructions on top.\<close>

lemma first_is_oldest:
  assumes "ready_wf h r" and "listOrder r = e # es" and "p \<in> all_ready r"
  shows "seqNum (h (hd (readyInsts r (queueType e)))) \<le> seqNum (h p)"
proof -
  obtain c where c: "p \<in> set (readyInsts r c)" using assms(3) by (auto simp: all_ready_def)
  then have "readyInsts r c \<noteq> []" by auto
  then have "c \<in> queueType ` set (listOrder r)" using assms(1) unfolding ready_wf_def by blast
  then obtain e' where e': "e' \<in> set (listOrder r)" "queueType e' = c" by blast
  have "oldestInst e \<le> oldestInst e'" using assms(1,2) e' by (auto simp: ready_wf_def)
  moreover have "oldestInst e' \<le> seqNum (h p)"
  proof -
    have "ordered_by (\<lambda>p. seqNum (h p)) (readyInsts r c)" "oldestInst e' = seqNum (h (hd (readyInsts r c)))"
      using assms(1) e' by (auto simp: ready_wf_def)
    then show ?thesis using c by (cases "readyInsts r c") auto
  qed
  moreover have "oldestInst e = seqNum (h (hd (readyInsts r (queueType e))))"
    using assms(1,2) by (auto simp: ready_wf_def)
  ultimately show ?thesis by simp
qed

section \<open>The ready queues as one queue ordered by age\<close>

text \<open>
  The promise of the ready queues to the scheduler: together with the order list they are one
  queue that gives out its oldest instruction first.
\<close>

fun pop_n :: "('q \<Rightarrow> ('i \<times> 'q) option) \<Rightarrow> nat \<Rightarrow> 'q \<Rightarrow> ('i list \<times> 'q) option" where
  "pop_n pop 0 q = Some ([], q)"
| "pop_n pop (Suc n) q = do { (x, q1) \<leftarrow> pop q; (xs, q2) \<leftarrow> pop_n pop n q1; Some (x # xs, q2) }"

locale age_queue =
  fixes inv :: "'q \<Rightarrow> bool"
    and content :: "'q \<Rightarrow> 'i multiset"
    and push :: "'i \<Rightarrow> 'q \<Rightarrow> 'q option"
    and pop :: "'q \<Rightarrow> ('i \<times> 'q) option"
    and key :: "'i \<Rightarrow> 'k::linorder"
  assumes push_content: "inv q \<Longrightarrow> \<exists>q'. push x q = Some q' \<and> inv q' \<and> content q' = add_mset x (content q)"
    and pop_content: "inv q \<Longrightarrow> content q \<noteq> {#} \<Longrightarrow>
      \<exists>x q'. pop q = Some (x, q') \<and> inv q' \<and> x \<in># content q \<and> content q' = content q - {#x#} \<and>
        (\<forall>y \<in># content q. key x \<le> key y)"
begin

lemma push_all:
  "inv q \<Longrightarrow> \<exists>q'. foldM push xs q = Some q' \<and> inv q' \<and> content q' = mset xs + content q"
proof (induction xs arbitrary: q)
  case (Cons x xs)
  obtain q1 where q1: "push x q = Some q1" "inv q1" "content q1 = add_mset x (content q)"
    using push_content[OF Cons.prems] by blast
  from Cons.IH[OF q1(2)] q1 show ?case by auto
qed simp

lemma pop_all:
  "inv q \<Longrightarrow> \<exists>xs q'. pop_n pop (size (content q)) q = Some (xs, q') \<and> inv q' \<and> content q' = {#} \<and>
     mset xs = content q \<and> sorted (map key xs)"
proof (induction "size (content q)" arbitrary: q)
  case 0
  then show ?case by simp
next
  case (Suc n)
  from Suc.hyps(2) have "content q \<noteq> {#}" by auto
  then obtain x q1 where q1: "pop q = Some (x, q1)" "inv q1" "x \<in># content q" "content q1 = content q - {#x#}"
    "\<forall>y \<in># content q. key x \<le> key y" using pop_content[OF Suc.prems] by blast
  have n: "n = size (content q1)" using q1(3,4) Suc.hyps(2) by (simp add: size_Diff_singleton)
  obtain xs q2 where q2: "pop_n pop n q1 = Some (xs, q2)" "inv q2" "content q2 = {#}" "mset xs = content q1"
    "sorted (map key xs)" using Suc.hyps(1)[OF n q1(2)] n by auto
  have "mset (x # xs) = content q" using q2(4) q1(3,4) by simp
  moreover have "\<forall>y \<in> set xs. key x \<le> key y"
    using q1(5) q2(4) q1(4) by (metis in_diffD set_mset_mset)
  ultimately show ?case
    using q1(1) q2 Suc.hyps(2) by (intro exI[of _ "x # xs"] exI[of _ q2]) (simp flip: Suc.hyps(2))
qed

end

definition pop_oldest :: "inst_heap \<Rightarrow> ready_state \<Rightarrow> (iptr \<times> ready_state) option" where
  "pop_oldest h r = (case listOrder r of
     [] \<Rightarrow> None
   | e # _ \<Rightarrow> do { p \<leftarrow> pq_top (readyInsts r (queueType e)); (_, r') \<leftarrow> take_top (node e) (queueType e) h r; Some (p, r') })"

definition ready_mset :: "ready_state \<Rightarrow> iptr multiset" where
  "ready_mset r = (\<Sum>c \<in> set op_classes. mset (readyInsts r c))"

lemma op_classes_all: "c \<in> set op_classes"
  by (cases c) (simp_all add: op_classes_def)

lemma ready_mset_update:
  "ready_mset (r\<lparr>readyInsts := (readyInsts r)(c := l)\<rparr>) + mset (readyInsts r c) = ready_mset r + mset l"
proof -
  let ?S = "set op_classes - {c}"
  have split: "(\<Sum>x \<in> set op_classes. f x) = f c + (\<Sum>x \<in> ?S. f x)" for f :: "op_class \<Rightarrow> iptr multiset"
    using op_classes_all by (intro sum.remove) simp_all
  have "(\<Sum>x \<in> ?S. mset (((readyInsts r)(c := l)) x)) = (\<Sum>x \<in> ?S. mset (readyInsts r x))"
    by (intro sum.cong) auto
  then show ?thesis unfolding ready_mset_def by (subst (1 2) split) simp
qed

lemma ready_mset_cong: "readyInsts r' = readyInsts r \<Longrightarrow> ready_mset r' = ready_mset r"
  by (simp add: ready_mset_def)

lemma set_ready_mset: "set_mset (ready_mset r) = all_ready r"
  using op_classes_all by (auto simp: ready_mset_def all_ready_def set_mset_sum)

lemma mset_pq_push [simp]: "mset (pq_push h p l) = add_mset p (mset l)"
  by (induction l) auto

lemma no_entries_no_ready:
  assumes "ready_wf h r"
  shows "listOrder r = [] \<longleftrightarrow> ready_mset r = {#}"
proof
  assume "listOrder r = []"
  then have "readyInsts r c = []" for c using assms by (auto simp: ready_wf_def)
  then show "ready_mset r = {#}" by (simp add: ready_mset_def)
next
  assume e: "ready_mset r = {#}"
  show "listOrder r = []"
  proof (cases "listOrder r")
    case (Cons x l)
    then have "readyInsts r (queueType x) \<noteq> []" using assms by (auto simp: ready_wf_def)
    then have "all_ready r \<noteq> {}" by (fastforce simp: all_ready_def neq_Nil_conv)
    with e show ?thesis by (simp flip: set_ready_mset)
  qed
qed

interpretation rq: age_queue "ready_wf h" ready_mset "addReadyMemInst h" "pop_oldest h" "\<lambda>p. seqNum (h p)"
  for h :: inst_heap
proof
  fix r x assume wf: "ready_wf h r"
  obtain r' where r': "addReadyMemInst h x r = Some r'" "ready_wf h r'"
    "readyInsts r' = (readyInsts r)(opClass (h x) := pq_push h x (readyInsts r (opClass (h x))))"
    using addReadyMemInst_wf[OF wf] by blast
  have "ready_mset r' + mset (readyInsts r (opClass (h x))) =
      ready_mset r + mset (pq_push h x (readyInsts r (opClass (h x))))"
    using ready_mset_update[of r "opClass (h x)" "pq_push h x (readyInsts r (opClass (h x)))"]
      ready_mset_cong[of r' "r\<lparr>readyInsts := readyInsts r'\<rparr>"] r'(3) by simp
  then have "ready_mset r' = add_mset x (ready_mset r)" by simp
  with r' show "\<exists>r'. addReadyMemInst h x r = Some r' \<and> ready_wf h r' \<and> ready_mset r' = add_mset x (ready_mset r)"
    by blast
next
  fix r assume wf: "ready_wf h r" and ne: "ready_mset r \<noteq> {#}"
  then obtain e es where l: "listOrder r = e # es" using no_entries_no_ready[OF wf] by (cases "listOrder r") auto
  then have "readyInsts r (queueType e) \<noteq> []" using wf by (auto simp: ready_wf_def)
  then obtain p ps where q: "readyInsts r (queueType e) = p # ps" by (cases "readyInsts r (queueType e)") auto
  obtain nxt r' where t: "take_top (node e) (queueType e) h r = Some (nxt, r')" "ready_wf h r'"
    "readyInsts r' = (readyInsts r)(queueType e := ps)"
    using take_top_wf[OF wf, of "[]" e es] l q by auto
  have "ready_mset r' + mset (p # ps) = ready_mset r + mset ps"
    using ready_mset_update[of r "queueType e" ps] ready_mset_cong[of r' "r\<lparr>readyInsts := readyInsts r'\<rparr>"] t(3) q
    by simp
  then have "add_mset p (ready_mset r') = ready_mset r" by simp
  moreover have "\<forall>y \<in># ready_mset r. seqNum (h p) \<le> seqNum (h y)"
    using first_is_oldest[OF wf l] q by (simp add: set_ready_mset)
  moreover have "pop_oldest h r = Some (p, r')" using l q t(1) by (simp add: pop_oldest_def pq_top_def)
  ultimately show "\<exists>x r'. pop_oldest h r = Some (x, r') \<and> ready_wf h r' \<and> x \<in># ready_mset r \<and>
      ready_mset r' = ready_mset r - {#x#} \<and> (\<forall>y \<in># ready_mset r. seqNum (h x) \<le> seqNum (h y))"
    using t(2) by (metis add_mset_remove_trivial union_single_eq_member)
qed

text \<open>
  C21: instructions that become ready in any order leave the ready queues in program order: taking
  the first entry of the order list until it is empty gives all of them, oldest first, and no step
  on the way fails.
\<close>

theorem ready_queues_order_by_age:
  "\<exists>r xs r'. foldM (addReadyMemInst h) ps empty_ready = Some r \<and>
     pop_n (pop_oldest h) (length ps) r = Some (xs, r') \<and>
     mset xs = mset ps \<and> sorted (map (\<lambda>p. seqNum (h p)) xs) \<and> listOrder r' = []"
proof -
  have e: "ready_mset empty_ready = {#}" by (simp add: ready_mset_def empty_ready_def)
  obtain r where r: "foldM (addReadyMemInst h) ps empty_ready = Some r" "ready_wf h r" "ready_mset r = mset ps"
    using rq.push_all[of h empty_ready ps] empty_ready_wf e by auto
  then show ?thesis using rq.pop_all[OF r(2)] no_entries_no_ready by (metis size_mset)
qed

end
