(* ===== verification/Mem_Dep.thy ===== *)
theory Mem_Dep
  imports Ready_List Store_Set
begin

text \<open>
  The memory dependence unit of a thread (\<^verbatim>\<open>src/cpu/o3/mem_dep_unit.hh\<close>,
  \<^verbatim>\<open>mem_dep_unit_impl.hh\<close>) over the store set predictor. The shared entries are a heap
  of their own; a node of \<^verbatim>\<open>instList\<close> is named by the entry whose
  \<^verbatim>\<open>listIt\<close> points to it. \<^verbatim>\<open>iqPtr->addReadyMemInst\<close> works on the ready
  queues, which the operations take and return with the instruction heap.
\<close>

section \<open>State\<close>

type_synonym eptr = nat

record mem_dep_entry =
  md_inst :: iptr
  dependInsts :: "eptr list"
  regsReady :: bool
  memDepReady :: bool
  md_squashed :: bool

record mem_dep_unit =
  entries :: "eptr \<Rightarrow> mem_dep_entry"
  nextEntry :: eptr
  memDepHash :: "inst_seq_num \<Rightarrow> eptr option"
  md_instList :: "thread_id \<Rightarrow> eptr list"
  instsToReplay :: "iptr list"
  depPred :: store_set
  loadBarrier :: bool
  loadBarrierSN :: inst_seq_num
  storeBarrier :: bool
  storeBarrierSN :: inst_seq_num

type_synonym md_state = "inst_heap \<times> ready_state \<times> mem_dep_unit"

abbreviation blank_entry :: "iptr \<Rightarrow> mem_dep_entry" where
  "blank_entry p \<equiv> \<lparr>md_inst = p, dependInsts = [], regsReady = False, memDepReady = False, md_squashed = False\<rparr>"

definition md_init :: "64 word \<Rightarrow> nat \<Rightarrow> nat \<Rightarrow> mem_dep_unit" where
  "md_init clear_period ssit_size lfst_size =
     \<lparr>entries = (\<lambda>_. blank_entry 0), nextEntry = 0, memDepHash = (\<lambda>_. None), md_instList = (\<lambda>_. []),
      instsToReplay = [], depPred = init_store_set clear_period ssit_size lfst_size,
      loadBarrier = False, loadBarrierSN = 0, storeBarrier = False, storeBarrierSN = 0\<rparr>"

definition md_takeOverFrom :: "mem_dep_unit \<Rightarrow> mem_dep_unit" where
  "md_takeOverFrom m = m\<lparr>loadBarrier := False, storeBarrier := False, loadBarrierSN := 0, storeBarrierSN := 0,
     depPred := clear (depPred m)\<rparr>"

section \<open>Insertion\<close>

text \<open>
  The common start of the insertions: a new entry, put into the hash (an existing key keeps its
  entry) and at the end of the list.
\<close>

definition add_entry :: "inst_heap \<Rightarrow> iptr \<Rightarrow> mem_dep_unit \<Rightarrow> mem_dep_unit" where
  "add_entry h p m =
     (let e = nextEntry m; sn = seqNum (h p); tid = threadNumber (h p)
      in m\<lparr>entries := (entries m)(e := blank_entry p), nextEntry := Suc e,
           memDepHash := (if memDepHash m sn = None then (memDepHash m)(sn := Some e) else memDepHash m),
           md_instList := (md_instList m)(tid := md_instList m tid @ [e])\<rparr>)"

definition upd_entry :: "eptr \<Rightarrow> (mem_dep_entry \<Rightarrow> mem_dep_entry) \<Rightarrow> mem_dep_unit \<Rightarrow> mem_dep_unit" where
  "upd_entry e f m = m\<lparr>entries := (entries m)(e := f (entries m e))\<rparr>"

definition findInHash :: "inst_heap \<Rightarrow> iptr \<Rightarrow> mem_dep_unit \<Rightarrow> eptr option" where
  "findInHash h p m = memDepHash m (seqNum (h p))"

definition moveToReady :: "eptr \<Rightarrow> md_state \<Rightarrow> md_state option" where
  "moveToReady e = (\<lambda>(h, r, m). do {
     check (\<not> md_squashed (entries m e));
     r' \<leftarrow> addReadyMemInst h (md_inst (entries m e)) r;
     Some (h, r', m) })"

text \<open>The store or barrier an instruction has to wait for.\<close>

definition producing_store :: "dyn_inst \<Rightarrow> mem_dep_unit \<Rightarrow> inst_seq_num option" where
  "producing_store i m =
     (if isLoad i \<and> loadBarrier m then Some (loadBarrierSN m)
      else if isStore i \<and> storeBarrier m then Some (storeBarrierSN m)
      else checkInst (instAddr i) (depPred m))"

definition store_entry :: "inst_heap \<Rightarrow> inst_seq_num \<Rightarrow> mem_dep_unit \<Rightarrow> eptr option" where
  "store_entry h sn m =
     (if sn = 0 then None
      else case memDepHash m sn of
             None \<Rightarrow> None
           | Some s \<Rightarrow> if isDolmaRestricted (h (md_inst (entries m s))) then None else Some s)"

definition md_insert_store :: "dyn_inst \<Rightarrow> mem_dep_unit \<Rightarrow> mem_dep_unit option" where
  "md_insert_store i m = do {
     d \<leftarrow> insertStore (instAddr i) (seqNum i) (depPred m);
     Some (m\<lparr>depPred := d\<rparr>) }"

text \<open>
  With no producer the instruction may issue as soon as its registers are ready; otherwise it is
  put on the list of the producer and its bit that it can issue is cleared.
\<close>

definition md_place :: "iptr \<Rightarrow> eptr \<Rightarrow> eptr option \<Rightarrow> md_state \<Rightarrow> md_state option" where
  "md_place p e store = (\<lambda>(h, r, m).
     (case store of
        None \<Rightarrow>
          (let m1 = upd_entry e (\<lambda>x. x\<lparr>memDepReady := True\<rparr>) m
           in if readyToIssue (h p)
              then moveToReady e (h, r, upd_entry e (\<lambda>x. x\<lparr>regsReady := True\<rparr>) m1)
              else Some (h, r, m1))
      | Some s \<Rightarrow>
          (let m1 = (if readyToIssue (h p) then upd_entry e (\<lambda>x. x\<lparr>regsReady := True\<rparr>) m else m)
           in Some (h(p := reset_status CanIssue (h p)), r,
                    upd_entry s (\<lambda>x. x\<lparr>dependInsts := dependInsts x @ [e]\<rparr>) m1))))"

text \<open>A store that is not restricted is entered into the predictor.\<close>

definition md_predict :: "iptr \<Rightarrow> inst_heap \<Rightarrow> mem_dep_unit \<Rightarrow> mem_dep_unit option" where
  "md_predict p h m =
     (if isStore (h p) then (if \<not> isDolmaRestricted (h p) then md_insert_store (h p) m else Some m)
      else do { check (isLoad (h p)); Some m })"

definition md_insert :: "iptr \<Rightarrow> md_state \<Rightarrow> md_state option" where
  "md_insert p = (\<lambda>(h, r, m). do {
     let e = nextEntry m;
     let m1 = add_entry h p m;
     sn \<leftarrow> producing_store (h p) m1;
     (h2, r2, m2) \<leftarrow> md_place p e (store_entry h sn m1) (h, r, m1);
     m3 \<leftarrow> md_predict p h2 m2;
     Some (h2, r2, m3) })"

definition md_insertNonSpec :: "iptr \<Rightarrow> inst_heap \<Rightarrow> mem_dep_unit \<Rightarrow> mem_dep_unit option" where
  "md_insertNonSpec p h m = do {
     let m1 = add_entry h p m;
     (if isStore (h p) then md_insert_store (h p) m1
      else do { check (isLoad (h p)); Some m1 }) }"

definition md_insertBarrier :: "iptr \<Rightarrow> inst_heap \<Rightarrow> mem_dep_unit \<Rightarrow> mem_dep_unit" where
  "md_insertBarrier p h m =
     (let barr_sn = seqNum (h p);
          m1 = (if isMemBarrier (h p)
                then m\<lparr>loadBarrier := True, loadBarrierSN := barr_sn, storeBarrier := True, storeBarrierSN := barr_sn\<rparr>
                else if isWriteBarrier (h p) then m\<lparr>storeBarrier := True, storeBarrierSN := barr_sn\<rparr>
                else m)
      in add_entry h p m1)"

section \<open>Readiness\<close>

definition md_regsReady :: "iptr \<Rightarrow> md_state \<Rightarrow> md_state option" where
  "md_regsReady p = (\<lambda>(h, r, m). do {
     e \<leftarrow> findInHash h p m;
     let m1 = upd_entry e (\<lambda>x. x\<lparr>regsReady := True\<rparr>) m;
     (if memDepReady (entries m1 e) then moveToReady e (h, r, m1) else Some (h, r, m1)) })"

definition md_nonSpecInstReady :: "iptr \<Rightarrow> md_state \<Rightarrow> md_state option" where
  "md_nonSpecInstReady p = (\<lambda>(h, r, m). do {
     e \<leftarrow> findInHash h p m;
     moveToReady e (h, r, m) })"

definition md_reschedule :: "iptr \<Rightarrow> mem_dep_unit \<Rightarrow> mem_dep_unit" where
  "md_reschedule p m = m\<lparr>instsToReplay := instsToReplay m @ [p]\<rparr>"

text \<open>The loop of \<^verbatim>\<open>replay\<close>, on the list of the instructions to replay.\<close>

fun md_replay_loop :: "iptr list \<Rightarrow> md_state \<Rightarrow> md_state option" where
  "md_replay_loop [] (h, r, m) = Some (h, r, m\<lparr>instsToReplay := []\<rparr>)"
| "md_replay_loop (p # ps) (h, r, m) = do {
     e \<leftarrow> findInHash h p m;
     s \<leftarrow> moveToReady e (h, r, m);
     md_replay_loop ps s }"

definition md_replay :: "md_state \<Rightarrow> md_state option" where
  "md_replay = (\<lambda>(h, r, m). md_replay_loop (instsToReplay m) (h, r, m))"

section \<open>Completion\<close>

definition md_completed :: "iptr \<Rightarrow> inst_heap \<Rightarrow> mem_dep_unit \<Rightarrow> mem_dep_unit option" where
  "md_completed p h m = do {
     let tid = threadNumber (h p);
     e \<leftarrow> memDepHash m (seqNum (h p));
     check (e \<in> set (md_instList m tid));
     Some (m\<lparr>md_instList := (md_instList m)(tid := remove1 e (md_instList m tid)),
             memDepHash := (memDepHash m)(seqNum (h p) := None)\<rparr>) }"

text \<open>The body of the loop over the dependents of an entry.\<close>

definition wake_dependent :: "eptr \<Rightarrow> md_state \<Rightarrow> md_state option" where
  "wake_dependent woken = (\<lambda>(h, r, m).
     if regsReady (entries m woken) \<and> \<not> md_squashed (entries m woken) then moveToReady woken (h, r, m)
     else Some (h, r, upd_entry woken (\<lambda>x. x\<lparr>memDepReady := True\<rparr>) m))"

definition md_wakeDependents :: "iptr \<Rightarrow> md_state \<Rightarrow> md_state option" where
  "md_wakeDependents p = (\<lambda>(h, r, m).
     if \<not> isStore (h p) \<and> \<not> isMemBarrier (h p) \<and> \<not> isWriteBarrier (h p) then Some (h, r, m)
     else do {
       e \<leftarrow> findInHash h p m;
       (h1, r1, m1) \<leftarrow> foldM wake_dependent (dependInsts (entries m e)) (h, r, m);
       Some (h1, r1, upd_entry e (\<lambda>x. x\<lparr>dependInsts := []\<rparr>) m1) })"

definition md_completeBarrier :: "iptr \<Rightarrow> md_state \<Rightarrow> md_state option" where
  "md_completeBarrier p s = do {
     (h, r, m) \<leftarrow> md_wakeDependents p s;
     m1 \<leftarrow> md_completed p h m;
     let barr_sn = seqNum (h p);
     let m2 = (if isMemBarrier (h p) then
                 (let m' = (if loadBarrierSN m1 = barr_sn then m1\<lparr>loadBarrier := False\<rparr> else m1)
                  in if storeBarrierSN m' = barr_sn then m'\<lparr>storeBarrier := False\<rparr> else m')
               else if isWriteBarrier (h p) then
                 (if storeBarrierSN m1 = barr_sn then m1\<lparr>storeBarrier := False\<rparr> else m1)
               else m1);
     Some (h, r, m2) }"

section \<open>Squashing, violations and issue\<close>

text \<open>The loop of \<^verbatim>\<open>squash\<close>, from the back of the list.\<close>

fun md_squash_loop :: "inst_heap \<Rightarrow> inst_seq_num \<Rightarrow> eptr list \<Rightarrow> mem_dep_unit \<Rightarrow> (eptr list \<times> mem_dep_unit) option" where
  "md_squash_loop h squashed_num [] m = Some ([], m)"
| "md_squash_loop h squashed_num (e # es) m =
     (let sn = seqNum (h (md_inst (entries m e)))
      in if sn > squashed_num then do {
           let m1 = (if sn = loadBarrierSN m then m\<lparr>loadBarrier := False\<rparr> else m);
           let m2 = (if sn = storeBarrierSN m1 then m1\<lparr>storeBarrier := False\<rparr> else m1);
           x \<leftarrow> memDepHash m2 sn;
           let m3 = upd_entry x (\<lambda>y. y\<lparr>md_squashed := True\<rparr>) m2;
           md_squash_loop h squashed_num es (m3\<lparr>memDepHash := (memDepHash m3)(sn := None)\<rparr>) }
         else Some (e # es, m))"

definition md_squash :: "inst_seq_num \<Rightarrow> thread_id \<Rightarrow> inst_heap \<Rightarrow> mem_dep_unit \<Rightarrow> mem_dep_unit option" where
  "md_squash squashed_num tid h m = do {
     let m0 = m\<lparr>instsToReplay := filter (\<lambda>p. \<not> (threadNumber (h p) = tid \<and> seqNum (h p) > squashed_num)) (instsToReplay m)\<rparr>;
     (l, m1) \<leftarrow> md_squash_loop h squashed_num (rev (md_instList m0 tid)) m0;
     d \<leftarrow> squash_store_set squashed_num (depPred m1);
     Some (m1\<lparr>md_instList := (md_instList m1)(tid := rev l), depPred := d\<rparr>) }"

definition md_violation :: "addr \<Rightarrow> addr \<Rightarrow> mem_dep_unit \<Rightarrow> mem_dep_unit option" where
  "md_violation store_PC load_PC m = do {
     d \<leftarrow> violation store_PC load_PC (depPred m);
     Some (m\<lparr>depPred := d\<rparr>) }"

definition md_issue :: "iptr \<Rightarrow> inst_heap \<Rightarrow> mem_dep_unit \<Rightarrow> mem_dep_unit option" where
  "md_issue p h m = do {
     d \<leftarrow> issued (instAddr (h p)) (seqNum (h p)) (isStore (h p)) (depPred m);
     Some (m\<lparr>depPred := d\<rparr>) }"

end
