(* ===== verification/Mem_Dep_Props.thy ===== *)
theory Mem_Dep_Props
  imports Mem_Dep O3_Examples
begin

text \<open>
  The memory dependence unit as a state machine: what an insertion does, and that no memory
  instruction waits for ever on a memory dependence.
\<close>

section \<open>The invariant\<close>

text \<open>The instructions whose completion wakes dependents.\<close>

definition has_dependents :: "dyn_inst \<Rightarrow> bool" where
  "has_dependents i \<longleftrightarrow> isStore i \<or> isMemBarrier i \<or> isWriteBarrier i"

definition entry_inst :: "inst_heap \<Rightarrow> mem_dep_unit \<Rightarrow> eptr \<Rightarrow> dyn_inst" where
  "entry_inst h m e = h (md_inst (entries m e))"

abbreviation entry_sn :: "inst_heap \<Rightarrow> mem_dep_unit \<Rightarrow> eptr \<Rightarrow> inst_seq_num" where
  "entry_sn h m e \<equiv> seqNum (entry_inst h m e)"

text \<open>The sequence numbers on which a new instruction can be made dependent.\<close>

definition sources :: "mem_dep_unit \<Rightarrow> inst_seq_num set" where
  "sources m = set (LFST (depPred m)) \<union> {loadBarrierSN m, storeBarrierSN m}"

definition list_hash_ok :: "thread_id \<Rightarrow> inst_seq_num \<Rightarrow> inst_heap \<Rightarrow> mem_dep_unit \<Rightarrow> bool" where
  "list_hash_ok tid N h m \<longleftrightarrow>
     increasing (entry_sn h m) (md_instList m tid) \<and>
     (\<forall>e \<in> set (md_instList m tid). e < nextEntry m \<and> 0 < entry_sn h m e \<and> entry_sn h m e \<le> N \<and>
        threadNumber (entry_inst h m e) = tid \<and> memDepHash m (entry_sn h m e) = Some e) \<and>
     (\<forall>k e. memDepHash m k = Some e \<longrightarrow> e \<in> set (md_instList m tid) \<and> entry_sn h m e = k)"

definition sources_ok :: "inst_seq_num \<Rightarrow> inst_heap \<Rightarrow> mem_dep_unit \<Rightarrow> bool" where
  "sources_ok N h m \<longleftrightarrow>
     (\<forall>v \<in> sources m. v \<le> N \<and> (\<forall>s. memDepHash m v = Some s \<longrightarrow> has_dependents (entry_inst h m s)))"

definition waits_on :: "thread_id \<Rightarrow> inst_heap \<Rightarrow> mem_dep_unit \<Rightarrow> eptr \<Rightarrow> bool" where
  "waits_on tid h m e \<longleftrightarrow>
     (\<exists>s \<in> set (md_instList m tid). entry_sn h m s < entry_sn h m e \<and> e \<in> set (dependInsts (entries m s)) \<and>
        has_dependents (entry_inst h m s))"

definition md_inv :: "thread_id \<Rightarrow> eptr set \<Rightarrow> inst_seq_num \<Rightarrow> inst_heap \<Rightarrow> mem_dep_unit \<Rightarrow> bool" where
  "md_inv tid W N h m \<longleftrightarrow> list_hash_ok tid N h m \<and> sources_ok N h m \<and> (\<forall>e \<in> W. e < nextEntry m) \<and>
     (\<forall>e \<in> W \<inter> set (md_instList m tid). waits_on tid h m e)"

text \<open>Operations that leave the structure alone.\<close>

definition same_id :: "inst_heap \<Rightarrow> inst_heap \<Rightarrow> bool" where
  "same_id h h' \<longleftrightarrow> (\<forall>p. seqNum (h' p) = seqNum (h p) \<and> threadNumber (h' p) = threadNumber (h p) \<and>
     staticInst (h' p) = staticInst (h p))"

definition same_shape :: "mem_dep_unit \<Rightarrow> mem_dep_unit \<Rightarrow> bool" where
  "same_shape m m' \<longleftrightarrow> md_instList m' = md_instList m \<and> memDepHash m' = memDepHash m \<and> nextEntry m' = nextEntry m \<and>
     sources m' = sources m \<and>
     (\<forall>e. md_inst (entries m' e) = md_inst (entries m e) \<and> dependInsts (entries m' e) = dependInsts (entries m e))"

lemma same_id_refl [simp]: "same_id h h"
  and same_shape_refl [simp]: "same_shape m m"
  by (simp_all add: same_id_def same_shape_def)

lemma same_shape_trans: "same_shape m m1 \<Longrightarrow> same_shape m1 m2 \<Longrightarrow> same_shape m m2"
  by (simp add: same_shape_def)

lemma md_inv_cong:
  assumes "md_inv tid W N h m" and "same_id h h'" and "same_shape m m'"
  shows "md_inv tid W N h' m'"
proof -
  have e: "\<And>x. entry_sn h' m' x = entry_sn h m x" "\<And>x. threadNumber (entry_inst h' m' x) = threadNumber (entry_inst h m x)"
    "\<And>x. has_dependents (entry_inst h' m' x) = has_dependents (entry_inst h m x)"
    using assms(2,3) by (auto simp: entry_inst_def same_id_def same_shape_def has_dependents_def fun_eq_iff)
  show ?thesis
    using assms(1,3)
    by (simp add: md_inv_def list_hash_ok_def sources_ok_def waits_on_def e same_shape_def)
qed

lemma moveToReady_shape:
  "moveToReady e (h, r, m) = Some (h', r', m') \<Longrightarrow> h' = h \<and> m' = m"
  by (auto simp: moveToReady_def split: if_splits)

lemma upd_entry_shape:
  assumes "\<And>x. md_inst (f x) = md_inst x" and "\<And>x. dependInsts (f x) = dependInsts x"
  shows "same_shape m (upd_entry e f m)"
  using assms by (simp add: same_shape_def upd_entry_def sources_def)

lemma wake_loop_shape:
  "foldM wake_dependent es (h, r, m) = Some (h', r', m') \<Longrightarrow> h' = h \<and> same_shape m m'"
proof (induction es arbitrary: h r m)
  case (Cons e es)
  then obtain h1 r1 m1 where s: "wake_dependent e (h, r, m) = Some (h1, r1, m1)"
    "foldM wake_dependent es (h1, r1, m1) = Some (h', r', m')" by auto
  have "h1 = h \<and> same_shape m m1"
    using s(1) by (auto simp: wake_dependent_def upd_entry_shape dest: moveToReady_shape split: if_splits)
  with Cons.IH[OF s(2)] show ?case using same_shape_trans by blast
qed simp

text \<open>What the wake-up of a list of dependents does to each of them, and that it returns.\<close>

lemma wake_loop_ready:
  "ready_wf h r \<Longrightarrow> \<exists>r' m'. foldM wake_dependent es (h, r, m) = Some (h, r', m') \<and> ready_wf h r' \<and>
     ready_mset r' = ready_mset r + mset (map (\<lambda>e. md_inst (entries m e))
       (filter (\<lambda>e. regsReady (entries m e) \<and> \<not> md_squashed (entries m e)) es)) \<and>
     (\<forall>x. memDepReady (entries m' x) \<longleftrightarrow> memDepReady (entries m x) \<or>
        x \<in> set es \<and> \<not> (regsReady (entries m x) \<and> \<not> md_squashed (entries m x)))"
proof (induction es arbitrary: r m)
  case (Cons e es)
  show ?case
  proof (cases "regsReady (entries m e) \<and> \<not> md_squashed (entries m e)")
    case True
    obtain r1 where r1: "addReadyMemInst h (md_inst (entries m e)) r = Some r1" "ready_wf h r1"
      "ready_mset r1 = add_mset (md_inst (entries m e)) (ready_mset r)" using rq.push_content[OF Cons.prems] by blast
    then have "wake_dependent e (h, r, m) = Some (h, r1, m)" using True by (simp add: wake_dependent_def moveToReady_def)
    with Cons.IH[OF r1(2), of m] r1(3) True show ?thesis by auto
  next
    case False
    let ?m = "upd_entry e (\<lambda>x. x\<lparr>memDepReady := True\<rparr>) m"
    have w: "wake_dependent e (h, r, m) = Some (h, r, ?m)" using False by (auto simp: wake_dependent_def)
    have same: "md_inst (entries ?m x) = md_inst (entries m x)" "regsReady (entries ?m x) = regsReady (entries m x)"
      "md_squashed (entries ?m x) = md_squashed (entries m x)" "memDepReady (entries ?m x) \<longleftrightarrow> memDepReady (entries m x) \<or> x = e" for x
      by (auto simp: upd_entry_def)
    from Cons.IH[OF Cons.prems, of ?m, unfolded same] w False show ?thesis by auto
  qed
qed simp

section \<open>Each operation keeps the invariant\<close>

lemma add_entry_simps:
  "entries (add_entry h p m) = (entries m)(nextEntry m := blank_entry p)"
  "nextEntry (add_entry h p m) = Suc (nextEntry m)"
  "sources (add_entry h p m) = sources m" "depPred (add_entry h p m) = depPred m"
  "loadBarrier (add_entry h p m) = loadBarrier m" "storeBarrier (add_entry h p m) = storeBarrier m"
  "loadBarrierSN (add_entry h p m) = loadBarrierSN m" "storeBarrierSN (add_entry h p m) = storeBarrierSN m"
  "md_instList (add_entry h p m) = (md_instList m)(threadNumber (h p) := md_instList m (threadNumber (h p)) @ [nextEntry m])"
  by (simp_all add: add_entry_def Let_def sources_def)

lemma listed:
  assumes "list_hash_ok tid N h m" and "e \<in> set (md_instList m tid)"
  shows "e < nextEntry m" and "0 < entry_sn h m e" and "entry_sn h m e \<le> N"
    and "threadNumber (entry_inst h m e) = tid" and "memDepHash m (entry_sn h m e) = Some e"
  using assms unfolding list_hash_ok_def by blast+

lemma hashed:
  assumes "list_hash_ok tid N h m" and "memDepHash m k = Some e"
  shows "e \<in> set (md_instList m tid)" and "entry_sn h m e = k"
  using assms unfolding list_hash_ok_def by blast+

text \<open>A new entry for an instruction younger than everything before.\<close>

lemma add_entry_inv:
  assumes inv: "md_inv tid W N h m" and p: "threadNumber (h p) = tid" "N < seqNum (h p)"
  shows "md_inv tid W (seqNum (h p)) h (add_entry h p m)"
    and "memDepHash (add_entry h p m) = (memDepHash m)(seqNum (h p) := Some (nextEntry m))"
    and "nextEntry m \<notin> set (md_instList m tid)"
    and "\<And>e. e \<noteq> nextEntry m \<Longrightarrow> entry_inst h (add_entry h p m) e = entry_inst h m e"
    and "entry_inst h (add_entry h p m) (nextEntry m) = h p"
proof -
  let ?m = "add_entry h p m" and ?e = "nextEntry m"
  have l: "list_hash_ok tid N h m" "sources_ok N h m" using inv by (simp_all add: md_inv_def)
  show new: "?e \<notin> set (md_instList m tid)" using listed(1)[OF l(1)] by blast
  show old: "\<And>e. e \<noteq> ?e \<Longrightarrow> entry_inst h ?m e = entry_inst h m e" and self: "entry_inst h ?m ?e = h p"
    by (simp_all add: entry_inst_def add_entry_simps)
  have "memDepHash m (seqNum (h p)) = None"
  proof (cases "memDepHash m (seqNum (h p))")
    case (Some e)
    then have "seqNum (h p) \<le> N" using hashed[OF l(1)] listed(3)[OF l(1)] by metis
    with p(2) show ?thesis by simp
  qed
  then show hash: "memDepHash ?m = (memDepHash m)(seqNum (h p) := Some ?e)" by (simp add: add_entry_def Let_def)
  have oldl: "e \<in> set (md_instList m tid) \<Longrightarrow> entry_inst h ?m e = entry_inst h m e" for e
    using new by (intro old) auto
  have sn: "e \<in> set (md_instList m tid) \<Longrightarrow> entry_sn h m e < seqNum (h p)" for e
    using listed(3)[OF l(1)] p(2) by (meson le_less_trans)
  have "increasing (entry_sn h ?m) (md_instList m tid @ [?e])"
    using l sn increasing_cong[of "md_instList m tid" "entry_sn h ?m" "entry_sn h m"]
    by (simp add: list_hash_ok_def oldl self)
  note inc = this
  have pos: "0 < seqNum (h p)" using p(2) by (rule le_less_trans[OF word_zero_le])
  have list: "md_instList ?m tid = md_instList m tid @ [?e]" using p(1) by (simp add: add_entry_simps)
  have L: "list_hash_ok tid (seqNum (h p)) h ?m"
    unfolding list_hash_ok_def list
  proof (intro conjI)
    show "increasing (entry_sn h ?m) (md_instList m tid @ [?e])" by (rule inc)
  next
    show "\<forall>e \<in> set (md_instList m tid @ [?e]). e < nextEntry ?m \<and> 0 < entry_sn h ?m e \<and> entry_sn h ?m e \<le> seqNum (h p) \<and>
      threadNumber (entry_inst h ?m e) = tid \<and> memDepHash ?m (entry_sn h ?m e) = Some e"
    proof
    fix e assume "e \<in> set (md_instList m tid @ [?e])"
    then consider "e \<in> set (md_instList m tid)" | "e = ?e" by auto
    then show "e < nextEntry ?m \<and> 0 < entry_sn h ?m e \<and> entry_sn h ?m e \<le> seqNum (h p) \<and>
      threadNumber (entry_inst h ?m e) = tid \<and> memDepHash ?m (entry_sn h ?m e) = Some e"
    proof cases
      case 1
      have "entry_sn h m e \<noteq> seqNum (h p)" using sn[OF 1] by simp
      then show ?thesis using listed[OF l(1) 1] sn[OF 1] by (simp add: oldl[OF 1] hash add_entry_simps)
    next
      case 2
      show ?thesis unfolding 2 self using p(1) pos by (simp add: hash add_entry_simps)
    qed
    qed
  next
    show "\<forall>k e. memDepHash ?m k = Some e \<longrightarrow> e \<in> set (md_instList m tid @ [?e]) \<and> entry_sn h ?m e = k"
    proof (intro allI impI)
    fix k e assume "memDepHash ?m k = Some e"
    then have "memDepHash m k = Some e \<or> (k = seqNum (h p) \<and> e = ?e)"
      unfolding hash by (cases "k = seqNum (h p)") simp_all
    then show "e \<in> set (md_instList m tid @ [?e]) \<and> entry_sn h ?m e = k"
    proof
      assume "memDepHash m k = Some e"
      from hashed[OF l(1) this] show ?thesis by (simp add: oldl)
    qed (simp add: self)
    qed
  qed
  have S: "sources_ok (seqNum (h p)) h ?m"
    unfolding sources_ok_def
  proof
    fix v assume "v \<in> sources ?m"
    then have v: "v \<le> N" "\<And>s. memDepHash m v = Some s \<Longrightarrow> has_dependents (entry_inst h m s)"
      using l(2) unfolding sources_ok_def add_entry_simps by blast+
    have "v \<noteq> seqNum (h p)" using v(1) p(2) by auto
    then have same: "memDepHash ?m v = memDepHash m v" unfolding hash by simp
    show "v \<le> seqNum (h p) \<and> (\<forall>s. memDepHash ?m v = Some s \<longrightarrow> has_dependents (entry_inst h ?m s))"
      using v p(2) hashed(1)[OF l(1)] unfolding same by (auto simp: oldl)
  qed
  have W: "waits_on tid h ?m e" if "e \<in> W" "e \<in> set (md_instList ?m tid)" for e
  proof -
    have "e \<noteq> ?e" using that(1) inv by (auto simp: md_inv_def)
    then have e: "e \<in> set (md_instList m tid)" using that(2) p(1) by (auto simp: add_entry_simps)
    then have "waits_on tid h m e" using inv that(1) by (simp add: md_inv_def)
    then obtain s where s: "s \<in> set (md_instList m tid)" "entry_sn h m s < entry_sn h m e"
      "e \<in> set (dependInsts (entries m s))" "has_dependents (entry_inst h m s)"
      unfolding waits_on_def by blast
    moreover have "s \<noteq> ?e" using s(1) new by auto
    ultimately show ?thesis unfolding waits_on_def using p(1) e oldl by (auto simp: add_entry_simps)
  qed
  show "md_inv tid W (seqNum (h p)) h ?m"
    using L S W inv unfolding md_inv_def add_entry_simps by (simp add: less_SucI)
qed

lemma checkClear_LFST [simp]: "LFST (checkClear s) = LFST s"
  by (simp add: checkClear_def clear_def Let_def)

lemma insertStore_LFST:
  "insertStore pc sn s = Some s' \<Longrightarrow> set (LFST s') \<subseteq> insert sn (set (LFST s))"
  by (auto simp: insertStore_def Let_def vec_set_eq_Some split: if_splits dest!: subsetD[OF set_update_subset_insert])

lemma checkInst_LFST: "checkInst pc s = Some sn \<Longrightarrow> sn = 0 \<or> sn \<in> set (LFST s)"
  by (auto simp: checkInst_def Let_def vec_get_eq_Some split: if_splits)

lemma issued_LFST: "issued pc sn b s = Some s' \<Longrightarrow> LFST s' = LFST s"
  by (auto simp: issued_def Let_def split: if_splits)

lemma set_ssit_LFST: "set_ssit i k s = Some s' \<Longrightarrow> LFST s' = LFST s"
  by (auto simp: set_ssit_def)

lemma violation_LFST: "violation a b s = Some s' \<Longrightarrow> LFST s' = LFST s"
  by (auto simp: violation_def Let_def split: if_splits dest!: set_ssit_LFST)

lemma squash_loop_LFST: "squash_loop n s = Some s' \<Longrightarrow> LFST s' = LFST s"
proof (erule squash_loop.raw_induct[of "\<lambda>_ s s'. LFST s' = LFST s", rotated])
  fix loop :: "inst_seq_num \<Rightarrow> store_set \<Rightarrow> store_set option" and n s s'
  assume IH: "\<And>n s s'. loop n s = Some s' \<Longrightarrow> LFST s' = LFST s"
  assume "(case storeList s of [] \<Rightarrow> Some s | (k, idx) # rest \<Rightarrow>
     if k \<le> n then Some s
     else do {
       lf \<leftarrow> vec_get (LFST s) idx;
       vl \<leftarrow> vec_get (validLFST s) idx;
       let younger = lf > n;
       (if vl \<and> younger then loop n (s\<lparr>validLFST := (validLFST s)[idx := False], storeList := rest\<rparr>)
        else if \<not> vl \<and> younger then loop n (s\<lparr>storeList := rest\<rparr>)
        else loop n s) }) = Some s'"
  then show "LFST s' = LFST s"
    by (auto simp: Let_def split: list.splits if_splits dest!: IH)
qed

lemma producing_store_source: "producing_store i m = Some sn \<Longrightarrow> sn = 0 \<or> sn \<in> sources m"
  by (auto simp: producing_store_def sources_def dest: checkInst_LFST split: if_splits)

lemma depPred_inv:
  assumes inv: "md_inv tid W N h m" and "set (LFST d) \<subseteq> insert v (set (LFST (depPred m)))"
    and "v \<in> sources m \<or> v \<le> N \<and> (\<forall>e. memDepHash m v = Some e \<longrightarrow> has_dependents (entry_inst h m e))"
  shows "md_inv tid W N h (m\<lparr>depPred := d\<rparr>)"
proof -
  let ?m = "m\<lparr>depPred := d\<rparr>"
  have e: "entry_inst h ?m = entry_inst h m" by (simp add: entry_inst_def fun_eq_iff)
  have "sources ?m \<subseteq> insert v (sources m)" using assms(2) by (auto simp: sources_def)
  then have "sources_ok N h ?m" using inv assms(3) unfolding md_inv_def sources_ok_def e by auto
  then show ?thesis using inv unfolding md_inv_def list_hash_ok_def waits_on_def e by simp
qed

lemma md_insert_store_inv:
  assumes "md_inv tid W N h m" and "md_insert_store i m = Some m'" and "seqNum i \<le> N"
    and "\<And>e. memDepHash m (seqNum i) = Some e \<Longrightarrow> has_dependents (entry_inst h m e)"
  shows "md_inv tid W N h m'"
proof -
  obtain d where "insertStore (instAddr i) (seqNum i) (depPred m) = Some d" "m' = m\<lparr>depPred := d\<rparr>"
    using assms(2) by (auto simp: md_insert_store_def)
  then show ?thesis using depPred_inv[OF assms(1) insertStore_LFST] assms(3,4) by blast
qed

lemma add_dependent_inv:
  assumes inv: "md_inv tid W N h m" and s: "s \<in> set (md_instList m tid)" and e: "e \<in> set (md_instList m tid)"
    and lt: "entry_sn h m s < entry_sn h m e" and dep: "has_dependents (entry_inst h m s)"
  shows "md_inv tid (insert e W) N h (upd_entry s (\<lambda>x. x\<lparr>dependInsts := dependInsts x @ [e]\<rparr>) m)" (is "md_inv _ _ _ _ ?m")
proof -
  have i: "entry_inst h ?m = entry_inst h m" by (simp add: entry_inst_def fun_eq_iff upd_entry_def)
  have f: "md_instList ?m = md_instList m" "memDepHash ?m = memDepHash m" "nextEntry ?m = nextEntry m" "sources ?m = sources m"
    by (simp_all add: upd_entry_def sources_def)
  have d: "set (dependInsts (entries m x)) \<subseteq> set (dependInsts (entries ?m x))" "e \<in> set (dependInsts (entries ?m s))" for x
    by (auto simp: upd_entry_def)
  have "waits_on tid h m x \<Longrightarrow> waits_on tid h ?m x" for x
    using d(1) unfolding waits_on_def i f by blast
  moreover have "waits_on tid h ?m e" using s lt dep d(2) unfolding waits_on_def i f by blast
  moreover have "e < nextEntry m" using inv e listed(1) unfolding md_inv_def by blast
  moreover have "list_hash_ok tid N h ?m" "sources_ok N h ?m"
    using inv unfolding md_inv_def list_hash_ok_def sources_ok_def i f by simp_all
  ultimately show ?thesis using inv unfolding md_inv_def f by auto
qed

lemma md_insert_inv:
  assumes inv: "md_inv tid W N h m" and p: "threadNumber (h p) = tid" "N < seqNum (h p)"
    and run: "md_insert p (h, r, m) = Some (h', r', m')"
  shows "md_inv tid (if memDepReady (entries m' (nextEntry m)) then W else insert (nextEntry m) W) (seqNum (h p)) h' m'"
proof -
  let ?e = "nextEntry m" and ?m1 = "add_entry h p m" and ?N = "seqNum (h p)"
  note ae = add_entry_inv[OF inv p]
  obtain sn h2 r2 m2 where sn: "producing_store (h p) ?m1 = Some sn"
    and mid: "md_place p ?e (store_entry h sn ?m1) (h, r, ?m1) = Some (h2, r2, m2)"
    and fin: "md_predict p h2 m2 = Some m'" and h': "h' = h2"
    using run by (auto simp: md_insert_def Let_def)
  have same: "same_id h h2 \<and> md_inv tid (if memDepReady (entries m2 ?e) then W else insert ?e W) ?N h m2 \<and>
      memDepHash m2 = memDepHash ?m1 \<and> entry_inst h m2 ?e = h p"
  proof (cases "store_entry h sn ?m1")
    case None
    let ?m2 = "upd_entry ?e (\<lambda>x. x\<lparr>memDepReady := True\<rparr>) ?m1"
    let ?m3 = "upd_entry ?e (\<lambda>x. x\<lparr>regsReady := True\<rparr>) ?m2"
    have "h2 = h \<and> (m2 = ?m2 \<or> m2 = ?m3)"
      using mid None by (auto simp: md_place_def Let_def split: if_splits dest!: moveToReady_shape)
    moreover have "same_shape ?m1 ?m2" by (rule upd_entry_shape) simp_all
    moreover have "same_shape ?m2 ?m3" by (rule upd_entry_shape) simp_all
    moreover have "memDepReady (entries ?m2 ?e)" "memDepReady (entries ?m3 ?e)" by (simp_all add: upd_entry_def)
    ultimately show ?thesis
      using md_inv_cong[OF ae(1) same_id_refl] same_shape_trans ae(5)
      by (auto simp: same_shape_def entry_inst_def)
  next
    case (Some s)
    let ?m2 = "if readyToIssue (h p) then upd_entry ?e (\<lambda>x. x\<lparr>regsReady := True\<rparr>) ?m1 else ?m1"
    have m2: "h2 = h(p := reset_status CanIssue (h p))"
      "m2 = upd_entry s (\<lambda>x. x\<lparr>dependInsts := dependInsts x @ [?e]\<rparr>) ?m2"
      using mid Some by (simp_all add: md_place_def Let_def)
    have shape: "same_shape ?m1 ?m2" by (simp add: upd_entry_shape)
    have inv2: "md_inv tid W ?N h ?m2" by (rule md_inv_cong[OF ae(1) same_id_refl shape])
    have hs: "memDepHash ?m1 sn = Some s" "sn \<noteq> 0" using Some by (auto simp: store_entry_def split: if_splits option.splits)
    have src: "sn \<in> sources m" using producing_store_source[OF sn] hs(2) by (simp add: add_entry_simps)
    have N: "sn \<le> N" using src inv unfolding md_inv_def sources_ok_def by blast
    have l2: "list_hash_ok tid ?N h ?m2" using inv2 by (simp add: md_inv_def)
    have hs2: "memDepHash ?m2 sn = Some s" using hs(1) shape by (simp add: same_shape_def)
    note s = hashed[OF l2 hs2]
    have e: "memDepHash ?m2 ?N = Some ?e" using shape ae(2) by (simp add: same_shape_def)
    note el = hashed[OF l2 e]
    have ne: "s \<noteq> ?e" using s(2) el(2) N p(2) by auto
    have "has_dependents (entry_inst h ?m2 s)"
      using inv2 src hs2 shape unfolding md_inv_def sources_ok_def same_shape_def by (simp add: add_entry_simps)
    from add_dependent_inv[OF inv2 s(1) el(1) _ this] s(2) el(2) N p(2)
    have "md_inv tid (insert ?e W) ?N h m2" unfolding m2(2) by auto
    moreover have "\<not> memDepReady (entries m2 ?e)" unfolding m2(2) using ne by (simp add: upd_entry_def add_entry_simps)
    moreover have "same_id h h2" by (simp add: m2(1) same_id_def reset_status_def)
    moreover have "memDepHash m2 = memDepHash ?m1" "entry_inst h m2 ?e = h p"
      unfolding m2(2) using ne by (simp_all add: upd_entry_def entry_inst_def add_entry_simps)
    ultimately show ?thesis by simp
  qed
  let ?W = "if memDepReady (entries m2 ?e) then W else insert ?e W"
  have id: "seqNum (h2 p) = ?N" "isStore (h2 p) = isStore (h p)" using same by (auto simp: same_id_def)
  have "entries m' = entries m2 \<and> md_inv tid ?W ?N h m'"
  proof (cases "isStore (h2 p) \<and> \<not> isDolmaRestricted (h2 p)")
    case True
    then have m3: "md_insert_store (h2 p) m2 = Some m'" using fin by (simp add: md_predict_def)
    have "md_inv tid ?W ?N h m'"
      by (rule md_insert_store_inv[OF _ m3]) (use same True id ae(2) in \<open>auto simp: has_dependents_def\<close>)
    moreover have "entries m' = entries m2" using m3 by (auto simp: md_insert_store_def)
    ultimately show ?thesis by simp
  next
    case False
    then have "m' = m2" using fin by (auto simp: md_predict_def split: if_splits)
    then show ?thesis using same by simp
  qed
  moreover have "same_id h h'" using same h' by simp
  ultimately show ?thesis using md_inv_cong[OF _ _ same_shape_refl] by metis
qed

text \<open>Taking an entry out of the unit.\<close>

lemma remove_entry_inv:
  assumes inv: "md_inv tid W N h m" and e: "e \<in> set (md_instList m tid)"
    and list: "md_instList m' tid = remove1 e (md_instList m tid)"
    and hash: "memDepHash m' = (memDepHash m)(entry_sn h m e := None)"
    and rest: "nextEntry m' = nextEntry m" "sources m' = sources m"
      "\<And>x. md_inst (entries m' x) = md_inst (entries m x) \<and> dependInsts (entries m' x) = dependInsts (entries m x)"
    and W: "W' \<subseteq> W"
    and dep: "\<And>x. x \<in> W' \<Longrightarrow> x \<in> set (md_instList m tid) \<Longrightarrow> x \<in> set (dependInsts (entries m e)) \<Longrightarrow>
      entry_sn h m e < entry_sn h m x \<Longrightarrow> \<not> has_dependents (entry_inst h m e)"
  shows "md_inv tid W' N h m'"
proof -
  have l: "list_hash_ok tid N h m" using inv by (simp add: md_inv_def)
  have i: "entry_inst h m' = entry_inst h m" using rest(3) by (simp add: entry_inst_def fun_eq_iff)
  have dist: "distinct (md_instList m tid)" using l increasing_distinct unfolding list_hash_ok_def by blast
  have set': "set (md_instList m' tid) = set (md_instList m tid) - {e}" using dist by (simp add: list)
  have other: "x \<in> set (md_instList m' tid) \<Longrightarrow> entry_sn h m x \<noteq> entry_sn h m e" for x
    using listed(5)[OF l] e unfolding set' by (metis DiffE insertI1 option.inject)
  have "increasing (entry_sn h m) (md_instList m' tid)"
    using l dist by (simp add: list list_hash_ok_def distinct_remove1_removeAll removeAll_filter_not_eq increasing_filter)
  moreover have "memDepHash m' (entry_sn h m x) = Some x" if "x \<in> set (md_instList m' tid)" for x
    using that listed(5)[OF l] other[OF that] unfolding hash set' by simp
  moreover have "x \<in> set (md_instList m' tid) \<and> entry_sn h m x = k" if "memDepHash m' k = Some x" for k x
  proof -
    have k: "k \<noteq> entry_sn h m e" "memDepHash m k = Some x" using that unfolding hash by (auto split: if_splits)
    then show ?thesis using hashed[OF l k(2)] unfolding set' by auto
  qed
  ultimately have L: "list_hash_ok tid N h m'"
    using listed(1-4)[OF l] unfolding list_hash_ok_def i set' rest(1) by blast
  have S: "sources_ok N h m'"
    using inv unfolding md_inv_def sources_ok_def i rest(2) hash by (auto split: if_splits)
  have "waits_on tid h m' x" if x: "x \<in> W'" "x \<in> set (md_instList m' tid)" for x
  proof -
    have "waits_on tid h m x" using inv W x unfolding set' md_inv_def by blast
    then obtain s where s: "s \<in> set (md_instList m tid)" "entry_sn h m s < entry_sn h m x"
      "x \<in> set (dependInsts (entries m s))" "has_dependents (entry_inst h m s)" unfolding waits_on_def by blast
    then have "s \<noteq> e" using dep[OF x(1)] x(2) unfolding set' by auto
    with s show ?thesis unfolding waits_on_def i set' using rest(3) by auto
  qed
  then show ?thesis using L S inv W unfolding md_inv_def rest(1) by blast
qed

lemma take_out_inv:
  assumes inv: "md_inv tid W N h m" and e: "memDepHash m (seqNum (h p)) = Some e" and t: "threadNumber (h p) = tid"
    and run: "md_completed p h m = Some m'" and W: "W' \<subseteq> W"
    and dep: "has_dependents (entry_inst h m e) \<Longrightarrow> W' \<inter> set (dependInsts (entries m e)) = {}"
  shows "md_inv tid W' N h m'"
proof (rule remove_entry_inv[OF inv _ _ _ _ _ _ W])
  have l: "list_hash_ok tid N h m" using inv by (simp add: md_inv_def)
  note he = hashed[OF l e]
  have m': "m' = m\<lparr>md_instList := (md_instList m)(tid := remove1 e (md_instList m tid)),
      memDepHash := (memDepHash m)(seqNum (h p) := None)\<rparr>"
    using run e t by (simp add: md_completed_def Let_def split: if_splits)
  show "e \<in> set (md_instList m tid)" by (rule he(1))
  show "memDepHash m' = (memDepHash m)(entry_sn h m e := None)" unfolding he(2) by (simp add: m')
qed (use run e t dep in \<open>auto simp: md_completed_def Let_def sources_def split: if_splits\<close>)

lemma clear_dependents_inv:
  assumes inv: "md_inv tid W N h m" and dep: "W' \<subseteq> W - set (dependInsts (entries m e))"
  shows "md_inv tid W' N h (upd_entry e (\<lambda>x. x\<lparr>dependInsts := []\<rparr>) m)" (is "md_inv _ _ _ _ ?m")
proof -
  have i: "entry_inst h ?m = entry_inst h m" by (simp add: entry_inst_def fun_eq_iff upd_entry_def)
  have f: "md_instList ?m = md_instList m" "memDepHash ?m = memDepHash m" "nextEntry ?m = nextEntry m" "sources ?m = sources m"
    by (simp_all add: upd_entry_def sources_def)
  have "waits_on tid h ?m x" if x: "waits_on tid h m x" "x \<in> W'" for x
  proof -
    obtain s where s: "s \<in> set (md_instList m tid)" "entry_sn h m s < entry_sn h m x"
      "x \<in> set (dependInsts (entries m s))" "has_dependents (entry_inst h m s)" using x(1) unfolding waits_on_def by blast
    then have "s \<noteq> e" using dep x(2) by auto
    with s show ?thesis unfolding waits_on_def i f by (auto simp: upd_entry_def)
  qed
  moreover have "list_hash_ok tid N h ?m" "sources_ok N h ?m"
    using inv unfolding md_inv_def list_hash_ok_def sources_ok_def i f by simp_all
  ultimately show ?thesis using inv dep unfolding md_inv_def f by blast
qed

lemma md_wake_run:
  assumes run: "md_wakeDependents p (h, r, m) = Some (h', r', m')"
    and e: "memDepHash m (seqNum (h p)) = Some e" and hd: "has_dependents (h p)"
  obtains m1 where "h' = h" and "same_shape m m1" and "m' = upd_entry e (\<lambda>x. x\<lparr>dependInsts := []\<rparr>) m1"
proof -
  obtain h1 m1 where "foldM wake_dependent (dependInsts (entries m e)) (h, r, m) = Some (h1, r', m1)" "h' = h1"
    "m' = upd_entry e (\<lambda>x. x\<lparr>dependInsts := []\<rparr>) m1"
    using run e hd by (auto simp: md_wakeDependents_def has_dependents_def findInHash_def split: if_splits)
  then show ?thesis using that wake_loop_shape by metis
qed

lemma md_wake_none: "\<not> has_dependents (h p) \<Longrightarrow> md_wakeDependents p (h, r, m) = Some (h, r, m)"
  by (simp add: md_wakeDependents_def has_dependents_def)

text \<open>
  What is released when an instruction completes: the dependents of its entry.
\<close>

definition released :: "inst_heap \<Rightarrow> mem_dep_unit \<Rightarrow> iptr \<Rightarrow> eptr set" where
  "released h m p = (case memDepHash m (seqNum (h p)) of
     None \<Rightarrow> {} | Some e \<Rightarrow> if has_dependents (h p) then set (dependInsts (entries m e)) else {})"

lemma complete_inv:
  assumes inv: "md_inv tid W N h m" and t: "threadNumber (h p) = tid" and e: "memDepHash m (seqNum (h p)) = Some e"
    and own: "md_inst (entries m e) = p"
    and wake: "md_wakeDependents p (h, r, m) = Some (h1, r1, m1)" and run: "md_completed p h1 m1 = Some m2"
  shows "h1 = h \<and> md_inv tid (W - released h m p) N h m2"
proof (cases "has_dependents (h p)")
  case True
  obtain m0 where m0: "h1 = h" "same_shape m m0" "m1 = upd_entry e (\<lambda>x. x\<lparr>dependInsts := []\<rparr>) m0"
    using md_wake_run[OF wake e True] by blast
  have inv0: "md_inv tid W N h m0" by (rule md_inv_cong[OF inv same_id_refl m0(2)])
  have rel: "released h m p = set (dependInsts (entries m0 e))" using e True m0(2) by (simp add: released_def same_shape_def)
  have inv1: "md_inv tid (W - released h m p) N h m1"
    unfolding m0(3) rel by (rule clear_dependents_inv[OF inv0]) simp
  have e1: "memDepHash m1 (seqNum (h p)) = Some e" using e m0(2,3) by (simp add: same_shape_def upd_entry_def)
  have "md_completed p h m1 = Some m2" using run m0(1) by simp
  from take_out_inv[OF inv1 e1 t this order_refl] m0(1,3) show ?thesis by (simp add: upd_entry_def)
next
  case False
  then have eq: "h1 = h" "m1 = m" using wake md_wake_none by auto
  have "released h m p = {}" using e False by (simp add: released_def)
  moreover have "\<not> has_dependents (entry_inst h m e)" using False own by (simp add: entry_inst_def)
  ultimately show ?thesis using take_out_inv[OF inv e t _ order_refl, of m2] run eq by auto
qed

lemma barrier_flags_inv:
  assumes "md_inv tid W N h m"
  shows "md_inv tid W N h (m\<lparr>loadBarrier := b, storeBarrier := b'\<rparr>)" "md_inv tid W N h (m\<lparr>loadBarrier := b\<rparr>)"
    "md_inv tid W N h (m\<lparr>storeBarrier := b'\<rparr>)"
  by (rule md_inv_cong[OF assms same_id_refl]; simp add: same_shape_def sources_def)+

lemma complete_barrier_inv:
  assumes inv: "md_inv tid W N h m" and t: "threadNumber (h p) = tid" and e: "memDepHash m (seqNum (h p)) = Some e"
    and own: "md_inst (entries m e) = p" and run: "md_completeBarrier p (h, r, m) = Some (h', r', m')"
  shows "h' = h \<and> md_inv tid (W - released h m p) N h m'"
proof -
  obtain m1 m2 where s: "md_wakeDependents p (h, r, m) = Some (h', r', m1)" "md_completed p h' m1 = Some m2"
    and m': "m' = m2 \<or> m' = m2\<lparr>loadBarrier := False\<rparr> \<or> m' = m2\<lparr>storeBarrier := False\<rparr> \<or>
      m' = m2\<lparr>loadBarrier := False, storeBarrier := False\<rparr>"
    using run by (auto simp: md_completeBarrier_def Let_def split: if_splits)
  note c = complete_inv[OF inv t e own s]
  then show ?thesis using m' barrier_flags_inv by auto
qed

text \<open>Squashing from the back of the list.\<close>

definition with_list :: "thread_id \<Rightarrow> eptr list \<Rightarrow> mem_dep_unit \<Rightarrow> mem_dep_unit" where
  "with_list tid l m = m\<lparr>md_instList := (md_instList m)(tid := l)\<rparr>"

lemma squash_turn_inv:
  assumes inv: "md_inv tid W N h (with_list tid (rev (e # es)) m)"
    and sn: "sn = entry_sn h m e" and x: "memDepHash m sn = Some x"
    and m3: "m3 = upd_entry x (\<lambda>y. y\<lparr>md_squashed := True\<rparr>) (m\<lparr>loadBarrier := lb, storeBarrier := sb\<rparr>)"
  shows "md_inv tid W N h (with_list tid (rev es) (m3\<lparr>memDepHash := (memDepHash m3)(sn := None)\<rparr>))"
proof (rule remove_entry_inv[OF inv])
  let ?m = "with_list tid (rev (e # es)) m"
  have l: "list_hash_ok tid N h ?m" using inv by (simp add: md_inv_def)
  have i: "entry_inst h ?m = entry_inst h m" by (simp add: entry_inst_def fun_eq_iff with_list_def)
  have inc: "increasing (entry_sn h m) (rev es @ [e])"
    using l unfolding list_hash_ok_def i by (simp add: with_list_def)
  then have "e \<notin> set es" by auto
  then show "md_instList (with_list tid (rev es) (m3\<lparr>memDepHash := (memDepHash m3)(sn := None)\<rparr>)) tid =
      remove1 e (md_instList ?m tid)" by (simp add: with_list_def remove1_append)
  show "\<not> has_dependents (entry_inst h ?m e)"
    if "y \<in> set (md_instList ?m tid)" "entry_sn h ?m e < entry_sn h ?m y" for y
    using that inc unfolding i by (auto simp: with_list_def dest: less_asym)
qed (use sn in \<open>simp_all add: m3 with_list_def upd_entry_def sources_def entry_inst_def\<close>)

lemma md_squash_loop_inv:
  assumes "md_squash_loop h n es m = Some (l, m')" and "md_inv tid W N h (with_list tid (rev es) m)"
  shows "md_inv tid W N h (with_list tid (rev l) m')"
  using assms
proof (induction es arbitrary: m)
  case (Cons e es)
  let ?sn = "seqNum (h (md_inst (entries m e)))"
  show ?case
  proof (cases "?sn > n")
    case True
    let ?lb = "if ?sn = loadBarrierSN m then False else loadBarrier m"
    let ?sb = "if ?sn = storeBarrierSN m then False else storeBarrier m"
    have m2: "(let m1 = if ?sn = loadBarrierSN m then m\<lparr>loadBarrier := False\<rparr> else m
        in if ?sn = storeBarrierSN m1 then m1\<lparr>storeBarrier := False\<rparr> else m1) = m\<lparr>loadBarrier := ?lb, storeBarrier := ?sb\<rparr>"
      by (simp add: Let_def)
    obtain x where x: "memDepHash m ?sn = Some x"
      and run: "md_squash_loop h n es ((upd_entry x (\<lambda>y. y\<lparr>md_squashed := True\<rparr>) (m\<lparr>loadBarrier := ?lb, storeBarrier := ?sb\<rparr>))
        \<lparr>memDepHash := (memDepHash (upd_entry x (\<lambda>y. y\<lparr>md_squashed := True\<rparr>) (m\<lparr>loadBarrier := ?lb, storeBarrier := ?sb\<rparr>)))(?sn := None)\<rparr>)
        = Some (l, m')"
      using Cons.prems(1) True by (auto simp: Let_def split: if_splits)
    show ?thesis
      by (rule Cons.IH[OF run squash_turn_inv[OF Cons.prems(2) _ x refl]]) (simp add: entry_inst_def)
  next
    case False
    then show ?thesis using Cons.prems by (auto simp: Let_def)
  qed
qed simp

lemma md_squash_inv:
  assumes "md_inv tid W N h m" and "md_squash n tid h m = Some m'"
  shows "md_inv tid W N h m'"
proof -
  let ?m0 = "m\<lparr>instsToReplay := filter (\<lambda>p. \<not> (threadNumber (h p) = tid \<and> seqNum (h p) > n)) (instsToReplay m)\<rparr>"
  obtain l m1 d where s: "md_squash_loop h n (rev (md_instList m tid)) ?m0 = Some (l, m1)"
    "squash_store_set n (depPred m1) = Some d" "m' = m1\<lparr>md_instList := (md_instList m1)(tid := rev l), depPred := d\<rparr>"
    using assms(2) by (auto simp: md_squash_def Let_def)
  have "md_inv tid W N h (with_list tid (rev (rev (md_instList m tid))) ?m0)"
    by (rule md_inv_cong[OF assms(1) same_id_refl]) (simp add: same_shape_def with_list_def sources_def)
  from md_squash_loop_inv[OF s(1) this] have i1: "md_inv tid W N h (with_list tid (rev l) m1)" .
  have "LFST d = LFST (depPred m1)" using squash_loop_LFST s(2) by (simp add: squash_store_set_def)
  then have "md_inv tid W N h ((with_list tid (rev l) m1)\<lparr>depPred := d\<rparr>)"
    using depPred_inv[OF i1, of d "loadBarrierSN m1"] by (auto simp: with_list_def sources_def)
  then show ?thesis unfolding s(3) by (simp add: with_list_def)
qed

section \<open>The state machine\<close>

text \<open>
  The steps of a thread's unit as the instruction queue makes them. \<open>W\<close> are the entries that an
  insertion made dependent and that no wake-up has released, \<open>N\<close> is the youngest sequence number
  so far: instructions arrive in program order. An instruction completes only when it does not
  wait. Between the steps the status bits of instructions and the ready queues change freely.
\<close>

type_synonym md_conf = "eptr set \<times> inst_seq_num \<times> inst_heap \<times> ready_state \<times> mem_dep_unit"

inductive md_step :: "thread_id \<Rightarrow> md_conf \<Rightarrow> md_conf \<Rightarrow> bool" for tid where
  step_env: "same_id h h' \<Longrightarrow> md_step tid (W, N, h, r, m) (W, N, h', r', m)"
| step_insert: "threadNumber (h p) = tid \<Longrightarrow> N < seqNum (h p) \<Longrightarrow> md_insert p (h, r, m) = Some (h', r', m') \<Longrightarrow>
    md_step tid (W, N, h, r, m)
      (if memDepReady (entries m' (nextEntry m)) then W else insert (nextEntry m) W, seqNum (h p), h', r', m')"
| step_nonspec: "threadNumber (h p) = tid \<Longrightarrow> N < seqNum (h p) \<Longrightarrow> md_insertNonSpec p h m = Some m' \<Longrightarrow>
    md_step tid (W, N, h, r, m) (W, seqNum (h p), h, r, m')"
| step_barrier: "threadNumber (h p) = tid \<Longrightarrow> N < seqNum (h p) \<Longrightarrow> isMemBarrier (h p) \<or> isWriteBarrier (h p) \<Longrightarrow>
    md_step tid (W, N, h, r, m) (W, seqNum (h p), h, r, md_insertBarrier p h m)"
| step_regs: "md_regsReady p (h, r, m) = Some (h', r', m') \<Longrightarrow> md_step tid (W, N, h, r, m) (W, N, h', r', m')"
| step_nonspec_ready: "md_nonSpecInstReady p (h, r, m) = Some (h', r', m') \<Longrightarrow>
    md_step tid (W, N, h, r, m) (W, N, h', r', m')"
| step_reschedule: "md_step tid (W, N, h, r, m) (W, N, h, r, md_reschedule p m)"
| step_replay: "md_replay (h, r, m) = Some (h', r', m') \<Longrightarrow> md_step tid (W, N, h, r, m) (W, N, h', r', m')"
| step_issue: "md_issue p h m = Some m' \<Longrightarrow> md_step tid (W, N, h, r, m) (W, N, h, r, m')"
| step_violation: "md_violation a b m = Some m' \<Longrightarrow> md_step tid (W, N, h, r, m) (W, N, h, r, m')"
| step_complete: "threadNumber (h p) = tid \<Longrightarrow> memDepHash m (seqNum (h p)) = Some e \<Longrightarrow> md_inst (entries m e) = p \<Longrightarrow>
    e \<notin> W \<Longrightarrow> md_wakeDependents p (h, r, m) = Some (h1, r1, m1) \<Longrightarrow> md_completed p h1 m1 = Some m2 \<Longrightarrow>
    md_step tid (W, N, h, r, m) (W - released h m p, N, h1, r1, m2)"
| step_complete_barrier: "threadNumber (h p) = tid \<Longrightarrow> memDepHash m (seqNum (h p)) = Some e \<Longrightarrow> md_inst (entries m e) = p \<Longrightarrow>
    md_completeBarrier p (h, r, m) = Some (h', r', m') \<Longrightarrow>
    md_step tid (W, N, h, r, m) (W - released h m p, N, h', r', m')"
| step_squash: "md_squash n tid h m = Some m' \<Longrightarrow> md_step tid (W, N, h, r, m) (W, N, h, r, m')"

lemma replay_loop_shape:
  "md_replay_loop ps (h, r, m) = Some (h', r', m') \<Longrightarrow> h' = h \<and> same_shape m m'"
proof (induction ps arbitrary: r)
  case Nil
  then show ?case by (auto simp: same_shape_def sources_def)
next
  case (Cons p ps)
  then obtain e s where s: "moveToReady e (h, r, m) = Some s" "md_replay_loop ps s = Some (h', r', m')" by auto
  obtain h1 r1 m1 where eq: "s = (h1, r1, m1)" by (cases s) auto
  then have "h1 = h" "m1 = m" using moveToReady_shape s(1) by auto
  with s(2) eq Cons.IH show ?case by simp
qed

lemma insertBarrier_inv:
  assumes inv: "md_inv tid W N h m" and p: "threadNumber (h p) = tid" "N < seqNum (h p)"
    and b: "isMemBarrier (h p) \<or> isWriteBarrier (h p)"
  shows "md_inv tid W (seqNum (h p)) h (md_insertBarrier p h m)"
proof -
  let ?m = "add_entry h p m" and ?m' = "md_insertBarrier p h m" and ?N = "seqNum (h p)"
  note ae = add_entry_inv[OF inv p]
  have f: "entries ?m' = entries ?m" "md_instList ?m' = md_instList ?m" "memDepHash ?m' = memDepHash ?m"
    "nextEntry ?m' = nextEntry ?m" "sources ?m' \<subseteq> insert ?N (sources ?m)"
    by (auto simp: md_insertBarrier_def Let_def add_entry_def sources_def)
  have i: "entry_inst h ?m' = entry_inst h ?m" by (simp add: entry_inst_def fun_eq_iff f)
  have "has_dependents (entry_inst h ?m (nextEntry m))" using b by (simp add: ae(5) has_dependents_def)
  then have "v \<le> ?N \<and> (\<forall>s. memDepHash ?m v = Some s \<longrightarrow> has_dependents (entry_inst h ?m s))" if "v \<in> sources ?m'" for v
    using that f(5) ae(1,2) unfolding md_inv_def sources_ok_def by auto
  then have "sources_ok ?N h ?m'" unfolding sources_ok_def f(3) i by blast
  moreover have "list_hash_ok tid ?N h ?m'" using ae(1) unfolding md_inv_def list_hash_ok_def f i by blast
  ultimately show ?thesis using ae(1) unfolding md_inv_def waits_on_def f i by blast
qed

lemma insertNonSpec_inv:
  assumes inv: "md_inv tid W N h m" and p: "threadNumber (h p) = tid" "N < seqNum (h p)"
    and run: "md_insertNonSpec p h m = Some m'"
  shows "md_inv tid W (seqNum (h p)) h m'"
proof (cases "isStore (h p)")
  case True
  then have "md_insert_store (h p) (add_entry h p m) = Some m'" using run by (simp add: md_insertNonSpec_def Let_def)
  from md_insert_store_inv[OF add_entry_inv(1)[OF inv p] this] show ?thesis
    using True add_entry_inv(2,5)[OF inv p] by (simp add: has_dependents_def)
next
  case False
  then show ?thesis using run add_entry_inv(1)[OF inv p] by (auto simp: md_insertNonSpec_def Let_def split: if_splits)
qed

lemma md_step_inv:
  assumes "md_step tid (W, N, h, r, m) (W', N', h', r', m')" and inv: "md_inv tid W N h m"
  shows "md_inv tid W' N' h' m'"
  using assms(1)
proof cases
  case step_env
  then show ?thesis using md_inv_cong[OF inv _ same_shape_refl] by simp
next
  case (step_insert p)
  then show ?thesis using md_insert_inv[OF inv] by simp
next
  case (step_nonspec p)
  then show ?thesis using insertNonSpec_inv[OF inv] by simp
next
  case (step_barrier p)
  then show ?thesis using insertBarrier_inv[OF inv] by simp
next
  case (step_regs p)
  then obtain e where "h' = h" "m' = upd_entry e (\<lambda>x. x\<lparr>regsReady := True\<rparr>) m"
    by (auto simp: md_regsReady_def Let_def dest!: moveToReady_shape split: if_splits)
  moreover have "same_shape m (upd_entry e (\<lambda>x. x\<lparr>regsReady := True\<rparr>) m)" by (simp add: upd_entry_shape)
  ultimately show ?thesis using md_inv_cong[OF inv same_id_refl] step_regs(1,2) by simp
next
  case (step_nonspec_ready p)
  then have "h' = h" "m' = m" by (auto simp: md_nonSpecInstReady_def dest!: moveToReady_shape)
  then show ?thesis using inv step_nonspec_ready by simp
next
  case (step_reschedule p)
  have "same_shape m (md_reschedule p m)" by (simp add: same_shape_def md_reschedule_def sources_def)
  then show ?thesis using md_inv_cong[OF inv same_id_refl] step_reschedule by simp
next
  case step_replay
  then have "h' = h" "same_shape m m'" using replay_loop_shape by (auto simp: md_replay_def)
  then show ?thesis using md_inv_cong[OF inv same_id_refl] step_replay by simp
next
  case (step_issue p)
  then obtain d where "LFST d = LFST (depPred m)" "m' = m\<lparr>depPred := d\<rparr>" by (auto simp: md_issue_def dest: issued_LFST)
  then show ?thesis using depPred_inv[OF inv, of d "loadBarrierSN m"] step_issue by (auto simp: sources_def)
next
  case (step_violation a b)
  then obtain d where "LFST d = LFST (depPred m)" "m' = m\<lparr>depPred := d\<rparr>" by (auto simp: md_violation_def dest: violation_LFST)
  then show ?thesis using depPred_inv[OF inv, of d "loadBarrierSN m"] step_violation by (auto simp: sources_def)
next
  case (step_complete p e m1)
  then show ?thesis using complete_inv[OF inv] by blast
next
  case (step_complete_barrier p e)
  then show ?thesis using complete_barrier_inv[OF inv] by blast
next
  case (step_squash n)
  then show ?thesis using md_squash_inv[OF inv] by blast
qed

lemma md_init_inv: "md_inv tid {} 0 h (md_init cp a b)"
  by (auto simp: md_inv_def list_hash_ok_def sources_ok_def md_init_def init_store_set_def sources_def)

lemma md_reach_inv:
  assumes "(md_step tid)\<^sup>*\<^sup>* ({}, 0, h0, r0, md_init cp a b) c"
  shows "case c of (W, N, h, r, m) \<Rightarrow> md_inv tid W N h m"
  using assms
proof (induction rule: rtranclp_induct)
  case base
  then show ?case by (simp add: md_init_inv)
next
  case (step c d)
  then show ?case using md_step_inv by (cases c, cases d) auto
qed

lemma waiting_is_woken:
  assumes inv: "md_inv tid W N h m" and wf: "ready_wf h r" and e: "e \<in> W \<inter> set (md_instList m tid)"
  shows "\<exists>s \<in> set (md_instList m tid). entry_sn h m s < entry_sn h m e \<and>
     (\<exists>r' m'. md_wakeDependents (md_inst (entries m s)) (h, r, m) = Some (h, r', m') \<and>
        (if regsReady (entries m e) \<and> \<not> md_squashed (entries m e)
         then md_inst (entries m e) \<in># ready_mset r' - ready_mset r else memDepReady (entries m' e)))"
proof -
  obtain s where s: "s \<in> set (md_instList m tid)" "entry_sn h m s < entry_sn h m e" "e \<in> set (dependInsts (entries m s))"
    "has_dependents (entry_inst h m s)" using inv e by (auto simp: md_inv_def waits_on_def)
  have f: "findInHash h (md_inst (entries m s)) m = Some s"
    using inv listed(5)[OF _ s(1)] by (auto simp: md_inv_def findInHash_def entry_inst_def)
  obtain r' m1 where w: "foldM wake_dependent (dependInsts (entries m s)) (h, r, m) = Some (h, r', m1)"
    "ready_mset r' = ready_mset r + mset (map (\<lambda>e. md_inst (entries m e))
       (filter (\<lambda>e. regsReady (entries m e) \<and> \<not> md_squashed (entries m e)) (dependInsts (entries m s))))"
    "\<forall>x. memDepReady (entries m1 x) \<longleftrightarrow> memDepReady (entries m x) \<or>
        x \<in> set (dependInsts (entries m s)) \<and> \<not> (regsReady (entries m x) \<and> \<not> md_squashed (entries m x))"
    using wake_loop_ready[OF wf] by blast
  let ?m = "upd_entry s (\<lambda>x. x\<lparr>dependInsts := []\<rparr>) m1"
  have "md_wakeDependents (md_inst (entries m s)) (h, r, m) = Some (h, r', ?m)"
    using s(4) f w(1) by (auto simp: md_wakeDependents_def has_dependents_def entry_inst_def)
  moreover have "memDepReady (entries ?m e) = memDepReady (entries m1 e)" by (simp add: upd_entry_def)
  moreover have "md_inst (entries m e) \<in># ready_mset r' - ready_mset r" if "regsReady (entries m e) \<and> \<not> md_squashed (entries m e)"
    using w(2) s(3) that by force
  ultimately show ?thesis using s w(3) by (intro bexI[of _ s] conjI exI) auto
qed

text \<open>
  C22: no memory instruction is left waiting: in every reachable state of the unit, for an instruction
  that waits for a memory dependence there is an older store or barrier in the unit whose
  completion wakes it: if its registers are ready it is put on the ready queues, and otherwise (or when it is squashed) it is marked
  free of dependences, and an unsquashed instruction so marked is put on the ready queues when its registers become ready. The oldest instruction of
  the unit never waits. The ready queues are assumed to be well formed.
\<close>

theorem oldest_access_never_waits:
  assumes "(md_step tid)\<^sup>*\<^sup>* ({}, 0, h0, r0, md_init cp a b) (W, N, h, r, m)" and wf: "ready_wf h r"
  shows "(\<forall>e \<in> W \<inter> set (md_instList m tid). \<exists>s \<in> set (md_instList m tid). entry_sn h m s < entry_sn h m e \<and>
       (\<exists>r' m'. md_wakeDependents (md_inst (entries m s)) (h, r, m) = Some (h, r', m') \<and>
          (if regsReady (entries m e) \<and> \<not> md_squashed (entries m e)
           then md_inst (entries m e) \<in># ready_mset r' - ready_mset r else memDepReady (entries m' e)))) \<and>
     (\<forall>e \<in> set (md_instList m tid). memDepReady (entries m e) \<and> \<not> md_squashed (entries m e) \<longrightarrow>
       (\<exists>r' m'. md_regsReady (md_inst (entries m e)) (h, r, m) = Some (h, r', m') \<and>
          ready_mset r' = add_mset (md_inst (entries m e)) (ready_mset r))) \<and>
     (\<forall>e es. md_instList m tid = e # es \<longrightarrow> e \<notin> W)"
proof (intro conjI ballI allI impI)
  have inv: "md_inv tid W N h m" using md_reach_inv[OF assms(1)] by simp
  show "e \<notin> W" if l: "md_instList m tid = e # es" for e es
  proof
    assume "e \<in> W"
    then have "waits_on tid h m e" using inv l by (simp add: md_inv_def)
    then obtain s where s: "s \<in> set (e # es)" "entry_sn h m s < entry_sn h m e" using l by (auto simp: waits_on_def)
    have "increasing (entry_sn h m) (e # es)" using inv l unfolding md_inv_def list_hash_ok_def by metis
    with s show False by (auto dest: less_asym)
  qed
  fix e assume e: "e \<in> set (md_instList m tid)" "memDepReady (entries m e) \<and> \<not> md_squashed (entries m e)"
  have "findInHash h (md_inst (entries m e)) m = Some e"
    using inv listed(5)[OF _ e(1)] by (auto simp: md_inv_def findInHash_def entry_inst_def)
  then show "\<exists>r' m'. md_regsReady (md_inst (entries m e)) (h, r, m) = Some (h, r', m') \<and>
      ready_mset r' = add_mset (md_inst (entries m e)) (ready_mset r)"
    using rq.push_content[OF wf, of "md_inst (entries m e)"] e(2)
    by (auto simp: md_regsReady_def Let_def moveToReady_def upd_entry_def)
qed (rule waiting_is_woken[OF _ wf]; use md_reach_inv[OF assms(1)] in auto)

text \<open>A barrier and a load behind it.\<close>

definition ex_md_heap :: inst_heap where
  "ex_md_heap = (\<lambda>p. if p = 7 then ex_inst 1 {IsMemBarrier} {} else ex_inst 2 {IsMemRef, IsLoad} {CanIssue})"

abbreviation ex_md_unit :: mem_dep_unit where
  "ex_md_unit \<equiv> md_insertBarrier 7 ex_md_heap (md_init 1000 4 4)"

lemma ex_md_heap_facts:
  "threadNumber (ex_md_heap p) = 0" "seqNum (ex_md_heap 7) = 1" "isMemBarrier (ex_md_heap 7)" "\<not> isDolmaRestricted (ex_md_heap 7)"
  "p \<noteq> 7 \<Longrightarrow> seqNum (ex_md_heap p) = 2 \<and> isLoad (ex_md_heap p) \<and> \<not> isStore (ex_md_heap p)"
  by (auto simp: ex_md_heap_def ex_inst_def ex_si_def isDolmaRestricted_def isControlRestricted_def isDataRestricted_def)

lemma ex_md_unit_facts:
  "nextEntry ex_md_unit = 1" "memDepHash ex_md_unit = (\<lambda>_. None)(1 := Some 0)" "loadBarrier ex_md_unit" "loadBarrierSN ex_md_unit = 1"
  "entries ex_md_unit = (\<lambda>_. blank_entry 0)(0 := blank_entry 7)" "md_instList ex_md_unit = (\<lambda>_. [])(0 := [0])"
  by (simp_all add: md_insertBarrier_def Let_def ex_md_heap_facts add_entry_def md_init_def)

lemma ex_md_insert:
  "\<exists>h' m'. md_insert 8 (ex_md_heap, empty_ready, ex_md_unit) = Some (h', empty_ready, m') \<and>
     \<not> memDepReady (entries m' 1) \<and> regsReady (entries m' 1) \<and> \<not> md_squashed (entries m' 1) \<and> md_inst (entries m' 1) = 8 \<and>
     md_instList m' 0 = [0, 1]"
proof -
  have l: "isLoad (ex_md_heap 8)" "\<not> isStore (ex_md_heap 8)" "seqNum (ex_md_heap 8) = 2" "threadNumber (ex_md_heap 8) = 0"
    "readyToIssue (ex_md_heap 8)" using ex_md_heap_facts(1) ex_md_heap_facts(5)[of 8] by (auto simp: ex_md_heap_def ex_inst_def)
  let ?m1 = "add_entry ex_md_heap 8 ex_md_unit"
  have "producing_store (ex_md_heap 8) ?m1 = Some 1"
    using l by (simp add: producing_store_def add_entry_simps ex_md_unit_facts)
  moreover have "store_entry ex_md_heap 1 ?m1 = Some 0"
    by (simp add: store_entry_def add_entry_def Let_def l ex_md_unit_facts ex_md_heap_facts)
  ultimately show ?thesis
    using l by (simp add: md_insert_def Let_def md_place_def md_predict_def upd_entry_def add_entry_simps
        ex_md_unit_facts reset_status_def)
qed

theorem oldest_access_never_waits_witness:
  "\<exists>W N h m. (md_step 0)\<^sup>*\<^sup>* ({}, 0, ex_md_heap, empty_ready, md_init 1000 4 4) (W, N, h, empty_ready, m) \<and>
     1 \<in> W \<and> 0 \<notin> W \<and>
     (\<exists>r' m'. md_wakeDependents (md_inst (entries m 0)) (h, empty_ready, m) = Some (h, r', m') \<and> 8 \<in># ready_mset r')"
proof -
  obtain h' m' where i: "md_insert 8 (ex_md_heap, empty_ready, ex_md_unit) = Some (h', empty_ready, m')"
    "\<not> memDepReady (entries m' 1)" "md_instList m' 0 = [0, 1]"
    "regsReady (entries m' 1)" "\<not> md_squashed (entries m' 1)" "md_inst (entries m' 1) = 8" using ex_md_insert by blast
  have "md_step 0 ({}, 0, ex_md_heap, empty_ready, md_init 1000 4 4)
      ({}, seqNum (ex_md_heap 7), ex_md_heap, empty_ready, ex_md_unit)"
    by (rule step_barrier) (simp_all add: ex_md_heap_facts)
  moreover have "md_step 0 ({}, seqNum (ex_md_heap 7), ex_md_heap, empty_ready, ex_md_unit)
      (if memDepReady (entries m' (nextEntry ex_md_unit)) then {} else insert (nextEntry ex_md_unit) {},
       seqNum (ex_md_heap 8), h', empty_ready, m')"
    by (rule step_insert[OF _ _ i(1)]) (use ex_md_heap_facts(1,2) ex_md_heap_facts(5)[of 8] in simp_all)
  ultimately have reach: "(md_step 0)\<^sup>*\<^sup>* ({}, 0, ex_md_heap, empty_ready, md_init 1000 4 4)
      ({1}, seqNum (ex_md_heap 8), h', empty_ready, m')"
    using i(2) by (simp add: ex_md_unit_facts)
  note t = oldest_access_never_waits[OF reach empty_ready_wf, unfolded i(3)]
  then obtain s r' k where s: "s \<in> {0, 1}" "entry_sn h' m' s < entry_sn h' m' 1"
    "md_wakeDependents (md_inst (entries m' s)) (h', empty_ready, m') = Some (h', r', k)" "8 \<in># ready_mset r' - ready_mset empty_ready"
    using i(4-6) by auto
  then have "s = 0" by auto
  moreover have "8 \<in># ready_mset r'" using s(4) by (rule in_diffD)
  ultimately show ?thesis using reach s(3) by fastforce
qed

section \<open>Insertion\<close>

lemma checkInst_total: "tables_wf s \<Longrightarrow> \<exists>v. checkInst pc s = Some v"
  using calcIndex_less[of s pc] by (auto simp: checkInst_def Let_def tables_wf_def)

text \<open>
  C23: what the insertion of a load or store decides. It never fails. A load behind a load barrier depends on that barrier, a store behind a
  store barrier on that one, and any other on the store the predictor names. If
  what it depends on is not in the unit, or is unsquashed and under a control or data restriction, the instruction is
  free to issue and is put on the ready queues when its registers are ready. Otherwise it goes on the list of the
  producer and cannot issue.
\<close>

theorem md_insert_decides:
  assumes inv: "md_inv tid W N h m" and p: "threadNumber (h p) = tid" "N < seqNum (h p)"
    and kind: "isLoad (h p) \<or> isStore (h p)"
    and wf: "ready_wf h r" "store_set_wf (depPred m)" "newer (seqNum (h p)) (depPred m)"
  shows "\<exists>h' r' m' sn. md_insert p (h, r, m) = Some (h', r', m') \<and>
     (if isLoad (h p) \<and> loadBarrier m then sn = loadBarrierSN m
      else if isStore (h p) \<and> storeBarrier m then sn = storeBarrierSN m
      else checkInst (instAddr (h p)) (depPred m) = Some sn) \<and>
     (if sn \<noteq> 0 \<and> (\<exists>s. memDepHash m sn = Some s \<and> \<not> speculative (h (md_inst (entries m s))))
      then r' = r \<and> \<not> readyToIssue (h' p) \<and> \<not> memDepReady (entries m' (nextEntry m)) \<and>
        (\<forall>s. memDepHash m sn = Some s \<longrightarrow> nextEntry m \<in> set (dependInsts (entries m' s)))
      else h' = h \<and> memDepReady (entries m' (nextEntry m)) \<and>
        (if readyToIssue (h p) then ready_mset r' = add_mset p (ready_mset r) else r' = r))"
proof -
  let ?m1 = "add_entry h p m" and ?e = "nextEntry m"
  note ae = add_entry_inv[OF inv p]
  obtain sn where sn: "producing_store (h p) m = Some sn"
    using checkInst_total wf(2) by (fastforce simp: producing_store_def store_set_wf_def)
  then have src: "if isLoad (h p) \<and> loadBarrier m then sn = loadBarrierSN m
      else if isStore (h p) \<and> storeBarrier m then sn = storeBarrierSN m
      else checkInst (instAddr (h p)) (depPred m) = Some sn" by (auto simp: producing_store_def split: if_splits)
  from sn have sn1: "producing_store (h p) ?m1 = Some sn" unfolding producing_store_def add_entry_simps .
  have "sn \<noteq> seqNum (h p)"
    using producing_store_source[OF sn] inv p(2) le_less_trans[OF word_zero_le p(2)]
    unfolding md_inv_def sources_ok_def by auto
  then have hash: "memDepHash ?m1 sn = memDepHash m sn" unfolding ae(2) by simp
  have l: "list_hash_ok tid N h m" using inv by (simp add: md_inv_def)
  have ne: "memDepHash m sn = Some s \<Longrightarrow> s \<noteq> ?e" for s using hashed(1)[OF l] ae(3) by blast
  have st: "store_entry h sn ?m1 = store_entry h sn m"
    using ne unfolding store_entry_def hash by (auto simp: add_entry_simps split: option.splits)
  have pred: "\<exists>m3. md_predict p h2 m2 = Some m3 \<and> entries m3 = entries m2"
    if "depPred m2 = depPred m" "staticInst (h2 p) = staticInst (h p)" "seqNum (h2 p) = seqNum (h p)" for h2 m2
    using that insertStore_spec[OF wf(2,3), of "instAddr (h2 p)"] kind
    by (auto simp: md_predict_def md_insert_store_def)
  show ?thesis
  proof (cases "store_entry h sn m")
    case None
    let ?m2 = "upd_entry ?e (\<lambda>x. x\<lparr>memDepReady := True\<rparr>) ?m1"
    let ?m3 = "upd_entry ?e (\<lambda>x. x\<lparr>regsReady := True\<rparr>) ?m2"
    have mi: "\<not> md_squashed (entries ?m3 ?e)" "md_inst (entries ?m3 ?e) = p" by (simp_all add: upd_entry_def add_entry_simps)
    obtain r' where r': "addReadyMemInst h p r = Some r'" "ready_mset r' = add_mset p (ready_mset r)"
      using rq.push_content[OF wf(1)] by blast
    have place: "md_place p ?e None (h, r, ?m1) =
        (if readyToIssue (h p) then Some (h, r', ?m3) else Some (h, r, ?m2))"
      using mi r'(1) by (simp add: md_place_def Let_def moveToReady_def)
    have d: "depPred ?m2 = depPred m" "depPred ?m3 = depPred m" by (simp_all add: upd_entry_def add_entry_simps)
    obtain k2 k3 where k: "md_predict p h ?m2 = Some k2" "md_predict p h ?m3 = Some k3"
      "entries k2 = entries ?m2" "entries k3 = entries ?m3" using pred d by blast
    define k where "k = (if readyToIssue (h p) then k3 else k2)"
    have "md_insert p (h, r, m) = Some (h, if readyToIssue (h p) then r' else r, k)"
      using sn1 None st place k(1,2) by (simp add: md_insert_def Let_def k_def)
    moreover have "memDepReady (entries k ?e)" by (simp add: k_def k(3,4) upd_entry_def)
    moreover have "\<not> (sn \<noteq> 0 \<and> (\<exists>s. memDepHash m sn = Some s \<and> \<not> speculative (h (md_inst (entries m s)))))"
      using None by (auto simp: store_entry_def isDolmaRestricted_bits split: if_splits)
    ultimately show ?thesis using r'(2)
      by (intro exI[of _ h] exI[of _ "if readyToIssue (h p) then r' else r"] exI[of _ k] exI[of _ sn] conjI[OF _ conjI[OF src]]) auto
  next
    case (Some s)
    let ?m2 = "if readyToIssue (h p) then upd_entry ?e (\<lambda>x. x\<lparr>regsReady := True\<rparr>) ?m1 else ?m1"
    let ?m3 = "upd_entry s (\<lambda>x. x\<lparr>dependInsts := dependInsts x @ [?e]\<rparr>) ?m2"
    let ?h = "h(p := reset_status CanIssue (h p))"
    obtain k where k: "md_predict p ?h ?m3 = Some k" "entries k = entries ?m3"
      using pred[of ?m3 ?h] by (auto simp: upd_entry_def add_entry_simps reset_status_def)
    have "md_insert p (h, r, m) = Some (?h, r, k)"
      using sn1 Some st k(1) by (simp add: md_insert_def Let_def md_place_def)
    moreover have "?e \<in> set (dependInsts (entries k s))" unfolding k(2) by (simp add: upd_entry_def)
    moreover have dec: "sn \<noteq> 0" "memDepHash m sn = Some s" "\<not> speculative (h (md_inst (entries m s)))"
      using Some by (auto simp: store_entry_def isDolmaRestricted_bits split: if_splits option.splits)
    moreover have "\<not> memDepReady (entries k ?e)"
      using ne[OF dec(2)] unfolding k(2) by (auto simp: upd_entry_def add_entry_simps)
    ultimately show ?thesis
      by (intro exI[of _ ?h] exI[of _ r] exI[of _ k] exI[of _ sn] conjI[OF _ conjI[OF src]]) (auto simp: reset_status_def)
  qed
qed

theorem md_insert_decides_witness:
  "\<exists>h' m'. md_insert 8 (ex_md_heap, empty_ready, ex_md_unit) = Some (h', empty_ready, m') \<and>
     \<not> readyToIssue (h' 8) \<and> nextEntry ex_md_unit \<in> set (dependInsts (entries m' 0))"
proof -
  have inv: "md_inv 0 {} 1 ex_md_heap ex_md_unit"
    using insertBarrier_inv[OF md_init_inv, of ex_md_heap 7 0 1000 4 4] ex_md_heap_facts by simp
  have l: "isLoad (ex_md_heap 8)" "seqNum (ex_md_heap 8) = 2" using ex_md_heap_facts(5)[of 8] by auto
  have d: "depPred ex_md_unit = init_store_set 1000 4 4"
    by (simp add: md_insertBarrier_def Let_def ex_md_heap_facts add_entry_def md_init_def)
  have wf: "store_set_wf (depPred ex_md_unit)" "newer (seqNum (ex_md_heap 8)) (depPred ex_md_unit)"
    unfolding d by (auto simp: store_set_wf_def tables_wf_def stores_wf_def init_store_set_def newer_def intro!: exI[of _ 2])
  have "\<not> speculative (ex_md_heap 7)" using ex_md_heap_facts(4) by (simp add: isDolmaRestricted_bits)
  then show ?thesis
    using md_insert_decides[OF inv, of 8 empty_ready] wf l ex_md_heap_facts(1) empty_ready_wf ex_md_unit_facts by auto
qed

end
