(* ===== verification/Dep_Graph.thy ===== *)
theory Dep_Graph
  imports Dyn_Inst
begin

text \<open>
  The dependency graph of the instruction queue (\<^verbatim>\<open>src/cpu/o3/dep_graph.hh\<close>): for
  every physical register the instruction that will produce it and the chain of the instructions
  that wait for it, newest first. The traversal counters, which only feed statistics, are left out.
\<close>

section \<open>Operations\<close>

record dep_entry =
  producer :: "iptr option"
  dependents :: "iptr list"

record dep_graph =
  dependGraph :: "dep_entry list"
  memAllocCounter :: "32 word"

definition empty_entry :: dep_entry where
  "empty_entry = \<lparr>producer = None, dependents = []\<rparr>"

definition dg_resize :: "nat \<Rightarrow> dep_graph \<Rightarrow> dep_graph" where
  "dg_resize num_entries g = g\<lparr>dependGraph := replicate num_entries empty_entry\<rparr>"

definition dg_reset :: "dep_graph \<Rightarrow> dep_graph" where
  "dg_reset g = g\<lparr>memAllocCounter := memAllocCounter g - of_nat (sum_list (map (length \<circ> dependents) (dependGraph g))),
     dependGraph := map (\<lambda>_. empty_entry) (dependGraph g)\<rparr>"

definition dg_insert :: "nat \<Rightarrow> iptr \<Rightarrow> dep_graph \<Rightarrow> dep_graph option" where
  "dg_insert idx new_inst g = do {
     e \<leftarrow> vec_get (dependGraph g) idx;
     Some (g\<lparr>dependGraph := (dependGraph g)[idx := e\<lparr>dependents := new_inst # dependents e\<rparr>],
             memAllocCounter := memAllocCounter g + 1\<rparr>) }"

definition dg_setInst :: "nat \<Rightarrow> iptr \<Rightarrow> dep_graph \<Rightarrow> dep_graph option" where
  "dg_setInst idx new_inst g = do {
     e \<leftarrow> vec_get (dependGraph g) idx;
     Some (g\<lparr>dependGraph := (dependGraph g)[idx := e\<lparr>producer := Some new_inst\<rparr>]\<rparr>) }"

definition dg_clearInst :: "nat \<Rightarrow> dep_graph \<Rightarrow> dep_graph option" where
  "dg_clearInst idx g = do {
     e \<leftarrow> vec_get (dependGraph g) idx;
     Some (g\<lparr>dependGraph := (dependGraph g)[idx := e\<lparr>producer := None\<rparr>]\<rparr>) }"

text \<open>The search of \<^verbatim>\<open>remove\<close>: the end of the chain must not be reached.\<close>

fun remove_node :: "iptr \<Rightarrow> iptr list \<Rightarrow> iptr list option" where
  "remove_node p [] = None"
| "remove_node p (q # qs) = (if q = p then Some qs else map_option ((#) q) (remove_node p qs))"

definition dg_remove :: "nat \<Rightarrow> iptr \<Rightarrow> dep_graph \<Rightarrow> dep_graph option" where
  "dg_remove idx inst_to_remove g = do {
     e \<leftarrow> vec_get (dependGraph g) idx;
     (if dependents e = [] then Some g
      else do {
        l \<leftarrow> remove_node inst_to_remove (dependents e);
        Some (g\<lparr>dependGraph := (dependGraph g)[idx := e\<lparr>dependents := l\<rparr>],
                memAllocCounter := memAllocCounter g - 1\<rparr>) }) }"

definition dg_pop :: "nat \<Rightarrow> dep_graph \<Rightarrow> (iptr option \<times> dep_graph) option" where
  "dg_pop idx g = do {
     e \<leftarrow> vec_get (dependGraph g) idx;
     (case dependents e of
        [] \<Rightarrow> Some (None, g)
      | q # qs \<Rightarrow> Some (Some q,
          g\<lparr>dependGraph := (dependGraph g)[idx := e\<lparr>dependents := qs\<rparr>],
            memAllocCounter := memAllocCounter g - 1\<rparr>)) }"

definition dg_empty_at :: "nat \<Rightarrow> dep_graph \<Rightarrow> bool option" where
  "dg_empty_at idx g = map_option (\<lambda>e. dependents e = []) (vec_get (dependGraph g) idx)"

definition dg_empty :: "dep_graph \<Rightarrow> bool" where
  "dg_empty g \<longleftrightarrow> list_all (\<lambda>e. dependents e = []) (dependGraph g)"

section \<open>The chain of a register\<close>

definition waiting :: "dep_graph \<Rightarrow> nat \<Rightarrow> iptr list" where
  "waiting g idx = (if idx < length (dependGraph g) then dependents (dependGraph g ! idx) else [])"

definition registers :: "dep_graph \<Rightarrow> nat" where
  "registers g = length (dependGraph g)"

text \<open>
  Every node is counted: \<^verbatim>\<open>memAllocCounter\<close> is the number of nodes allocated.
\<close>

definition nodes_counted :: "dep_graph \<Rightarrow> bool" where
  "nodes_counted g \<longleftrightarrow> memAllocCounter g = of_nat (sum_list (map (length \<circ> dependents) (dependGraph g)))"

lemma sum_lengths_update:
  "i < length es \<Longrightarrow> sum_list (map (length \<circ> dependents) (es[i := e])) + length (dependents (es ! i)) =
     sum_list (map (length \<circ> dependents) es) + length (dependents e)"
  by (induction es arbitrary: i) (auto split: nat.splits simp: nth_Cons')

lemma nodes_counted_update:
  assumes "nodes_counted g" and "i < registers g"
    and "c + of_nat (length (dependents (dependGraph g ! i))) = memAllocCounter g + of_nat (length (dependents e))"
  shows "nodes_counted (g\<lparr>dependGraph := (dependGraph g)[i := e], memAllocCounter := c\<rparr>)"
proof -
  let ?s = "\<lambda>es. (of_nat (sum_list (map (length \<circ> dependents) es)) :: 32 word)"
  have "?s ((dependGraph g)[i := e]) + of_nat (length (dependents (dependGraph g ! i))) =
      ?s (dependGraph g) + of_nat (length (dependents e))"
    using sum_lengths_update[of i "dependGraph g" e] assms(2)
    by (simp flip: of_nat_add add: registers_def)
  with assms(1,3) have "c + of_nat (length (dependents (dependGraph g ! i))) =
      ?s ((dependGraph g)[i := e]) + of_nat (length (dependents (dependGraph g ! i)))"
    by (simp add: nodes_counted_def)
  then have "c = ?s ((dependGraph g)[i := e])" by (simp only: add_right_cancel)
  then show ?thesis by (simp add: nodes_counted_def)
qed

lemma remove_node_Some: "remove_node p l = Some l' \<Longrightarrow> p \<in> set l \<and> l' = remove1 p l"
  by (induction l arbitrary: l') auto

lemma remove_node_in: "p \<in> set l \<Longrightarrow> remove_node p l = Some (remove1 p l)"
  by (induction l) auto

text \<open>What each operation does to the chains.\<close>

lemma dg_insert_waiting:
  assumes "dg_insert idx p g = Some g'"
  shows "waiting g' = (waiting g)(idx := p # waiting g idx)" and "registers g' = registers g" and "idx < registers g"
    and "map producer (dependGraph g') = map producer (dependGraph g)"
    and "nodes_counted g \<Longrightarrow> nodes_counted g'"
proof -
  from assms have i: "idx < length (dependGraph g)" and g': "g' = g\<lparr>dependGraph := (dependGraph g)[idx :=
      (dependGraph g ! idx)\<lparr>dependents := p # dependents (dependGraph g ! idx)\<rparr>], memAllocCounter := memAllocCounter g + 1\<rparr>"
    by (auto simp: dg_insert_def vec_get_eq_Some)
  show "waiting g' = (waiting g)(idx := p # waiting g idx)" "registers g' = registers g" "idx < registers g"
    using i by (auto simp: g' waiting_def registers_def fun_eq_iff nth_list_update)
  show "map producer (dependGraph g') = map producer (dependGraph g)"
    using i by (simp add: g' map_update list_update_same_conv)
  show "nodes_counted g'" if "nodes_counted g"
    unfolding g' by (rule nodes_counted_update[OF that]) (use i in \<open>simp_all add: registers_def\<close>)
qed

lemma dg_pop_waiting:
  assumes "dg_pop idx g = Some (r, g')"
  shows "waiting g' = (waiting g)(idx := tl (waiting g idx))" and "registers g' = registers g" and "idx < registers g"
    and "r = (case waiting g idx of [] \<Rightarrow> None | q # _ \<Rightarrow> Some q)"
    and "map producer (dependGraph g') = map producer (dependGraph g)"
    and "nodes_counted g \<Longrightarrow> nodes_counted g'"
proof -
  from assms have i: "idx < length (dependGraph g)" by (auto simp: dg_pop_def vec_get_eq_Some)
  show "waiting g' = (waiting g)(idx := tl (waiting g idx))" "registers g' = registers g" "idx < registers g"
    "r = (case waiting g idx of [] \<Rightarrow> None | q # _ \<Rightarrow> Some q)"
    using assms i by (auto simp: dg_pop_def vec_get_eq_Some waiting_def registers_def fun_eq_iff nth_list_update split: list.splits)
  show "map producer (dependGraph g') = map producer (dependGraph g)"
    using assms i by (auto simp: dg_pop_def map_update list_update_same_conv split: list.splits)
  show "nodes_counted g'" if "nodes_counted g"
  proof (cases "dependents (dependGraph g ! idx)")
    case Nil
    with assms i that show ?thesis by (auto simp: dg_pop_def)
  next
    case (Cons q qs)
    then have g': "g' = g\<lparr>dependGraph := (dependGraph g)[idx := (dependGraph g ! idx)\<lparr>dependents := qs\<rparr>],
        memAllocCounter := memAllocCounter g - 1\<rparr>" using assms i by (auto simp: dg_pop_def)
    show ?thesis unfolding g'
      by (rule nodes_counted_update[OF that]) (use i Cons in \<open>simp_all add: registers_def\<close>)
  qed
qed

lemma dg_remove_waiting:
  assumes "dg_remove idx p g = Some g'"
  shows "waiting g' = (waiting g)(idx := remove1 p (waiting g idx))" and "registers g' = registers g" and "idx < registers g"
    and "waiting g idx = [] \<or> p \<in> set (waiting g idx)"
    and "map producer (dependGraph g') = map producer (dependGraph g)"
    and "nodes_counted g \<Longrightarrow> nodes_counted g'"
proof -
  from assms have i: "idx < length (dependGraph g)" by (auto simp: dg_remove_def vec_get_eq_Some)
  show "waiting g' = (waiting g)(idx := remove1 p (waiting g idx))" "registers g' = registers g" "idx < registers g"
    "waiting g idx = [] \<or> p \<in> set (waiting g idx)"
    using assms i by (auto simp: dg_remove_def vec_get_eq_Some waiting_def registers_def fun_eq_iff nth_list_update
        dest: remove_node_Some split: if_splits)
  show "map producer (dependGraph g') = map producer (dependGraph g)"
    using assms i by (auto simp: dg_remove_def map_update list_update_same_conv split: if_splits)
  show "nodes_counted g'" if "nodes_counted g"
  proof (cases "dependents (dependGraph g ! idx)")
    case Nil
    with assms i that show ?thesis by (auto simp: dg_remove_def)
  next
    case (Cons q qs)
    then obtain l where l: "remove_node p (q # qs) = Some l" and g': "g' = g\<lparr>dependGraph :=
        (dependGraph g)[idx := (dependGraph g ! idx)\<lparr>dependents := l\<rparr>], memAllocCounter := memAllocCounter g - 1\<rparr>"
      using assms i by (auto simp: dg_remove_def split: if_splits)
    have "length l = length qs" using remove_node_Some[OF l]
      by (cases "p = q") (auto simp: length_remove1 dest: length_pos_if_in_set)
    then show ?thesis unfolding g'
      by (intro nodes_counted_update[OF that]) (use i Cons in \<open>simp_all add: registers_def\<close>)
  qed
qed

section \<open>Draining a chain\<close>

text \<open>
  What the instruction queue relies on when it wakes the dependents of a register: \<open>pop\<close>
  returns the head of the chain and removes it, whatever else the graph holds is kept. A loop that
  pops until the chain is empty then runs its body once for every waiting instruction, in order.
\<close>

locale wait_chains =
  fixes pop :: "nat \<Rightarrow> 'g \<Rightarrow> ('i option \<times> 'g) option"
    and chain :: "'g \<Rightarrow> nat \<Rightarrow> 'i list"
    and known :: "nat \<Rightarrow> 'g \<Rightarrow> bool"
    and kept :: "'g \<Rightarrow> 'k"
  assumes pop_total: "known idx g \<Longrightarrow> pop idx g \<noteq> None"
    and pop_result: "pop idx g = Some (r, g') \<Longrightarrow> r = (case chain g idx of [] \<Rightarrow> None | q # _ \<Rightarrow> Some q)"
    and pop_chain: "pop idx g = Some (r, g') \<Longrightarrow> chain g' = (chain g)(idx := tl (chain g idx))"
    and pop_known: "pop idx g = Some (r, g') \<Longrightarrow> known k g' = known k g"
    and pop_kept: "pop idx g = Some (r, g') \<Longrightarrow> kept g' = kept g"
begin

lemma drain:
  assumes loop: "\<And>g s. loop g s = do { (r, g') \<leftarrow> pop idx g;
      (case r of None \<Rightarrow> Some (g', s) | Some q \<Rightarrow> do { s' \<leftarrow> f q s; loop g' s' }) }"
    and known: "known idx g"
  shows "\<exists>g'. chain g' = (chain g)(idx := []) \<and> (\<forall>k. known k g' = known k g) \<and> kept g' = kept g \<and>
     loop g s = map_option (\<lambda>s'. (g', s')) (foldM f (chain g idx) s)"
  using known
proof (induction "chain g idx" arbitrary: g s)
  case Nil
  obtain r g' where p: "pop idx g = Some (r, g')" using pop_total[OF Nil(2)] by auto
  have "r = None" using pop_result[OF p] Nil(1) by (simp flip: Nil(1))
  moreover have "chain g' = (chain g)(idx := [])" using pop_chain[OF p] by (simp flip: Nil(1))
  ultimately show ?case
    using p pop_known[OF p] pop_kept[OF p] by (intro exI[of _ g']) (simp add: loop[of g] flip: Nil(1))
next
  case (Cons q qs)
  obtain r g1 where p: "pop idx g = Some (r, g1)" using pop_total[OF Cons(3)] by auto
  have r: "r = Some q" using pop_result[OF p] by (simp flip: Cons(2))
  have c1: "chain g1 = (chain g)(idx := qs)" using pop_chain[OF p] by (simp flip: Cons(2))
  have k1: "known k g1 = known k g" for k by (rule pop_known[OF p])
  have IH: "\<exists>g'. chain g' = (chain g1)(idx := []) \<and> (\<forall>k. known k g' = known k g1) \<and> kept g' = kept g1 \<and>
     loop g1 s' = map_option (\<lambda>t. (g', t)) (foldM f (chain g1 idx) s')" for s'
    by (rule Cons(1)) (use c1 k1 Cons(3) in simp_all)
  have lp: "loop g s = do { s' \<leftarrow> f q s; loop g1 s' }" by (subst loop) (simp add: p r)
  show ?case
  proof (cases "f q s")
    case None
    obtain g' where "chain g' = (chain g1)(idx := [])" "\<forall>k. known k g' = known k g1" "kept g' = kept g1"
      using IH[of s] by blast
    with None lp c1 k1 pop_kept[OF p] show ?thesis by (intro exI[of _ g']) (simp flip: Cons(2))
  next
    case (Some s')
    obtain g' where "chain g' = (chain g1)(idx := [])" "\<forall>k. known k g' = known k g1" "kept g' = kept g1"
      "loop g1 s' = map_option (\<lambda>t. (g', t)) (foldM f (chain g1 idx) s')"
      using IH[of s'] by blast
    with Some lp c1 k1 pop_kept[OF p] show ?thesis by (intro exI[of _ g']) (simp flip: Cons(2))
  qed
qed

end

definition dg_producers :: "dep_graph \<Rightarrow> iptr option list" where
  "dg_producers g = map producer (dependGraph g)"

interpretation dg: wait_chains dg_pop waiting "\<lambda>i g. i < registers g" dg_producers
proof
  show "idx < registers g \<Longrightarrow> dg_pop idx g \<noteq> None" for idx g
    by (auto simp: dg_pop_def registers_def split: list.splits)
qed (auto simp: dg_pop_waiting dg_producers_def)

end
