(* ===== verification/Inst_Queue.thy ===== *)
theory Inst_Queue
  imports Mem_Dep Dep_Graph Fu_Pool Rename_Map
begin

text \<open>
  The instruction queue (\<^verbatim>\<open>src/cpu/o3/inst_queue.hh\<close>, \<^verbatim>\<open>inst_queue_impl.hh\<close>):
  insertion, wake-up with the DOLMA taint, scheduling with the DOLMA stalls and evictions, and
  squashing. The queue shares the instruction heap with the other components; the reorder buffer is
  an argument of the scheduler. Statistics are left out. The events that the queue schedules for
  operations of several cycles are a list in its state.
\<close>

section \<open>State\<close>

record fu_completion =
  fuc_inst :: iptr
  fuc_fuIdx :: int
  fuc_freeFU :: bool
  fuc_delay :: "64 word"

record inst_queue =
  iq_instList :: "thread_id \<Rightarrow> iptr list"
  instsToExecute :: "iptr list"
  deferredMemInsts :: "iptr list"
  blockedMemInsts :: "iptr list"
  dolmaStalledInsts :: "iptr list"
  retryMemInsts :: "iptr list"
  nonSpecInsts :: "inst_seq_num \<Rightarrow> iptr option"
  iq_ready :: ready_state
  iq_graph :: dep_graph
  memDepUnit :: "thread_id \<Rightarrow> mem_dep_unit"
  fuPool :: fu_pool
  iqPolicy :: rob_policy
  iq_numThreads :: nat
  iq_activeThreads :: "thread_id list"
  iq_count :: "thread_id \<Rightarrow> 32 word"
  iq_maxEntries :: "thread_id \<Rightarrow> 32 word"
  freeEntries :: "32 word"
  iq_numEntries :: "32 word"
  totalWidth :: "32 word"
  wbOutstanding :: int
  iq_squashedSeqNum :: "thread_id \<Rightarrow> inst_seq_num"
  regScoreboard :: "bool list"
  producerInst :: "iptr option list"
  i2e_size :: int
  i2e_prev_size :: int
  completions :: "fu_completion list"
  iq_activity :: bool

type_synonym iq_state = "inst_heap \<times> inst_queue"

definition iq_resetState :: "inst_queue \<Rightarrow> inst_queue" where
  "iq_resetState q = q\<lparr>
     iq_count := (\<lambda>t. if t < iq_numThreads q then 0 else iq_count q t),
     iq_instList := (\<lambda>t. if t < iq_numThreads q then [] else iq_instList q t),
     freeEntries := iq_numEntries q,
     regScoreboard := map (\<lambda>_. False) (regScoreboard q),
     iq_squashedSeqNum := (\<lambda>t. if t < iq_numThreads q then 0 else iq_squashedSeqNum q t),
     iq_ready := (iq_ready q)\<lparr>readyInsts := (\<lambda>_. []), queueOnList := (\<lambda>_. False), readyIt := (\<lambda>_. None),
       listOrder := []\<rparr>,
     nonSpecInsts := (\<lambda>_. None), deferredMemInsts := [], blockedMemInsts := [], retryMemInsts := [],
     dolmaStalledInsts := [], wbOutstanding := 0\<rparr>"

definition iq_entryAmount :: "nat \<Rightarrow> inst_queue \<Rightarrow> 32 word" where
  "iq_entryAmount num_threads q =
     (if iqPolicy q = Partitioned then iq_numEntries q div of_nat num_threads else 0)"

definition iq_resetEntries :: "inst_queue \<Rightarrow> inst_queue" where
  "iq_resetEntries q =
     (if iqPolicy q \<noteq> Dynamic \<or> iq_numThreads q > 1 then
        let active = length (iq_activeThreads q) in
        fold (\<lambda>t q. if iqPolicy q = Partitioned then
                      q\<lparr>iq_maxEntries := (iq_maxEntries q)(t := iq_numEntries q div of_nat active)\<rparr>
                    else if iqPolicy q = Threshold \<and> active = 1 then
                      q\<lparr>iq_maxEntries := (iq_maxEntries q)(t := iq_numEntries q)\<rparr>
                    else q)
          (iq_activeThreads q) q
      else q)"

definition iq_numFreeEntries_tid :: "thread_id \<Rightarrow> inst_queue \<Rightarrow> 32 word" where
  "iq_numFreeEntries_tid tid q = iq_maxEntries q tid - iq_count q tid"

definition iq_isFull :: "inst_queue \<Rightarrow> bool" where
  "iq_isFull q \<longleftrightarrow> freeEntries q = 0"

definition iq_isFull_tid :: "thread_id \<Rightarrow> inst_queue \<Rightarrow> bool" where
  "iq_isFull_tid tid q \<longleftrightarrow> iq_numFreeEntries_tid tid q = 0"

definition iq_countInsts :: "inst_queue \<Rightarrow> 32 word" where
  "iq_countInsts q = iq_numEntries q - freeEntries q"

definition iq_hasReadyInsts :: "inst_queue \<Rightarrow> bool" where
  "iq_hasReadyInsts q = hasReadyInsts (iq_ready q)"

section \<open>Dependences through registers\<close>

text \<open>
  The DOLMA taint of an instruction \<open>i\<close> by a producer: the youngest data inducer is recorded
  and the instruction is restricted.
\<close>

definition taint_by :: "dolma_cpu \<Rightarrow> dyn_inst \<Rightarrow> dyn_inst \<Rightarrow> dyn_inst option" where
  "taint_by c prd i = do {
     let new_ydi = (if isDataInducer prd then seqNum prd else ydi prd);
     let i1 = (if ydi i = 0 \<or> ydi i < new_ydi then i\<lparr>ydi := new_ydi\<rparr> else i);
     (if \<not> isDataRestricted i1 then setDataRestricted c i1 else Some i1) }"

definition addToDependent ::
  "dolma_cpu \<Rightarrow> iptr \<Rightarrow> nat \<Rightarrow> bool \<times> iq_state \<Rightarrow> (bool \<times> iq_state) option" where
  "addToDependent c p src_reg_idx = (\<lambda>(ret, h, q).
     if src_reg_idx \<in> readySrcRegIdx (h p) then Some (ret, h, q)
     else do {
       let src_reg = srcRegIdx (h p) src_reg_idx;
       check (\<not> isZeroReg src_reg);
       (if isFixedMapping src_reg then Some (ret, h, q)
        else do {
          ready \<leftarrow> vec_get (regScoreboard q) (flatIndex src_reg);
          (if \<not> ready then do {
             g \<leftarrow> dg_insert (flatIndex src_reg) p (iq_graph q);
             Some (True, h, q\<lparr>iq_graph := g\<rparr>) }
           else do {
             i1 \<leftarrow> markSrcRegReady_idx src_reg_idx (h p);
             prd \<leftarrow> vec_get (producerInst q) (flatIndex src_reg);
             w \<leftarrow> prd;
             let h1 = h(p := i1);
             (if threadNumber (h1 w) = threadNumber i1 \<and> (isDataInducer (h1 w) \<or> isDataRestricted (h1 w)) then do {
                check (\<not> isCommitted (h1 w));
                i2 \<leftarrow> taint_by c (h1 w) i1;
                Some (ret, h1(p := i2), q) }
              else Some (ret, h1, q)) }) }) })"

definition addToDependents :: "dolma_cpu \<Rightarrow> iptr \<Rightarrow> iq_state \<Rightarrow> (bool \<times> iq_state) option" where
  "addToDependents c p = (\<lambda>(h, q).
     foldM (addToDependent c p) [0..<nat (numSrcRegs (h p))] (False, h, q))"

definition addToProducer :: "inst_heap \<Rightarrow> iptr \<Rightarrow> nat \<Rightarrow> inst_queue \<Rightarrow> inst_queue option" where
  "addToProducer h p dest_reg_idx q = do {
     let dest_reg = destRegIdx (h p) dest_reg_idx;
     (if isFixedMapping dest_reg then Some q
      else do {
        e \<leftarrow> dg_empty_at (flatIndex dest_reg) (iq_graph q);
        check e;
        g \<leftarrow> dg_setInst (flatIndex dest_reg) p (iq_graph q);
        sb \<leftarrow> vec_set (regScoreboard q) (flatIndex dest_reg) False;
        pr \<leftarrow> vec_set (producerInst q) (flatIndex dest_reg) (Some p);
        Some (q\<lparr>iq_graph := g, regScoreboard := sb, producerInst := pr\<rparr>) }) }"

definition addToProducers :: "inst_heap \<Rightarrow> iptr \<Rightarrow> inst_queue \<Rightarrow> inst_queue option" where
  "addToProducers h p q = foldM (addToProducer h p) [0..<nat (numDestRegs (h p))] q"

text \<open>
  A call of an operation of the thread's memory dependence unit that needs the ready queues.
\<close>

definition with_memdep :: "thread_id \<Rightarrow> (md_state \<Rightarrow> md_state option) \<Rightarrow> iq_state \<Rightarrow> iq_state option" where
  "with_memdep tid f = (\<lambda>(h, q). do {
     (h1, r1, m1) \<leftarrow> f (h, iq_ready q, memDepUnit q tid);
     Some (h1, q\<lparr>iq_ready := r1, memDepUnit := (memDepUnit q)(tid := m1)\<rparr>) })"

definition on_memdep ::
  "thread_id \<Rightarrow> (mem_dep_unit \<Rightarrow> mem_dep_unit option) \<Rightarrow> inst_queue \<Rightarrow> inst_queue option" where
  "on_memdep tid f q = do {
     m \<leftarrow> f (memDepUnit q tid);
     Some (q\<lparr>memDepUnit := (memDepUnit q)(tid := m)\<rparr>) }"

definition addIfReady :: "iptr \<Rightarrow> iq_state \<Rightarrow> iq_state option" where
  "addIfReady p = (\<lambda>(h, q).
     if readyToIssue (h p) then
       (if isMemRef (h p) then with_memdep (threadNumber (h p)) (md_regsReady p) (h, q)
        else do {
          r \<leftarrow> addReadyMemInst h p (iq_ready q);
          Some (h, q\<lparr>iq_ready := r\<rparr>) })
     else Some (h, q))"

section \<open>Insertion\<close>

text \<open>The bookkeeping shared by the insertions.\<close>

definition iq_enter :: "iptr \<Rightarrow> iq_state \<Rightarrow> iq_state option" where
  "iq_enter p = (\<lambda>(h, q). do {
     check (freeEntries q \<noteq> 0);
     let tid = threadNumber (h p);
     Some (h(p := set_status IqEntry (h p)),
           q\<lparr>iq_instList := (iq_instList q)(tid := iq_instList q tid @ [p]), freeEntries := freeEntries q - 1\<rparr>) })"

definition iq_count_in :: "thread_id \<Rightarrow> inst_queue \<Rightarrow> inst_queue option" where
  "iq_count_in tid q = do {
     let q1 = q\<lparr>iq_count := (iq_count q)(tid := iq_count q tid + 1)\<rparr>;
     check (freeEntries q1 = iq_numEntries q1 - iq_countInsts q1);
     Some q1 }"

definition iq_insert :: "dolma_cpu \<Rightarrow> iptr \<Rightarrow> iq_state \<Rightarrow> iq_state option" where
  "iq_insert c p s = do {
     (h1, q1) \<leftarrow> iq_enter p s;
     (_, h2, q2) \<leftarrow> addToDependents c p (h1, q1);
     q3 \<leftarrow> addToProducers h2 p q2;
     (h4, q4) \<leftarrow> (if isMemRef (h2 p) then with_memdep (threadNumber (h2 p)) (md_insert p) (h2, q3)
                  else addIfReady p (h2, q3));
     q5 \<leftarrow> iq_count_in (threadNumber (h4 p)) q4;
     Some (h4, q5) }"

definition iq_insertNonSpec :: "iptr \<Rightarrow> iq_state \<Rightarrow> iq_state option" where
  "iq_insertNonSpec p = (\<lambda>(h, q). do {
     (h1, q1) \<leftarrow> iq_enter p (h, q\<lparr>nonSpecInsts := (nonSpecInsts q)(seqNum (h p) := Some p)\<rparr>);
     q2 \<leftarrow> addToProducers h1 p q1;
     q3 \<leftarrow> (if isMemRef (h1 p) then on_memdep (threadNumber (h1 p)) (md_insertNonSpec p h1) q2 else Some q2);
     q4 \<leftarrow> iq_count_in (threadNumber (h1 p)) q3;
     Some (h1, q4) })"

definition iq_insertBarrier :: "iptr \<Rightarrow> iq_state \<Rightarrow> iq_state option" where
  "iq_insertBarrier p = (\<lambda>(h, q). do {
     q1 \<leftarrow> on_memdep (threadNumber (h p)) (\<lambda>m. Some (md_insertBarrier p h m)) q;
     iq_insertNonSpec p (h, q1) })"

section \<open>Lists of delayed instructions\<close>

definition getInstToExecute :: "inst_queue \<Rightarrow> (iptr \<times> inst_queue) option" where
  "getInstToExecute q = (case instsToExecute q of [] \<Rightarrow> None | p # ps \<Rightarrow> Some (p, q\<lparr>instsToExecute := ps\<rparr>))"

definition clear_translation :: "dyn_inst \<Rightarrow> dyn_inst" where
  "clear_translation i = set_flag TranslationCompleted False (set_flag TranslationStarted False i)"

definition rescheduleMemInst :: "iptr \<Rightarrow> iq_state \<Rightarrow> iq_state option" where
  "rescheduleMemInst p = (\<lambda>(h, q). do {
     let i = reset_status CanIssue (clear_translation (h p));
     q1 \<leftarrow> on_memdep (threadNumber i) (\<lambda>m. Some (md_reschedule p m)) q;
     Some (h(p := i), q1) })"

definition replayMemInst :: "iptr \<Rightarrow> iq_state \<Rightarrow> iq_state option" where
  "replayMemInst p = (\<lambda>(h, q). with_memdep (threadNumber (h p)) md_replay (h, q))"

definition completeMemInst :: "iptr \<Rightarrow> iq_state \<Rightarrow> iq_state option" where
  "completeMemInst p = (\<lambda>(h, q). do {
     let tid = threadNumber (h p);
     let i = set_flag MemOpDone True (reset_status IqEntry (h p));
     q1 \<leftarrow> on_memdep tid (md_completed p (h(p := i))) (q\<lparr>freeEntries := freeEntries q + 1\<rparr>);
     Some (h(p := i), q1\<lparr>iq_count := (iq_count q1)(tid := iq_count q1 tid - 1)\<rparr>) })"

definition deferMemInst :: "iptr \<Rightarrow> inst_queue \<Rightarrow> inst_queue" where
  "deferMemInst p q = q\<lparr>deferredMemInsts := deferredMemInsts q @ [p]\<rparr>"

definition blockMemInst :: "iptr \<Rightarrow> iq_state \<Rightarrow> iq_state" where
  "blockMemInst p = (\<lambda>(h, q).
     (h(p := reset_status CanIssue (reset_status Issued (clear_translation (h p)))),
      q\<lparr>blockedMemInsts := blockedMemInsts q @ [p]\<rparr>))"

definition dolmaStallInst :: "iptr \<Rightarrow> iq_state \<Rightarrow> iq_state option" where
  "dolmaStallInst p = (\<lambda>(h, q). do {
     check (isDolmaStalled (h p));
     check (list_all (\<lambda>s. seqNum (h p) \<noteq> seqNum (h s)) (dolmaStalledInsts q));
     Some (h(p := reset_status Issued (clear_translation (h p))),
           q\<lparr>dolmaStalledInsts := dolmaStalledInsts q @ [p]\<rparr>) })"

definition cacheUnblocked :: "inst_queue \<Rightarrow> inst_queue" where
  "cacheUnblocked q = q\<lparr>retryMemInsts := retryMemInsts q @ blockedMemInsts q, blockedMemInsts := []\<rparr>"

text \<open>\<^verbatim>\<open>std::list::erase\<close> at the first element that satisfies a condition.\<close>

fun extract_first :: "('a \<Rightarrow> bool) \<Rightarrow> 'a list \<Rightarrow> ('a \<times> 'a list) option" where
  "extract_first P [] = None"
| "extract_first P (x # xs) = (if P x then Some (x, xs) else map_option (\<lambda>(y, ys). (y, x # ys)) (extract_first P xs))"

definition getDeferredMemInstToExecute :: "inst_heap \<Rightarrow> inst_queue \<Rightarrow> (iptr \<times> inst_queue) option" where
  "getDeferredMemInstToExecute h q =
     map_option (\<lambda>(p, ps). (p, q\<lparr>deferredMemInsts := ps\<rparr>))
       (extract_first (\<lambda>p. translationCompleted (h p) \<or> isSquashed (h p)) (deferredMemInsts q))"

text \<open>The oldest of the instructions that are no longer stalled.\<close>

definition oldest_released :: "inst_heap \<Rightarrow> iptr list \<Rightarrow> iptr option" where
  "oldest_released h l =
     fold (\<lambda>p old. if \<not> isDolmaStalled (h p) then
                     (case old of None \<Rightarrow> Some p
                      | Some o1 \<Rightarrow> if seqNum (h p) < seqNum (h o1) then Some p else Some o1)
                   else old) l None"

definition getDolmaStalledInstToExecute :: "inst_heap \<Rightarrow> inst_queue \<Rightarrow> (iptr \<times> inst_queue) option" where
  "getDolmaStalledInstToExecute h q =
     (case oldest_released h (dolmaStalledInsts q) of
        None \<Rightarrow> None
      | Some p \<Rightarrow> Some (p, q\<lparr>dolmaStalledInsts :=
          (case extract_first (\<lambda>s. seqNum (h s) = seqNum (h p)) (dolmaStalledInsts q) of
             None \<Rightarrow> dolmaStalledInsts q | Some (_, l) \<Rightarrow> l)\<rparr>))"

definition getBlockedMemInstToExecute :: "inst_queue \<Rightarrow> (iptr \<times> inst_queue) option" where
  "getBlockedMemInstToExecute q = (case retryMemInsts q of [] \<Rightarrow> None | p # ps \<Rightarrow> Some (p, q\<lparr>retryMemInsts := ps\<rparr>))"

definition iq_violation :: "thread_id \<Rightarrow> addr \<Rightarrow> addr \<Rightarrow> inst_queue \<Rightarrow> inst_queue option" where
  "iq_violation tid store_PC load_PC q = on_memdep tid (md_violation store_PC load_PC) q"

section \<open>Wake-up\<close>

text \<open>
  The data inducer marking of a completing load: conservative mode, a pending memory order
  violation, and an unresolved older branch in memory-only mode. The search for the branch ends
  at the load itself, which must be in the list.
\<close>

fun control_inducer_before :: "inst_heap \<Rightarrow> iptr \<Rightarrow> iptr list \<Rightarrow> bool option" where
  "control_inducer_before h p [] = None"
| "control_inducer_before h p (q # qs) =
     (if q = p then Some False else if isControlInducer (h q) then Some True else control_inducer_before h p qs)"

definition mark_inducer :: "dolma_cpu \<Rightarrow> iptr \<Rightarrow> iq_state \<Rightarrow> inst_heap option" where
  "mark_inducer c p = (\<lambda>(h, q).
     if isDolma c \<and> \<not> isControl (h p) \<and> \<not> isDataInducer (h p) \<and> isLoad (h p) then
       (if isDolmaConservative c \<or> (\<not> isSTT c \<and> isPendingMemOrder (h p)) then
          map_option (\<lambda>i. h(p := i)) (setDataInducer c (h p))
        else if isDolmaMemOnly c then do {
          b \<leftarrow> control_inducer_before h p (iq_instList q (threadNumber (h p)));
          (if b then map_option (\<lambda>i. h(p := i)) (setDataInducer c (h p)) else Some h) }
        else Some h)
     else Some h)"

text \<open>One dependent: the taint, the register, the ready queue.\<close>

definition wake_one :: "dolma_cpu \<Rightarrow> bool \<Rightarrow> iptr \<Rightarrow> phys_reg_id \<Rightarrow> iptr \<Rightarrow> nat \<times> iq_state \<Rightarrow> (nat \<times> iq_state) option" where
  "wake_one c restricted p dest_reg d = (\<lambda>(n, h, q). do {
     check (\<not> isZeroReg dest_reg);
     check (\<not> isFixedMapping dest_reg);
     check (d \<noteq> p);
     check (threadNumber (h d) = threadNumber (h p));
     i1 \<leftarrow> (if restricted then taint_by c (h p) (h d) else Some (h d));
     i2 \<leftarrow> markSrcRegReady i1;
     s \<leftarrow> addIfReady d (h(d := i2), q);
     Some (Suc n, s) })"

partial_function (option) wake_loop ::
  "dolma_cpu \<Rightarrow> bool \<Rightarrow> iptr \<Rightarrow> phys_reg_id \<Rightarrow> dep_graph \<Rightarrow> nat \<times> iq_state \<Rightarrow> (dep_graph \<times> nat \<times> iq_state) option" where
  "wake_loop c restricted p dest_reg g s = do {
     (r, g1) \<leftarrow> dg_pop (flatIndex dest_reg) g;
     (case r of
        None \<Rightarrow> Some (g1, s)
      | Some d \<Rightarrow> do { s1 \<leftarrow> wake_one c restricted p dest_reg d s; wake_loop c restricted p dest_reg g1 s1 }) }"

definition wake_register :: "dolma_cpu \<Rightarrow> bool \<Rightarrow> iptr \<Rightarrow> nat \<Rightarrow> nat \<times> iq_state \<Rightarrow> (nat \<times> iq_state) option" where
  "wake_register c restricted p dest_reg_idx = (\<lambda>(n, h, q). do {
     let dest_reg = destRegIdx (h p) dest_reg_idx;
     (if isFixedMapping dest_reg then Some (n, h, q)
      else do {
        (g1, n1, h1, q1) \<leftarrow> wake_loop c restricted p dest_reg (iq_graph q) (n, h, q);
        e \<leftarrow> dg_empty_at (flatIndex dest_reg) g1;
        check e;
        g2 \<leftarrow> dg_clearInst (flatIndex dest_reg) g1;
        sb \<leftarrow> vec_set (regScoreboard q1) (flatIndex dest_reg) True;
        Some (n1, h1, q1\<lparr>iq_graph := g2, regScoreboard := sb\<rparr>) }) })"

definition wakeDependentInstructions :: "dolma_cpu \<Rightarrow> iptr \<Rightarrow> iq_state \<Rightarrow> (nat \<times> iq_state) option" where
  "wakeDependentInstructions c p = (\<lambda>(h, q). do {
     h1 \<leftarrow> mark_inducer c p (h, q);
     let restricted = (isDataInducer (h1 p) \<or> isDataRestricted (h1 p));
     foldM (wake_register c restricted p) [0..<nat (numDestRegs (h1 p))] (0, h1, q) })"

definition iq_wakeDependents :: "dolma_cpu \<Rightarrow> iptr \<Rightarrow> iq_state \<Rightarrow> (nat \<times> iq_state) option" where
  "iq_wakeDependents c p = (\<lambda>(h, q). do {
     check (\<not> isSquashed (h p));
     check (\<not> isDolmaStalled (h p));
     s \<leftarrow> (if isMemRef (h p) then do {
              s1 \<leftarrow> with_memdep (threadNumber (h p)) (md_wakeDependents p) (h, q);
              completeMemInst p s1 }
            else if isMemBarrier (h p) \<or> isWriteBarrier (h p)
              then with_memdep (threadNumber (h p)) (md_completeBarrier p) (h, q)
            else Some (h, q));
     wakeDependentInstructions c p s })"

section \<open>Scheduling\<close>

text \<open>The three loops that move released instructions back to the ready queues.\<close>

partial_function (option) release_loop ::
  "(inst_heap \<Rightarrow> inst_queue \<Rightarrow> (iptr \<times> inst_queue) option) \<Rightarrow> inst_heap \<Rightarrow> inst_queue \<Rightarrow> inst_queue option" where
  "release_loop get h q =
     (case get h q of
        None \<Rightarrow> Some q
      | Some (p, q1) \<Rightarrow> do {
          r \<leftarrow> addReadyMemInst h p (iq_ready q1);
          release_loop get h (q1\<lparr>iq_ready := r\<rparr>) })"

text \<open>
  Unsafe contention: no unit is free, so the units of the class are searched for one that is held
  by a younger restricted instruction of the thread, which is stalled and loses the unit.
\<close>

definition set_busy :: "nat \<Rightarrow> inst_seq_num \<Rightarrow> inst_queue \<Rightarrow> inst_queue option" where
  "set_busy fu_idx sn q = do {
     b \<leftarrow> vec_set (unitBusy (fuPool q)) fu_idx sn;
     Some (q\<lparr>fuPool := (fuPool q)\<lparr>unitBusy := b\<rparr>\<rparr>) }"

definition next_unit :: "op_class \<Rightarrow> inst_queue \<Rightarrow> (nat \<times> inst_queue) option" where
  "next_unit op_class q = do {
     (fu_idx, l) \<leftarrow> getFU (fuPerCapList (fuPool q) op_class);
     Some (fu_idx, q\<lparr>fuPool := (fuPool q)\<lparr>fuPerCapList := (fuPerCapList (fuPool q))(op_class := l)\<rparr>\<rparr>) }"

definition evictable :: "inst_heap \<Rightarrow> iptr \<Rightarrow> iptr option \<Rightarrow> bool" where
  "evictable h p occ =
     (case occ of None \<Rightarrow> False | Some o1 \<Rightarrow> isDolmaRestricted (h o1) \<and> seqNum (h o1) > seqNum (h p))"

definition evict :: "dolma_cpu \<Rightarrow> iptr \<Rightarrow> iptr \<Rightarrow> nat \<Rightarrow> iq_state \<Rightarrow> iq_state option" where
  "evict c p o1 fu_idx = (\<lambda>(h, q). do {
     (h1, q1) \<leftarrow> (if \<not> isDolmaStalled (h o1) then do {
                     i \<leftarrow> setDolmaStalled c (h o1);
                     dolmaStallInst o1 (h(o1 := i), q) }
                   else Some (h, q));
     q2 \<leftarrow> set_busy fu_idx (seqNum (h1 p)) q1;
     Some (h1, q2) })"

partial_function (option) evict_loop ::
  "dolma_cpu \<Rightarrow> rob \<Rightarrow> iptr \<Rightarrow> op_class \<Rightarrow> nat \<Rightarrow> nat \<Rightarrow> inst_heap \<Rightarrow> inst_queue \<Rightarrow> (int \<times> iq_state) option" where
  "evict_loop c rob p op_class start_idx fu_idx h q = do {
     busy \<leftarrow> vec_get (unitBusy (fuPool q)) fu_idx;
     check (busy \<noteq> 0);
     let occ = findInst rob h (threadNumber (h p)) busy;
     (if evictable h p occ then do {
        s \<leftarrow> evict c p (the occ) fu_idx (h, q);
        Some (int fu_idx, s) }
      else do {
        (fu_idx1, q1) \<leftarrow> next_unit op_class q;
        (if fu_idx1 = start_idx then Some (-1, h, q1)
         else evict_loop c rob p op_class start_idx fu_idx1 h q1) }) }"

text \<open>The unit for an instruction of a class that needs one.\<close>

definition acquire_unit ::
  "dolma_cpu \<Rightarrow> rob \<Rightarrow> iptr \<Rightarrow> op_class \<Rightarrow> iq_state \<Rightarrow> (int \<times> iq_state) option" where
  "acquire_unit c rob p op_class = (\<lambda>(h, q). do {
     (idx, fp) \<leftarrow> getUnit op_class (seqNum (h p)) (fuPool q);
     let q1 = q\<lparr>fuPool := fp\<rparr>;
     (if isDolma c \<and> \<not> isSTT c \<and> idx = -1 then do {
        (fu_idx, q2) \<leftarrow> next_unit op_class q1;
        evict_loop c rob p op_class fu_idx fu_idx h q2 }
      else Some (idx, h, q1)) })"

definition free_next_cycle :: "nat \<Rightarrow> inst_queue \<Rightarrow> inst_queue option" where
  "free_next_cycle fu_idx q = do {
     fp \<leftarrow> freeUnitNextCycle fu_idx (fuPool q);
     Some (q\<lparr>fuPool := fp\<rparr>) }"

definition start_execution :: "iptr \<Rightarrow> int \<Rightarrow> op_class \<Rightarrow> nat \<Rightarrow> inst_queue \<Rightarrow> inst_queue option" where
  "start_execution p idx op_class op_latency q =
     (if op_latency = 1 then
        (let q1 = q\<lparr>i2e_size := i2e_size q + 1, instsToExecute := instsToExecute q @ [p]\<rparr>
         in if idx \<ge> 0 then free_next_cycle (nat idx) q1 else Some q1)
      else
        (let piped = isPipelined op_class (fuPool q);
             q1 = q\<lparr>wbOutstanding := wbOutstanding q + 1,
                    completions := completions q @
                      [\<lparr>fuc_inst = p, fuc_fuIdx = idx, fuc_freeFU = \<not> piped, fuc_delay = of_nat op_latency - 1\<rparr>]\<rparr>
         in if \<not> piped then Some q1 else do { check (idx \<ge> 0); free_next_cycle (nat idx) q1 }))"

definition leave_queue :: "iptr \<Rightarrow> iq_state \<Rightarrow> iq_state option" where
  "leave_queue p = (\<lambda>(h, q).
     (let tid = threadNumber (h p); i = set_status Issued (h p) in
      if \<not> isMemRef i then
        Some (h(p := reset_status IqEntry i),
              q\<lparr>freeEntries := freeEntries q + 1, iq_count := (iq_count q)(tid := iq_count q tid - 1)\<rparr>)
      else do {
        q1 \<leftarrow> on_memdep tid (md_issue p (h(p := i))) q;
        Some (h(p := i), q1) }))"

text \<open>
  One turn of the scheduling loop: whether an instruction was issued, and the next position in the
  order list. In the branch that stalls a restricted load under STT the iterator is advanced by the
  \<^verbatim>\<open>erase\<close> and once more; the increment of \<^verbatim>\<open>end()\<close> fails.
\<close>

definition stall_load ::
  "dolma_cpu \<Rightarrow> nat \<Rightarrow> op_class \<Rightarrow> iptr \<Rightarrow> iq_state \<Rightarrow> (bool \<times> nat option \<times> iq_state) option" where
  "stall_load c order_it op_class p = (\<lambda>(h, q). do {
     check (\<not> isDolmaStalled (h p));
     (nxt, r) \<leftarrow> take_top order_it op_class h (iq_ready q);
     i \<leftarrow> setDolmaStalled c (h p);
     s \<leftarrow> dolmaStallInst p (h(p := i), q\<lparr>iq_ready := r\<rparr>);
     n \<leftarrow> nxt;
     nxt2 \<leftarrow> next_it n (listOrder r);
     Some (False, nxt2, s) })"

definition drop_squashed ::
  "nat \<Rightarrow> op_class \<Rightarrow> iq_state \<Rightarrow> (bool \<times> nat option \<times> iq_state) option" where
  "drop_squashed order_it op_class = (\<lambda>(h, q). do {
     (nxt, r) \<leftarrow> take_top order_it op_class h (iq_ready q);
     Some (False, nxt, h, q\<lparr>iq_ready := r\<rparr>) })"

definition issue_top ::
  "dolma_cpu \<Rightarrow> rob \<Rightarrow> nat \<Rightarrow> op_class \<Rightarrow> iptr \<Rightarrow> iq_state \<Rightarrow> (bool \<times> nat option \<times> iq_state) option" where
  "issue_top c rob order_it op_class p s = do {
     (idx, h1, q1) \<leftarrow> (if op_class \<noteq> No_OpClass then acquire_unit c rob p op_class s else Some (-2, s));
     let op_latency = (if op_class \<noteq> No_OpClass \<and> idx > -1 then getOpLatency op_class (fuPool q1) else 1);
     (if idx \<noteq> -1 then do {
        q2 \<leftarrow> start_execution p idx op_class op_latency q1;
        (nxt, r) \<leftarrow> take_top order_it op_class h1 (iq_ready q2);
        s3 \<leftarrow> leave_queue p (h1, q2\<lparr>iq_ready := r\<rparr>);
        Some (True, nxt, s3) }
      else do {
        nxt \<leftarrow> next_it order_it (listOrder (iq_ready q1));
        Some (False, nxt, h1, q1) }) }"

definition schedule_one ::
  "dolma_cpu \<Rightarrow> rob \<Rightarrow> nat \<Rightarrow> iq_state \<Rightarrow> (bool \<times> nat option \<times> iq_state) option" where
  "schedule_one c rob order_it = (\<lambda>(h, q). do {
     e \<leftarrow> deref order_it (listOrder (iq_ready q));
     let op_class = queueType e;
     p \<leftarrow> pq_top (readyInsts (iq_ready q) op_class);
     (if isSTT c \<and> isDolmaRestricted (h p) \<and> isLoad (h p) then stall_load c order_it op_class p (h, q)
      else if isSquashed (h p) then drop_squashed order_it op_class (h, q)
      else issue_top c rob order_it op_class p (h, q)) })"

partial_function (option) schedule_loop ::
  "dolma_cpu \<Rightarrow> rob \<Rightarrow> nat \<Rightarrow> nat option \<Rightarrow> inst_heap \<Rightarrow> inst_queue \<Rightarrow> (nat \<times> iq_state) option" where
  "schedule_loop c rob total_issued order_it h q =
     (if total_issued < unat (totalWidth q) then
        (case order_it of
           None \<Rightarrow> Some (total_issued, h, q)
         | Some it \<Rightarrow> do {
             (was_issued, nxt, h1, q1) \<leftarrow> schedule_one c rob it (h, q);
             schedule_loop c rob (if was_issued then Suc total_issued else total_issued) nxt h1 q1 })
      else Some (total_issued, h, q))"

definition scheduleReadyInsts :: "dolma_cpu \<Rightarrow> rob \<Rightarrow> iq_state \<Rightarrow> iq_state option" where
  "scheduleReadyInsts c rob = (\<lambda>(h, q). do {
     q1 \<leftarrow> release_loop getDolmaStalledInstToExecute h q;
     q2 \<leftarrow> release_loop getDeferredMemInstToExecute h q1;
     q3 \<leftarrow> release_loop (\<lambda>_. getBlockedMemInstToExecute) h q2;
     (total_issued, h4, q4) \<leftarrow> schedule_loop c rob 0 (first_node (listOrder (iq_ready q3))) h q3;
     Some (h4, if total_issued \<noteq> 0 \<or> retryMemInsts q4 \<noteq> [] \<or> deferredMemInsts q4 \<noteq> [] \<or> dolmaStalledInsts q4 \<noteq> []
               then q4\<lparr>iq_activity := True\<rparr> else q4) })"

definition processFUCompletion :: "iptr \<Rightarrow> int \<Rightarrow> inst_queue \<Rightarrow> inst_queue option" where
  "processFUCompletion p fu_idx q = do {
     let q1 = q\<lparr>wbOutstanding := wbOutstanding q - 1\<rparr>;
     q2 \<leftarrow> (if fu_idx > -1 then free_next_cycle (nat fu_idx) q1 else Some q1);
     Some (q2\<lparr>i2e_prev_size := i2e_prev_size q2 + 1, instsToExecute := instsToExecute q2 @ [p]\<rparr>) }"

definition completion_process :: "fu_completion \<Rightarrow> inst_queue \<Rightarrow> inst_queue option" where
  "completion_process e q = processFUCompletion (fuc_inst e) (if fuc_freeFU e then fuc_fuIdx e else -1) q"

definition scheduleNonSpec :: "inst_seq_num \<Rightarrow> iq_state \<Rightarrow> iq_state option" where
  "scheduleNonSpec sn = (\<lambda>(h, q). do {
     p \<leftarrow> nonSpecInsts q sn;
     let h1 = h(p := set_status CanIssue (set_status AtCommit (h p)));
     (h2, q2) \<leftarrow> (if \<not> isMemRef (h1 p) then addIfReady p (h1, q)
                  else with_memdep (threadNumber (h1 p)) (md_nonSpecInstReady p) (h1, q));
     Some (h2, q2\<lparr>nonSpecInsts := (nonSpecInsts q2)(sn := None)\<rparr>) })"

definition iq_commit :: "inst_seq_num \<Rightarrow> thread_id \<Rightarrow> inst_heap \<Rightarrow> inst_queue \<Rightarrow> inst_queue option" where
  "iq_commit sn tid h q = do {
     let q1 = q\<lparr>iq_instList := (iq_instList q)(tid := dropWhile (\<lambda>p. seqNum (h p) \<le> sn) (iq_instList q tid))\<rparr>;
     check (freeEntries q1 = iq_numEntries q1 - iq_countInsts q1);
     Some q1 }"

section \<open>Squashing\<close>

definition remove_source :: "iptr \<Rightarrow> nat \<Rightarrow> iq_state \<Rightarrow> iq_state option" where
  "remove_source p src_reg_idx = (\<lambda>(h, q).
     (let src_reg = srcRegIdx (h p) src_reg_idx in
      if src_reg_idx \<notin> readySrcRegIdx (h p) \<and> \<not> isFixedMapping src_reg then do {
        g \<leftarrow> dg_remove (flatIndex src_reg) p (iq_graph q);
        Some (h, q\<lparr>iq_graph := g\<rparr>) }
      else Some (h, q)))"

definition clear_dest :: "iptr \<Rightarrow> nat \<Rightarrow> iq_state \<Rightarrow> iq_state option" where
  "clear_dest p dest_reg_idx = (\<lambda>(h, q).
     (let dest_reg = destRegIdx (h p) dest_reg_idx in
      if isFixedMapping dest_reg then Some (h, q)
      else do {
        e \<leftarrow> dg_empty_at (flatIndex dest_reg) (iq_graph q);
        check e;
        g \<leftarrow> dg_clearInst (flatIndex dest_reg) (iq_graph q);
        Some (h, q\<lparr>iq_graph := g\<rparr>) }))"

definition waits_on_registers :: "dyn_inst \<Rightarrow> bool" where
  "waits_on_registers i \<longleftrightarrow>
     (isMemBarrier i \<and> (isLoad i \<or> (isStore i \<and> \<not> isStoreConditional i))) \<or>
     (\<not> isNonSpeculative i \<and> \<not> isStoreConditional i \<and> \<not> isMemBarrier i \<and> \<not> isWriteBarrier i)"

definition forget_waiting :: "iptr \<Rightarrow> iq_state \<Rightarrow> iq_state option" where
  "forget_waiting p = (\<lambda>(h, q).
     if waits_on_registers (h p) then foldM (remove_source p) [0..<nat (numSrcRegs (h p))] (h, q)
     else if \<not> isStoreConditional (h p) \<or> \<not> isCompleted (h p) then
       (case nonSpecInsts q (seqNum (h p)) of
          None \<Rightarrow> do { check (fault (h p) \<noteq> NoFault \<or> isMemRef (h p)); Some (h, q) }
        | Some _ \<Rightarrow> Some (h, q\<lparr>nonSpecInsts := (nonSpecInsts q)(seqNum (h p) := None)\<rparr>))
     else Some (h, q))"

definition squash_waiting :: "iptr \<Rightarrow> iq_state \<Rightarrow> iq_state option" where
  "squash_waiting p s = do {
     (h, q) \<leftarrow> forget_waiting p s;
     i \<leftarrow> setCanCommit (set_status Issued (setSquashedInIQ (h p)));
     let tid = threadNumber (h p);
     Some (h(p := reset_status IqEntry i),
           q\<lparr>iq_count := (iq_count q)(tid := iq_count q tid - 1), freeEntries := freeEntries q + 1\<rparr>) }"

definition iq_squash_inst :: "iptr \<Rightarrow> iq_state \<Rightarrow> iq_state option" where
  "iq_squash_inst p = (\<lambda>(h, q). do {
     (h1, q1) \<leftarrow> (if \<not> isIssued (h p) \<or> (isMemRef (h p) \<and> \<not> memOpDone (h p)) then squash_waiting p (h, q)
                  else Some (h, q));
     foldM (clear_dest p) [0..<nat (numDestRegs (h1 p))] (h1, q1) })"

text \<open>
  The loop from the tail of the list: instructions already squashed are passed over and stay in
  the list, the others are removed from it.
\<close>

fun iq_squash_loop ::
  "thread_id \<Rightarrow> inst_seq_num \<Rightarrow> iptr list \<Rightarrow> iptr list \<Rightarrow> iq_state \<Rightarrow> (iptr list \<times> iq_state) option" where
  "iq_squash_loop tid sn [] kept s = Some (kept, s)"
| "iq_squash_loop tid sn (p # ps) kept (h, q) =
     (if seqNum (h p) > sn then
        (if threadNumber (h p) \<noteq> tid \<or> isSquashedInIQ (h p) then iq_squash_loop tid sn ps (p # kept) (h, q)
         else do { s \<leftarrow> iq_squash_inst p (h, q); iq_squash_loop tid sn ps kept s })
      else Some (rev ps @ p # kept, h, q))"

definition iq_doSquash :: "thread_id \<Rightarrow> iq_state \<Rightarrow> iq_state option" where
  "iq_doSquash tid = (\<lambda>(h, q). do {
     (l, h1, q1) \<leftarrow> iq_squash_loop tid (iq_squashedSeqNum q tid) (rev (iq_instList q tid)) [] (h, q);
     Some (h1, q1\<lparr>iq_instList := (iq_instList q1)(tid := l)\<rparr>) })"

definition iq_squash :: "thread_id \<Rightarrow> inst_seq_num \<Rightarrow> iq_state \<Rightarrow> iq_state option" where
  "iq_squash tid doneSeqNum = (\<lambda>(h, q). do {
     (h1, q1) \<leftarrow> iq_doSquash tid (h, q\<lparr>iq_squashedSeqNum := (iq_squashedSeqNum q)(tid := doneSeqNum)\<rparr>);
     q2 \<leftarrow> on_memdep tid (md_squash (iq_squashedSeqNum q1 tid) tid h1) q1;
     Some (h1, q2) })"

end
