(* ===== verification/Iq_Wakeup.thy ===== *)
theory Iq_Wakeup
  imports Inst_Queue Mem_Dep_Props
begin

text \<open>
  What the instruction queue does when an instruction completes: every instruction that waits for
  one of its registers is woken, and is tainted if the result is.
\<close>

section \<open>What the operations leave alone\<close>

text \<open>The parts of the queue that readiness does not touch.\<close>

definition same_regs :: "inst_queue \<Rightarrow> inst_queue \<Rightarrow> bool" where
  "same_regs q q' \<longleftrightarrow> iq_graph q' = iq_graph q \<and> regScoreboard q' = regScoreboard q \<and> producerInst q' = producerInst q \<and>
     iq_instList q' = iq_instList q \<and> freeEntries q' = freeEntries q \<and> iq_count q' = iq_count q \<and>
     iq_numEntries q' = iq_numEntries q"

lemma same_regs_refl [simp]: "same_regs q q"
  by (simp add: same_regs_def)

lemma same_regs_trans: "same_regs q q1 \<Longrightarrow> same_regs q1 q2 \<Longrightarrow> same_regs q q2"
  by (simp add: same_regs_def)

lemma with_memdep_frame:
  assumes "with_memdep tid f (h, q) = Some (h', q')"
  shows "same_regs q q'"
  using assms by (auto simp: with_memdep_def same_regs_def)

lemma on_memdep_frame: "on_memdep tid f q = Some q' \<Longrightarrow> same_regs q q'"
  by (auto simp: on_memdep_def same_regs_def)

lemma md_regsReady_heap: "md_regsReady p (h, r, m) = Some (h', r', m') \<Longrightarrow> h' = h"
  by (auto simp: md_regsReady_def Let_def dest!: moveToReady_shape split: if_splits)

lemma addIfReady_frame:
  assumes "addIfReady p (h, q) = Some (h', q')"
  shows "h' = h \<and> same_regs q q'"
proof (cases "readyToIssue (h p) \<and> isMemRef (h p)")
  case True
  then have run: "with_memdep (threadNumber (h p)) (md_regsReady p) (h, q) = Some (h', q')"
    using assms by (simp add: addIfReady_def)
  then have "h' = h" by (auto simp: with_memdep_def dest!: md_regsReady_heap)
  then show ?thesis using with_memdep_frame[OF run] by simp
next
  case False
  then show ?thesis using assms by (auto simp: addIfReady_def same_regs_def split: if_splits)
qed

section \<open>One dependent\<close>

text \<open>The inducer an instruction passes on.\<close>

definition inducer_of :: "dyn_inst \<Rightarrow> inst_seq_num" where
  "inducer_of i = (if isDataInducer i then seqNum i else ydi i)"

definition tainted :: "inst_seq_num \<Rightarrow> dyn_inst \<Rightarrow> bool" where
  "tainted y i \<longleftrightarrow> isDataRestricted i \<and> y \<le> ydi i"

definition no_less_tainted :: "dyn_inst \<Rightarrow> dyn_inst \<Rightarrow> bool" where
  "no_less_tainted i i' \<longleftrightarrow> seqNum i' = seqNum i \<and> threadNumber i' = threadNumber i \<and> staticInst i' = staticInst i \<and>
     destRegIdx i' = destRegIdx i \<and> ydi i \<le> ydi i' \<and> (isDataRestricted i \<longrightarrow> isDataRestricted i')"

lemma no_less_tainted_refl [simp]: "no_less_tainted i i"
  by (simp add: no_less_tainted_def)

lemma no_less_tainted_trans: "no_less_tainted i j \<Longrightarrow> no_less_tainted j k \<Longrightarrow> no_less_tainted i k"
  by (auto simp: no_less_tainted_def)

lemma tainted_mono: "tainted y i \<Longrightarrow> no_less_tainted i i' \<Longrightarrow> tainted y i'"
  by (auto simp: tainted_def no_less_tainted_def)

lemma taint_by_tainted:
  "taint_by c w i = Some i' \<Longrightarrow> tainted (inducer_of w) i' \<and> no_less_tainted i i'"
  by (auto simp: taint_by_def tainted_def no_less_tainted_def inducer_of_def setDataRestricted_def set_status_def
      isDataRestricted_def Let_def split: if_splits)

lemma markSrcRegReady_tainted: "markSrcRegReady i = Some i' \<Longrightarrow> no_less_tainted i i'"
  by (auto simp: markSrcRegReady_def no_less_tainted_def set_status_def isDataRestricted_def Let_def split: if_splits)

lemma wake_one_effect:
  assumes "wake_one c restr p reg d (n, h, q) = Some (n', h', q')"
  shows "d \<noteq> p" and "n' = Suc n" and "same_regs q q'"
    and "\<exists>i. h' = h(d := i) \<and> no_less_tainted (h d) i \<and> (restr \<longrightarrow> tainted (inducer_of (h p)) i)"
proof -
  obtain i1 i2 where s: "d \<noteq> p" "(if restr then taint_by c (h p) (h d) else Some (h d)) = Some i1"
    "markSrcRegReady i1 = Some i2" "addIfReady d (h(d := i2), q) = Some (h', q')" "n' = Suc n"
    using assms by (auto simp: wake_one_def split: if_splits)
  show "d \<noteq> p" "n' = Suc n" "same_regs q q'" using s addIfReady_frame by blast+
  have "h' = h(d := i2)" using addIfReady_frame[OF s(4)] by simp
  moreover have "no_less_tainted (h d) i1 \<and> (restr \<longrightarrow> tainted (inducer_of (h p)) i1)"
    using s(2) taint_by_tainted by (auto split: if_splits)
  ultimately show "\<exists>i. h' = h(d := i) \<and> no_less_tainted (h d) i \<and> (restr \<longrightarrow> tainted (inducer_of (h p)) i)"
    using markSrcRegReady_tainted[OF s(3)] no_less_tainted_trans tainted_mono by blast
qed

text \<open>What waking a set of instructions does to the heap.\<close>

definition woken :: "bool \<Rightarrow> iptr \<Rightarrow> iptr set \<Rightarrow> inst_heap \<Rightarrow> inst_heap \<Rightarrow> bool" where
  "woken restr p D h h' \<longleftrightarrow> h' p = h p \<and> (\<forall>x. no_less_tainted (h x) (h' x)) \<and> (\<forall>x. x \<notin> D \<longrightarrow> h' x = h x) \<and>
     (restr \<longrightarrow> (\<forall>x \<in> D. tainted (inducer_of (h p)) (h' x)))"

lemma woken_empty [simp]: "woken restr p {} h h"
  by (simp add: woken_def)

lemma woken_trans:
  assumes "woken restr p D h h1" and "woken restr p E h1 h2"
  shows "woken restr p (D \<union> E) h h2"
proof -
  have "no_less_tainted (h x) (h2 x)" for x using assms no_less_tainted_trans unfolding woken_def by blast
  moreover have "tainted (inducer_of (h p)) (h2 x)" if "restr" "x \<in> D \<union> E" for x
    using that assms tainted_mono unfolding woken_def by (metis Un_iff)
  ultimately show ?thesis using assms unfolding woken_def by auto
qed

lemma wake_one_woken:
  "wake_one c restr p reg d (n, h, q) = Some (n', h', q') \<Longrightarrow> woken restr p {d} h h'"
  using wake_one_effect[of c restr p reg d n h q n' h' q'] by (auto simp: woken_def)

lemma wake_all:
  assumes "foldM (wake_one c restr p reg) ds (n, h, q) = Some (n', h', q')"
  shows "woken restr p (set ds) h h' \<and> same_regs q q' \<and> n' = n + length ds"
  using assms
proof (induction ds arbitrary: n h q)
  case (Cons d ds)
  obtain n1 h1 q1 where s: "wake_one c restr p reg d (n, h, q) = Some (n1, h1, q1)"
    "foldM (wake_one c restr p reg) ds (n1, h1, q1) = Some (n', h', q')" using Cons.prems by auto
  note IH = Cons.IH[OF s(2)]
  have "woken restr p ({d} \<union> set ds) h h'" using woken_trans[OF wake_one_woken[OF s(1)]] IH by blast
  then show ?case using IH wake_one_effect(2,3)[OF s(1)] same_regs_trans by auto
qed simp

section \<open>One register, all registers\<close>

lemma wake_loop_drains:
  assumes "flatIndex reg < registers g"
  shows "\<exists>g'. waiting g' = (waiting g)(flatIndex reg := []) \<and> registers g' = registers g \<and>
     wake_loop c restr p reg g s = map_option (\<lambda>s'. (g', s')) (foldM (wake_one c restr p reg) (waiting g (flatIndex reg)) s)"
proof -
  have loop: "wake_loop c restr p reg g s = do { (r, g') \<leftarrow> dg_pop (flatIndex reg) g;
      (case r of None \<Rightarrow> Some (g', s) | Some q \<Rightarrow> do { s' \<leftarrow> wake_one c restr p reg q s; wake_loop c restr p reg g' s' }) }"
    for g s by (rule wake_loop.simps)
  obtain g' where g': "waiting g' = (waiting g)(flatIndex reg := [])" "\<forall>k. (k < registers g') = (k < registers g)"
    "wake_loop c restr p reg g s = map_option (\<lambda>s'. (g', s')) (foldM (wake_one c restr p reg) (waiting g (flatIndex reg)) s)"
    using dg.drain[OF loop assms] by blast
  then have "registers g' = registers g" by (metis nat_neq_iff)
  with g' show ?thesis by blast
qed

lemma dg_clearInst_waiting:
  "dg_clearInst i g = Some g' \<Longrightarrow> waiting g' = waiting g \<and> registers g' = registers g"
  by (auto simp: dg_clearInst_def vec_get_eq_Some waiting_def registers_def fun_eq_iff nth_list_update)

lemma wake_register_effect:
  assumes run: "wake_register c restr p k (n, h, q) = Some (n', h', q')"
  shows "if isFixedMapping (destRegIdx (h p) k) then h' = h \<and> q' = q
     else let f = flatIndex (destRegIdx (h p) k) in
       woken restr p (set (waiting (iq_graph q) f)) h h' \<and>
       waiting (iq_graph q') = (waiting (iq_graph q))(f := []) \<and>
       f < length (regScoreboard q) \<and> regScoreboard q' = (regScoreboard q)[f := True]"
proof (cases "isFixedMapping (destRegIdx (h p) k)")
  case True
  then show ?thesis using run by (simp add: wake_register_def Let_def)
next
  case False
  let ?reg = "destRegIdx (h p) k" and ?f = "flatIndex (destRegIdx (h p) k)"
  obtain g1 h1 q1 g2 sb where s: "wake_loop c restr p ?reg (iq_graph q) (n, h, q) = Some (g1, n', h1, q1)"
    "dg_clearInst ?f g1 = Some g2" "vec_set (regScoreboard q1) ?f True = Some sb"
    "h' = h1" "q' = q1\<lparr>iq_graph := g2, regScoreboard := sb\<rparr>"
    using run False by (auto simp: wake_register_def Let_def split: if_splits)
  have "?f < registers (iq_graph q)"
  proof -
    have "dg_pop ?f (iq_graph q) \<noteq> None" using s(1) by (subst (asm) wake_loop.simps) auto
    then show ?thesis using dg_pop_waiting(3) by fastforce
  qed
  then obtain g' where g': "waiting g' = (waiting (iq_graph q))(?f := [])"
    "wake_loop c restr p ?reg (iq_graph q) (n, h, q) =
      map_option (\<lambda>s'. (g', s')) (foldM (wake_one c restr p ?reg) (waiting (iq_graph q) ?f) (n, h, q))"
    using wake_loop_drains by blast
  have "map_option (\<lambda>s'. (g', s')) (foldM (wake_one c restr p ?reg) (waiting (iq_graph q) ?f) (n, h, q)) = Some (g1, n', h1, q1)"
    using s(1) g'(2) by simp
  then have w: "g1 = g'" "foldM (wake_one c restr p ?reg) (waiting (iq_graph q) ?f) (n, h, q) = Some (n', h1, q1)"
    by (auto simp: map_option_eq_Some)
  note all = wake_all[OF w(2)]
  have "waiting g2 = (waiting (iq_graph q))(?f := [])" using dg_clearInst_waiting[OF s(2)] w(1) g'(1) by simp
  moreover have "sb = (regScoreboard q)[?f := True]" "?f < length (regScoreboard q)"
    using s(3) all by (auto simp: vec_set_eq_Some same_regs_def)
  ultimately show ?thesis using all s(4,5) False by (simp add: Let_def)
qed

text \<open>The registers among the first destinations that the queue tracks.\<close>

definition tracked :: "dyn_inst \<Rightarrow> nat list \<Rightarrow> nat set" where
  "tracked i ks = {flatIndex (destRegIdx i k) | k. k \<in> set ks \<and> \<not> isFixedMapping (destRegIdx i k)}"

lemma wake_registers_effect:
  assumes "foldM (wake_register c restr p) ks (n, h, q) = Some (n', h', q')"
  shows "woken restr p (\<Union>f \<in> tracked (h p) ks. set (waiting (iq_graph q) f)) h h' \<and>
     (\<forall>f. waiting (iq_graph q') f = (if f \<in> tracked (h p) ks then [] else waiting (iq_graph q) f)) \<and>
     length (regScoreboard q') = length (regScoreboard q) \<and>
     (\<forall>f. f < length (regScoreboard q) \<longrightarrow> regScoreboard q' ! f = (f \<in> tracked (h p) ks \<or> regScoreboard q ! f)) \<and>
     (\<forall>f \<in> tracked (h p) ks. f < length (regScoreboard q))"
  using assms
proof (induction ks arbitrary: n h q)
  case Nil
  then show ?case by (simp add: tracked_def)
next
  case (Cons k ks)
  obtain n1 h1 q1 where s: "wake_register c restr p k (n, h, q) = Some (n1, h1, q1)"
    "foldM (wake_register c restr p) ks (n1, h1, q1) = Some (n', h', q')" using Cons.prems by auto
  note eff = wake_register_effect[OF s(1)] and IH = Cons.IH[OF s(2)]
  show ?case
  proof (cases "isFixedMapping (destRegIdx (h p) k)")
    case True
    then have "h1 = h" "q1 = q" using eff by auto
    moreover have "tracked (h p) (k # ks) = tracked (h p) ks" using True by (auto simp: tracked_def)
    ultimately show ?thesis using IH by simp
  next
    case False
    let ?f = "flatIndex (destRegIdx (h p) k)"
    have e: "woken restr p (set (waiting (iq_graph q) ?f)) h h1" "waiting (iq_graph q1) = (waiting (iq_graph q))(?f := [])"
      "?f < length (regScoreboard q)" "regScoreboard q1 = (regScoreboard q)[?f := True]"
      using eff False by (auto simp: Let_def)
    have p: "h1 p = h p" using e(1) by (simp add: woken_def)
    have t: "tracked (h p) (k # ks) = insert ?f (tracked (h p) ks)" using False by (auto simp: tracked_def)
    have "(\<Union>f \<in> insert ?f (tracked (h p) ks). set (waiting (iq_graph q) f)) =
        set (waiting (iq_graph q) ?f) \<union> (\<Union>f \<in> tracked (h p) ks. set (waiting (iq_graph q1) f))"
      unfolding e(2) by (auto split: if_splits)
    then have "woken restr p (\<Union>f \<in> tracked (h p) (k # ks). set (waiting (iq_graph q) f)) h h'"
      using woken_trans[OF e(1)] IH unfolding t p by simp
    then show ?thesis using IH e(3) unfolding t p e(2,4) by (auto simp: nth_list_update)
  qed
qed

section \<open>Completion\<close>

lemma mark_inducer_effect:
  assumes "mark_inducer c p (h, q) = Some h'"
  shows "h' = h \<or> (\<exists>i. setDataInducer c (h p) = Some i \<and> h' = h(p := i))"
    and "isDolma c \<Longrightarrow> isDolmaConservative c \<Longrightarrow> isLoad (h p) \<Longrightarrow> \<not> isControl (h p) \<Longrightarrow> isDataInducer (h' p)"
    and "isDolma c \<Longrightarrow> isDolmaMemOnly c \<Longrightarrow> isLoad (h p) \<Longrightarrow> \<not> isControl (h p) \<Longrightarrow>
      control_inducer_before h p (iq_instList q (threadNumber (h p))) = Some True \<Longrightarrow> isDataInducer (h' p)"
  using assms by (auto simp: mark_inducer_def setDataInducer_def set_status_def isDataInducer_def split: if_splits)

lemma mark_inducer_static:
  assumes "mark_inducer c p (h, q) = Some h'"
  shows "destRegIdx (h' p) = destRegIdx (h p)" and "staticInst (h' p) = staticInst (h p)" and "x \<noteq> p \<Longrightarrow> h' x = h x"
  using mark_inducer_effect(1)[OF assms] by (auto simp: setDataInducer_def set_status_def split: if_splits)

text \<open>
  C24: when an instruction completes, every instruction that waits for one of its renamed registers
  is woken, and if the completed instruction is a data inducer or restricted, it leaves with the
  same restriction and with an inducer at least as young. The chains of the registers are empty
  afterwards and the registers are marked ready. In conservative mode every load is an inducer; in
  memory-only mode every load behind an unresolved branch is. No other instruction changes.
\<close>

theorem wake_up_taints_dependents:
  assumes run: "wakeDependentInstructions c p (h, q) = Some (n, h', q')"
    and k: "k < nat (numDestRegs (h p))" "\<not> isFixedMapping (destRegIdx (h p) k)"
  defines "f \<equiv> flatIndex (destRegIdx (h p) k)"
  shows "waiting (iq_graph q') f = [] \<and> regScoreboard q' ! f \<and>
     (\<forall>d \<in> set (waiting (iq_graph q) f). isDataInducer (h' p) \<or> isDataRestricted (h' p) \<longrightarrow>
        isDataRestricted (h' d) \<and> inducer_of (h' p) \<le> ydi (h' d)) \<and>
     (isDolma c \<and> isDolmaConservative c \<and> isLoad (h p) \<and> \<not> isControl (h p) \<longrightarrow> isDataInducer (h' p)) \<and>
     (isDolma c \<and> isDolmaMemOnly c \<and> isLoad (h p) \<and> \<not> isControl (h p) \<and>
        control_inducer_before h p (iq_instList q (threadNumber (h p))) = Some True \<longrightarrow> isDataInducer (h' p)) \<and>
     (\<forall>x. x \<noteq> p \<longrightarrow> (\<forall>g. x \<notin> set (waiting (iq_graph q) g)) \<longrightarrow> h' x = h x)"
proof -
  obtain h1 where h1: "mark_inducer c p (h, q) = Some h1"
    "foldM (wake_register c (isDataInducer (h1 p) \<or> isDataRestricted (h1 p)) p) [0..<nat (numDestRegs (h1 p))] (0, h1, q) =
      Some (n, h', q')"
    using run by (auto simp: wakeDependentInstructions_def Let_def)
  note st = mark_inducer_static[OF h1(1)] and eff = wake_registers_effect[OF h1(2)]
  let ?T = "tracked (h1 p) [0..<nat (numDestRegs (h1 p))]"
  have f: "f \<in> ?T" using k st(1,2) by (auto simp: tracked_def f_def)
  have w: "woken (isDataInducer (h1 p) \<or> isDataRestricted (h1 p)) p (\<Union>f \<in> ?T. set (waiting (iq_graph q) f)) h1 h'"
    using eff by blast
  then have p: "h' p = h1 p" by (simp add: woken_def)
  have T: "isDataRestricted (h' d) \<and> inducer_of (h' p) \<le> ydi (h' d)"
    if d: "d \<in> set (waiting (iq_graph q) f)" and r: "isDataInducer (h' p) \<or> isDataRestricted (h' p)" for d
  proof -
    have "d \<in> (\<Union>f \<in> ?T. set (waiting (iq_graph q) f))" using d f by blast
    then have "tainted (inducer_of (h1 p)) (h' d)" using w r unfolding woken_def p by auto
    then show ?thesis by (simp add: tainted_def p)
  qed
  have F: "h' x = h x" if x: "x \<noteq> p" and n: "\<forall>g. x \<notin> set (waiting (iq_graph q) g)" for x
  proof -
    have "x \<notin> (\<Union>f \<in> ?T. set (waiting (iq_graph q) f))" using n by blast
    then have "h' x = h1 x" using w unfolding woken_def by simp
    then show ?thesis using st(3)[OF x] by simp
  qed
  have "waiting (iq_graph q') f = []" "f < length (regScoreboard q)" using eff f by simp_all
  moreover have "regScoreboard q' ! f" using eff f by simp
  ultimately show ?thesis using T F mark_inducer_effect(2,3)[OF h1(1)] p by simp
qed

text \<open>A data inducer that writes register 1 and an instruction that waits for it.\<close>

definition ex_iq :: inst_queue where
  "ex_iq = \<lparr>iq_instList = (\<lambda>_. []), instsToExecute = [], deferredMemInsts = [], blockedMemInsts = [],
     dolmaStalledInsts = [], retryMemInsts = [], nonSpecInsts = (\<lambda>_. None), iq_ready = empty_ready,
     iq_graph = \<lparr>dependGraph = [empty_entry, empty_entry], memAllocCounter = 0\<rparr>,
     memDepUnit = (\<lambda>_. md_init 1000 4 4), fuPool = new_fu_pool [], iqPolicy = Dynamic, iq_numThreads = 1,
     iq_activeThreads = [0], iq_count = (\<lambda>_. 0), iq_maxEntries = (\<lambda>_. 8), freeEntries = 8, iq_numEntries = 8,
     totalWidth = 4, wbOutstanding = 0, iq_squashedSeqNum = (\<lambda>_. 0), regScoreboard = [False, False],
     producerInst = [None, None], i2e_size = 0, i2e_prev_size = 0, completions = [], iq_activity = False\<rparr>"

definition ex_wake_iq :: inst_queue where
  "ex_wake_iq = ex_iq\<lparr>iq_graph := \<lparr>dependGraph = [empty_entry, \<lparr>producer = Some 3, dependents = [4]\<rparr>], memAllocCounter = 1\<rparr>\<rparr>"

definition ex_wake_heap :: inst_heap where
  "ex_wake_heap = (\<lambda>p. if p = 3
     then (ex_inst 5 {} {DataInducer})\<lparr>staticInst := (ex_si {})\<lparr>si_numDestRegs := 1\<rparr>, destRegIdx := (\<lambda>_. phys_reg IntRegClass 1 1)\<rparr>
     else (ex_inst 6 {} {})\<lparr>staticInst := (ex_si {})\<lparr>si_numSrcRegs := 2\<rparr>\<rparr>)"

lemma ex_wake_run:
  "\<exists>n h' q'. wakeDependentInstructions ex_cpu 3 (ex_wake_heap, ex_wake_iq) = Some (n, h', q') \<and> isDataInducer (h' 3)"
proof -
  let ?reg = "phys_reg IntRegClass 1 1"
  have f: "flatIndex ?reg = 1" "\<not> isFixedMapping ?reg" "\<not> isZeroReg ?reg"
    by (simp_all add: flatIndex_def phys_reg_def isFixedMapping_def isZeroReg_def ZeroReg_def)
  obtain i1 where i1: "taint_by ex_cpu (ex_wake_heap 3) (ex_wake_heap 4) = Some i1" "readyRegs i1 = 0" "numSrcRegs i1 = 2"
      "status i1 = {DataRestricted}" "threadNumber i1 = 0"
    by (simp add: taint_by_def ex_wake_heap_def ex_inst_def ex_si_def isDataInducer_def isDataRestricted_def
        setDataRestricted_def set_status_def)
  define i2 where "i2 = i1\<lparr>readyRegs := 1\<rparr>"
  have i2: "markSrcRegReady i1 = Some i2" using i1 by (simp add: markSrcRegReady_def i2_def)
  have one: "wake_one ex_cpu True 3 ?reg 4 (0, ex_wake_heap, ex_wake_iq) = Some (1, ex_wake_heap(4 := i2), ex_wake_iq)"
    using f i1 i2 by (simp add: wake_one_def addIfReady_def i2_def ex_wake_heap_def ex_inst_def)
  have w: "waiting (iq_graph ex_wake_iq) 1 = [4]" "registers (iq_graph ex_wake_iq) = 2"
    by (simp_all add: waiting_def registers_def ex_wake_iq_def)
  obtain g' where g': "waiting g' = (waiting (iq_graph ex_wake_iq))(1 := [])" "registers g' = 2"
    "wake_loop ex_cpu True 3 ?reg (iq_graph ex_wake_iq) (0, ex_wake_heap, ex_wake_iq) =
       Some (g', 1, ex_wake_heap(4 := i2), ex_wake_iq)"
    using wake_loop_drains[of ?reg "iq_graph ex_wake_iq" ex_cpu True 3 "(0, ex_wake_heap, ex_wake_iq)"] f w one by auto
  have e: "dg_empty_at 1 g' = Some True" using g'(1,2) by (simp add: dg_empty_at_def waiting_def registers_def fun_eq_iff split: if_splits)
  obtain g2 where g2: "dg_clearInst 1 g' = Some g2" using g'(2) by (simp add: dg_clearInst_def registers_def)
  have "mark_inducer ex_cpu 3 (ex_wake_heap, ex_wake_iq) = Some ex_wake_heap"
    by (simp add: mark_inducer_def ex_wake_heap_def ex_inst_def ex_si_def isDataInducer_def)
  then show ?thesis
    using f g' e g2 by (simp add: wakeDependentInstructions_def wake_register_def Let_def ex_wake_heap_def ex_inst_def
        ex_si_def isDataInducer_def ex_wake_iq_def ex_iq_def)
qed

theorem wake_up_taints_dependents_witness:
  "\<exists>n h' q'. wakeDependentInstructions ex_cpu 3 (ex_wake_heap, ex_wake_iq) = Some (n, h', q') \<and>
     waiting (iq_graph q') 1 = [] \<and> isDataRestricted (h' 4)"
proof -
  obtain n h' q' where r: "wakeDependentInstructions ex_cpu 3 (ex_wake_heap, ex_wake_iq) = Some (n, h', q')" "isDataInducer (h' 3)"
    using ex_wake_run by blast
  have "0 < nat (numDestRegs (ex_wake_heap 3))" "\<not> isFixedMapping (destRegIdx (ex_wake_heap 3) 0)"
    "flatIndex (destRegIdx (ex_wake_heap 3) 0) = 1" "waiting (iq_graph ex_wake_iq) 1 = [4]"
    by (simp_all add: ex_wake_heap_def ex_wake_iq_def flatIndex_def phys_reg_def isFixedMapping_def waiting_def)
  with wake_up_taints_dependents[OF r(1), of 0] r show ?thesis by auto
qed

end
