(* ===== verification/Iq_Schedule.thy ===== *)
theory Iq_Schedule
  imports Iq_Wakeup "HOL-Library.Sublist"
begin

text \<open>
  The scheduler of the instruction queue: what it issues and how many, that it returns, how the
  contention for functional units is decided under DOLMA, and what the stall of a load does.
\<close>

section \<open>What a turn of the scheduler keeps\<close>

definition same_view :: "inst_heap \<Rightarrow> inst_heap \<Rightarrow> bool" where
  "same_view h h' \<longleftrightarrow> (\<forall>x. seqNum (h' x) = seqNum (h x) \<and> threadNumber (h' x) = threadNumber (h x) \<and>
     staticInst (h' x) = staticInst (h x) \<and> isSquashed (h' x) = isSquashed (h x) \<and>
     isDolmaRestricted (h' x) = isDolmaRestricted (h x))"

lemma same_view_refl [simp]: "same_view h h"
  by (simp add: same_view_def)

lemma same_view_trans: "same_view h h1 \<Longrightarrow> same_view h1 h2 \<Longrightarrow> same_view h h2"
  by (simp add: same_view_def)

lemma same_view_upd:
  assumes "seqNum i = seqNum (h p)" and "threadNumber i = threadNumber (h p)" and "staticInst i = staticInst (h p)"
    and "Squashed \<in> status i \<longleftrightarrow> isSquashed (h p)" and "isDolmaRestricted i \<longleftrightarrow> isDolmaRestricted (h p)"
  shows "same_view h (h(p := i))"
  using assms by (simp add: same_view_def)

lemmas restricted_defs = isDolmaRestricted_def isControlRestricted_def isDataRestricted_def

lemma status_keeps_restricted:
  assumes "b \<notin> {Squashed, ControlRestricted, DataRestricted}"
  shows "isDolmaRestricted (set_status b i) = isDolmaRestricted i" and "isDolmaRestricted (reset_status b i) = isDolmaRestricted i"
    and "isSquashed (set_status b i) = isSquashed i" and "isSquashed (reset_status b i) = isSquashed i"
  using assms by (auto simp: restricted_defs set_status_def reset_status_def)

lemma status_keeps_id [simp]:
  "seqNum (set_status b i) = seqNum i" "seqNum (reset_status b i) = seqNum i"
  "threadNumber (set_status b i) = threadNumber i" "threadNumber (reset_status b i) = threadNumber i"
  "staticInst (set_status b i) = staticInst i" "staticInst (reset_status b i) = staticInst i"
  by (simp_all add: set_status_def reset_status_def)

lemma clear_translation_keeps [simp]:
  "seqNum (clear_translation i) = seqNum i" "threadNumber (clear_translation i) = threadNumber i"
  "staticInst (clear_translation i) = staticInst i" "status (clear_translation i) = status i"
  by (simp_all add: clear_translation_def set_flag_def)

lemma drop_dolma_reqs_keeps [simp]:
  "seqNum (drop_dolma_reqs i) = seqNum i" "threadNumber (drop_dolma_reqs i) = threadNumber i"
  "staticInst (drop_dolma_reqs i) = staticInst i" "status (drop_dolma_reqs i) = status i"
  by (simp_all add: drop_dolma_reqs_def Let_def)

text \<open>
  The fields of the queue that stalling and the search for a unit do not touch; the list of the
  stalled instructions only gets longer.
\<close>

definition same_sched :: "inst_queue \<Rightarrow> inst_queue \<Rightarrow> bool" where
  "same_sched q q' \<longleftrightarrow> iq_ready q' = iq_ready q \<and> instsToExecute q' = instsToExecute q \<and> completions q' = completions q \<and>
     totalWidth q' = totalWidth q \<and> memDepUnit q' = memDepUnit q \<and> freeEntries q' = freeEntries q \<and>
     iq_count q' = iq_count q \<and> iq_numEntries q' = iq_numEntries q \<and> deferredMemInsts q' = deferredMemInsts q \<and>
     retryMemInsts q' = retryMemInsts q \<and> prefix (dolmaStalledInsts q) (dolmaStalledInsts q')"

lemma same_sched_refl [simp]: "same_sched q q"
  by (simp add: same_sched_def)

lemma same_sched_trans: "same_sched q q1 \<Longrightarrow> same_sched q1 q2 \<Longrightarrow> same_sched q q2"
  by (auto simp: same_sched_def intro: prefix_order.trans)

lemma stall_view:
  assumes "setDolmaStalled c (h p) = Some i" and "dolmaStallInst p (h(p := i), q) = Some (h', q')"
  shows "same_view h h' \<and> same_sched q q' \<and> isDolmaStalled (h' p) \<and> dolmaStalledInsts q' = dolmaStalledInsts q @ [p] \<and>
     fuPool q' = fuPool q \<and> \<not> isIssued (h' p)"
proof -
  obtain i' where i': "h' = h(p := i')" "i' = reset_status Issued (clear_translation i)"
    using assms(2) by (simp add: dolmaStallInst_def split: if_splits)
  have i: "seqNum i = seqNum (h p)" "threadNumber i = threadNumber (h p)" "staticInst i = staticInst (h p)"
    "status i = insert DolmaStalled (status (h p) - {PendingMemOrder, PendingBranch})" "\<not> isSquashed (h p)"
    using assms(1) by (auto simp: setDolmaStalled_def set_status_def reset_status_def split: if_splits)
  then have "same_view h h'"
    unfolding i' by (intro same_view_upd) (auto simp: restricted_defs reset_status_def)
  moreover have "isDolmaStalled (h' p) \<and> \<not> isIssued (h' p)" using i by (simp add: i' isDolmaStalled_def reset_status_def)
  ultimately show ?thesis using assms(2) by (auto simp: dolmaStallInst_def same_sched_def split: if_splits)
qed

lemma evict_view:
  assumes "evict c p o1 u (h, q) = Some (h', q')"
  shows "same_view h h' \<and> same_sched q q' \<and> unitBusy (fuPool q') = (unitBusy (fuPool q))[u := seqNum (h p)] \<and>
     fuPerCapList (fuPool q') = fuPerCapList (fuPool q) \<and> numFU (fuPool q') = numFU (fuPool q) \<and>
     capabilityList (fuPool q') = capabilityList (fuPool q) \<and> (isDolmaRestricted (h o1) \<longrightarrow> isDolmaStalled (h' o1))"
proof -
  obtain h1 q1 where s: "(if \<not> isDolmaStalled (h o1) then do {
                     i \<leftarrow> setDolmaStalled c (h o1);
                     dolmaStallInst o1 (h(o1 := i), q) }
                   else Some (h, q)) = Some (h1, q1)" "set_busy u (seqNum (h1 p)) q1 = Some q'" "h' = h1"
    using assms by (auto simp: evict_def)
  have "same_view h h1 \<and> same_sched q q1 \<and> fuPool q1 = fuPool q \<and> isDolmaStalled (h1 o1)"
  proof (cases "isDolmaStalled (h o1)")
    case False
    then obtain i where "setDolmaStalled c (h o1) = Some i" "dolmaStallInst o1 (h(o1 := i), q) = Some (h1, q1)"
      using s(1) by auto
    from stall_view[OF this] show ?thesis by blast
  qed (use s(1) in simp)
  moreover have "seqNum (h1 p) = seqNum (h p)" using calculation by (simp add: same_view_def)
  ultimately show ?thesis using s(2,3) by (auto simp: set_busy_def vec_set_eq_Some same_sched_def)
qed

lemma next_unit_view: "next_unit c q = Some (u, q') \<Longrightarrow> same_sched q q'"
  by (auto simp: next_unit_def same_sched_def)

lemma evict_loop_view:
  assumes "evict_loop c rob p cl start u h q = Some (idx, h', q')"
  shows "same_view h h' \<and> same_sched q q'"
proof -
  have "same_view h (fst (snd y)) \<and> same_sched q (snd (snd y))"
    if "evict_loop c rob p cl start u h q = Some y" for y
    using that
  proof (rule evict_loop.raw_induct[of "\<lambda>c rob p cl start u h q y. same_view h (fst (snd y)) \<and> same_sched q (snd (snd y))", rotated])
    fix loop :: "dolma_cpu \<Rightarrow> rob \<Rightarrow> iptr \<Rightarrow> op_class \<Rightarrow> nat \<Rightarrow> nat \<Rightarrow> inst_heap \<Rightarrow> inst_queue \<Rightarrow> (int \<times> iq_state) option"
      and c rob p cl start u h q y
    assume IH: "\<And>c rob p cl start u h q y. loop c rob p cl start u h q = Some y \<Longrightarrow>
        same_view h (fst (snd y)) \<and> same_sched q (snd (snd y))"
      and run: "do {
         busy \<leftarrow> vec_get (unitBusy (fuPool q)) u;
         check (busy \<noteq> 0);
         let occ = findInst rob h (threadNumber (h p)) busy;
         (if evictable h p occ then do { s \<leftarrow> evict c p (the occ) u (h, q); Some (int u, s) }
          else do {
            (u1, q1) \<leftarrow> next_unit cl q;
            (if u1 = start then Some (-1, h, q1) else loop c rob p cl start u1 h q1) }) } = Some y"
    show "same_view h (fst (snd y)) \<and> same_sched q (snd (snd y))"
    proof (cases "evictable h p (findInst rob h (threadNumber (h p)) (unitBusy (fuPool q) ! u))")
      case True
      then show ?thesis using run by (auto simp: Let_def vec_get_eq_Some dest!: evict_view split: if_splits)
    next
      case False
      then obtain u1 q1 where "next_unit cl q = Some (u1, q1)"
        "(if u1 = start then Some (-1, h, q1) else loop c rob p cl start u1 h q1) = Some y"
        using run by (auto simp: Let_def vec_get_eq_Some split: if_splits)
      then show ?thesis using next_unit_view IH same_sched_trans by (metis (no_types, lifting) fst_conv option.inject same_view_refl snd_conv)
    qed
  qed
  from this[OF assms] show ?thesis by simp
qed

lemma acquire_unit_view:
  assumes "acquire_unit c rob p cl (h, q) = Some (idx, h', q')"
  shows "same_view h h' \<and> same_sched q q'"
proof -
  obtain i fp where g: "getUnit cl (seqNum (h p)) (fuPool q) = Some (i, fp)"
    "(if isDolma c \<and> \<not> isSTT c \<and> i = -1 then do {
        (u, q2) \<leftarrow> next_unit cl (q\<lparr>fuPool := fp\<rparr>);
        evict_loop c rob p cl u u h q2 }
      else Some (i, h, q\<lparr>fuPool := fp\<rparr>)) = Some (idx, h', q')"
    using assms by (auto simp: acquire_unit_def Let_def)
  have f: "same_sched q (q\<lparr>fuPool := fp\<rparr>)" by (simp add: same_sched_def)
  show ?thesis
  proof (cases "isDolma c \<and> \<not> isSTT c \<and> i = -1")
    case True
    then obtain u q2 where "next_unit cl (q\<lparr>fuPool := fp\<rparr>) = Some (u, q2)" "evict_loop c rob p cl u u h q2 = Some (idx, h', q')"
      using g(2) by auto
    then show ?thesis using f next_unit_view evict_loop_view same_sched_trans by meson
  next
    case False
    then show ?thesis using f g(2) by (auto split: if_splits)
  qed
qed

section \<open>What the scheduler launches\<close>

text \<open>The instructions sent to execution: those for the next cycle and those in a unit of several cycles.\<close>

definition launched :: "inst_queue \<Rightarrow> iptr list" where
  "launched q = instsToExecute q @ map fuc_inst (completions q)"

lemma launched_cong: "same_sched q q' \<Longrightarrow> launched q' = launched q"
  by (simp add: same_sched_def launched_def)

lemma free_next_cycle_view:
  "free_next_cycle u q = Some q' \<Longrightarrow> same_sched q q'"
  by (auto simp: free_next_cycle_def same_sched_def)

lemma start_execution_view:
  assumes "start_execution p idx cl lat q = Some q'"
  shows "mset (launched q') = add_mset p (mset (launched q)) \<and> iq_ready q' = iq_ready q \<and> totalWidth q' = totalWidth q \<and>
     memDepUnit q' = memDepUnit q \<and> freeEntries q' = freeEntries q \<and> iq_count q' = iq_count q \<and> iq_numEntries q' = iq_numEntries q \<and>
     deferredMemInsts q' = deferredMemInsts q \<and> retryMemInsts q' = retryMemInsts q \<and> prefix (dolmaStalledInsts q) (dolmaStalledInsts q')"
  using assms
  by (auto simp: start_execution_def Let_def launched_def same_sched_def dest!: free_next_cycle_view split: if_splits)

lemma leave_queue_view:
  assumes "leave_queue p (h, q) = Some (h', q')"
  shows "same_view h h' \<and> launched q' = launched q \<and> iq_ready q' = iq_ready q \<and> totalWidth q' = totalWidth q \<and>
     deferredMemInsts q' = deferredMemInsts q \<and> retryMemInsts q' = retryMemInsts q \<and> dolmaStalledInsts q' = dolmaStalledInsts q"
proof -
  have "same_view h h'"
    using assms by (auto simp: leave_queue_def Let_def status_keeps_restricted intro!: same_view_upd split: if_splits)
  then show ?thesis
    using assms by (auto simp: leave_queue_def Let_def launched_def on_memdep_def split: if_splits)
qed

lemma issue_top_view:
  assumes "issue_top c rob it cl p (h, q) = Some (iss, nxt, h', q')"
  shows "same_view h h' \<and> totalWidth q' = totalWidth q \<and>
     mset (launched q') = (if iss then {#p#} else {#}) + mset (launched q)"
proof -
  obtain idx h1 q1 where a: "(if cl \<noteq> No_OpClass then acquire_unit c rob p cl (h, q) else Some (-2, h, q)) = Some (idx, h1, q1)"
    and r: "(if idx \<noteq> -1 then do {
        q2 \<leftarrow> start_execution p idx cl (if cl \<noteq> No_OpClass \<and> idx > -1 then getOpLatency cl (fuPool q1) else 1) q1;
        (nxt, r) \<leftarrow> take_top it cl h1 (iq_ready q2);
        s3 \<leftarrow> leave_queue p (h1, q2\<lparr>iq_ready := r\<rparr>);
        Some (True, nxt, s3) }
      else do {
        nxt \<leftarrow> next_it it (listOrder (iq_ready q1));
        Some (False, nxt, h1, q1) }) = Some (iss, nxt, h', q')"
    using assms by (auto simp: issue_top_def Let_def)
  have v: "same_view h h1 \<and> same_sched q q1"
    using a by (auto dest: acquire_unit_view split: if_splits)
  then have w: "launched q1 = launched q" "totalWidth q1 = totalWidth q" by (simp_all add: launched_def same_sched_def)
  show ?thesis
  proof (cases "idx = -1")
    case True
    then show ?thesis using r v w by auto
  next
    case False
    then obtain q2 nx rr where s: "start_execution p idx cl (if cl \<noteq> No_OpClass \<and> idx > -1 then getOpLatency cl (fuPool q1) else 1) q1 = Some q2"
      and l: "leave_queue p (h1, q2\<lparr>iq_ready := rr\<rparr>) = Some (h', q')" and iss
      using r by auto
    have "launched (q2\<lparr>iq_ready := rr\<rparr>) = launched q2" by (simp add: launched_def)
    with start_execution_view[OF s] leave_queue_view[OF l] v w \<open>iss\<close> show ?thesis
      by (auto intro: same_view_trans)
  qed
qed

lemma stall_load_view:
  assumes "stall_load c it cl p (h, q) = Some (iss, nxt, h', q')"
  shows "\<not> iss \<and> same_view h h' \<and> totalWidth q' = totalWidth q \<and> launched q' = launched q \<and> isDolmaStalled (h' p) \<and>
    dolmaStalledInsts q' = dolmaStalledInsts q @ [p]"
proof -
  obtain nx r i where s: "setDolmaStalled c (h p) = Some i" "dolmaStallInst p (h(p := i), q\<lparr>iq_ready := r\<rparr>) = Some (h', q')" "\<not> iss"
    using assms by (auto simp: stall_load_def split: if_splits)
  from stall_view[OF s(1,2)] s(3) show ?thesis by (simp add: same_sched_def launched_def)
qed

lemma drop_squashed_view:
  "drop_squashed it cl (h, q) = Some (iss, nxt, h', q') \<Longrightarrow>
     \<not> iss \<and> h' = h \<and> totalWidth q' = totalWidth q \<and> launched q' = launched q"
  by (auto simp: drop_squashed_def launched_def)

text \<open>One turn launches at most one instruction, and it may be launched.\<close>

definition may_launch :: "dolma_cpu \<Rightarrow> dyn_inst \<Rightarrow> bool" where
  "may_launch c i \<longleftrightarrow> \<not> isSquashed i \<and> \<not> (isSTT c \<and> isDolmaRestricted i \<and> isLoad i)"

lemma may_launch_cong: "same_view h h' \<Longrightarrow> may_launch c (h' x) = may_launch c (h x)"
  by (simp add: same_view_def may_launch_def)

lemma schedule_one_view:
  assumes "schedule_one c rob it (h, q) = Some (iss, nxt, h', q')"
  shows "same_view h h' \<and> totalWidth q' = totalWidth q \<and>
     (if iss then \<exists>p. may_launch c (h p) \<and> mset (launched q') = add_mset p (mset (launched q))
      else mset (launched q') = mset (launched q))"
proof -
  obtain e :: order_entry and p where "(if isSTT c \<and> isDolmaRestricted (h p) \<and> isLoad (h p) then stall_load c it (queueType e) p (h, q)
      else if isSquashed (h p) then drop_squashed it (queueType e) (h, q)
      else issue_top c rob it (queueType e) p (h, q)) = Some (iss, nxt, h', q')"
    using assms by (auto simp: schedule_one_def Let_def)
  then show ?thesis
    by (auto simp: may_launch_def dest!: stall_load_view drop_squashed_view issue_top_view split: if_splits)
qed

lemma schedule_loop_view:
  assumes "schedule_loop c rob n it h q = Some (n', h', q')" and "n \<le> unat (totalWidth q)"
  shows "same_view h h' \<and> n \<le> n' \<and> n' \<le> unat (totalWidth q) \<and>
     (\<exists>ps. mset (launched q') = mset ps + mset (launched q) \<and> length ps = n' - n \<and> (\<forall>p \<in> set ps. may_launch c (h p)))"
proof -
  let ?P = "\<lambda>c n h q (n', h', q'). n \<le> unat (totalWidth q) \<longrightarrow> same_view h h' \<and> n \<le> n' \<and> n' \<le> unat (totalWidth q) \<and>
     (\<exists>ps. mset (launched q') = mset ps + mset (launched q) \<and> length ps = n' - n \<and> (\<forall>p \<in> set ps. may_launch c (h p)))"
  have "?P c n h q (n', h', q')"
  proof (rule schedule_loop.raw_induct[of "\<lambda>c rob n it h q y. ?P c n h q y", OF _ assms(1)])
    fix loop :: "dolma_cpu \<Rightarrow> rob \<Rightarrow> nat \<Rightarrow> nat option \<Rightarrow> inst_heap \<Rightarrow> inst_queue \<Rightarrow> (nat \<times> iq_state) option"
      and c rob n it h q y
    assume IH: "\<And>c rob n it h q y. loop c rob n it h q = Some y \<Longrightarrow> ?P c n h q y"
      and run: "(if n < unat (totalWidth q) then
        (case it of
           None \<Rightarrow> Some (n, h, q)
         | Some it \<Rightarrow> do {
             (was_issued, nxt, h1, q1) \<leftarrow> schedule_one c rob it (h, q);
             loop c rob (if was_issued then Suc n else n) nxt h1 q1 })
      else Some (n, h, q)) = Some y"
    obtain n' h' q' where y: "y = (n', h', q')" by (metis prod.exhaust)
    show "?P c n h q y"
    proof (cases "n < unat (totalWidth q) \<and> it \<noteq> None")
      case False
      then have "n' = n" "h' = h" "q' = q" using run y by (auto split: if_splits)
      then show ?thesis using y by (auto intro!: exI[of _ "[]"])
    next
      case True
      then obtain i iss nxt h1 q1 where s: "schedule_one c rob i (h, q) = Some (iss, nxt, h1, q1)"
        and l: "loop c rob (if iss then Suc n else n) nxt h1 q1 = Some (n', h', q')"
        using run y by auto
      note v = schedule_one_view[OF s]
      then have "(if iss then Suc n else n) \<le> unat (totalWidth q1)" using True by simp
      with IH[OF l] obtain ps where ps: "same_view h1 h'" "(if iss then Suc n else n) \<le> n'" "n' \<le> unat (totalWidth q1)"
        "mset (launched q') = mset ps + mset (launched q1)" "length ps = n' - (if iss then Suc n else n)"
        "\<forall>p \<in> set ps. may_launch c (h1 p)"
        by auto
      have m: "\<forall>p \<in> set ps. may_launch c (h p)" using ps(6) v may_launch_cong by blast
      have "\<exists>ps. mset (launched q') = mset ps + mset (launched q) \<and> length ps = n' - n \<and> (\<forall>p \<in> set ps. may_launch c (h p))"
      proof (cases iss)
        case True
        with v obtain p where "may_launch c (h p)" "mset (launched q1) = add_mset p (mset (launched q))" by auto
        with True ps m show ?thesis by (intro exI[of _ "p # ps"]) auto
      next
        case False
        with ps m v show ?thesis by (intro exI[of _ ps]) auto
      qed
      then show ?thesis using y v ps by (auto intro: same_view_trans split: if_splits)
    qed
  qed
  with assms(2) show ?thesis by simp
qed

text \<open>The loops that release instructions change the ready queues and the list they take from.\<close>

definition getter :: "(inst_heap \<Rightarrow> inst_queue \<Rightarrow> (iptr \<times> inst_queue) option) \<Rightarrow> bool" where
  "getter get \<longleftrightarrow> (\<forall>h q p q'. get h q = Some (p, q') \<longrightarrow> iq_ready q' = iq_ready q \<and> instsToExecute q' = instsToExecute q \<and>
     completions q' = completions q \<and> totalWidth q' = totalWidth q \<and> memDepUnit q' = memDepUnit q \<and> fuPool q' = fuPool q \<and>
     length (dolmaStalledInsts q') + length (deferredMemInsts q') + length (retryMemInsts q') <
       length (dolmaStalledInsts q) + length (deferredMemInsts q) + length (retryMemInsts q))"

lemma extract_first_length: "extract_first P l = Some (x, l') \<Longrightarrow> length l = Suc (length l')"
  by (induction l arbitrary: l') (auto split: if_splits)

lemma extract_first_None: "extract_first P l = None \<longleftrightarrow> (\<forall>x \<in> set l. \<not> P x)"
  by (induction l) auto

lemma oldest_released_in: "oldest_released h l = Some p \<Longrightarrow> p \<in> set l"
proof -
  have "fold (\<lambda>p old. if \<not> isDolmaStalled (h p) then
                     (case old of None \<Rightarrow> Some p
                      | Some o1 \<Rightarrow> if seqNum (h p) < seqNum (h o1) then Some p else Some o1)
                   else old) l a = Some p \<Longrightarrow> p \<in> set l \<or> a = Some p" for a
  proof (induction l arbitrary: a)
    case (Cons x l)
    then show ?case by (cases "isDolmaStalled (h x)"; cases a) (fastforce split: if_splits)+
  qed simp
  from this[of None] show "oldest_released h l = Some p \<Longrightarrow> p \<in> set l" by (simp add: oldest_released_def)
qed

lemma getters:
  "getter getDolmaStalledInstToExecute" "getter getDeferredMemInstToExecute" "getter (\<lambda>_. getBlockedMemInstToExecute)"
proof -
  show "getter getDolmaStalledInstToExecute"
    unfolding getter_def
  proof (intro allI impI)
    fix h q p q' assume "getDolmaStalledInstToExecute h q = Some (p, q')"
    then have o: "oldest_released h (dolmaStalledInsts q) = Some p"
      and q': "q' = q\<lparr>dolmaStalledInsts := (case extract_first (\<lambda>s. seqNum (h s) = seqNum (h p)) (dolmaStalledInsts q) of
             None \<Rightarrow> dolmaStalledInsts q | Some (_, l) \<Rightarrow> l)\<rparr>"
      by (auto simp: getDolmaStalledInstToExecute_def split: option.splits)
    from oldest_released_in[OF o] have "extract_first (\<lambda>s. seqNum (h s) = seqNum (h p)) (dolmaStalledInsts q) \<noteq> None"
      unfolding extract_first_None by blast
    then obtain x l where "extract_first (\<lambda>s. seqNum (h s) = seqNum (h p)) (dolmaStalledInsts q) = Some (x, l)" by auto
    with q' show "iq_ready q' = iq_ready q \<and> instsToExecute q' = instsToExecute q \<and>
     completions q' = completions q \<and> totalWidth q' = totalWidth q \<and> memDepUnit q' = memDepUnit q \<and> fuPool q' = fuPool q \<and>
     length (dolmaStalledInsts q') + length (deferredMemInsts q') + length (retryMemInsts q') <
       length (dolmaStalledInsts q) + length (deferredMemInsts q) + length (retryMemInsts q)"
      by (auto dest: extract_first_length)
  qed
  show "getter getDeferredMemInstToExecute"
    by (auto simp: getter_def getDeferredMemInstToExecute_def dest: extract_first_length)
  show "getter (\<lambda>_. getBlockedMemInstToExecute)"
    by (auto simp: getter_def getBlockedMemInstToExecute_def split: list.splits)
qed

text \<open>So they end, and keep the ready queues well formed.\<close>

lemma release_loop_ends:
  assumes "getter get" and "ready_wf h (iq_ready q)"
  shows "\<exists>q'. release_loop get h q = Some q' \<and> ready_wf h (iq_ready q') \<and> launched q' = launched q \<and>
     totalWidth q' = totalWidth q \<and> memDepUnit q' = memDepUnit q \<and> fuPool q' = fuPool q"
  using assms(2)
proof (induction "length (dolmaStalledInsts q) + length (deferredMemInsts q) + length (retryMemInsts q)"
    arbitrary: q rule: less_induct)
  case less
  show ?case
  proof (cases "get h q")
    case None
    then show ?thesis using less.prems by (subst release_loop.simps) simp
  next
    case (Some pq)
    then obtain p q1 where g: "get h q = Some (p, q1)" by (cases pq) simp
    note k = assms(1)[unfolded getter_def, rule_format, OF g]
    then obtain r where r: "addReadyMemInst h p (iq_ready q1) = Some r" "ready_wf h r"
      using addReadyMemInst_wf less.prems by metis
    let ?q = "q1\<lparr>iq_ready := r\<rparr>"
    have "\<exists>q'. release_loop get h ?q = Some q' \<and> ready_wf h (iq_ready q') \<and> launched q' = launched ?q \<and>
     totalWidth q' = totalWidth ?q \<and> memDepUnit q' = memDepUnit ?q \<and> fuPool q' = fuPool ?q"
      using k r(2) by (intro less.hyps) simp_all
    moreover have "release_loop get h q = release_loop get h ?q"
      using g r(1) by (subst release_loop.simps) simp
    ultimately show ?thesis using k by (simp add: launched_def)
  qed
qed

lemma releases_end:
  assumes "ready_wf h (iq_ready q)"
  obtains q3 where "do {
     q1 \<leftarrow> release_loop getDolmaStalledInstToExecute h q;
     q2 \<leftarrow> release_loop getDeferredMemInstToExecute h q1;
     release_loop (\<lambda>_. getBlockedMemInstToExecute) h q2 } = Some q3"
    and "ready_wf h (iq_ready q3)" and "launched q3 = launched q" and "totalWidth q3 = totalWidth q"
    and "memDepUnit q3 = memDepUnit q" and "fuPool q3 = fuPool q"
proof -
  obtain q1 where 1: "release_loop getDolmaStalledInstToExecute h q = Some q1" "ready_wf h (iq_ready q1)"
    "launched q1 = launched q" "totalWidth q1 = totalWidth q" "memDepUnit q1 = memDepUnit q" "fuPool q1 = fuPool q"
    using release_loop_ends[OF getters(1) assms] by blast
  obtain q2 where 2: "release_loop getDeferredMemInstToExecute h q1 = Some q2" "ready_wf h (iq_ready q2)"
    "launched q2 = launched q1" "totalWidth q2 = totalWidth q1" "memDepUnit q2 = memDepUnit q1" "fuPool q2 = fuPool q1"
    using release_loop_ends[OF getters(2) 1(2)] by blast
  obtain q3 where 3: "release_loop (\<lambda>_. getBlockedMemInstToExecute) h q2 = Some q3" "ready_wf h (iq_ready q3)"
    "launched q3 = launched q2" "totalWidth q3 = totalWidth q2" "memDepUnit q3 = memDepUnit q2" "fuPool q3 = fuPool q2"
    using release_loop_ends[OF getters(3) 2(2)] by blast
  show thesis using 1 2 3 by (intro that[of q3]) simp_all
qed

lemma scheduleReadyInsts_loop:
  assumes "ready_wf h (iq_ready q)"
  obtains q3 where "ready_wf h (iq_ready q3)" and "launched q3 = launched q" and "totalWidth q3 = totalWidth q"
    and "memDepUnit q3 = memDepUnit q" and "fuPool q3 = fuPool q"
    and "scheduleReadyInsts c rob (h, q) = do {
     (total_issued, h4, q4) \<leftarrow> schedule_loop c rob 0 (first_node (listOrder (iq_ready q3))) h q3;
     Some (h4, if total_issued \<noteq> 0 \<or> retryMemInsts q4 \<noteq> [] \<or> deferredMemInsts q4 \<noteq> [] \<or> dolmaStalledInsts q4 \<noteq> []
               then q4\<lparr>iq_activity := True\<rparr> else q4) }"
proof -
  from releases_end[OF assms] obtain q3 where q3: "do {
     q1 \<leftarrow> release_loop getDolmaStalledInstToExecute h q;
     q2 \<leftarrow> release_loop getDeferredMemInstToExecute h q1;
     release_loop (\<lambda>_. getBlockedMemInstToExecute) h q2 } = Some q3"
    "ready_wf h (iq_ready q3)" "launched q3 = launched q" "totalWidth q3 = totalWidth q"
    "memDepUnit q3 = memDepUnit q" "fuPool q3 = fuPool q" .
  then have "scheduleReadyInsts c rob (h, q) = do {
     (total_issued, h4, q4) \<leftarrow> schedule_loop c rob 0 (first_node (listOrder (iq_ready q3))) h q3;
     Some (h4, if total_issued \<noteq> 0 \<or> retryMemInsts q4 \<noteq> [] \<or> deferredMemInsts q4 \<noteq> [] \<or> dolmaStalledInsts q4 \<noteq> []
               then q4\<lparr>iq_activity := True\<rparr> else q4) }"
    by (auto simp: scheduleReadyInsts_def bind_eq_Some_conv)
  with q3(2-) show thesis by (rule that)
qed

lemma scheduleReadyInsts_launches:
  assumes "ready_wf h (iq_ready q)" and "scheduleReadyInsts c rob (h, q) = Some (h', q')"
  shows "same_view h h' \<and> (\<exists>ps. mset (launched q') = mset ps + mset (launched q) \<and> length ps \<le> unat (totalWidth q) \<and>
     (\<forall>p \<in> set ps. may_launch c (h p)))"
proof -
  obtain q3 where q3: "ready_wf h (iq_ready q3)" "launched q3 = launched q" "totalWidth q3 = totalWidth q"
      "memDepUnit q3 = memDepUnit q" "fuPool q3 = fuPool q"
    and run: "scheduleReadyInsts c rob (h, q) = do {
     (total_issued, h4, q4) \<leftarrow> schedule_loop c rob 0 (first_node (listOrder (iq_ready q3))) h q3;
     Some (h4, if total_issued \<noteq> 0 \<or> retryMemInsts q4 \<noteq> [] \<or> deferredMemInsts q4 \<noteq> [] \<or> dolmaStalledInsts q4 \<noteq> []
               then q4\<lparr>iq_activity := True\<rparr> else q4) }"
    using scheduleReadyInsts_loop[OF assms(1)] .
  then obtain n q4 where l: "schedule_loop c rob 0 (first_node (listOrder (iq_ready q3))) h q3 = Some (n, h', q4)"
    and "q' = q4 \<or> q' = q4\<lparr>iq_activity := True\<rparr>"
    using assms(2) by (auto simp: run)
  then have "launched q' = launched q4" by (auto simp: launched_def)
  with schedule_loop_view[OF l] q3 show ?thesis by auto
qed

section \<open>Contention for a functional unit\<close>

definition set_queue :: "op_class \<Rightarrow> fu_idx_queue \<Rightarrow> inst_queue \<Rightarrow> inst_queue" where
  "set_queue cl l q = q\<lparr>fuPool := (fuPool q)\<lparr>fuPerCapList := (fuPerCapList (fuPool q))(cl := l)\<rparr>\<rparr>"

lemma set_queue_simps [simp]:
  "unitBusy (fuPool (set_queue cl l q)) = unitBusy (fuPool q)" "numFU (fuPool (set_queue cl l q)) = numFU (fuPool q)"
  "capabilityList (fuPool (set_queue cl l q)) = capabilityList (fuPool q)"
  "fuPerCapList (fuPool (set_queue cl l q)) cl = l" "set_queue cl l' (set_queue cl l q) = set_queue cl l' q"
  "same_sched q (set_queue cl l q)"
  by (simp_all add: set_queue_def same_sched_def)

lemma set_queue_same: "fuPerCapList (fuPool q) cl = l \<Longrightarrow> set_queue cl l q = q"
  by (auto simp: set_queue_def)

lemma next_unit_set: "getFU (fuPerCapList (fuPool q) cl) = Some (u, l) \<Longrightarrow> next_unit cl q = Some (u, set_queue cl l q)"
  by (simp add: next_unit_def set_queue_def)

text \<open>The instruction of the issuing thread that holds a unit.\<close>

definition holder :: "rob \<Rightarrow> inst_heap \<Rightarrow> iptr \<Rightarrow> inst_queue \<Rightarrow> nat \<Rightarrow> iptr option" where
  "holder rob h p q u = findInst rob h (threadNumber (h p)) (unitBusy (fuPool q) ! u)"

lemma holder_set_queue [simp]: "holder rob h p (set_queue cl l q) = holder rob h p q"
  by (simp add: holder_def fun_eq_iff)

text \<open>
  The search visits every unit of the class once and takes the first that is held by a younger
  restricted instruction.
\<close>

definition take_first :: "dolma_cpu \<Rightarrow> rob \<Rightarrow> iptr \<Rightarrow> nat list \<Rightarrow> inst_heap \<Rightarrow> inst_queue \<Rightarrow> (int \<times> iq_state) option" where
  "take_first c rob p us h q =
     (case find (\<lambda>u. evictable h p (holder rob h p q u)) us of
        None \<Rightarrow> Some (-1, h, q)
      | Some u \<Rightarrow> do { s \<leftarrow> evict c p (the (holder rob h p q u)) u (h, q); Some (int u, s) })"

lemma evict_loop_spec:
  assumes "queue_ok (fuPerCapList (fuPool q) cl)" and "queue_contents (fuPerCapList (fuPool q) cl) = rest @ vis @ [fu]"
    and "distinct (rest @ vis @ [fu])" and "hd (vis @ [fu]) = start"
    and "\<forall>u \<in> set (rest @ vis @ [fu]). u < length (unitBusy (fuPool q)) \<and> unitBusy (fuPool q) ! u \<noteq> 0"
  shows "\<exists>l. evict_loop c rob p cl start fu h q = take_first c rob p (fu # rest) h (set_queue cl l q) \<and>
     queue_ok l \<and> distinct (queue_contents l) \<and> set (queue_contents l) = set (rest @ vis @ [fu])"
  using assms
proof (induction rest arbitrary: q vis fu)
  case Nil
  have e: "queue_contents (fuPerCapList (fuPool q) cl) = start # tl (vis @ [fu])"
    using Nil.prems(2,4) by (cases vis) auto
  obtain l where l: "getFU (fuPerCapList (fuPool q) cl) = Some (start, l)"
    "queue_contents l = tl (vis @ [fu]) @ [start]" "queue_ok l"
    using fuq.get_Cons[OF Nil.prems(1) e] by blast
  have d: "distinct (queue_contents l) \<and> set (queue_contents l) = set (vis @ [fu])"
    using l(2) Nil.prems(3,4) by (cases vis) auto
  show ?case
  proof (cases "evictable h p (holder rob h p q fu)")
    case True
    then have "evict_loop c rob p cl start fu h q = take_first c rob p [fu] h q"
      using Nil.prems(5) by (subst evict_loop.simps) (simp add: Let_def holder_def take_first_def)
    then show ?thesis using Nil.prems(1-3) by (intro exI[of _ "fuPerCapList (fuPool q) cl"]) (simp add: set_queue_same)
  next
    case False
    then have "evict_loop c rob p cl start fu h q = take_first c rob p [fu] h (set_queue cl l q)"
      using Nil.prems(5) next_unit_set[OF l(1)]
      by (subst evict_loop.simps) (simp add: Let_def holder_def take_first_def)
    then show ?thesis using l(3) d by (intro exI[of _ l]) simp
  qed
next
  case (Cons x rest)
  have e: "queue_contents (fuPerCapList (fuPool q) cl) = x # (rest @ vis @ [fu])" using Cons.prems(2) by simp
  obtain l where l: "getFU (fuPerCapList (fuPool q) cl) = Some (x, l)"
    "queue_contents l = (rest @ vis @ [fu]) @ [x]" "queue_ok l"
    using fuq.get_Cons[OF Cons.prems(1) e] by blast
  show ?case
  proof (cases "evictable h p (holder rob h p q fu)")
    case True
    then have "evict_loop c rob p cl start fu h q = take_first c rob p (fu # x # rest) h q"
      using Cons.prems(5) by (subst evict_loop.simps) (simp add: Let_def holder_def take_first_def)
    then show ?thesis using Cons.prems(1-3) by (intro exI[of _ "fuPerCapList (fuPool q) cl"]) (simp add: set_queue_same)
  next
    case False
    have ne: "x \<noteq> start" using Cons.prems(3,4) by (cases vis) auto
    have step: "evict_loop c rob p cl start fu h q = evict_loop c rob p cl start x h (set_queue cl l q)"
      using False Cons.prems(5) next_unit_set[OF l(1)] ne
      by (subst evict_loop.simps) (simp add: Let_def holder_def)
    have "\<exists>l'. evict_loop c rob p cl start x h (set_queue cl l q) =
          take_first c rob p (x # rest) h (set_queue cl l' (set_queue cl l q)) \<and>
        queue_ok l' \<and> distinct (queue_contents l') \<and> set (queue_contents l') = set (rest @ (vis @ [fu]) @ [x])"
      using l Cons.prems by (intro Cons.IH) (auto simp: hd_append)
    then obtain l' where l': "evict_loop c rob p cl start x h (set_queue cl l q) = take_first c rob p (x # rest) h (set_queue cl l' q)"
       "queue_ok l'" "distinct (queue_contents l')" "set (queue_contents l') = set (rest @ (vis @ [fu]) @ [x])"
      by auto
    have "take_first c rob p (fu # x # rest) h (set_queue cl l' q) = take_first c rob p (x # rest) h (set_queue cl l' q)"
      using False by (simp add: take_first_def)
    then show ?thesis unfolding step
      by (intro exI[of _ l']) (use l' in auto)
  qed
qed

abbreviation units_of :: "op_class \<Rightarrow> inst_queue \<Rightarrow> nat list" where
  "units_of cl q \<equiv> queue_contents (fuPerCapList (fuPool q) cl)"

lemma evict_search_spec:
  assumes "fu_pool_wf (fuPool q)" and "cl \<in> capabilityList (fuPool q)" and "\<forall>u \<in> set (units_of cl q). unitBusy (fuPool q) ! u \<noteq> 0"
  shows "\<exists>l us. do { (u, q2) \<leftarrow> next_unit cl q; evict_loop c rob p cl u u h q2 } = take_first c rob p us h (set_queue cl l q) \<and>
     set us = set (units_of cl q) \<and> queue_ok l \<and> distinct (queue_contents l) \<and> set (queue_contents l) = set (units_of cl q)"
proof -
  let ?L = "units_of cl q"
  from assms have k: "queue_ok (fuPerCapList (fuPool q) cl)" "distinct ?L" "?L \<noteq> []" "\<forall>u \<in> set ?L. u < length (unitBusy (fuPool q))"
    by (auto simp: fu_pool_wf_def queues_wf_def)
  then obtain x rest where L: "?L = x # rest" by (cases ?L) auto
  obtain l where l: "getFU (fuPerCapList (fuPool q) cl) = Some (x, l)" "queue_contents l = rest @ [x]" "queue_ok l"
    using fuq.get_Cons[OF k(1) L] by blast
  have "\<exists>l'. evict_loop c rob p cl x x h (set_queue cl l q) = take_first c rob p (x # rest) h (set_queue cl l' (set_queue cl l q)) \<and>
     queue_ok l' \<and> distinct (queue_contents l') \<and> set (queue_contents l') = set (rest @ [] @ [x])"
    using l k assms(3) L by (intro evict_loop_spec) auto
  then show ?thesis using next_unit_set[OF l(1)] L by (auto intro!: exI[of _ "x # rest"])
qed

lemma acquire_unit_spec:
  assumes wf: "fu_pool_wf (fuPool q)" and sn: "seqNum (h p) \<noteq> 0"
  shows "\<exists>l us. acquire_unit c rob p cl (h, q) =
     (if cl \<notin> capabilityList (fuPool q) then Some (-2, h, q)
      else case find (\<lambda>u. unitBusy (fuPool q) ! u = 0) (units_of cl q) of
         Some u \<Rightarrow> Some (int u, h, (set_queue cl l q)\<lparr>fuPool := (fuPool (set_queue cl l q))\<lparr>unitBusy := (unitBusy (fuPool q))[u := seqNum (h p)]\<rparr>\<rparr>)
       | None \<Rightarrow> if isDolma c \<and> \<not> isSTT c then take_first c rob p us h (set_queue cl l q)
                 else Some (-1, h, set_queue cl l q)) \<and>
     set us = set (units_of cl q) \<and> queue_ok l \<and> distinct (queue_contents l) \<and> set (queue_contents l) = set (units_of cl q)"
proof -
  from getUnit_spec[OF wf sn, of cl] obtain l0 where g0: "getUnit cl (seqNum (h p)) (fuPool q) =
     Some (if cl \<notin> capabilityList (fuPool q) then (-2, fuPool q)
           else case find (\<lambda>u. unitBusy (fuPool q) ! u = 0) (units_of cl q) of
              None \<Rightarrow> (-1, (fuPool q)\<lparr>fuPerCapList := (fuPerCapList (fuPool q))(cl := l0)\<rparr>)
            | Some u \<Rightarrow> (int u, (fuPool q)\<lparr>fuPerCapList := (fuPerCapList (fuPool q))(cl := l0), unitBusy := (unitBusy (fuPool q))[u := seqNum (h p)]\<rparr>))"
    and l0: "queue_ok l0" "distinct (queue_contents l0)" "set (queue_contents l0) = set (units_of cl q)"
    by blast
  have g: "getUnit cl (seqNum (h p)) (fuPool q) =
     Some (if cl \<notin> capabilityList (fuPool q) then (-2, fuPool q)
           else case find (\<lambda>u. unitBusy (fuPool q) ! u = 0) (units_of cl q) of
              None \<Rightarrow> (-1, fuPool (set_queue cl l0 q))
            | Some u \<Rightarrow> (int u, (fuPool (set_queue cl l0 q))\<lparr>unitBusy := (unitBusy (fuPool q))[u := seqNum (h p)]\<rparr>))"
    unfolding g0 by (simp add: set_queue_def split: option.split)
  show ?thesis
  proof (cases "cl \<in> capabilityList (fuPool q) \<and> find (\<lambda>u. unitBusy (fuPool q) ! u = 0) (units_of cl q) = None \<and> isDolma c \<and> \<not> isSTT c")
    case True
    let ?q = "set_queue cl l0 q"
    have q: "q\<lparr>fuPool := fuPool ?q\<rparr> = ?q" by (simp add: set_queue_def)
    have "fu_pool_wf (fuPool ?q)"
      using wf queues_wf_upd[OF _ l0] by (auto simp: fu_pool_wf_def set_queue_def)
    moreover have "\<forall>u \<in> set (units_of cl ?q). unitBusy (fuPool ?q) ! u \<noteq> 0"
      using True l0(3) by (auto simp: find_None_iff)
    ultimately obtain l us where
      "do { (u, q2) \<leftarrow> next_unit cl ?q; evict_loop c rob p cl u u h q2 } = take_first c rob p us h (set_queue cl l ?q)"
      "set us = set (units_of cl ?q)" "queue_ok l" "distinct (queue_contents l)" "set (queue_contents l) = set (units_of cl ?q)"
      using evict_search_spec[of ?q cl c rob p h] True by auto
    then show ?thesis using True g l0(3) by (intro exI[of _ l] exI[of _ us]) (simp add: acquire_unit_def q)
  next
    case False
    then show ?thesis using g l0 wf
      by (intro exI[of _ l0] exI[of _ "units_of cl q"])
        (auto simp: acquire_unit_def set_queue_def split: option.splits)
  qed
qed

end
