(* ===== verification/Iq_Issue.thy ===== *)
theory Iq_Issue
  imports Iq_Schedule
begin

text \<open>
  The scheduler returns: every turn of its loop takes an instruction off a ready queue or moves on
  in the order list. Then the properties of the scheduler.
\<close>

section \<open>Termination of the scheduling loop\<close>

text \<open>
  The states the scheduler starts from: well-formed ready queues, functional units and store set
  tables; sequence numbers start at 1; nothing is restricted if the CPU defends itself.
\<close>

definition sched_ok :: "dolma_cpu \<Rightarrow> inst_heap \<Rightarrow> inst_queue \<Rightarrow> bool" where
  "sched_ok c h q \<longleftrightarrow> ready_wf h (iq_ready q) \<and> fu_pool_wf (fuPool q) \<and> (\<forall>t. store_set_wf (depPred (memDepUnit q t))) \<and>
     (\<forall>x. seqNum (h x) \<noteq> 0) \<and> (isDolma c \<or> isSTT c \<longrightarrow> (\<forall>x. \<not> isDolmaRestricted (h x)))"

lemma ready_wf_view: "same_view h h' \<Longrightarrow> ready_wf h' r = ready_wf h r"
  by (simp add: same_view_def ready_wf_def)

lemma fu_pool_wf_set_queue:
  assumes "fu_pool_wf (fuPool q)" and "queue_ok l" and "distinct (queue_contents l)"
    and "set (queue_contents l) = set (units_of cl q)"
  shows "fu_pool_wf (fuPool (set_queue cl l q))"
  using assms queues_wf_upd[OF _ assms(2-4)] by (simp add: fu_pool_wf_def set_queue_def)

lemma fu_pool_wf_simps [simp]:
  "fu_pool_wf (p\<lparr>unitsToBeFreed := l\<rparr>) = fu_pool_wf p"
  "fu_pool_wf (p\<lparr>unitBusy := (unitBusy p)[u := sn]\<rparr>) = fu_pool_wf p"
  by (simp_all add: fu_pool_wf_def queues_wf_def)

lemma find_in: "find P l = Some x \<Longrightarrow> x \<in> set l \<and> P x"
  by (induction l) (auto split: if_splits)

lemma acquire_unit_calm:
  assumes ok: "sched_ok c h q"
  shows "\<exists>idx q'. acquire_unit c rob p cl (h, q) = Some (idx, h, q') \<and> fu_pool_wf (fuPool q') \<and> same_sched q q' \<and>
     (idx \<ge> 0 \<longrightarrow> nat idx < length (unitBusy (fuPool q')) \<and> unitBusy (fuPool q') ! nat idx \<noteq> 0)"
proof -
  from ok have wf: "fu_pool_wf (fuPool q)" and sn: "seqNum (h p) \<noteq> 0" by (auto simp: sched_ok_def)
  obtain l us where a: "acquire_unit c rob p cl (h, q) =
     (if cl \<notin> capabilityList (fuPool q) then Some (-2, h, q)
      else case find (\<lambda>u. unitBusy (fuPool q) ! u = 0) (units_of cl q) of
         Some u \<Rightarrow> Some (int u, h, (set_queue cl l q)\<lparr>fuPool := (fuPool (set_queue cl l q))\<lparr>unitBusy := (unitBusy (fuPool q))[u := seqNum (h p)]\<rparr>\<rparr>)
       | None \<Rightarrow> if isDolma c \<and> \<not> isSTT c then take_first c rob p us h (set_queue cl l q)
                 else Some (-1, h, set_queue cl l q))"
     and l: "queue_ok l" "distinct (queue_contents l)" "set (queue_contents l) = set (units_of cl q)"
    using acquire_unit_spec[of q h p c rob cl, OF wf sn] by blast
  have w: "fu_pool_wf (fuPool (set_queue cl l q))" by (rule fu_pool_wf_set_queue[OF wf l])
  show ?thesis
  proof (cases "cl \<in> capabilityList (fuPool q)")
    case False
    then show ?thesis using a wf by simp
  next
    case True
    show ?thesis
    proof (cases "find (\<lambda>u. unitBusy (fuPool q) ! u = 0) (units_of cl q)")
      case None
      have "take_first c rob p us h (set_queue cl l q) = Some (-1, h, set_queue cl l q)" if "isDolma c"
      proof -
        have "\<not> evictable h p x" for x using ok that by (simp add: sched_ok_def evictable_def split: option.split)
        then have "find (\<lambda>u. evictable h p (holder rob h p q u)) us = None" by (simp add: find_None_iff)
        then show ?thesis by (simp add: take_first_def)
      qed
      then show ?thesis using a None True w by auto
    next
      case (Some u)
      then have "u < length (unitBusy (fuPool q))"
        using wf by (auto simp: fu_pool_wf_def queues_wf_def dest: find_in)
      moreover have "fu_pool_wf ((fuPool (set_queue cl l q))\<lparr>unitBusy := (unitBusy (fuPool q))[u := seqNum (h p)]\<rparr>)"
        using w fu_pool_wf_simps(2)[of "fuPool (set_queue cl l q)"] by simp
      moreover have "same_sched q ((set_queue cl l q)\<lparr>fuPool := p'\<rparr>)" for p' by (simp add: same_sched_def set_queue_def)
      ultimately show ?thesis using a Some True sn by simp
    qed
  qed
qed

lemma start_execution_ends:
  assumes "fu_pool_wf (fuPool q)" and "lat \<noteq> 1 \<Longrightarrow> idx \<ge> 0"
    and "idx \<ge> 0 \<Longrightarrow> nat idx < length (unitBusy (fuPool q)) \<and> unitBusy (fuPool q) ! nat idx \<noteq> 0"
  shows "\<exists>q'. start_execution p idx cl lat q = Some q' \<and> fu_pool_wf (fuPool q')"
  using assms by (auto simp: start_execution_def Let_def free_next_cycle_def freeUnitNextCycle_def)

lemma leave_queue_ends:
  assumes "\<forall>t. store_set_wf (depPred (memDepUnit q t))"
  shows "\<exists>h' q'. leave_queue p (h, q) = Some (h', q') \<and> (\<forall>t. store_set_wf (depPred (memDepUnit q' t))) \<and> fuPool q' = fuPool q"
proof (cases "isMemRef (h p)")
  case True
  obtain d where "issued (instAddr (set_status Issued (h p))) (seqNum (h p)) (isStore (h p)) (depPred (memDepUnit q (threadNumber (h p)))) = Some d"
    "store_set_wf d"
    using issued_wf assms by blast
  then show ?thesis using True assms by (simp add: leave_queue_def Let_def on_memdep_def md_issue_def)
qed (use assms in \<open>simp add: leave_queue_def Let_def\<close>)

text \<open>The turn at an entry of the order list.\<close>

lemma order_entry_at:
  assumes wf: "ready_wf h r" and l: "listOrder r = pre @ e # post"
  shows "deref (node e) (listOrder r) = Some e" and "next_it (node e) (listOrder r) = Some (first_node post)"
    and "\<exists>p ps. readyInsts r (queueType e) = p # ps"
proof -
  have d: "distinct (map node (listOrder r))" and e: "e \<in> set (listOrder r)" using wf l by (auto simp: ready_wf_def)
  obtain pre' post' where s: "listOrder r = pre' @ e # post'" "deref (node e) (listOrder r) = Some e"
    "next_it (node e) (listOrder r) = Some (case post' of [] \<Rightarrow> None | e' # _ \<Rightarrow> Some (node e'))"
    using erase_split[OF d e] by metis
  have "e \<notin> set pre \<and> e \<notin> set post" using d unfolding l by auto
  moreover have "pre @ e # post = pre' @ e # post'" using l s(1) by simp
  ultimately have "post' = post" by (metis append_Cons_eq_iff)
  then show "deref (node e) (listOrder r) = Some e" "next_it (node e) (listOrder r) = Some (first_node post)"
    using s by (simp_all add: first_node_def)
  have "readyInsts r (queueType e) \<noteq> []" using wf e by (simp add: ready_wf_def)
  then show "\<exists>p ps. readyInsts r (queueType e) = p # ps" by (cases "readyInsts r (queueType e)") auto
qed

lemma take_top_step:
  assumes wf: "ready_wf h r" and l: "listOrder r = pre @ e # post"
  obtains r' post' where "take_top (node e) (queueType e) h r = Some (first_node post', r')" and "ready_wf h r'"
    and "listOrder r' = pre @ post'"
    and "size (ready_mset r') + length post' < size (ready_mset r) + length (e # post)"
proof -
  from take_top_wf[OF assms] obtain r' post' where t:
    "take_top (node e) (queueType e) h r = Some (first_node post', r')" "ready_wf h r'"
    "listOrder r' = pre @ post'" "length post' \<le> Suc (length post)"
    "readyInsts r' = (readyInsts r)(queueType e := tl (readyInsts r (queueType e)))" by blast
  obtain p ps where r: "readyInsts r (queueType e) = p # ps" using order_entry_at(3)[OF assms] by blast
  have "ready_mset r' = ready_mset (r\<lparr>readyInsts := (readyInsts r)(queueType e := ps)\<rparr>)"
    using t(5) r by (intro ready_mset_cong) simp
  then have "ready_mset r' + mset (p # ps) = ready_mset r + mset ps"
    using ready_mset_update[of r "queueType e" ps] r by simp
  then have "size (ready_mset r') + size (mset (p # ps)) = size (ready_mset r) + size (mset ps)"
    by (metis size_union)
  then show thesis using t by (intro that[of post' r']) auto
qed

lemma sched_ok_view:
  assumes "sched_ok c h q" and "same_view h h'" and "ready_wf h (iq_ready q')" and "fu_pool_wf (fuPool q')"
    and "\<forall>t. store_set_wf (depPred (memDepUnit q' t))"
  shows "sched_ok c h' q'"
  using assms ready_wf_view[OF assms(2)] by (simp add: sched_ok_def same_view_def)

lemma issue_top_step:
  assumes ok: "sched_ok c h q" and l: "listOrder (iq_ready q) = pre @ e # post"
  shows "\<exists>iss pre' post' h' q'. issue_top c rob (node e) (queueType e) p (h, q) = Some (iss, first_node post', h', q') \<and>
     sched_ok c h' q' \<and> listOrder (iq_ready q') = pre' @ post' \<and>
     size (ready_mset (iq_ready q')) + length post' < size (ready_mset (iq_ready q)) + length (e # post)"
proof -
  let ?cl = "queueType e"
  have wf: "ready_wf h (iq_ready q)" using ok by (simp add: sched_ok_def)
  obtain idx q1 where a: "(if ?cl \<noteq> No_OpClass then acquire_unit c rob p ?cl (h, q) else Some (-2, h, q)) = Some (idx, h, q1)"
    and f: "fu_pool_wf (fuPool q1)" and same: "same_sched q q1"
    and b: "idx \<ge> 0 \<Longrightarrow> nat idx < length (unitBusy (fuPool q1)) \<and> unitBusy (fuPool q1) ! nat idx \<noteq> 0"
  proof (cases "?cl = No_OpClass")
    case True
    then show thesis using ok by (intro that[of "-2" q]) (simp_all add: sched_ok_def)
  next
    case False
    then show thesis using acquire_unit_calm[OF ok, of rob p ?cl] that by auto
  qed
  from same have r1: "iq_ready q1 = iq_ready q" and m1: "memDepUnit q1 = memDepUnit q" by (simp_all add: same_sched_def)
  show ?thesis
  proof (cases "idx = -1")
    case True
    have "issue_top c rob (node e) ?cl p (h, q) = Some (False, first_node post, h, q1)"
      using a True r1 order_entry_at(2)[OF wf l] by (simp add: issue_top_def)
    moreover have "sched_ok c h q1" using ok f r1 m1 by (simp add: sched_ok_def)
    ultimately show ?thesis using l r1 by (intro exI[of _ False] exI[of _ "pre @ [e]"] exI[of _ post]) simp
  next
    case False
    let ?lat = "if ?cl \<noteq> No_OpClass \<and> idx > -1 then getOpLatency ?cl (fuPool q1) else 1"
    have "idx \<ge> 0" if "?lat \<noteq> 1" using that by (simp split: if_splits)
    then obtain q2 where s: "start_execution p idx ?cl ?lat q1 = Some q2" "fu_pool_wf (fuPool q2)"
      using start_execution_ends[of q1 ?lat idx p ?cl, OF f _ b] by blast
    from start_execution_view[OF s(1)] have 2: "iq_ready q2 = iq_ready q" "memDepUnit q2 = memDepUnit q" using r1 m1 by auto
    obtain r' post' where t: "take_top (node e) ?cl h (iq_ready q) = Some (first_node post', r')" "ready_wf h r'"
      "listOrder r' = pre @ post'" "size (ready_mset r') + length post' < size (ready_mset (iq_ready q)) + length (e # post)"
      by (rule take_top_step[OF wf l])
    let ?q3 = "q2\<lparr>iq_ready := r'\<rparr>"
    have "\<forall>t. store_set_wf (depPred (memDepUnit ?q3 t))" using ok 2 by (simp add: sched_ok_def)
    then obtain h' q' where lv: "leave_queue p (h, ?q3) = Some (h', q')" "\<forall>t. store_set_wf (depPred (memDepUnit q' t))"
      "fuPool q' = fuPool ?q3" using leave_queue_ends by blast
    note v = leave_queue_view[OF lv(1)]
    have "issue_top c rob (node e) ?cl p (h, q) = Some (True, first_node post', h', q')"
      using a False s(1) 2 t(1) lv(1) by (simp add: issue_top_def Let_def)
    moreover have "sched_ok c h' q'"
      using v lv t(2) s(2) by (intro sched_ok_view[OF ok]) auto
    ultimately show ?thesis using v t(3,4) by (intro exI[of _ True] exI[of _ pre] exI[of _ post']) simp
  qed
qed

lemma schedule_one_step:
  assumes ok: "sched_ok c h q" and l: "listOrder (iq_ready q) = pre @ e # post"
  shows "\<exists>iss pre' post' h' q'. schedule_one c rob (node e) (h, q) = Some (iss, first_node post', h', q') \<and>
     sched_ok c h' q' \<and> listOrder (iq_ready q') = pre' @ post' \<and>
     size (ready_mset (iq_ready q')) + length post' < size (ready_mset (iq_ready q)) + length (e # post)"
proof -
  have wf: "ready_wf h (iq_ready q)" using ok by (simp add: sched_ok_def)
  obtain p ps where p: "readyInsts (iq_ready q) (queueType e) = p # ps" using order_entry_at(3)[OF wf l] by blast
  have free: "\<not> (isSTT c \<and> isDolmaRestricted (h p) \<and> isLoad (h p))" using ok by (auto simp: sched_ok_def)
  have one: "schedule_one c rob (node e) (h, q) =
      (if isSquashed (h p) then drop_squashed (node e) (queueType e) (h, q) else issue_top c rob (node e) (queueType e) p (h, q))"
    using order_entry_at(1)[OF wf l] p free by (auto simp: schedule_one_def pq_top_def Let_def)
  show ?thesis
  proof (cases "isSquashed (h p)")
    case True
    obtain r' post' where t: "take_top (node e) (queueType e) h (iq_ready q) = Some (first_node post', r')" "ready_wf h r'"
      "listOrder r' = pre @ post'" "size (ready_mset r') + length post' < size (ready_mset (iq_ready q)) + length (e # post)"
      by (rule take_top_step[OF wf l])
    then have "schedule_one c rob (node e) (h, q) = Some (False, first_node post', h, q\<lparr>iq_ready := r'\<rparr>)"
      using one True by (simp add: drop_squashed_def)
    moreover have "sched_ok c h (q\<lparr>iq_ready := r'\<rparr>)" using ok t(2) by (simp add: sched_ok_def)
    ultimately show ?thesis using t(3,4) by (intro exI[of _ False] exI[of _ pre] exI[of _ post']) simp
  next
    case False
    then show ?thesis using one issue_top_step[OF ok l] by simp
  qed
qed

lemma schedule_loop_ends:
  assumes "sched_ok c h q" and "listOrder (iq_ready q) = pre @ post"
  shows "\<exists>n' h' q'. schedule_loop c rob n (first_node post) h q = Some (n', h', q') \<and> sched_ok c h' q'"
  using assms
proof (induction "size (ready_mset (iq_ready q)) + length post" arbitrary: n pre post h q rule: less_induct)
  case less
  show ?case
  proof (cases "n < unat (totalWidth q) \<and> post \<noteq> []")
    case False
    then have "schedule_loop c rob n (first_node post) h q = Some (n, h, q)"
      by (subst schedule_loop.simps) (auto simp: first_node_def)
    then show ?thesis using less.prems(1) by simp
  next
    case True
    then obtain e es where e: "post = e # es" by (cases post) auto
    from schedule_one_step[OF less.prems(1), of pre e es rob] less.prems(2) e
    obtain iss pre' post' h' q' where s: "schedule_one c rob (node e) (h, q) = Some (iss, first_node post', h', q')"
      "sched_ok c h' q'" "listOrder (iq_ready q') = pre' @ post'"
      "size (ready_mset (iq_ready q')) + length post' < size (ready_mset (iq_ready q)) + length post"
      by auto
    have "schedule_loop c rob n (first_node post) h q = schedule_loop c rob (if iss then Suc n else n) (first_node post') h' q'"
      using True s(1) by (subst schedule_loop.simps) (simp add: e first_node_def)
    then show ?thesis using less.hyps[OF s(4,2,3)] by simp
  qed
qed

section \<open>Nothing that waits is lost\<close>

text \<open>The instructions that wait in the queue: on a ready queue, or on one of the lists of delayed instructions.\<close>

definition iq_delayed :: "inst_queue \<Rightarrow> iptr multiset" where
  "iq_delayed q = mset (dolmaStalledInsts q) + mset (deferredMemInsts q) + mset (retryMemInsts q)"

definition iq_waiting :: "inst_queue \<Rightarrow> iptr multiset" where
  "iq_waiting q = ready_mset (iq_ready q) + iq_delayed q"

text \<open>
  What the turns of the loop do with the instructions of the ready queues: \<open>ps\<close> are sent to
  execution, \<open>dr\<close> are dropped and \<open>st\<close> are stalled.
\<close>

definition moves :: "inst_heap \<Rightarrow> inst_queue \<Rightarrow> inst_queue \<Rightarrow> bool" where
  "moves h q q' \<longleftrightarrow> (\<exists>ps dr st. mset (launched q') = ps + mset (launched q) \<and>
     ready_mset (iq_ready q) = ready_mset (iq_ready q') + ps + dr + st \<and> (\<forall>x \<in># dr. isSquashed (h x)) \<and>
     mset (dolmaStalledInsts q) + st \<subseteq># mset (dolmaStalledInsts q') \<and>
     deferredMemInsts q' = deferredMemInsts q \<and> retryMemInsts q' = retryMemInsts q)"

lemma movesI:
  assumes "mset (launched q') = ps + mset (launched q)" "ready_mset (iq_ready q) = ready_mset (iq_ready q') + ps + dr + st"
    and "\<forall>x \<in># dr. isSquashed (h x)" "mset (dolmaStalledInsts q) + st \<subseteq># mset (dolmaStalledInsts q')"
    and "deferredMemInsts q' = deferredMemInsts q" "retryMemInsts q' = retryMemInsts q"
  shows "moves h q q'"
  unfolding moves_def using assms by blast

lemma moves_refl: "moves h q q"
  by (rule movesI[of _ "{#}" _ "{#}" "{#}"]) simp_all

lemma moves_trans:
  assumes "moves h q q1" "moves h1 q1 q2" "same_view h h1"
  shows "moves h q q2"
proof -
  obtain ps dr st where 1: "mset (launched q1) = ps + mset (launched q)" "ready_mset (iq_ready q) = ready_mset (iq_ready q1) + ps + dr + st"
    "\<forall>x \<in># dr. isSquashed (h x)" "mset (dolmaStalledInsts q) + st \<subseteq># mset (dolmaStalledInsts q1)"
    "deferredMemInsts q1 = deferredMemInsts q" "retryMemInsts q1 = retryMemInsts q"
    using assms(1) unfolding moves_def by blast
  obtain ps' dr' st' where 2: "mset (launched q2) = ps' + mset (launched q1)" "ready_mset (iq_ready q1) = ready_mset (iq_ready q2) + ps' + dr' + st'"
    "\<forall>x \<in># dr'. isSquashed (h1 x)" "mset (dolmaStalledInsts q1) + st' \<subseteq># mset (dolmaStalledInsts q2)"
    "deferredMemInsts q2 = deferredMemInsts q1" "retryMemInsts q2 = retryMemInsts q1"
    using assms(2) unfolding moves_def by blast
  have "mset (dolmaStalledInsts q) + (st + st') \<subseteq># mset (dolmaStalledInsts q2)"
    unfolding add.assoc[symmetric] by (rule subset_mset.order_trans[OF subset_mset.add_right_mono[OF 1(4)] 2(4)])
  moreover have "\<forall>x \<in># dr + dr'. isSquashed (h x)" using 1(3) 2(3) assms(3) by (auto simp: same_view_def)
  ultimately show ?thesis
    using 1 2 by (intro movesI[of _ "ps + ps'" _ "dr + dr'" "st + st'"]) (simp_all add: ac_simps)
qed

lemma prefix_mset: "prefix xs ys \<Longrightarrow> mset xs \<subseteq># mset ys"
  by (auto elim!: prefixE)

lemma take_top_content:
  assumes "take_top it cl h r = Some (n, r')"
  shows "\<exists>p ps. readyInsts r cl = p # ps \<and> ready_mset r = add_mset p (ready_mset r')"
proof -
  have m: "moveToYoungerInst it h r1 = Some r2 \<Longrightarrow> readyInsts r2 = readyInsts r1" for r1 r2
    by (auto simp: moveToYoungerInst_def Let_def)
  obtain p ps where p: "readyInsts r cl = p # ps" using assms by (cases "readyInsts r cl") (auto simp: take_top_def split: if_splits)
  have "readyInsts r' = (readyInsts r)(cl := ps)"
    using assms p by (auto simp: take_top_def Let_def dest!: m split: if_splits)
  then have "ready_mset r' = ready_mset (r\<lparr>readyInsts := (readyInsts r)(cl := ps)\<rparr>)" by (intro ready_mset_cong) simp
  then show ?thesis using p ready_mset_update[of r cl ps] by simp
qed

lemma issue_top_moves:
  assumes "issue_top c rob it cl p (h, q) = Some (iss, nxt, h', q')" and top: "readyInsts (iq_ready q) cl = p # ps"
  shows "moves h q q'"
proof -
  obtain idx h1 q1 where a: "(if cl \<noteq> No_OpClass then acquire_unit c rob p cl (h, q) else Some (-2, h, q)) = Some (idx, h1, q1)"
    and r: "(if idx \<noteq> -1 then do {
        q2 \<leftarrow> start_execution p idx cl (if cl \<noteq> No_OpClass \<and> idx > -1 then getOpLatency cl (fuPool q1) else 1) q1;
        (nxt, r) \<leftarrow> take_top it cl h1 (iq_ready q2);
        s3 \<leftarrow> leave_queue p (h1, q2\<lparr>iq_ready := r\<rparr>);
        Some (True, nxt, s3) }
      else do {
        nxt \<leftarrow> next_it it (listOrder (iq_ready q1));
        Some (False, nxt, h1, q1) }) = Some (iss, nxt, h', q')"
    using assms(1) by (auto simp: issue_top_def Let_def)
  have v: "same_sched q q1" using a by (auto dest: acquire_unit_view split: if_splits)
  then have s1: "mset (dolmaStalledInsts q) \<subseteq># mset (dolmaStalledInsts q1)" "launched q1 = launched q" "iq_ready q1 = iq_ready q"
    "deferredMemInsts q1 = deferredMemInsts q" "retryMemInsts q1 = retryMemInsts q"
    by (simp_all add: same_sched_def prefix_mset launched_def)
  show ?thesis
  proof (cases "idx = -1")
    case True
    then have "q' = q1" using r by auto
    then show ?thesis using s1 by (intro movesI[of _ "{#}" _ "{#}" "{#}"]) simp_all
  next
    case False
    then obtain q2 nx rr where s: "start_execution p idx cl (if cl \<noteq> No_OpClass \<and> idx > -1 then getOpLatency cl (fuPool q1) else 1) q1 = Some q2"
      and t: "take_top it cl h1 (iq_ready q2) = Some (nx, rr)" and l: "leave_queue p (h1, q2\<lparr>iq_ready := rr\<rparr>) = Some (h', q')"
      using r by auto
    note sv = start_execution_view[OF s] and lv = leave_queue_view[OF l]
    have "mset (dolmaStalledInsts q) \<subseteq># mset (dolmaStalledInsts q2)"
      using s1(1) sv prefix_mset subset_mset.order_trans by blast
    moreover have "ready_mset (iq_ready q) = add_mset p (ready_mset rr)"
      using take_top_content[OF t] sv s1(3) top by auto
    moreover have "launched (q2\<lparr>iq_ready := rr\<rparr>) = launched q2" by (simp add: launched_def)
    ultimately show ?thesis using sv lv s1 by (intro movesI[of _ "{#p#}" _ "{#}" "{#}"]) auto
  qed
qed

lemma schedule_one_moves:
  assumes "schedule_one c rob it (h, q) = Some (iss, nxt, h', q')"
  shows "moves h q q'"
proof -
  obtain e :: order_entry and p where top: "pq_top (readyInsts (iq_ready q) (queueType e)) = Some p"
    and run: "(if isSTT c \<and> isDolmaRestricted (h p) \<and> isLoad (h p) then stall_load c it (queueType e) p (h, q)
      else if isSquashed (h p) then drop_squashed it (queueType e) (h, q)
      else issue_top c rob it (queueType e) p (h, q)) = Some (iss, nxt, h', q')"
    using assms by (auto simp: schedule_one_def Let_def)
  obtain ps where ps: "readyInsts (iq_ready q) (queueType e) = p # ps" using top by (auto simp: pq_top_def split: list.splits)
  consider (stall) "stall_load c it (queueType e) p (h, q) = Some (iss, nxt, h', q')"
    | (drop) "isSquashed (h p)" "drop_squashed it (queueType e) (h, q) = Some (iss, nxt, h', q')"
    | (issue) "issue_top c rob it (queueType e) p (h, q) = Some (iss, nxt, h', q')"
    using run by (auto split: if_splits)
  then show ?thesis
  proof cases
    case stall
    then obtain nx r i where s: "take_top it (queueType e) h (iq_ready q) = Some (nx, r)" "setDolmaStalled c (h p) = Some i"
      "dolmaStallInst p (h(p := i), q\<lparr>iq_ready := r\<rparr>) = Some (h', q')"
      by (auto simp: stall_load_def split: if_splits)
    have "ready_mset (iq_ready q) = add_mset p (ready_mset r)" using take_top_content[OF s(1)] ps by auto
    then show ?thesis using stall_view[OF s(2,3)]
      by (intro movesI[of _ "{#}" _ "{#}" "{#p#}"]) (auto simp: same_sched_def launched_def)
  next
    case drop
    then obtain r where s: "take_top it (queueType e) h (iq_ready q) = Some (nxt, r)" "q' = q\<lparr>iq_ready := r\<rparr>"
      by (auto simp: drop_squashed_def)
    have "ready_mset (iq_ready q) = add_mset p (ready_mset r)" using take_top_content[OF s(1)] ps by auto
    then show ?thesis using drop(1) s(2) by (intro movesI[of _ "{#}" _ "{#p#}" "{#}"]) (simp_all add: launched_def)
  next
    case issue
    then show ?thesis using issue_top_moves ps by blast
  qed
qed

lemma schedule_loop_moves:
  assumes "schedule_loop c rob n it h q = Some (n', h', q')"
  shows "moves h q q'"
proof -
  let ?P = "\<lambda>h q (n' :: nat, h', q'). moves h q q'"
  have "?P h q (n', h', q')"
  proof (rule schedule_loop.raw_induct[of "\<lambda>c rob n it h q y. ?P h q y", OF _ assms])
    fix loop :: "dolma_cpu \<Rightarrow> rob \<Rightarrow> nat \<Rightarrow> nat option \<Rightarrow> inst_heap \<Rightarrow> inst_queue \<Rightarrow> (nat \<times> iq_state) option"
      and c rob n it h q y
    assume IH: "\<And>c rob n it h q y. loop c rob n it h q = Some y \<Longrightarrow> ?P h q y"
      and run: "(if n < unat (totalWidth q) then
        (case it of
           None \<Rightarrow> Some (n, h, q)
         | Some it \<Rightarrow> do {
             (was_issued, nxt, h1, q1) \<leftarrow> schedule_one c rob it (h, q);
             loop c rob (if was_issued then Suc n else n) nxt h1 q1 })
      else Some (n, h, q)) = Some y"
    show "?P h q y"
    proof (cases "n < unat (totalWidth q) \<and> it \<noteq> None")
      case False
      then show ?thesis using run moves_refl by (auto split: if_splits)
    next
      case True
      then obtain i iss nxt h1 q1 where s: "schedule_one c rob i (h, q) = Some (iss, nxt, h1, q1)"
        and l: "loop c rob (if iss then Suc n else n) nxt h1 q1 = Some y"
        using run by auto
      show ?thesis using IH[OF l] moves_trans[OF schedule_one_moves[OF s]] schedule_one_view[OF s] by auto
    qed
  qed
  then show ?thesis by simp
qed

text \<open>The loops that release instructions only move them to the ready queues. The stalled instructions have different sequence numbers.\<close>

definition stalled_once :: "inst_heap \<Rightarrow> inst_queue \<Rightarrow> bool" where
  "stalled_once h q \<longleftrightarrow> distinct (map (\<lambda>p. seqNum (h p)) (dolmaStalledInsts q))"

definition moving_getter :: "(inst_heap \<Rightarrow> inst_queue \<Rightarrow> (iptr \<times> inst_queue) option) \<Rightarrow> bool" where
  "moving_getter get \<longleftrightarrow> (\<forall>h q p q'. stalled_once h q \<longrightarrow> get h q = Some (p, q') \<longrightarrow>
     stalled_once h q' \<and> iq_delayed q = add_mset p (iq_delayed q') \<and> iq_ready q' = iq_ready q)"

lemma extract_first_mset: "extract_first P l = Some (x, l') \<Longrightarrow> P x \<and> mset l = add_mset x (mset l')"
  by (induction l arbitrary: l') (auto split: if_splits)

lemma extract_first_sub: "extract_first P l = Some (x, l') \<Longrightarrow> distinct (map f l) \<Longrightarrow> distinct (map f l')"
proof (induction l arbitrary: l')
  case (Cons y l)
  have "extract_first P l = Some (x, m) \<Longrightarrow> set m \<subseteq> set l" for m
    using extract_first_mset[of P l x m] by (metis mset_subset_eqD set_mset_mset subsetI mset_subset_eq_add_right add_mset_add_single union_commute)
  then show ?case using Cons by (fastforce split: if_splits)
qed simp

lemma moving_getters:
  "moving_getter getDolmaStalledInstToExecute" "moving_getter getDeferredMemInstToExecute" "moving_getter (\<lambda>_. getBlockedMemInstToExecute)"
proof -
  show "moving_getter getDolmaStalledInstToExecute" unfolding moving_getter_def
  proof (intro allI impI)
    fix h q p q' assume d: "stalled_once h q" and "getDolmaStalledInstToExecute h q = Some (p, q')"
    then have o: "oldest_released h (dolmaStalledInsts q) = Some p"
      and q': "q' = q\<lparr>dolmaStalledInsts := (case extract_first (\<lambda>s. seqNum (h s) = seqNum (h p)) (dolmaStalledInsts q) of
             None \<Rightarrow> dolmaStalledInsts q | Some (_, l) \<Rightarrow> l)\<rparr>"
      by (auto simp: getDolmaStalledInstToExecute_def split: option.splits)
    note p = oldest_released_in[OF o]
    then have "extract_first (\<lambda>s. seqNum (h s) = seqNum (h p)) (dolmaStalledInsts q) \<noteq> None"
      unfolding extract_first_None by blast
    then obtain x l where x: "extract_first (\<lambda>s. seqNum (h s) = seqNum (h p)) (dolmaStalledInsts q) = Some (x, l)" by auto
    note e = extract_first_mset[OF x]
    then have "x \<in> set (dolmaStalledInsts q)" by (metis set_mset_mset union_single_eq_member)
    then have "x = p" using d p e unfolding stalled_once_def distinct_map by (auto dest: inj_onD)
    then show "stalled_once h q' \<and> iq_delayed q = add_mset p (iq_delayed q') \<and> iq_ready q' = iq_ready q"
      using q' x e d extract_first_sub[OF x] by (simp add: stalled_once_def iq_delayed_def)
  qed
  show "moving_getter getDeferredMemInstToExecute"
    by (auto simp: moving_getter_def getDeferredMemInstToExecute_def stalled_once_def iq_delayed_def dest!: extract_first_mset)
  show "moving_getter (\<lambda>_. getBlockedMemInstToExecute)"
    by (auto simp: moving_getter_def getBlockedMemInstToExecute_def stalled_once_def iq_delayed_def split: list.splits)
qed

lemma release_loop_waiting:
  assumes "moving_getter get" "ready_wf h (iq_ready q)" "stalled_once h q"
  shows "\<exists>q'. release_loop get h q = Some q' \<and> iq_waiting q' = iq_waiting q \<and> stalled_once h q'"
  using assms(2,3)
proof (induction "size (iq_delayed q)" arbitrary: q rule: less_induct)
  case less
  show ?case
  proof (cases "get h q")
    case None
    then show ?thesis using less.prems by (subst release_loop.simps) simp
  next
    case (Some pq)
    then obtain p q1 where g: "get h q = Some (p, q1)" by (cases pq) simp
    note k = assms(1)[unfolded moving_getter_def, rule_format, OF less.prems(2) g]
    then obtain r where r: "addReadyMemInst h p (iq_ready q1) = Some r" "ready_wf h r" "ready_mset r = add_mset p (ready_mset (iq_ready q))"
      using rq.push_content less.prems(1) by metis
    let ?q = "q1\<lparr>iq_ready := r\<rparr>"
    have d: "iq_delayed ?q = iq_delayed q1" "stalled_once h ?q = stalled_once h q1" by (simp_all add: iq_delayed_def stalled_once_def)
    have "\<exists>q'. release_loop get h ?q = Some q' \<and> iq_waiting q' = iq_waiting ?q \<and> stalled_once h q'"
      using k r(2) d by (intro less.hyps) simp_all
    moreover have "iq_waiting ?q = iq_waiting q" using k r(3) d by (simp add: iq_waiting_def)
    moreover have "release_loop get h q = release_loop get h ?q"
      using g r(1) by (subst release_loop.simps) simp
    ultimately show ?thesis by simp
  qed
qed

lemma scheduleReadyInsts_moves:
  assumes "ready_wf h (iq_ready q)" "stalled_once h q" "scheduleReadyInsts c rob (h, q) = Some (h', q')"
  obtains q3 where "iq_waiting q3 = iq_waiting q" "launched q3 = launched q" "moves h q3 q'"
proof -
  obtain q1 where 1: "release_loop getDolmaStalledInstToExecute h q = Some q1" "ready_wf h (iq_ready q1)"
    "launched q1 = launched q" "iq_waiting q1 = iq_waiting q" "stalled_once h q1"
    using release_loop_ends[OF getters(1) assms(1)] release_loop_waiting[OF moving_getters(1) assms(1,2)] by auto
  obtain q2 where 2: "release_loop getDeferredMemInstToExecute h q1 = Some q2" "ready_wf h (iq_ready q2)"
    "launched q2 = launched q1" "iq_waiting q2 = iq_waiting q1" "stalled_once h q2"
    using release_loop_ends[OF getters(2) 1(2)] release_loop_waiting[OF moving_getters(2) 1(2,5)] by auto
  obtain q3 where 3: "release_loop (\<lambda>_. getBlockedMemInstToExecute) h q2 = Some q3" "launched q3 = launched q2" "iq_waiting q3 = iq_waiting q2"
    using release_loop_ends[OF getters(3) 2(2)] release_loop_waiting[OF moving_getters(3) 2(2,5)] by auto
  obtain n q4 where l: "schedule_loop c rob 0 (first_node (listOrder (iq_ready q3))) h q3 = Some (n, h', q4)"
    and q': "q' = q4 \<or> q' = q4\<lparr>iq_activity := True\<rparr>"
    using assms(3) 1(1) 2(1) 3(1) by (auto simp: scheduleReadyInsts_def)
  have "moves h q3 q4 = moves h q3 (q4\<lparr>iq_activity := True\<rparr>)" by (simp add: moves_def launched_def)
  then have "moves h q3 q'" using schedule_loop_moves[OF l] q' by auto
  then show thesis using 1 2 3 by (intro that[of q3]) simp_all
qed

section \<open>Properties\<close>

text \<open>
  C25: the scheduler returns. From well-formed ready queues, functional units and store set tables,
  and when nothing is restricted on a CPU that defends itself, every loop of
  \<^verbatim>\<open>scheduleReadyInsts\<close> ends, no assertion fails, and the queues, the units and the
  tables are well formed again.
\<close>

theorem scheduler_returns:
  assumes "sched_ok c h q"
  shows "\<exists>h' q'. scheduleReadyInsts c rob (h, q) = Some (h', q') \<and> sched_ok c h' q'"
proof -
  have wf: "ready_wf h (iq_ready q)" using assms by (simp add: sched_ok_def)
  obtain q3 where q3: "ready_wf h (iq_ready q3)" "launched q3 = launched q" "totalWidth q3 = totalWidth q"
      "memDepUnit q3 = memDepUnit q" "fuPool q3 = fuPool q"
    and run: "scheduleReadyInsts c rob (h, q) = do {
     (total_issued, h4, q4) \<leftarrow> schedule_loop c rob 0 (first_node (listOrder (iq_ready q3))) h q3;
     Some (h4, if total_issued \<noteq> 0 \<or> retryMemInsts q4 \<noteq> [] \<or> deferredMemInsts q4 \<noteq> [] \<or> dolmaStalledInsts q4 \<noteq> []
               then q4\<lparr>iq_activity := True\<rparr> else q4) }"
    by (rule scheduleReadyInsts_loop[OF wf])
  have "sched_ok c h q3" using assms q3 by (simp add: sched_ok_def)
  from schedule_loop_ends[OF this, of "[]" "listOrder (iq_ready q3)" rob 0]
  obtain n' h' q' where "schedule_loop c rob 0 (first_node (listOrder (iq_ready q3))) h q3 = Some (n', h', q')" "sched_ok c h' q'"
    by auto
  then show ?thesis unfolding run by (simp add: sched_ok_def)
qed

text \<open>
  C26: what one call of \<^verbatim>\<open>scheduleReadyInsts\<close> does with the instructions of the queue. At most
  \<^verbatim>\<open>totalWidth\<close> are sent to execution, at once or into a unit of several cycles, and each of
  them was waiting: on a ready queue, or on the list of stalled, deferred or retried instructions. None is lost: what was sent before is
  still there, and every waiting instruction that is not squashed is sent or still waits.
\<close>

theorem issue_width_respected:
  assumes "ready_wf h (iq_ready q)" and "distinct (map (\<lambda>p. seqNum (h p)) (dolmaStalledInsts q))"
    and "scheduleReadyInsts c rob (h, q) = Some (h', q')"
  shows "\<exists>sent. mset (launched q') = mset (launched q) + sent \<and> size sent \<le> unat (totalWidth q) \<and>
     sent \<subseteq># iq_waiting q \<and> filter_mset (\<lambda>p. \<not> isSquashed (h p)) (iq_waiting q) \<subseteq># iq_waiting q' + sent"
proof -
  from scheduleReadyInsts_launches[OF assms(1,3)] obtain ls where
    ls: "mset (launched q') = mset ls + mset (launched q)" "length ls \<le> unat (totalWidth q)" by auto
  obtain q3 where q3: "iq_waiting q3 = iq_waiting q" "launched q3 = launched q" "moves h q3 q'"
    using scheduleReadyInsts_moves[OF assms(1) _ assms(3)] assms(2) by (auto simp: stalled_once_def)
  then obtain ps dr st where m: "mset (launched q') = ps + mset (launched q3)"
     "ready_mset (iq_ready q3) = ready_mset (iq_ready q') + ps + dr + st" "\<forall>x \<in># dr. isSquashed (h x)"
     "mset (dolmaStalledInsts q3) + st \<subseteq># mset (dolmaStalledInsts q')"
     "deferredMemInsts q' = deferredMemInsts q3" "retryMemInsts q' = retryMemInsts q3"
    unfolding moves_def by blast
  then have "ps = mset ls" using ls(1) q3(2) by simp
  moreover have w: "iq_waiting q = ready_mset (iq_ready q') + ps + dr + st + iq_delayed q3" using q3(1) m(2) by (simp add: iq_waiting_def)
  moreover have "filter_mset (\<lambda>p. \<not> isSquashed (h p)) (iq_waiting q) \<subseteq># iq_waiting q' + ps"
  proof -
    have "st + iq_delayed q3 = (mset (dolmaStalledInsts q3) + st) + (mset (deferredMemInsts q3) + mset (retryMemInsts q3))"
      by (simp add: iq_delayed_def ac_simps)
    also have "\<dots> \<subseteq># mset (dolmaStalledInsts q') + (mset (deferredMemInsts q3) + mset (retryMemInsts q3))"
      using m(4) by (rule subset_mset.add_right_mono)
    finally have d: "st + iq_delayed q3 \<subseteq># iq_delayed q'" using m(5,6) by (simp add: iq_delayed_def ac_simps)
    have "filter_mset (\<lambda>p. \<not> isSquashed (h p)) dr = {#}" using m(3) by (auto simp: multiset_eq_iff count_eq_zero_iff)
    then have "filter_mset (\<lambda>p. \<not> isSquashed (h p)) (iq_waiting q) = filter_mset (\<lambda>p. \<not> isSquashed (h p)) (ready_mset (iq_ready q') + ps + (st + iq_delayed q3))"
      unfolding w by (simp add: ac_simps)
    also have "\<dots> \<subseteq># ready_mset (iq_ready q') + ps + (st + iq_delayed q3)" by (rule multiset_filter_subset)
    also have "\<dots> \<subseteq># ready_mset (iq_ready q') + ps + iq_delayed q'"
      using d by (rule subset_mset.add_left_mono)
    finally show ?thesis by (simp add: iq_waiting_def ac_simps)
  qed
  ultimately show ?thesis using ls by (intro exI[of _ ps]) (simp add: ac_simps)
qed

text \<open>
  C27: the scheduler never sends a squashed instruction to execution, and under STT it never sends a
  restricted load, whatever is in the queues.
\<close>

theorem stt_never_issues_restricted_load:
  assumes "ready_wf h (iq_ready q)" and "scheduleReadyInsts c rob (h, q) = Some (h', q')"
    and "p \<in># mset (launched q') - mset (launched q)"
  shows "\<not> isSquashed (h' p) \<and> \<not> (isSTT c \<and> isDolmaRestricted (h' p) \<and> isLoad (h' p))"
proof -
  from scheduleReadyInsts_launches[OF assms(1,2)] obtain ps where v: "same_view h h'"
    and ps: "mset (launched q') = mset ps + mset (launched q)" "\<forall>p \<in> set ps. may_launch c (h p)" by auto
  then have "p \<in> set ps" using assms(3) by simp
  then have "may_launch c (h' p)" using ps(2) may_launch_cong[OF v] by simp
  then show ?thesis by (simp add: may_launch_def)
qed

text \<open>
  C28: contention for a functional unit under DOLMA. An instruction that asks for a unit of its class
  is told that none is free only if every unit of the class is busy and none of them is held by a
  younger unsquashed instruction of its thread under a control or data restriction; so a restricted
  instruction never delays an older one. The unit it gets was free or was held by such an instruction, which is stalled; no other unit
  changes hands.
\<close>

theorem restricted_never_delays_older:
  assumes "fu_pool_wf (fuPool q)" and "isDolma c" and "\<not> isSTT c" and "seqNum (h p) \<noteq> 0"
    and "acquire_unit c rob p cl (h, q) = Some (idx, h', q')"
  shows "(idx = -2 \<longleftrightarrow> cl \<notin> capabilityList (fuPool q)) \<and>
     (idx = -1 \<longrightarrow> (\<forall>u \<in> set (units_of cl q). unitBusy (fuPool q) ! u \<noteq> 0 \<and>
        (\<forall>o1. holder rob h p q u = Some o1 \<longrightarrow> \<not> (speculative (h o1) \<and> seqNum (h o1) > seqNum (h p))))) \<and>
     (if idx \<ge> 0
      then nat idx \<in> set (units_of cl q) \<and> unitBusy (fuPool q') = (unitBusy (fuPool q))[nat idx := seqNum (h p)] \<and>
        (unitBusy (fuPool q) ! nat idx = 0 \<or>
         (\<exists>o1. holder rob h p q (nat idx) = Some o1 \<and> speculative (h o1) \<and> seqNum (h o1) > seqNum (h p) \<and> isDolmaStalled (h' o1)))
      else unitBusy (fuPool q') = unitBusy (fuPool q) \<and> h' = h)"
proof -
  let ?free = "find (\<lambda>u. unitBusy (fuPool q) ! u = 0) (units_of cl q)"
  obtain l us where a: "acquire_unit c rob p cl (h, q) =
     (if cl \<notin> capabilityList (fuPool q) then Some (-2, h, q)
      else case ?free of
         Some u \<Rightarrow> Some (int u, h, (set_queue cl l q)\<lparr>fuPool := (fuPool (set_queue cl l q))\<lparr>unitBusy := (unitBusy (fuPool q))[u := seqNum (h p)]\<rparr>\<rparr>)
       | None \<Rightarrow> if isDolma c \<and> \<not> isSTT c then take_first c rob p us h (set_queue cl l q)
                 else Some (-1, h, set_queue cl l q))"
     and us: "set us = set (units_of cl q)"
    using acquire_unit_spec[of q h p c rob cl, OF assms(1,4)] by blast
  consider (none) "cl \<notin> capabilityList (fuPool q)" | (free) u where "cl \<in> capabilityList (fuPool q)" "?free = Some u"
    | (search) "cl \<in> capabilityList (fuPool q)" "?free = None" by (cases ?free) blast+
  then show ?thesis
  proof cases
    case none
    then show ?thesis using a assms(5) by simp
  next
    case (free u)
    then have "idx = int u" "h' = h" "unitBusy (fuPool q') = (unitBusy (fuPool q))[u := seqNum (h p)]"
      using a assms(5) by auto
    then show ?thesis using find_in[OF free(2)] free(1) by simp
  next
    case search
    then have t: "take_first c rob p us h (set_queue cl l q) = Some (idx, h', q')" using a assms(2,3,5) by simp
    have busy: "\<forall>u \<in> set (units_of cl q). unitBusy (fuPool q) ! u \<noteq> 0" using search(2) by (auto simp: find_None_iff)
    show ?thesis
    proof (cases "find (\<lambda>u. evictable h p (holder rob h p q u)) us")
      case None
      then have "idx = -1" "h' = h" "q' = set_queue cl l q" using t by (auto simp: take_first_def)
      then show ?thesis using busy None us search(1) by (auto simp: find_None_iff evictable_def isDolmaRestricted_bits)
    next
      case (Some u)
      then obtain o1 where o1: "holder rob h p q u = Some o1" "isDolmaRestricted (h o1)" "seqNum (h o1) > seqNum (h p)"
        and u: "u \<in> set us" using find_in[OF Some] by (auto simp: evictable_def split: option.splits)
      have i: "idx = int u" and e: "evict c p o1 u (h, set_queue cl l q) = Some (h', q')"
        using t Some o1(1) by (auto simp: take_first_def)
      from evict_view[OF e] have "unitBusy (fuPool q') = (unitBusy (fuPool q))[u := seqNum (h p)]" "isDolmaStalled (h' o1)"
        using o1(2) by auto
      then show ?thesis using i o1 u us search(1) by (auto simp: isDolmaRestricted_bits)
    qed
  qed
qed

text \<open>
  C29: the unit of an evicted instruction is freed under its new holder. The eviction leaves the
  completion event of the instruction that loses the unit in place: when the event runs, it sends
  the stalled instruction to execution and puts the unit, now held by the older instruction, on the
  list of units to free.
\<close>

theorem evicted_completion_frees_unit:
  assumes "evict c p o1 u (h, q) = Some (h', q')" and "isDolmaRestricted (h o1)" and "seqNum (h p) \<noteq> 0"
    and "k \<in> set (completions q)" and "fuc_inst k = o1" and "fuc_fuIdx k = int u" and "fuc_freeFU k"
    and "u < length (unitBusy (fuPool q))"
  shows "k \<in> set (completions q') \<and> unitBusy (fuPool q') ! u = seqNum (h p) \<and> isDolmaStalled (h' o1) \<and>
    (\<exists>q''. completion_process k q' = Some q'' \<and> u \<in> set (unitsToBeFreed (fuPool q'')) \<and>
       unitBusy (fuPool q'') ! u = seqNum (h p) \<and> o1 \<in> set (instsToExecute q''))"
proof -
  from evict_view[OF assms(1)] assms(2) have v: "completions q' = completions q" "isDolmaStalled (h' o1)"
    "unitBusy (fuPool q') = (unitBusy (fuPool q))[u := seqNum (h p)]" by (auto simp: same_sched_def)
  then show ?thesis
    using assms(3-8) by (simp add: completion_process_def processFUCompletion_def free_next_cycle_def freeUnitNextCycle_def)
qed

text \<open>
  C30: the stall of a restricted load under STT moves the scheduler too far. When the load was the only
  instruction of its ready queue, the erase of its entry already moves the iterator to the next
  entry, and the further increment skips that entry for this cycle; if there is none, the iterator
  is moved past the end of the list, which is undefined.
\<close>

theorem stt_stall_skips_next_queue:
  assumes "ready_wf h (iq_ready q)" and "listOrder (iq_ready q) = pre @ e # post"
    and "readyInsts (iq_ready q) (queueType e) = [p]"
    and "isSTT c" and "isDolmaRestricted (h p)" and "isLoad (h p)"
  shows "case post of [] \<Rightarrow> schedule_one c rob (node e) (h, q) = None
     | e2 # post2 \<Rightarrow> \<forall>iss nxt h' q'. schedule_one c rob (node e) (h, q) = Some (iss, nxt, h', q') \<longrightarrow>
         nxt = first_node post2 \<and> listOrder (iq_ready q') = pre @ e2 # post2"
proof -
  let ?r = "iq_ready q"
  have one: "schedule_one c rob (node e) (h, q) = stall_load c (node e) (queueType e) p (h, q)"
    using order_entry_at(1)[OF assms(1,2)] assms(3-6) by (simp add: schedule_one_def pq_top_def Let_def)
  obtain r' post' where t: "take_top (node e) (queueType e) h ?r = Some (first_node post', r')" "ready_wf h r'"
    "listOrder r' = pre @ post'" "set post \<subseteq> set post'"
    using take_top_wf[OF assms(1,2)] by blast
  have d: "distinct (map node (pre @ e # post))" and e: "e \<in> set (listOrder ?r)"
    using assms(1,2) by (auto simp: ready_wf_def)
  obtain pre1 post1 where s: "listOrder ?r = pre1 @ e # post1" "erase (node e) (listOrder ?r) = Some (pre1 @ post1)"
    using erase_split[OF _ e] d assms(2) by metis
  have "listOrder r' = pre1 @ post1" using t(1) assms(3) s(2) by (auto simp: take_top_def)
  moreover have "pre1 = pre \<and> post1 = post"
  proof -
    have "e \<notin> set pre \<and> e \<notin> set post" using d by auto
    moreover have "pre @ e # post = pre1 @ e # post1" using assms(2) s(1) by simp
    ultimately show ?thesis by (metis append_Cons_eq_iff)
  qed
  ultimately have p': "post' = post" using t(3) by simp
  show ?thesis
  proof (cases post)
    case Nil
    then show ?thesis using one t(1) p' by (auto simp: stall_load_def first_node_def)
  next
    case (Cons e2 post2)
    have n: "next_it (node e2) (listOrder r') = Some (first_node post2)"
      using order_entry_at(2)[OF t(2)] t(3) p' Cons by simp
    have "nxt = first_node post2 \<and> listOrder (iq_ready q') = pre @ e2 # post2"
      if run: "schedule_one c rob (node e) (h, q) = Some (iss, nxt, h', q')" for iss nxt h' q'
    proof -
      from run one t(1) p' Cons obtain i where "setDolmaStalled c (h p) = Some i"
        "dolmaStallInst p (h(p := i), q\<lparr>iq_ready := r'\<rparr>) = Some (h', q')" "nxt = first_node post2"
        using n by (auto simp: stall_load_def first_node_def split: if_splits)
      with stall_view[OF this(1,2)] show ?thesis using t(3) p' Cons by (simp add: same_sched_def)
    qed
    then show ?thesis unfolding Cons list.case by blast
  qed
qed

section \<open>The properties on concrete states\<close>

text \<open>
  A restricted load, an instruction that a unit can execute and one that needs no unit of the pool,
  all ready; and the same state without a restriction.
\<close>

declare release_loop.simps [code] schedule_loop.simps [code] evict_loop.simps [code] getUnit_loop.simps [code]

definition ex_stt_cpu :: dolma_cpu where
  "ex_stt_cpu = \<lparr>isDolma = True, isDolmaConservative = False, isDolmaMemOnly = False, isSTT = True\<rparr>"

definition ex_class_inst :: "inst_seq_num \<Rightarrow> op_class \<Rightarrow> static_flag set \<Rightarrow> status_bit set \<Rightarrow> dyn_inst" where
  "ex_class_inst sn cl fs st = (ex_inst sn fs st)\<lparr>staticInst := (ex_si fs)\<lparr>si_opClass := cl\<rparr>\<rparr>"

definition ex_issue_heap :: "status_bit set \<Rightarrow> inst_heap" where
  "ex_issue_heap st = (\<lambda>p. if p = 5 then ex_class_inst 5 MemRead {IsLoad, IsMemRef} st
     else if p = 6 then ex_class_inst 6 IntAlu {} {} else ex_class_inst 7 IntMult {} {})"

definition ex_issue_iq :: "status_bit set \<Rightarrow> inst_queue" where
  "ex_issue_iq st = ex_iq\<lparr>fuPool := new_fu_pool ex_descs,
     iq_ready := the (foldM (addReadyMemInst (ex_issue_heap st)) [7, 5, 6] empty_ready)\<rparr>"

lemma ex_issue_wf: "ready_wf (ex_issue_heap st) (iq_ready (ex_issue_iq st))"
  using rq.push_all[of "ex_issue_heap st" empty_ready "[7, 5, 6]"] empty_ready_wf by (auto simp: ex_issue_iq_def)

lemma ex_issue_ok: "sched_ok ex_stt_cpu (ex_issue_heap {}) (ex_issue_iq {})"
proof -
  have "store_set_wf (depPred (md_init 1000 4 4))"
    unfolding md_init_def by simp (rule init_store_set_wf; simp add: isPowerOf2_def)
  moreover have "memDepUnit (ex_issue_iq {}) = (\<lambda>_. md_init 1000 4 4)" "fuPool (ex_issue_iq {}) = new_fu_pool ex_descs"
    by (simp_all add: ex_issue_iq_def ex_iq_def)
  moreover have "seqNum (ex_issue_heap {} x) \<noteq> 0" "\<not> isDolmaRestricted (ex_issue_heap {} x)" for x
    by (simp_all add: ex_issue_heap_def ex_class_inst_def ex_inst_def restricted_defs)
  ultimately show ?thesis using ex_issue_wf ex_pool_wf by (simp add: sched_ok_def)
qed

theorem scheduler_returns_witness:
  "sched_ok ex_stt_cpu (ex_issue_heap {}) (ex_issue_iq {}) \<and>
   (\<exists>h' q'. scheduleReadyInsts ex_stt_cpu ex_rob (ex_issue_heap {}, ex_issue_iq {}) = Some (h', q') \<and> sched_ok ex_stt_cpu h' q')"
  using scheduler_returns[OF ex_issue_ok] ex_issue_ok by blast

lemma ex_issue_run:
  "map_option (launched \<circ> snd) (scheduleReadyInsts ex_stt_cpu ex_rob (ex_issue_heap {ControlRestricted}, ex_issue_iq {ControlRestricted})) =
     Some [7]"
  by code_simp

lemma ex_issue_waiting: "iq_waiting (ex_issue_iq st) = {#5, 6, 7#}"
proof -
  have "ready_mset empty_ready = {#}" by (simp add: ready_mset_def empty_ready_def)
  then have "ready_mset (iq_ready (ex_issue_iq st)) = {#5, 6, 7#}"
    using rq.push_all[of "ex_issue_heap st" empty_ready "[7, 5, 6]"] empty_ready_wf by (auto simp: ex_issue_iq_def)
  then show ?thesis by (simp add: iq_waiting_def iq_delayed_def ex_issue_iq_def ex_iq_def)
qed

theorem issue_width_respected_witness:
  "\<exists>h' q'. scheduleReadyInsts ex_stt_cpu ex_rob (ex_issue_heap {ControlRestricted}, ex_issue_iq {ControlRestricted}) = Some (h', q') \<and>
     launched q' = [7] \<and> {#5, 6#} \<subseteq># iq_waiting q'"
proof -
  let ?h = "ex_issue_heap {ControlRestricted}" and ?q = "ex_issue_iq {ControlRestricted}"
  obtain h' q' where r: "scheduleReadyInsts ex_stt_cpu ex_rob (?h, ?q) = Some (h', q')" and l: "launched q' = [7]"
    using ex_issue_run by auto
  have q: "launched ?q = []" "dolmaStalledInsts ?q = []" by (simp_all add: ex_issue_iq_def ex_iq_def launched_def)
  have "\<not> isSquashed (?h p)" for p by (simp add: ex_issue_heap_def ex_class_inst_def ex_inst_def)
  with issue_width_respected[OF ex_issue_wf _ r] l q have "{#5, 6, 7#} \<subseteq># iq_waiting q' + {#7#}"
    by (auto simp: ex_issue_waiting)
  then have "{#5, 6#} \<subseteq># iq_waiting q'" by (simp add: insert_subset_eq_iff[of 7] add_mset_commute[of _ 7])
  with r l show ?thesis by blast
qed

theorem stt_never_issues_restricted_load_witness:
  "\<exists>h' q'. scheduleReadyInsts ex_stt_cpu ex_rob (ex_issue_heap {ControlRestricted}, ex_issue_iq {ControlRestricted}) = Some (h', q') \<and>
     launched q' = [7] \<and> \<not> (isSTT ex_stt_cpu \<and> isDolmaRestricted (h' 7) \<and> isLoad (h' 7))"
proof -
  obtain h' q' where r: "scheduleReadyInsts ex_stt_cpu ex_rob (ex_issue_heap {ControlRestricted}, ex_issue_iq {ControlRestricted}) = Some (h', q')"
    and l: "launched q' = [7]" using ex_issue_run by auto
  have "launched (ex_issue_iq st) = []" for st by (simp add: ex_issue_iq_def ex_iq_def launched_def)
  then have "7 \<in># mset (launched q') - mset (launched (ex_issue_iq {ControlRestricted}))" using l by simp
  from stt_never_issues_restricted_load[OF ex_issue_wf r this] r l show ?thesis by simp
qed

text \<open>Both dividers are busy, one with a younger restricted instruction.\<close>

definition ex_evict_heap :: inst_heap where
  "ex_evict_heap = (\<lambda>p. if p = 9 then ex_class_inst 9 IntDiv {} {ControlRestricted} else ex_class_inst (of_nat p) IntDiv {} {})"

definition ex_evict_rob :: rob where
  "ex_evict_rob = ex_rob\<lparr>instList := (\<lambda>_. [3, 8, 9])\<rparr>"

definition ex_evict_event :: fu_completion where
  "ex_evict_event = \<lparr>fuc_inst = 9, fuc_fuIdx = 0, fuc_freeFU = True, fuc_delay = 12\<rparr>"

definition ex_evict_iq :: inst_queue where
  "ex_evict_iq = ex_iq\<lparr>fuPool := (new_fu_pool ex_descs)\<lparr>unitBusy := [9, 8]\<rparr>, completions := [ex_evict_event]\<rparr>"

lemma ex_evict_run:
  "map_option (\<lambda>(idx, s). idx) (acquire_unit ex_cpu ex_evict_rob 3 IntDiv (ex_evict_heap, ex_evict_iq)) = Some 0"
  by code_simp

theorem restricted_never_delays_older_witness:
  "\<exists>h' q'. acquire_unit ex_cpu ex_evict_rob 3 IntDiv (ex_evict_heap, ex_evict_iq) = Some (0, h', q') \<and>
     unitBusy (fuPool q') = [3, 8] \<and> isDolmaStalled (h' 9)"
proof -
  obtain h' q' where r: "acquire_unit ex_cpu ex_evict_rob 3 IntDiv (ex_evict_heap, ex_evict_iq) = Some (0, h', q')"
    using ex_evict_run by auto
  have p: "fuPool ex_evict_iq = (new_fu_pool ex_descs)\<lparr>unitBusy := [9, 8]\<rparr>" by (simp add: ex_evict_iq_def)
  have wf: "fu_pool_wf (fuPool ex_evict_iq)"
    using ex_pool_wf by (simp add: p fu_pool_wf_def queues_wf_def)
      (simp add: new_fu_pool_def ex_descs_def add_desc_def add_op_def Let_def)
  have sn: "seqNum (ex_evict_heap 3) = 3" "seqNum (ex_evict_heap 3) \<noteq> 0"
    by (simp_all add: ex_evict_heap_def ex_class_inst_def ex_inst_def)
  have h: "holder ex_evict_rob ex_evict_heap 3 ex_evict_iq 0 = Some 9" by code_simp
  show ?thesis
    using restricted_never_delays_older[where h = ex_evict_heap and p = 3, OF wf ex_cpu_modes(1,4) sn(2) r] r h
    by (simp add: p sn(1))
qed

theorem evicted_completion_frees_unit_witness:
  "\<exists>h' q' q''. evict ex_cpu 3 9 0 (ex_evict_heap, ex_evict_iq) = Some (h', q') \<and>
     completion_process ex_evict_event q' = Some q'' \<and> 0 \<in> set (unitsToBeFreed (fuPool q'')) \<and>
     unitBusy (fuPool q'') ! 0 = 3 \<and> 9 \<in> set (instsToExecute q'')"
proof -
  have "evict ex_cpu 3 9 0 (ex_evict_heap, ex_evict_iq) \<noteq> None" by code_simp
  then obtain h' q' where r: "evict ex_cpu 3 9 0 (ex_evict_heap, ex_evict_iq) = Some (h', q')" by auto
  have "isDolmaRestricted (ex_evict_heap 9)" by code_simp
  moreover have sn: "seqNum (ex_evict_heap 3) = 3" by (simp add: ex_evict_heap_def ex_class_inst_def ex_inst_def)
  moreover have "ex_evict_event \<in> set (completions ex_evict_iq)" "unitBusy (fuPool ex_evict_iq) = [9, 8]"
    by (simp_all add: ex_evict_iq_def)
  moreover have "fuc_inst ex_evict_event = 9" "fuc_fuIdx ex_evict_event = int 0" "fuc_freeFU ex_evict_event"
    by (simp_all add: ex_evict_event_def)
  ultimately show ?thesis
    using evicted_completion_frees_unit[OF r, of ex_evict_event] r by auto
qed

lemma ex_stall_order:
  "listOrder (iq_ready (ex_issue_iq {ControlRestricted})) = [\<lparr>node = Suc 0, queueType = MemRead, oldestInst = 5\<rparr>,
     \<lparr>node = 2, queueType = IntAlu, oldestInst = 6\<rparr>, \<lparr>node = 0, queueType = IntMult, oldestInst = 7\<rparr>]"
  by code_simp

theorem stt_stall_skips_next_queue_witness:
  "\<exists>iss h' q'. schedule_one ex_stt_cpu ex_rob (Suc 0) (ex_issue_heap {ControlRestricted}, ex_issue_iq {ControlRestricted}) =
     Some (iss, Some 0, h', q')"
proof -
  let ?h = "ex_issue_heap {ControlRestricted}" and ?q = "ex_issue_iq {ControlRestricted}"
  have "map_option (\<lambda>_. ()) (schedule_one ex_stt_cpu ex_rob (Suc 0) (?h, ?q)) = Some ()" by code_simp
  then obtain iss nxt h' q' where r: "schedule_one ex_stt_cpu ex_rob (Suc 0) (?h, ?q) = Some (iss, nxt, h', q')" by auto
  have "readyInsts (iq_ready ?q) MemRead = [5]" by code_simp
  moreover have "isSTT ex_stt_cpu" "isDolmaRestricted (?h 5)" "isLoad (?h 5)" by code_simp+
  ultimately show ?thesis
    using stt_stall_skips_next_queue[where rob = ex_rob and pre = "[]" and c = ex_stt_cpu and p = 5, OF ex_issue_wf, of "{ControlRestricted}",
        unfolded ex_stall_order, OF append_Nil[symmetric]] r
    by (auto simp: first_node_def)
qed

end
