(* ===== verification/Lsq_Unit.thy ===== *)
theory Lsq_Unit
  imports Inst_Queue
begin

text \<open>
  The load and store queues of a thread (\<^verbatim>\<open>src/cpu/o3/lsq_unit.hh\<close>,
  \<^verbatim>\<open>lsq_unit_impl.hh\<close>): circular queues with a sentinel entry, store to load
  forwarding, ordering violations, and the accesses to the data cache with the DOLMA additions.
  The unit shares the instruction heap with the instruction queue and calls it directly. The data
  cache port is an argument: what it answers to a packet after the packets sent before. Calls of
  the IEW stage and scheduled writeback events are recorded in lists of the state, in the order in
  which they are made. The X86 target has no effect in the hooks for locked accesses.
\<close>

unbundle bit_operations_syntax

section \<open>State\<close>

definition STRICT_ORDER :: "64 word" where "STRICT_ORDER = 0x00000800"
definition MMAPPED_IPR :: "64 word" where "MMAPPED_IPR = 0x00002000"
definition CACHE_BLOCK_ZERO :: "64 word" where "CACHE_BLOCK_ZERO = 0x00010000"
definition LLSC :: "64 word" where "LLSC = 0x00200000"
definition INVALIDATE :: "64 word" where "INVALIDATE = 0x0000000100000000"
definition CLEAN :: "64 word" where "CLEAN = 0x0000000200000000"
definition STORE_NO_DATA :: "64 word" where "STORE_NO_DATA = CACHE_BLOCK_ZERO OR CLEAN OR INVALIDATE"

abbreviation flag_set :: "64 word \<Rightarrow> request \<Rightarrow> bool" where
  "flag_set f r \<equiv> req_flags r AND f \<noteq> 0"

abbreviation isExecuted :: "dyn_inst \<Rightarrow> bool" where "isExecuted i \<equiv> Executed \<in> status i"
abbreviation isAtCommit :: "dyn_inst \<Rightarrow> bool" where "isAtCommit i \<equiv> AtCommit \<in> status i"
abbreviation hitExternalSnoop :: "dyn_inst \<Rightarrow> bool" where "hitExternalSnoop i \<equiv> HitExternalSnoop \<in> instFlags i"
abbreviation possibleLoadViolation :: "dyn_inst \<Rightarrow> bool" where
  "possibleLoadViolation i \<equiv> PossibleLoadViolation \<in> instFlags i"
abbreviation isDataPrefetch :: "dyn_inst \<Rightarrow> bool" where "isDataPrefetch i \<equiv> IsDataPrefetch \<in> si_flags (staticInst i)"

text \<open>
  Packets and the sender state they carry. The two packets of a split access share one sender
  state, so packets hold the number of theirs; the number and \<open>pkt_second\<close> identify a packet.
\<close>

record packet =
  pkt_req :: request
  pkt_write :: bool
  pkt_data :: "8 word list"
  pkt_state :: nat
  pkt_second :: bool

record sender_state =
  st_inst :: iptr
  st_pendingPacket :: "packet option"
  st_idx :: nat
  st_outstanding :: "8 word"
  st_isLoad :: bool
  st_noWB :: bool
  st_isSplit :: bool
  st_pktToSend :: bool
  st_cacheBlocked :: bool

record sq_entry =
  sq_data :: "8 word list"
  sq_inst :: "iptr option"
  sq_req :: "request option"
  sq_sreqLow :: "request option"
  sq_sreqHigh :: "request option"
  sq_size :: "8 word"
  sq_isSplit :: bool
  sq_canWB :: bool
  sq_committed :: bool
  sq_completed :: bool
  sq_isAllZeros :: bool

definition empty_sq :: "iptr option \<Rightarrow> sq_entry" where
  "empty_sq p = \<lparr>sq_data = replicate 16 0, sq_inst = p, sq_req = None, sq_sreqLow = None, sq_sreqHigh = None,
     sq_size = 0, sq_isSplit = False, sq_canWB = False, sq_committed = False, sq_completed = False,
     sq_isAllZeros = False\<rparr>"

text \<open>The data buffers of an instruction: allocated, then filled by a store or by the memory.\<close>

datatype buffer = NoBuffer | Unfilled nat | Filled "8 word list"

datatype iew_call = InstToCommit iptr | CheckMisprediction iptr | ActivityThisCycle | WakeCPU | UpdateLSQNextCycle

record lsq_unit =
  storeQueue :: "sq_entry list"
  loadQueue :: "iptr option list"
  LQEntries :: nat
  SQEntries :: nat
  depCheckShift :: nat
  checkLoads :: bool
  loads :: int
  stores :: int
  storesToWB :: int
  loadHead :: nat
  loadTail :: nat
  storeHead :: nat
  storeWBIdx :: nat
  storeTail :: nat
  cacheStorePorts :: int
  usedStorePorts :: int
  cacheBlockMask :: addr
  stalled :: bool
  stallingStoreIsn :: inst_seq_num
  stallingLoadIdx :: nat
  retryPkt :: "packet option"
  isStoreBlocked :: bool
  storeInFlight :: bool
  memDepViolator :: "iptr option"
  hasPendingPkt :: bool
  pendingPkt :: "packet option"
  needsTSO :: bool
  memData :: "iptr \<Rightarrow> buffer"
  delayedFwdData :: "iptr \<Rightarrow> buffer"
  senderStates :: "nat \<Rightarrow> sender_state option"
  nextState :: nat
  sent :: "(packet \<times> bool) list"
  writebacks :: "(iptr \<times> buffer) list"
  iew_calls :: "iew_call list"
  ipr_writes :: "packet list"

type_synonym lsq_state = "inst_heap \<times> inst_queue \<times> lsq_unit"

type_synonym dcache_port = "(packet \<times> bool) list \<Rightarrow> packet \<Rightarrow> bool \<times> request"

definition lsq_resetState :: "addr \<Rightarrow> lsq_unit \<Rightarrow> lsq_unit" where
  "lsq_resetState cacheLineSize l = l\<lparr>loads := 0, stores := 0, storesToWB := 0, loadHead := 0, loadTail := 0,
     storeHead := 0, storeWBIdx := 0, storeTail := 0, usedStorePorts := 0, retryPkt := None,
     memDepViolator := None, stalled := False, cacheBlockMask := NOT (cacheLineSize - 1)\<rparr>"

definition lsq_init :: "nat \<Rightarrow> nat \<Rightarrow> nat \<Rightarrow> bool \<Rightarrow> int \<Rightarrow> bool \<Rightarrow> addr \<Rightarrow> lsq_unit option" where
  "lsq_init maxLQEntries maxSQEntries shift check_loads ports tso cacheLineSize = do {
     check (maxLQEntries + 1 \<le> 256);
     check (maxSQEntries + 1 \<le> 256);
     Some (lsq_resetState cacheLineSize
       \<lparr>storeQueue = replicate (maxSQEntries + 1) (empty_sq None), loadQueue = replicate (maxLQEntries + 1) None,
        LQEntries = maxLQEntries + 1, SQEntries = maxSQEntries + 1, depCheckShift = shift, checkLoads = check_loads,
        loads = 0, stores = 0, storesToWB = 0, loadHead = 0, loadTail = 0, storeHead = 0, storeWBIdx = 0, storeTail = 0,
        cacheStorePorts = ports, usedStorePorts = 0, cacheBlockMask = 0, stalled = False, stallingStoreIsn = 0,
        stallingLoadIdx = 0, retryPkt = None, isStoreBlocked = False, storeInFlight = False, memDepViolator = None,
        hasPendingPkt = False, pendingPkt = None, needsTSO = tso, memData = (\<lambda>_. NoBuffer),
        delayedFwdData = (\<lambda>_. NoBuffer), senderStates = (\<lambda>_. None), nextState = 0, sent = [], writebacks = [],
        iew_calls = [], ipr_writes = []\<rparr>) }"

section \<open>The circular queues\<close>

definition incr :: "nat \<Rightarrow> nat \<Rightarrow> nat" where
  "incr n i = (if Suc i \<ge> n then 0 else Suc i)"

definition decr :: "nat \<Rightarrow> nat \<Rightarrow> nat" where
  "decr n i = (if i = 0 then n - 1 else i - 1)"

definition lqFull :: "lsq_unit \<Rightarrow> bool" where "lqFull l \<longleftrightarrow> loads l \<ge> int (LQEntries l) - 1"
definition sqFull :: "lsq_unit \<Rightarrow> bool" where "sqFull l \<longleftrightarrow> stores l \<ge> int (SQEntries l) - 1"

definition numFreeLoadEntries :: "lsq_unit \<Rightarrow> int" where
  "numFreeLoadEntries l = int (LQEntries l) - loads l - 1"
definition numFreeStoreEntries :: "lsq_unit \<Rightarrow> int" where
  "numFreeStoreEntries l = int (SQEntries l) - stores l - 1"

definition lsq_insertLoad :: "iptr \<Rightarrow> inst_heap \<times> lsq_unit \<Rightarrow> (inst_heap \<times> lsq_unit) option" where
  "lsq_insertLoad p = (\<lambda>(h, l). do {
     check ((loadTail l + 1) mod LQEntries l \<noteq> loadHead l);
     check (loads l < int (LQEntries l));
     let i = (h p)\<lparr>lqIdx := int (loadTail l), sqIdx := (if stores l = 0 then -1 else int (storeTail l))\<rparr>;
     lq \<leftarrow> vec_set (loadQueue l) (loadTail l) (Some p);
     Some (h(p := i), l\<lparr>loadQueue := lq, loadTail := incr (LQEntries l) (loadTail l), loads := loads l + 1\<rparr>) })"

definition lsq_insertStore :: "iptr \<Rightarrow> inst_heap \<times> lsq_unit \<Rightarrow> (inst_heap \<times> lsq_unit) option" where
  "lsq_insertStore p = (\<lambda>(h, l). do {
     check ((storeTail l + 1) mod SQEntries l \<noteq> storeHead l);
     check (stores l < int (SQEntries l));
     let i = (h p)\<lparr>sqIdx := int (storeTail l), lqIdx := int (loadTail l)\<rparr>;
     sq \<leftarrow> vec_set (storeQueue l) (storeTail l) (empty_sq (Some p));
     Some (h(p := i), l\<lparr>storeQueue := sq, storeTail := incr (SQEntries l) (storeTail l), stores := stores l + 1\<rparr>) })"

definition lsq_insert :: "iptr \<Rightarrow> inst_heap \<times> lsq_unit \<Rightarrow> (inst_heap \<times> lsq_unit) option" where
  "lsq_insert p = (\<lambda>(h, l). do {
     check (isMemRef (h p));
     (h1, l1) \<leftarrow> (if isLoad (h p) then lsq_insertLoad p (h, l) else lsq_insertStore p (h, l));
     Some (h1(p := set_status LsqEntry (h1 p)), l1) })"

definition commitLoad :: "lsq_unit \<Rightarrow> lsq_unit option" where
  "commitLoad l = do {
     x \<leftarrow> vec_get (loadQueue l) (loadHead l);
     check (x \<noteq> None);
     lq \<leftarrow> vec_set (loadQueue l) (loadHead l) None;
     Some (l\<lparr>loadQueue := lq, loadHead := incr (LQEntries l) (loadHead l), loads := loads l - 1\<rparr>) }"

partial_function (option) commitLoads_loop :: "inst_seq_num \<Rightarrow> inst_heap \<Rightarrow> lsq_unit \<Rightarrow> lsq_unit option" where
  "commitLoads_loop youngest h l =
     (if loads l = 0 then Some l
      else do {
        x \<leftarrow> vec_get (loadQueue l) (loadHead l);
        p \<leftarrow> x;
        (if seqNum (h p) \<le> youngest then do { l1 \<leftarrow> commitLoad l; commitLoads_loop youngest h l1 } else Some l) })"

definition commitLoads :: "inst_seq_num \<Rightarrow> inst_heap \<Rightarrow> lsq_unit \<Rightarrow> lsq_unit option" where
  "commitLoads youngest h l = do {
     x \<leftarrow> vec_get (loadQueue l) (loadHead l);
     check (loads l = 0 \<or> x \<noteq> None);
     commitLoads_loop youngest h l }"

partial_function (option) commitStores_loop :: "inst_seq_num \<Rightarrow> inst_heap \<Rightarrow> nat \<Rightarrow> lsq_unit \<Rightarrow> lsq_unit option" where
  "commitStores_loop youngest h store_idx l =
     (if store_idx = storeTail l then Some l
      else do {
        e \<leftarrow> vec_get (storeQueue l) store_idx;
        p \<leftarrow> sq_inst e;
        (if sq_canWB e then commitStores_loop youngest h (incr (SQEntries l) store_idx) l
         else if seqNum (h p) > youngest then Some l
         else commitStores_loop youngest h (incr (SQEntries l) store_idx)
           (l\<lparr>storeQueue := (storeQueue l)[store_idx := e\<lparr>sq_canWB := True\<rparr>], storesToWB := storesToWB l + 1\<rparr>)) })"

definition commitStores :: "inst_seq_num \<Rightarrow> inst_heap \<Rightarrow> lsq_unit \<Rightarrow> lsq_unit option" where
  "commitStores youngest h l = do {
     e \<leftarrow> vec_get (storeQueue l) (storeHead l);
     check (stores l = 0 \<or> sq_inst e \<noteq> None);
     commitStores_loop youngest h (storeHead l) l }"

section \<open>Squashing\<close>

definition unstall :: "lsq_unit \<Rightarrow> lsq_unit" where
  "unstall l = l\<lparr>stalled := False, stallingStoreIsn := 0, stallingLoadIdx := 0\<rparr>"

partial_function (option) squash_loads ::
  "inst_seq_num \<Rightarrow> nat \<Rightarrow> inst_heap \<Rightarrow> lsq_unit \<Rightarrow> (inst_heap \<times> lsq_unit) option" where
  "squash_loads squashed_num load_idx h l =
     (if loads l = 0 then Some (h, l)
      else do {
        x \<leftarrow> vec_get (loadQueue l) load_idx;
        p \<leftarrow> x;
        (if seqNum (h p) > squashed_num then do {
           let l1 = (if stalled l \<and> load_idx = stallingLoadIdx l then unstall l else l);
           squash_loads squashed_num (decr (LQEntries l) load_idx) (h(p := setSquashed (h p)))
             (l1\<lparr>loadQueue := (loadQueue l1)[load_idx := None], loads := loads l1 - 1, loadTail := load_idx\<rparr>) }
         else Some (h, l)) })"

partial_function (option) squash_stores ::
  "inst_seq_num \<Rightarrow> nat \<Rightarrow> inst_heap \<Rightarrow> lsq_unit \<Rightarrow> (inst_heap \<times> lsq_unit) option" where
  "squash_stores squashed_num store_idx h l =
     (if stores l = 0 then Some (h, l)
      else do {
        e \<leftarrow> vec_get (storeQueue l) store_idx;
        p \<leftarrow> sq_inst e;
        (if seqNum (h p) > squashed_num \<and> \<not> sq_canWB e then do {
           check (\<not> (stalled l \<and> seqNum (h p) = stallingStoreIsn l));
           let e1 = e\<lparr>sq_inst := None, sq_canWB := False, sq_req := None\<rparr>;
           let e2 = (if HasUnalignedMemAcc \<and> sq_isSplit e then e1\<lparr>sq_sreqLow := None, sq_sreqHigh := None\<rparr> else e1);
           squash_stores squashed_num (decr (SQEntries l) store_idx) (h(p := setSquashed (h p)))
             (l\<lparr>storeQueue := (storeQueue l)[store_idx := e2], stores := stores l - 1, storeTail := store_idx\<rparr>) }
         else Some (h, l)) })"

definition lsq_squash :: "inst_seq_num \<Rightarrow> inst_heap \<times> lsq_unit \<Rightarrow> (inst_heap \<times> lsq_unit) option" where
  "lsq_squash squashed_num = (\<lambda>(h, l). do {
     (h1, l1) \<leftarrow> squash_loads squashed_num (decr (LQEntries l) (loadTail l)) h l;
     let l2 = (case memDepViolator l1 of
                 None \<Rightarrow> l1
               | Some v \<Rightarrow> if squashed_num < seqNum (h1 v) then l1\<lparr>memDepViolator := None\<rparr> else l1);
     squash_stores squashed_num (decr (SQEntries l2) (storeTail l2)) h1 l2 })"

section \<open>Writing back stores\<close>

definition call_iew :: "iew_call list \<Rightarrow> lsq_unit \<Rightarrow> lsq_unit" where
  "call_iew cs l = l\<lparr>iew_calls := iew_calls l @ cs\<rparr>"

text \<open>The load that waits for a store is replayed once the store is done.\<close>

definition release_stalled :: "iptr \<Rightarrow> lsq_state \<Rightarrow> lsq_state option" where
  "release_stalled store = (\<lambda>(h, q, l).
     (if stalled l \<and> seqNum (h store) = stallingStoreIsn l then do {
        x \<leftarrow> vec_get (loadQueue l) (stallingLoadIdx l);
        p \<leftarrow> x;
        (h1, q1) \<leftarrow> replayMemInst p (h, q);
        Some (h1, q1, l\<lparr>stalled := False, stallingStoreIsn := 0\<rparr>) }
      else Some (h, q, l)))"

partial_function (option) free_stores :: "lsq_unit \<Rightarrow> lsq_unit option" where
  "free_stores l = do {
     let hd = incr (SQEntries l) (storeHead l);
     let l1 = l\<lparr>storeHead := hd, stores := stores l - 1\<rparr>;
     e \<leftarrow> vec_get (storeQueue l1) hd;
     (if sq_completed e \<and> hd \<noteq> storeTail l1 then free_stores l1 else Some l1) }"

definition completeStore :: "nat \<Rightarrow> lsq_state \<Rightarrow> lsq_state option" where
  "completeStore store_idx = (\<lambda>(h, q, l). do {
     e \<leftarrow> vec_get (storeQueue l) store_idx;
     p \<leftarrow> sq_inst e;
     let l1 = call_iew [WakeCPU, ActivityThisCycle]
       (l\<lparr>storeQueue := (storeQueue l)[store_idx := e\<lparr>sq_completed := True\<rparr>], storesToWB := storesToWB l - 1\<rparr>);
     l2 \<leftarrow> (if store_idx = storeHead l1 then do { l' \<leftarrow> free_stores l1; Some (call_iew [UpdateLSQNextCycle] l') } else Some l1);
     (h3, q3, l3) \<leftarrow> release_stalled p (h, q, l2);
     Some (h3(p := set_status Completed (h3 p)), q3, if needsTSO l3 then l3\<lparr>storeInFlight := False\<rparr> else l3) })"

definition send :: "dcache_port \<Rightarrow> packet \<Rightarrow> lsq_unit \<Rightarrow> bool \<times> request \<times> lsq_unit" where
  "send port pkt l = (let (ok, r) = port (sent l) pkt in (ok, r, l\<lparr>sent := sent l @ [(pkt, ok)]\<rparr>))"

definition sendStore :: "dcache_port \<Rightarrow> packet \<Rightarrow> lsq_unit \<Rightarrow> (bool \<times> lsq_unit) option" where
  "sendStore port pkt l =
     (let (ok, _, l1) = send port pkt l in
      if \<not> ok then do { check (retryPkt l1 = None); Some (False, l1\<lparr>isStoreBlocked := True, retryPkt := Some pkt\<rparr>) }
      else Some (True, l1))"

definition storePostSend :: "lsq_state \<Rightarrow> lsq_state option" where
  "storePostSend = (\<lambda>(h, q, l). do {
     e \<leftarrow> vec_get (storeQueue l) (storeWBIdx l);
     p \<leftarrow> sq_inst e;
     (h1, q1, l1) \<leftarrow> release_stalled p (h, q, l);
     let h2 = (if \<not> isStoreConditional (h1 p) then h1(p := set_status Completed (h1 p)) else h1);
     let l2 = (if needsTSO l1 then l1\<lparr>storeInFlight := True\<rparr> else l1);
     Some (h2, q1, l2\<lparr>storeWBIdx := incr (SQEntries l2) (storeWBIdx l2)\<rparr>) })"

definition writebackPendingStore :: "dcache_port \<Rightarrow> lsq_state \<Rightarrow> lsq_state option" where
  "writebackPendingStore port = (\<lambda>(h, q, l).
     (if hasPendingPkt l then do {
        pkt \<leftarrow> pendingPkt l;
        (ok, l1) \<leftarrow> sendStore port pkt l;
        (h2, q2, l2) \<leftarrow> (if ok then storePostSend (h, q, l1) else Some (h, q, l1));
        Some (h2, q2, l2\<lparr>pendingPkt := None, hasPendingPkt := False\<rparr>) }
      else Some (h, q, l)))"

definition new_state :: "sender_state \<Rightarrow> lsq_unit \<Rightarrow> nat \<times> lsq_unit" where
  "new_state s l = (nextState l, l\<lparr>senderStates := (senderStates l)(nextState l := Some s), nextState := Suc (nextState l)\<rparr>)"

definition upd_state :: "nat \<Rightarrow> (sender_state \<Rightarrow> sender_state) \<Rightarrow> lsq_unit \<Rightarrow> lsq_unit option" where
  "upd_state n f l = do { s \<leftarrow> senderStates l n; Some (l\<lparr>senderStates := (senderStates l)(n := Some (f s))\<rparr>) }"

text \<open>The packets of a store: one, or two for a split store.\<close>

definition store_packets :: "sq_entry \<Rightarrow> request \<Rightarrow> 8 word list \<Rightarrow> nat \<Rightarrow> (packet \<times> packet option) option" where
  "store_packets e r bytes n =
     (if \<not> HasUnalignedMemAcc \<or> \<not> sq_isSplit e
      then Some (\<lparr>pkt_req = r, pkt_write = True, pkt_data = bytes, pkt_state = n, pkt_second = False\<rparr>, None)
      else do {
        lo \<leftarrow> sq_sreqLow e;
        hi \<leftarrow> sq_sreqHigh e;
        Some (\<lparr>pkt_req = lo, pkt_write = True, pkt_data = take (unat (req_size lo)) bytes, pkt_state = n, pkt_second = False\<rparr>,
              Some \<lparr>pkt_req = hi, pkt_write = True, pkt_data = take (unat (req_size hi)) (drop (unat (req_size lo)) bytes),
                    pkt_state = n, pkt_second = True\<rparr>) })"

text \<open>Handing the packets of a store to the cache.\<close>

definition send_packets :: "dcache_port \<Rightarrow> packet \<Rightarrow> packet option \<Rightarrow> lsq_state \<Rightarrow> lsq_state option" where
  "send_packets port data_pkt snd_data_pkt = (\<lambda>(h, q, l). do {
     (ok, l1) \<leftarrow> sendStore port data_pkt l;
     (if \<not> ok then
        (case snd_data_pkt of
           None \<Rightarrow> Some (h, q, l1)
         | Some sp \<Rightarrow> do { l2 \<leftarrow> upd_state (pkt_state data_pkt) (\<lambda>s. s\<lparr>st_pktToSend := True, st_pendingPacket := Some sp\<rparr>) l1;
                          Some (h, q, l2) })
      else
        (case snd_data_pkt of
           None \<Rightarrow> storePostSend (h, q, l1)
         | Some sp \<Rightarrow>
             (if usedStorePorts l1 < cacheStorePorts l1 then do {
                (ok2, l2) \<leftarrow> sendStore port sp (l1\<lparr>usedStorePorts := usedStorePorts l1 + 1\<rparr>);
                (if ok2 then storePostSend (h, q, l2) else Some (h, q, l2)) }
              else do {
                check (pendingPkt l1 = None);
                Some (h, q, l1\<lparr>pendingPkt := Some sp, hasPendingPkt := True\<rparr>) }))) })"

text \<open>The packets for the store at \<^verbatim>\<open>storeWBIdx\<close>, once a port is taken, with the number of their sender state.\<close>

definition prepare_store :: "inst_heap \<times> lsq_unit \<Rightarrow> (packet \<times> packet option \<times> nat \<times> iptr \<times> inst_heap \<times> lsq_unit) option" where
  "prepare_store = (\<lambda>(h, l). do {
     e \<leftarrow> vec_get (storeQueue l) (storeWBIdx l);
     p \<leftarrow> sq_inst e;
     r \<leftarrow> sq_req e;
     check (\<not> sq_committed e);
     check (memData l p = NoBuffer);
     let bytes = (if sq_isAllZeros e then replicate (unat (req_size r)) 0 else take (unat (req_size r)) (sq_data e));
     let split = (HasUnalignedMemAcc \<and> sq_isSplit e);
     let (n, l1) = new_state \<lparr>st_inst = p, st_pendingPacket = None, st_idx = storeWBIdx l,
        st_outstanding = (if split then 2 else 1), st_isLoad = False, st_noWB = \<not> isStoreConditional (h p),
        st_isSplit = split, st_pktToSend = False, st_cacheBlocked = False\<rparr> l;
     (data_pkt, snd_data_pkt) \<leftarrow> store_packets e r bytes n;
     check (isStoreConditional (h p) \<longrightarrow> \<not> sq_isSplit e);
     let l2 = l1\<lparr>storeQueue := (storeQueue l1)[storeWBIdx l1 := e\<lparr>sq_committed := True, sq_req := Some (pkt_req data_pkt)\<rparr>],
                 memData := (memData l1)(p := Filled bytes)\<rparr>;
     let h2 = (if isStoreConditional (h p) then h(p := set_flag RecordResult True (h p)) else h);
     Some (data_pkt, snd_data_pkt, n, p, h2, l2) })"

definition writeback_store :: "dcache_port \<Rightarrow> lsq_state \<Rightarrow> lsq_state option" where
  "writeback_store port = (\<lambda>(h, q, l). do {
     (data_pkt, snd_data_pkt, n, p, h2, l2) \<leftarrow> prepare_store (h, l);
     (if flag_set MMAPPED_IPR (pkt_req data_pkt) then do {
        check (\<not> isStoreConditional (h2 p));
        check (case snd_data_pkt of None \<Rightarrow> True | Some sp \<Rightarrow> flag_set MMAPPED_IPR (pkt_req sp));
        (h3, q3, l3) \<leftarrow> completeStore (storeWBIdx l2)
          (h2, q, l2\<lparr>ipr_writes := ipr_writes l2 @ [data_pkt] @ (case snd_data_pkt of None \<Rightarrow> [] | Some sp \<Rightarrow> [sp]),
                     senderStates := (senderStates l2)(n := None)\<rparr>);
        Some (h3, q3, l3\<lparr>storeWBIdx := incr (SQEntries l3) (storeWBIdx l3)\<rparr>) }
      else send_packets port data_pkt snd_data_pkt (h2, q, l2)) })"

partial_function (option) writeback_loop :: "dcache_port \<Rightarrow> inst_heap \<Rightarrow> inst_queue \<Rightarrow> lsq_unit \<Rightarrow> lsq_state option" where
  "writeback_loop port h q l =
     (if storesToWB l > 0 \<and> storeWBIdx l \<noteq> storeTail l then do {
        e \<leftarrow> vec_get (storeQueue l) (storeWBIdx l);
        (case sq_inst e of
           None \<Rightarrow> Some (h, q, l)
         | Some p \<Rightarrow>
             if sq_canWB e \<and> (\<not> needsTSO l \<or> \<not> storeInFlight l) \<and> usedStorePorts l < cacheStorePorts l \<and> \<not> isStoreBlocked l then
               (if sq_size e = 0 then do {
                  (h1, q1, l1) \<leftarrow> completeStore (storeWBIdx l) (h, q, l);
                  writeback_loop port h1 q1 (l1\<lparr>storeWBIdx := incr (SQEntries l1) (storeWBIdx l1)\<rparr>) }
                else if isDataPrefetch (h p) then
                  writeback_loop port h q (l\<lparr>usedStorePorts := usedStorePorts l + 1, storeWBIdx := incr (SQEntries l) (storeWBIdx l)\<rparr>)
                else do {
                  (h1, q1, l1) \<leftarrow> writeback_store port (h, q, l\<lparr>usedStorePorts := usedStorePorts l + 1\<rparr>);
                  writeback_loop port h1 q1 l1 })
             else Some (h, q, l)) }
      else Some (h, q, l))"

definition writebackStores :: "dcache_port \<Rightarrow> lsq_state \<Rightarrow> lsq_state option" where
  "writebackStores port s = do {
     (h, q, l) \<leftarrow> (if HasUnalignedMemAcc then writebackPendingStore port s else Some s);
     (h1, q1, l1) \<leftarrow> writeback_loop port h q l;
     check (stores l1 \<ge> 0 \<and> storesToWB l1 \<ge> 0);
     Some (h1, q1, l1\<lparr>usedStorePorts := 0\<rparr>) }"

definition recvRetry :: "dcache_port \<Rightarrow> lsq_state \<Rightarrow> lsq_state option" where
  "recvRetry port = (\<lambda>(h, q, l).
     (if isStoreBlocked l then do {
        pkt \<leftarrow> retryPkt l;
        s0 \<leftarrow> senderStates l (pkt_state pkt);
        let (ok, _, l1) = send port pkt l;
        (if ok then do {
           let last = (\<not> HasUnalignedMemAcc \<or> \<not> st_pktToSend s0 \<or>
             (case st_pendingPacket s0 of None \<Rightarrow> False | Some sp \<Rightarrow> pkt_second sp = pkt_second pkt));
           (h2, q2, l2) \<leftarrow> (if last then do {
               l' \<leftarrow> upd_state (pkt_state pkt) (\<lambda>s. s\<lparr>st_pktToSend := False\<rparr>) l1;
               storePostSend (h, q, l') }
             else Some (h, q, l1));
           let l3 = l2\<lparr>retryPkt := None, isStoreBlocked := False\<rparr>;
           s1 \<leftarrow> senderStates l3 (pkt_state pkt);
           (if HasUnalignedMemAcc \<and> st_pktToSend s1 then do {
              sp \<leftarrow> st_pendingPacket s1;
              (ok2, l4) \<leftarrow> sendStore port sp l3;
              (if ok2 then storePostSend (h2, q2, l4) else Some (h2, q2, l4)) }
            else Some (h2, q2, l3)) }
         else Some (h, q, l1)) }
      else Some (h, q, l)))"

section \<open>Ordering of loads and stores\<close>

definition first_block :: "lsq_unit \<Rightarrow> dyn_inst \<Rightarrow> addr" where
  "first_block l i = drop_bit (depCheckShift l) (effAddr i)"

definition last_block :: "lsq_unit \<Rightarrow> dyn_inst \<Rightarrow> addr" where
  "last_block l i = drop_bit (depCheckShift l) (effAddr i + ucast (effSize i) - 1)"

definition order_fault :: fault where
  "order_fault = FaultBase ''M5PanicFault''"

partial_function (option) checkViolations ::
  "dolma_cpu \<Rightarrow> nat \<Rightarrow> iptr \<Rightarrow> inst_heap \<Rightarrow> lsq_unit \<Rightarrow> (fault \<times> inst_heap \<times> lsq_unit) option" where
  "checkViolations c load_idx p h l =
     (if load_idx = loadTail l then Some (NoFault, h, l)
      else do {
        x \<leftarrow> vec_get (loadQueue l) load_idx;
        ld \<leftarrow> x;
        let nxt = incr (LQEntries l) load_idx;
        (if \<not> effAddrValid (h ld) \<or> strictlyOrdered (h ld) \<or> isDolmaStalled (h ld) then checkViolations c nxt p h l
         else if last_block l (h p) \<ge> first_block l (h ld) \<and> first_block l (h p) \<le> last_block l (h ld) then
           (if isLoad (h p) then
              (if hitExternalSnoop (h ld) \<and> (case memDepViolator l of None \<Rightarrow> True | Some v \<Rightarrow> seqNum (h ld) < seqNum (h v))
               then Some (order_fault, h, l\<lparr>memDepViolator := Some ld\<rparr>)
               else checkViolations c nxt p (h(ld := set_flag PossibleLoadViolation True (h ld))) l)
            else if (case memDepViolator l of None \<Rightarrow> False | Some v \<Rightarrow> seqNum (h ld) > seqNum (h v)) then Some (NoFault, h, l)
            else Some (order_fault,
                       (if isDolma c \<and> \<not> isDolmaConservative c \<and> \<not> isSTT c then h(p := (h p)\<lparr>violatorSeqNum := seqNum (h ld)\<rparr>) else h),
                       l\<lparr>memDepViolator := Some ld\<rparr>))
         else checkViolations c nxt p h l) })"

definition getMemDepViolator :: "lsq_unit \<Rightarrow> iptr option \<times> lsq_unit" where
  "getMemDepViolator l = (memDepViolator l, l\<lparr>memDepViolator := None\<rparr>)"

text \<open>The effect of an invalidation on the loads that follow the oldest.\<close>

partial_function (option) snoop_loop ::
  "addr \<Rightarrow> bool \<Rightarrow> nat \<Rightarrow> inst_heap \<Rightarrow> lsq_unit \<Rightarrow> inst_heap option" where
  "snoop_loop invalidate_addr force_squash load_idx h l =
     (if load_idx = loadTail l then Some h
      else do {
        x \<leftarrow> vec_get (loadQueue l) load_idx;
        ld \<leftarrow> x;
        let nxt = incr (LQEntries l) load_idx;
        (if \<not> effAddrValid (h ld) \<or> strictlyOrdered (h ld) \<or> isDolmaStalled (h ld)
         then snoop_loop invalidate_addr force_squash nxt h l
         else if physEffAddrLow (h ld) AND cacheBlockMask l = invalidate_addr \<or>
                 physEffAddrHigh (h ld) AND cacheBlockMask l = invalidate_addr \<or> force_squash then
           (let force = (force_squash \<or> needsTSO l)
            in snoop_loop invalidate_addr force nxt
                 (h(ld := if possibleLoadViolation (h ld) \<or> force then (h ld)\<lparr>fault := FaultBase ''ReExec''\<rparr>
                          else set_flag HitExternalSnoop True (h ld))) l)
         else snoop_loop invalidate_addr force_squash nxt h l) })"

definition checkSnoop :: "addr \<Rightarrow> inst_heap \<Rightarrow> lsq_unit \<Rightarrow> inst_heap option" where
  "checkSnoop pkt_addr h l =
     (if loadHead l = loadTail l then Some h
      else snoop_loop (pkt_addr AND cacheBlockMask l) False (incr (LQEntries l) (loadHead l)) h l)"

section \<open>Reading\<close>

text \<open>
  The comparison of a load with an older store: the load's bytes are all in the store, or some of
  them are.
\<close>

definition covers :: "request \<Rightarrow> dyn_inst \<Rightarrow> 8 word \<Rightarrow> bool" where
  "covers r s store_size \<longleftrightarrow>
     req_vaddr r \<ge> effAddr s \<and> req_vaddr r + ucast (req_size r) \<le> effAddr s + ucast store_size \<and> \<not> flag_set LLSC r"

definition partly_covers :: "request \<Rightarrow> dyn_inst \<Rightarrow> 8 word \<Rightarrow> bool" where
  "partly_covers r s store_size \<longleftrightarrow>
     (let store_has_lower_limit = req_vaddr r \<ge> effAddr s;
          store_has_upper_limit = req_vaddr r + ucast (req_size r) \<le> effAddr s + ucast store_size;
          lower_load_has_store_part = req_vaddr r < effAddr s + ucast store_size;
          upper_load_has_store_part = req_vaddr r + ucast (req_size r) > effAddr s
      in (\<not> flag_set LLSC r \<and>
            ((store_has_lower_limit \<and> lower_load_has_store_part) \<or> (store_has_upper_limit \<and> upper_load_has_store_part) \<or>
             (lower_load_has_store_part \<and> upper_load_has_store_part))) \<or>
         (flag_set LLSC r \<and>
            (store_has_lower_limit \<or> upper_load_has_store_part) \<and> (store_has_upper_limit \<or> lower_load_has_store_part)))"

datatype store_hit = NoHit | TotalHit nat | PartialHit nat

text \<open>
  The search of the older stores that are not written back, from the youngest on. A store without
  an address makes the load a data inducer.
\<close>

definition no_forward :: "sq_entry \<Rightarrow> dyn_inst \<Rightarrow> bool" where
  "no_forward e s \<longleftrightarrow> sq_size e = 0 \<or> strictlyOrdered s \<or> (case sq_req e of None \<Rightarrow> False | Some r \<Rightarrow> flag_set (CLEAN OR INVALIDATE) r)"

definition bypass :: "dolma_cpu \<Rightarrow> iptr \<Rightarrow> sq_entry \<Rightarrow> iptr \<Rightarrow> inst_heap \<Rightarrow> inst_heap option" where
  "bypass c p e s h =
     (if isDolma c \<and> \<not> isDolmaConservative c \<and> \<not> isSTT c \<and> (sq_size e = 0 \<or> strictlyOrdered (h s)) then do {
        check (\<not> effAddrValid (h s));
        i \<leftarrow> setDataInducer c (h p);
        Some (h(p := i)) }
      else Some h)"

partial_function (option) search_stores ::
  "dolma_cpu \<Rightarrow> iptr \<Rightarrow> request \<Rightarrow> lsq_unit \<Rightarrow> nat \<Rightarrow> inst_heap \<Rightarrow> (store_hit \<times> inst_heap) option" where
  "search_stores c p r l store_idx h =
     (if store_idx = storeWBIdx l then Some (NoHit, h)
      else do {
        let i = decr (SQEntries l) store_idx;
        e \<leftarrow> vec_get (storeQueue l) i;
        s \<leftarrow> sq_inst e;
        (if no_forward e (h s) then do {
           h1 \<leftarrow> bypass c p e s h;
           search_stores c p r l i h1 }
         else do {
           check (effAddrValid (h s));
           (if covers r (h s) (sq_size e) then Some (TotalHit i, h)
            else if partly_covers r (h s) (sq_size e) then do {
              check (\<not> sq_completed e);
              Some (PartialHit i, h) }
            else search_stores c p r l i h) }) })"

text \<open>The bytes a store forwards.\<close>

definition forwarded :: "request \<Rightarrow> dyn_inst \<Rightarrow> sq_entry \<Rightarrow> 8 word list" where
  "forwarded r s e =
     (if sq_isAllZeros e then replicate (unat (req_size r)) 0
      else take (unat (req_size r)) (drop (unat (req_vaddr r - effAddr s)) (sq_data e)))"

definition stall_on :: "nat \<Rightarrow> iptr \<Rightarrow> iptr \<Rightarrow> lsq_state \<Rightarrow> lsq_state option" where
  "stall_on load_idx p s = (\<lambda>(h, q, l). do {
     older \<leftarrow> (if \<not> stalled l then Some True else do {
                 x \<leftarrow> vec_get (loadQueue l) (stallingLoadIdx l);
                 o1 \<leftarrow> x;
                 Some (seqNum (h p) < seqNum (h o1)) });
     let l1 = (if older then l\<lparr>stalled := True, stallingStoreIsn := seqNum (h s), stallingLoadIdx := load_idx\<rparr> else l);
     (h1, q1) \<leftarrow> rescheduleMemInst p (h, q);
     Some (h1(p := reset_status Issued (h1 p)), q1, l1) })"

definition alloc :: "nat \<Rightarrow> iptr \<Rightarrow> (iptr \<Rightarrow> buffer) \<Rightarrow> iptr \<Rightarrow> buffer" where
  "alloc n p b = (if b p = NoBuffer then b(p := Unfilled n) else b)"

text \<open>
  The access to the data cache: one packet, or two for a split request; the second is sent only if
  the first was taken. The result says whether the load succeeded, whether a restricted access missed,
  and whether the first packet was taken.
\<close>

definition send_load ::
  "dcache_port \<Rightarrow> request \<Rightarrow> request option \<Rightarrow> request option \<Rightarrow> nat \<Rightarrow> lsq_unit \<Rightarrow> (bool \<times> bool \<times> bool \<times> lsq_unit) option" where
  "send_load port r sreqLow sreqHigh n l =
     (let pkt = (\<lambda>rq second. \<lparr>pkt_req = rq, pkt_write = False, pkt_data = [], pkt_state = n, pkt_second = second\<rparr>);
          r1 = (case sreqLow of None \<Rightarrow> r | Some lo \<Rightarrow> lo);
          (ok, r1', l1) = send port (pkt r1 False) l
      in if \<not> ok then Some (False, isRestricted r1 \<and> \<not> isRestricted r1', False, l1)
         else (case sreqLow of
            None \<Rightarrow> Some (True, False, True, l1)
          | Some lo \<Rightarrow> do {
              hi \<leftarrow> sreqHigh;
              let (ok2, r2', l2) = send port (pkt hi True) l1;
              (if ok2 then Some (True, False, True, l2)
               else do {
                 l3 \<leftarrow> upd_state n (\<lambda>s. s\<lparr>st_outstanding := st_outstanding s - 1, st_cacheBlocked := True\<rparr>) l2;
                 Some (False, isRestricted hi \<and> \<not> isRestricted r2', True, l3) }) }))"

definition drop_physical :: "dyn_inst \<Rightarrow> dyn_inst" where
  "drop_physical i =
     (let i1 = i\<lparr>dolmaPhysicalReq := None\<rparr>
      in if dolmaPhysicalSreqLow i1 = None then i1 else i1\<lparr>dolmaPhysicalSreqLow := None, dolmaPhysicalSreqHigh := None\<rparr>)"

text \<open>What happens after the access was refused.\<close>

definition load_refused :: "dolma_cpu \<Rightarrow> bool \<Rightarrow> bool \<Rightarrow> iptr \<Rightarrow> lsq_state \<Rightarrow> lsq_state option" where
  "load_refused c restricted_miss wasPartial p = (\<lambda>(h, q, l). do {
     let i = drop_physical (clearDataInducer (h p));
     (if restricted_miss then do {
        check (\<not> isTotalStoreBufferHit i);
        i2 \<leftarrow> setDolmaStalled c i;
        Some (h(p := i2), q, l) }
      else do {
        let i1 = reset_status TotalStoreBufferHit i;
        let i2 = (if isPartialStoreBufferHit i1 \<and> \<not> wasPartial then reset_status PartialStoreBufferHit i1 else i1);
        let (h3, q3) = blockMemInst p (h(p := i2), q);
        Some (h3, q3, l) }) })"

definition access_memory ::
  "dolma_cpu \<Rightarrow> dcache_port \<Rightarrow> request \<Rightarrow> request option \<Rightarrow> request option \<Rightarrow> nat \<Rightarrow> iptr \<Rightarrow> iptr option \<Rightarrow> bool \<Rightarrow>
   lsq_state \<Rightarrow> lsq_state option" where
  "access_memory c port r sreqLow sreqHigh load_idx p store wasPartial = (\<lambda>(h, q, l). do {
     let dummy = (isTotalStoreBufferHit (h p) \<or> (isPartialStoreBufferHit (h p) \<and> \<not> wasPartial));
     let sz = unat (req_size r);
     let l0 = (if dummy then l\<lparr>delayedFwdData := alloc sz p (delayedFwdData l)\<rparr> else l\<lparr>memData := alloc sz p (memData l)\<rparr>);
     let (n, l1) = new_state \<lparr>st_inst = p, st_pendingPacket = None, st_idx = load_idx,
        st_outstanding = (if sreqLow = None then 1 else 2), st_isLoad = True, st_noWB = dummy,
        st_isSplit = (sreqLow \<noteq> None), st_pktToSend = False, st_cacheBlocked = False\<rparr> l0;
     let i1 = (if isDolmaRestricted (h p) then
                 (let i = (h p)\<lparr>dolmaPhysicalReq := Some r\<rparr>
                  in if sreqLow = None then i else i\<lparr>dolmaPhysicalSreqLow := sreqLow, dolmaPhysicalSreqHigh := sreqHigh\<rparr>)
               else h p);
     let h1 = h(p := i1);
     (ok, miss, first, l2) \<leftarrow> send_load port r sreqLow sreqHigh n l1;
     (if \<not> ok then
        load_refused c miss wasPartial p
          (h1, q, if first then l2 else l2\<lparr>senderStates := (senderStates l2)(n := None)\<rparr>)
      else if isTotalStoreBufferHit i1 then Some (h1, q, l2\<lparr>writebacks := writebacks l2 @ [(p, memData l2 p)]\<rparr>)
      else if isPartialStoreBufferHit i1 \<and> \<not> wasPartial then do { s \<leftarrow> store; stall_on load_idx p s (h1, q, l2) }
      else Some (h1, q, l2)) })"

text \<open>What a load does after the search of the store queue.\<close>

definition after_search ::
  "dolma_cpu \<Rightarrow> dcache_port \<Rightarrow> request \<Rightarrow> request option \<Rightarrow> request option \<Rightarrow> nat \<Rightarrow> iptr \<Rightarrow> bool \<Rightarrow> store_hit \<Rightarrow> lsq_state \<Rightarrow> lsq_state option" where
  "after_search c port r sreqLow sreqHigh load_idx p wasPartial hit = (\<lambda>(h, q, l). case hit of
      NoHit \<Rightarrow> access_memory c port r sreqLow sreqHigh load_idx p None wasPartial (h, q, l)
    | TotalHit i \<Rightarrow> do {
        e \<leftarrow> vec_get (storeQueue l) i;
        s \<leftarrow> sq_inst e;
        let l1 = l\<lparr>memData := (memData l)(p := Filled (forwarded r (h s) e))\<rparr>;
        (if isDolma c \<and> isDolmaRestricted (h s) \<and> \<not> isDolmaRestricted (h p)
         then access_memory c port r sreqLow sreqHigh load_idx p (Some s) wasPartial (h(p := set_status TotalStoreBufferHit (h p)), q, l1)
         else Some (h, q, l1\<lparr>writebacks := writebacks l1 @ [(p, memData l1 p)]\<rparr>)) }
    | PartialHit i \<Rightarrow> do {
        e \<leftarrow> vec_get (storeQueue l) i;
        s \<leftarrow> sq_inst e;
        (if isDolma c \<and> \<not> isSTT c \<and> isDolmaRestricted (h s) \<and> \<not> isDolmaRestricted (h p) \<and> \<not> wasPartial
         then access_memory c port r sreqLow sreqHigh load_idx p (Some s) wasPartial (h(p := set_status PartialStoreBufferHit (h p)), q, l)
         else stall_on load_idx p s (h, q, l)) })"

definition lsq_read ::
  "dolma_cpu \<Rightarrow> dcache_port \<Rightarrow> request \<Rightarrow> request option \<Rightarrow> request option \<Rightarrow> nat \<Rightarrow> lsq_state \<Rightarrow> (fault \<times> lsq_state) option" where
  "lsq_read c port r sreqLow sreqHigh load_idx = (\<lambda>(h, q, l). do {
     x \<leftarrow> vec_get (loadQueue l) load_idx;
     p \<leftarrow> x;
     check (\<not> isExecuted (h p));
     (if flag_set STRICT_ORDER r \<and> (load_idx \<noteq> loadHead l \<or> \<not> isAtCommit (h p)) then do {
        (h1, q1) \<leftarrow> rescheduleMemInst p (h, q);
        Some (order_fault, h1, q1, l) }
      else do {
        check (flag_set LLSC r \<longrightarrow> sreqLow = None);
        let h0 = (if flag_set LLSC r then h(p := set_flag RecordResult True (h p)) else h);
        (if flag_set MMAPPED_IPR r then do {
           check (memData l p = NoBuffer);
           check (case (sreqLow, sreqHigh) of
                    (None, _) \<Rightarrow> True
                  | (Some lo, Some hi) \<Rightarrow> flag_set MMAPPED_IPR lo \<and> flag_set MMAPPED_IPR hi
                  | _ \<Rightarrow> False);
           let l1 = l\<lparr>memData := (memData l)(p := Unfilled 64)\<rparr>;
           Some (NoFault, h0, q, l1\<lparr>writebacks := writebacks l1 @ [(p, Unfilled 64)]\<rparr>) }
         else do {
           let wasPartial = isPartialStoreBufferHit (h0 p);
           (hit, h1) \<leftarrow> (if sqIdx (h0 p) = -1 then Some (NoHit, h0) else search_stores c p r l (nat (sqIdx (h0 p))) h0);
           s \<leftarrow> after_search c port r sreqLow sreqHigh load_idx p wasPartial hit (h1, q, l);
           Some (NoFault, s) }) }) })"

section \<open>Writing and execution\<close>

definition lsq_write ::
  "request \<Rightarrow> request option \<Rightarrow> request option \<Rightarrow> 8 word list \<Rightarrow> nat \<Rightarrow> lsq_unit \<Rightarrow> lsq_unit option" where
  "lsq_write r sreqLow sreqHigh data store_idx l = do {
     e \<leftarrow> vec_get (storeQueue l) store_idx;
     check (sq_inst e \<noteq> None);
     let store_no_data = flag_set STORE_NO_DATA r;
     check (unat (req_size r) \<le> 16 \<or> store_no_data);
     let e1 = e\<lparr>sq_req := Some r, sq_sreqLow := sreqLow, sq_sreqHigh := sreqHigh, sq_size := ucast (req_size r),
                sq_isAllZeros := store_no_data, sq_isSplit := (if HasUnalignedMemAcc \<and> sreqLow \<noteq> None then True else sq_isSplit e)\<rparr>;
     let e2 = (if \<not> flag_set CACHE_BLOCK_ZERO r \<and> \<not> flag_set (CLEAN OR INVALIDATE) r
               then e1\<lparr>sq_data := take (unat (req_size r)) data @ drop (unat (req_size r)) (sq_data e1)\<rparr> else e1);
     Some (l\<lparr>storeQueue := (storeQueue l)[store_idx := e2]\<rparr>) }"

text \<open>
  \<open>initiateAcc\<close> and \<open>completeAcc\<close> stand for the generated code of the instruction: the first calls
  \<open>lsq_read\<close> or \<open>lsq_write\<close>, the second takes the loaded data.
\<close>

definition lsq_executeLoad ::
  "dolma_cpu \<Rightarrow> (iptr \<Rightarrow> lsq_state \<Rightarrow> (fault \<times> lsq_state) option) \<Rightarrow> iptr \<Rightarrow> lsq_state \<Rightarrow> (fault \<times> lsq_state) option" where
  "lsq_executeLoad c initiateAcc p = (\<lambda>(h, q, l). do {
     check (\<not> isDolmaStalled (h p));
     check (isSTT c \<longrightarrow> \<not> isDolmaRestricted (h p));
     (f, h1, q1, l1) \<leftarrow> initiateAcc p (h, q, l);
     (if isDolmaStalled (h1 p) then Some (f, h1, q1, l1)
      else if translationStarted (h1 p) \<and> \<not> translationCompleted (h1 p) \<and> f = NoFault then Some (f, h1, q1, l1)
      else if f \<noteq> NoFault \<or> Predicate \<notin> instFlags (h1 p) then
        (let i = (if \<not> (ReqMade \<in> instFlags (h1 p) \<and> strictlyOrdered (h1 p)) \<or> isAtCommit (h1 p)
                  then set_status Executed (h1 p) else h1 p)
         in Some (f, h1(p := i), q1, call_iew [InstToCommit p, ActivityThisCycle] l1))
      else do {
        check (effAddrValid (h1 p));
        (if checkLoads l1 then do {
           (f2, h2, l2) \<leftarrow> checkViolations c (incr (LQEntries l1) (nat (lqIdx (h1 p)))) p h1 l1;
           Some (f2, h2, q1, l2) }
         else Some (f, h1, q1, l1)) }) })"

definition lsq_executeStore ::
  "dolma_cpu \<Rightarrow> (iptr \<Rightarrow> lsq_state \<Rightarrow> (fault \<times> lsq_state) option) \<Rightarrow> iptr \<Rightarrow> lsq_state \<Rightarrow> (fault \<times> lsq_state) option" where
  "lsq_executeStore c initiateAcc p = (\<lambda>(h, q, l). do {
     check (stores l \<noteq> 0);
     check (\<not> isDolmaStalled (h p));
     let store_idx = nat (sqIdx (h p));
     let load_idx = nat (lqIdx (h p));
     (f, h1, q1, l1) \<leftarrow> initiateAcc p (h, q, l);
     (if isDolmaStalled (h1 p) then Some (f, h1, q1, l1)
      else if translationStarted (h1 p) \<and> \<not> translationCompleted (h1 p) \<and> f = NoFault then Some (f, h1, q1, l1)
      else if Predicate \<notin> instFlags (h1 p) then Some (f, h1, q1, l1)
      else do {
        e \<leftarrow> vec_get (storeQueue l1) store_idx;
        (if sq_size e = 0 then Some (f, h1, q1, l1)
         else do {
           check (f = NoFault);
           let l2 = (if isStoreConditional (h1 p)
                     then l1\<lparr>storeQueue := (storeQueue l1)[store_idx := e\<lparr>sq_canWB := True\<rparr>], storesToWB := storesToWB l1 + 1\<rparr>
                     else l1);
           (f2, h2, l3) \<leftarrow> checkViolations c load_idx p h1 l2;
           Some (f2, h2, q1, l3) }) }) })"

definition lsq_writeback :: "(iptr \<Rightarrow> inst_heap \<Rightarrow> inst_heap) \<Rightarrow> iptr \<Rightarrow> lsq_state \<Rightarrow> lsq_state option" where
  "lsq_writeback completeAcc p = (\<lambda>(h, q, l). do {
     let l0 = call_iew [WakeCPU] l;
     (if isSquashed (h p) then do { check (\<not> isStore (h p)); Some (h, q, l0) }
      else do {
        h1 \<leftarrow> (if isExecuted (h p) then Some h
               else do {
                 let h1 = h(p := set_status Executed (h p));
                 (if fault (h1 p) = NoFault then Some (completeAcc p h1)
                  else do { check (fault (h1 p) = FaultBase ''ReExec''); Some h1 }) });
        Some (h1, q, call_iew [InstToCommit p, ActivityThisCycle, CheckMisprediction p] l0) }) })"

text \<open>A response of the memory.\<close>

definition completeDataAccess :: "(iptr \<Rightarrow> inst_heap \<Rightarrow> inst_heap) \<Rightarrow> packet \<Rightarrow> lsq_state \<Rightarrow> lsq_state option" where
  "completeDataAccess completeAcc pkt = (\<lambda>(h, q, l). do {
     let n = pkt_state pkt;
     st \<leftarrow> senderStates l n;
     let p = st_inst st;
     let gone = l\<lparr>senderStates := (senderStates l)(n := None)\<rparr>;
     (if st_cacheBlocked st then Some (h, q, gone)
      else if HasUnalignedMemAcc \<and> st_outstanding st - 1 \<noteq> 0 then
        Some (h, q, l\<lparr>senderStates := (senderStates l)(n := Some (st\<lparr>st_outstanding := st_outstanding st - 1\<rparr>))\<rparr>)
      else if st_noWB st \<and> dolmaPhysicalReq (h p) \<noteq> None then do {
        check (st_isLoad st);
        let i1 = (h p)\<lparr>dolmaPhysicalReq := None, dolmaPhysicalSreqLow := None, dolmaPhysicalSreqHigh := None\<rparr>;
        Some (h(p := i1), q, gone) }
      else if isSquashed (h p) then Some (h, q, gone)
      else do {
        (h1, q1, l1) \<leftarrow> (if \<not> st_noWB st then do {
             check (isLoad (h p) \<or> isStoreConditional (h p));
             lsq_writeback completeAcc p (h, q, l) }
           else Some (h, q, l));
        (h2, q2, l2) \<leftarrow> (if isStore (h1 p) then completeStore (st_idx st) (h1, q1, l1) else Some (h1, q1, l1));
        Some (h2, q2, l2\<lparr>senderStates := (senderStates l2)(n := None)\<rparr>) }) })"

section \<open>Resizing\<close>

definition resizeLQ :: "nat \<Rightarrow> lsq_unit \<Rightarrow> lsq_unit option" where
  "resizeLQ sz l = do {
     let size_plus_sentinel = sz + 1;
     check (size_plus_sentinel \<ge> LQEntries l);
     let grow = size_plus_sentinel - length (loadQueue l);
     let l1 = (if size_plus_sentinel > LQEntries l
               then l\<lparr>loadQueue := loadQueue l @ replicate grow None, LQEntries := LQEntries l + grow\<rparr>
               else l\<lparr>LQEntries := size_plus_sentinel\<rparr>);
     check (LQEntries l1 \<le> 256);
     Some l1 }"

definition resizeSQ :: "nat \<Rightarrow> lsq_unit \<Rightarrow> lsq_unit option" where
  "resizeSQ sz l = do {
     let size_plus_sentinel = sz + 1;
     let grow = size_plus_sentinel - length (storeQueue l);
     let l1 = (if size_plus_sentinel > SQEntries l
               then l\<lparr>storeQueue := storeQueue l @ replicate grow (empty_sq None), SQEntries := SQEntries l + grow\<rparr>
               else l\<lparr>SQEntries := size_plus_sentinel\<rparr>);
     check (SQEntries l1 \<le> 256);
     Some l1 }"

end
