(* ===== verification/Lsq_Queues.thy ===== *)
theory Lsq_Queues
  imports Lsq_Unit
begin

text \<open>
  The circular queues of the load/store unit as lists: what they hold from head to tail, and what
  insertion, commit and squash do to it.
\<close>

section \<open>Windows of a circular buffer\<close>

definition window :: "nat \<Rightarrow> nat \<Rightarrow> nat \<Rightarrow> nat list" where
  "window n a k = map (\<lambda>i. (a + i) mod n) [0..<k]"

lemma length_window [simp]: "length (window n a k) = k"
  by (simp add: window_def)

lemma window_0 [simp]: "window n a 0 = []"
  by (simp add: window_def)

lemma window_last: "window n a (Suc k) = window n a k @ [(a + k) mod n]"
  by (simp add: window_def)

lemma incr_mod: "i < n \<Longrightarrow> incr n i = Suc i mod n"
  by (cases "Suc i = n") (auto simp: incr_def)

lemma window_first: "a < n \<Longrightarrow> window n a (Suc k) = a # window n (incr n a) k"
proof -
  assume a: "a < n"
  have "window n a (Suc k) = map (\<lambda>i. (a + i) mod n) (0 # map Suc [0..<k])"
    by (simp add: window_def upt_conv_Cons map_Suc_upt del: upt_Suc)
  also have "\<dots> = a # map (\<lambda>i. (a + Suc i) mod n) [0..<k]" using a by (simp add: o_def)
  also have "map (\<lambda>i. (a + Suc i) mod n) [0..<k] = window n (incr n a) k"
    using a by (simp add: window_def incr_mod mod_add_left_eq)
  finally show ?thesis .
qed

lemma window_less: "0 < n \<Longrightarrow> i \<in> set (window n a k) \<Longrightarrow> i < n"
  by (auto simp: window_def)

lemma add_mod_inj:
  fixes a i j n :: nat
  assumes "(a + i) mod n = (a + j) mod n" and "i < n" and "j < n"
  shows "i = j"
proof -
  have *: "j = i" if "(a + i) mod n = (a + j) mod n" "i \<le> j" "j < n" for i j
  proof -
    have "n dvd (a + j) - (a + i)" using that mod_eq_dvd_iff_nat[of "a + i" "a + j" n] by simp
    then have "n dvd j - i" by simp
    then show ?thesis using that dvd_imp_le[of n "j - i"] by (cases "i = j") auto
  qed
  show ?thesis using *[OF assms(1) _ assms(3)] *[OF assms(1)[symmetric] _ assms(2)] nat_le_linear[of i j] by blast
qed

lemma window_nth: "i < k \<Longrightarrow> window n a k ! i = (a + i) mod n"
  by (simp add: window_def)

lemma window_distinct: "k \<le> n \<Longrightarrow> distinct (window n a k)"
  unfolding window_def distinct_map
proof (intro conjI inj_onI)
  fix i j assume "k \<le> n" "i \<in> set [0..<k]" "j \<in> set [0..<k]" "(a + i) mod n = (a + j) mod n"
  then show "i = j" by (intro add_mod_inj[of a i n j]) simp_all
qed simp

lemma window_fresh: "k < n \<Longrightarrow> (a + k) mod n \<notin> set (window n a k)"
proof
  assume k: "k < n" and "(a + k) mod n \<in> set (window n a k)"
  then obtain i where "i < k" "(a + k) mod n = (a + i) mod n" by (auto simp: window_def)
  then show False using add_mod_inj[of a k n i] k by simp
qed

lemma incr_window: "0 < n \<Longrightarrow> incr n ((a + k) mod n) = (a + Suc k) mod n"
  by (simp add: incr_mod mod_Suc_eq)

lemma decr_window: "0 < n \<Longrightarrow> decr n ((a + Suc k) mod n) = (a + k) mod n"
  by (auto simp: decr_def mod_Suc)

text \<open>What a buffer holds in a window.\<close>

definition held :: "'a list \<Rightarrow> nat \<Rightarrow> nat \<Rightarrow> 'a list" where
  "held xs a k = map ((!) xs) (window (length xs) a k)"

lemma held_0 [simp]: "held xs a 0 = []"
  by (simp add: held_def)

lemma length_held [simp]: "length (held xs a k) = k"
  by (simp add: held_def)

lemma held_last: "held xs a (Suc k) = held xs a k @ [xs ! ((a + k) mod length xs)]"
  by (simp add: held_def window_last)

lemma held_first: "a < length xs \<Longrightarrow> held xs a (Suc k) = xs ! a # held xs (incr (length xs) a) k"
  by (simp add: held_def window_first)

lemma held_update_outside: "i \<notin> set (window (length xs) a k) \<Longrightarrow> held (xs[i := x]) a k = held xs a k"
  unfolding held_def length_list_update by (intro map_cong refl) (metis nth_list_update_neq)

lemma wrap_less: "k < (n::nat) \<Longrightarrow> (a + j) mod n < n"
  by (intro mod_less_divisor) linarith

lemma held_push:
  assumes "k < length xs"
  shows "held (xs[(a + k) mod length xs := x]) a (Suc k) = held xs a k @ [x]"
proof -
  show ?thesis using window_fresh[OF assms, of a] wrap_less[OF assms, of a k] by (simp add: held_last held_update_outside)
qed

text \<open>A buffer that is empty outside its window.\<close>

definition only_window :: "'a option list \<Rightarrow> nat \<Rightarrow> nat \<Rightarrow> bool" where
  "only_window xs a k \<longleftrightarrow> (\<forall>i < length xs. xs ! i \<noteq> None \<longleftrightarrow> i \<in> set (window (length xs) a k))"

lemma only_window_push:
  assumes "only_window xs a k" and "k < length xs"
  shows "only_window (xs[(a + k) mod length xs := Some x]) a (Suc k)"
  using assms wrap_less[OF assms(2), of a k] by (auto simp: only_window_def window_last nth_list_update)

lemma only_window_pop_front:
  assumes "only_window xs a (Suc k)" and "Suc k \<le> length xs" and "a < length xs"
  shows "only_window (xs[a := None]) (incr (length xs) a) k"
proof -
  have "a \<notin> set (window (length xs) (incr (length xs) a) k)"
    using window_distinct[OF assms(2), of a] assms(3) by (simp add: window_first)
  then show ?thesis using assms by (auto simp: only_window_def window_first nth_list_update)
qed

lemma only_window_pop_back:
  assumes "only_window xs a (Suc k)" and "Suc k \<le> length xs"
  shows "only_window (xs[(a + k) mod length xs := None]) a k"
proof -
  have "(a + k) mod length xs \<notin> set (window (length xs) a k)" using window_fresh assms(2) by simp
  moreover have "(a + k) mod length xs < length xs" using wrap_less[of k "length xs" a k] assms(2) by simp
  ultimately show ?thesis using assms by (auto simp: only_window_def window_last nth_list_update)
qed

lemma held_Some:
  assumes "only_window xs a k" and "0 < length xs" and "x \<in> set (held xs a k)"
  shows "x \<noteq> None"
  using assms window_less[of "length xs"] by (auto simp: only_window_def held_def)

section \<open>The load queue\<close>

definition lq_wf :: "lsq_unit \<Rightarrow> bool" where
  "lq_wf l \<longleftrightarrow> length (loadQueue l) = LQEntries l \<and> loadHead l < LQEntries l \<and> 0 \<le> loads l \<and> nat (loads l) < LQEntries l \<and>
     loadTail l = (loadHead l + nat (loads l)) mod LQEntries l \<and> only_window (loadQueue l) (loadHead l) (nat (loads l))"

definition lq :: "lsq_unit \<Rightarrow> iptr list" where
  "lq l = map the (held (loadQueue l) (loadHead l) (nat (loads l)))"

lemma length_lq [simp]: "length (lq l) = nat (loads l)"
  by (simp add: lq_def)

text \<open>The other half of the unit.\<close>

definition same_stores :: "lsq_unit \<Rightarrow> lsq_unit \<Rightarrow> bool" where
  "same_stores l l' \<longleftrightarrow> storeQueue l' = storeQueue l \<and> stores l' = stores l \<and> storesToWB l' = storesToWB l \<and>
     storeHead l' = storeHead l \<and> storeTail l' = storeTail l \<and> storeWBIdx l' = storeWBIdx l \<and> SQEntries l' = SQEntries l"

definition same_loads :: "lsq_unit \<Rightarrow> lsq_unit \<Rightarrow> bool" where
  "same_loads l l' \<longleftrightarrow> loadQueue l' = loadQueue l \<and> loads l' = loads l \<and> loadHead l' = loadHead l \<and>
     loadTail l' = loadTail l \<and> LQEntries l' = LQEntries l"

lemma same_stores_refl [simp]: "same_stores l l"
  by (simp add: same_stores_def)

lemma same_stores_trans: "same_stores l l1 \<Longrightarrow> same_stores l1 l2 \<Longrightarrow> same_stores l l2"
  by (simp add: same_stores_def)

lemma tail_full:
  assumes "k < n" and "a < n"
  shows "Suc ((a + k) mod n) mod n = a \<longleftrightarrow> Suc k = n"
proof -
  have "Suc ((a + k) mod n) mod n = (a + Suc k) mod n" by (simp add: mod_Suc_eq)
  moreover have "(a + Suc k) mod n = (a + 0) mod n \<longleftrightarrow> Suc k = n"
    using add_mod_inj[of a "Suc k" n 0] assms by (cases "Suc k = n") auto
  ultimately show ?thesis using assms(2) by simp
qed

text \<open>Insertion appends, and fails exactly if the queue is full.\<close>

lemma insertLoad_lq:
  assumes "lq_wf l"
  shows "if lqFull l then lsq_insertLoad p (h, l) = None
    else \<exists>l'. lsq_insertLoad p (h, l) =
        Some (h(p := (h p)\<lparr>lqIdx := int (loadTail l), sqIdx := (if stores l = 0 then -1 else int (storeTail l))\<rparr>), l') \<and>
      lq_wf l' \<and> lq l' = lq l @ [p] \<and> same_stores l l'"
proof -
  let ?n = "LQEntries l" and ?k = "nat (loads l)"
  note w = assms[unfolded lq_wf_def]
  have full: "(loadTail l + 1) mod ?n = loadHead l \<longleftrightarrow> Suc ?k = ?n" using w tail_full by simp
  have f: "lqFull l \<longleftrightarrow> Suc ?k = ?n" using w by (auto simp: lqFull_def)
  show ?thesis
  proof (cases "lqFull l")
    case True
    then show ?thesis using full f by (simp add: lsq_insertLoad_def)
  next
    case False
    define l' where "l' = l\<lparr>loadQueue := (loadQueue l)[loadTail l := Some p], loadTail := incr ?n (loadTail l), loads := loads l + 1\<rparr>"
    have k: "nat (loads l + 1) = Suc ?k" and t: "loadTail l < ?n" using w by auto
    have "lq l' = lq l @ [p]"
      using w k held_push[of ?k "loadQueue l" "loadHead l" "Some p"] by (simp add: lq_def l'_def)
    moreover have "lq_wf l'"
      using w k False f only_window_push[of "loadQueue l" "loadHead l" ?k p] incr_window[of ?n "loadHead l" ?k]
      by (auto simp: lq_wf_def l'_def)
    ultimately show ?thesis using False full f w t by (auto simp: lsq_insertLoad_def Let_def l'_def same_stores_def)
  qed
qed

text \<open>Commit removes the head, squashing the tail.\<close>

lemma lq_Cons:
  assumes "lq_wf l" and "lq l = p # ps"
  shows "loads l \<noteq> 0" and "loadQueue l ! loadHead l = Some p"
    and "\<exists>l'. commitLoad l = Some l' \<and> lq_wf l' \<and> lq l' = ps \<and> same_stores l l'"
proof -
  let ?n = "LQEntries l"
  note w = assms(1)[unfolded lq_wf_def]
  have k: "nat (loads l) = Suc (length ps)" using assms(2) length_lq[of l] by simp
  show "loads l \<noteq> 0" using k by auto
  have h: "held (loadQueue l) (loadHead l) (nat (loads l)) =
      loadQueue l ! loadHead l # held (loadQueue l) (incr ?n (loadHead l)) (length ps)"
    using w k held_first[of "loadHead l" "loadQueue l" "length ps"] by simp
  have "loadHead l \<in> set (window ?n (loadHead l) (nat (loads l)))" using w k by (simp add: window_first)
  then obtain x where x: "loadQueue l ! loadHead l = Some x" using w by (auto simp: only_window_def)
  then show hd: "loadQueue l ! loadHead l = Some p" using assms(2) h by (simp add: lq_def)
  define l' where "l' = l\<lparr>loadQueue := (loadQueue l)[loadHead l := None], loadHead := incr ?n (loadHead l), loads := loads l - 1\<rparr>"
  have n: "nat (loads l - 1) = length ps" using k by simp
  have out: "loadHead l \<notin> set (window ?n (incr ?n (loadHead l)) (length ps))"
    using window_distinct[of "Suc (length ps)" ?n "loadHead l"] w k by (simp add: window_first)
  have "lq l' = ps" using assms(2) h out w n by (simp add: lq_def l'_def held_update_outside)
  moreover have "lq_wf l'"
    using w k n only_window_pop_front[of "loadQueue l" "loadHead l" "length ps"]
    by (auto simp: lq_wf_def l'_def incr_mod mod_add_left_eq)
  ultimately show "\<exists>l'. commitLoad l = Some l' \<and> lq_wf l' \<and> lq l' = ps \<and> same_stores l l'"
    using x w by (auto simp: commitLoad_def l'_def same_stores_def)
qed

lemma lq_Nil: "lq_wf l \<Longrightarrow> lq l = [] \<longleftrightarrow> loads l = 0"
  by (auto simp: lq_wf_def simp flip: length_0_conv)

lemma load_fields_trans:
  assumes "l1 = l\<lparr>loadQueue := a, loadHead := b, loads := c\<rparr>" and "l' = l1\<lparr>loadQueue := a', loadHead := b', loads := c'\<rparr>"
  shows "l' = l\<lparr>loadQueue := a', loadHead := b', loads := c'\<rparr>"
  using assms by simp

lemma commitLoads_lq:
  assumes "lq_wf l"
  shows "\<exists>l'. commitLoads y h l = Some l' \<and> lq_wf l' \<and> lq l' = dropWhile (\<lambda>p. seqNum (h p) \<le> y) (lq l) \<and> same_stores l l' \<and>
    l' = l\<lparr>loadQueue := loadQueue l', loadHead := loadHead l', loads := loads l'\<rparr>"
proof -
  have "\<exists>l'. commitLoads_loop y h l = Some l' \<and> lq_wf l' \<and> lq l' = dropWhile (\<lambda>p. seqNum (h p) \<le> y) ps \<and> same_stores l l' \<and>
      l' = l\<lparr>loadQueue := loadQueue l', loadHead := loadHead l', loads := loads l'\<rparr>"
    if "lq_wf l" "lq l = ps" for ps
    using that
  proof (induction ps arbitrary: l)
    case Nil
    then have "commitLoads_loop y h l = Some l" using lq_Nil by (subst commitLoads_loop.simps) simp
    then show ?case using Nil by simp
  next
    case (Cons p ps)
    note c = lq_Cons[OF Cons.prems]
    have hd: "loadHead l < length (loadQueue l)" using Cons.prems(1) by (simp add: lq_wf_def)
    show ?case
    proof (cases "seqNum (h p) \<le> y")
      case False
      then have "commitLoads_loop y h l = Some l" using c(1,2) hd by (subst commitLoads_loop.simps) simp
      then show ?thesis using False Cons.prems by simp
    next
      case True
      from c(3) obtain l1 where l1: "commitLoad l = Some l1" "lq_wf l1" "lq l1 = ps" "same_stores l l1" by blast
      then have step: "commitLoads_loop y h l = commitLoads_loop y h l1" using True c(1,2) hd by (subst commitLoads_loop.simps) simp
      have f1: "l1 = l\<lparr>loadQueue := loadQueue l1, loadHead := loadHead l1, loads := loads l1\<rparr>"
        using l1(1) by (auto simp: commitLoad_def bind_eq_Some_conv split: if_splits)
      from Cons.IH[OF l1(2,3)] obtain l' where l': "commitLoads_loop y h l1 = Some l'" "lq_wf l'"
        "lq l' = dropWhile (\<lambda>p. seqNum (h p) \<le> y) ps" "same_stores l1 l'"
        "l' = l1\<lparr>loadQueue := loadQueue l', loadHead := loadHead l', loads := loads l'\<rparr>" by blast
      have "l' = l\<lparr>loadQueue := loadQueue l', loadHead := loadHead l', loads := loads l'\<rparr>"
        by (rule load_fields_trans[OF f1 l'(5)])
      then show ?thesis unfolding step l'(1) using True l'(2,3) same_stores_trans[OF l1(4) l'(4)] by (intro exI[of _ l']) simp
    qed
  qed
  moreover have "commitLoads y h l = commitLoads_loop y h l"
  proof (cases "lq l")
    case Nil
    then show ?thesis using assms lq_Nil[OF assms] by (simp add: commitLoads_def lq_wf_def)
  next
    case (Cons p ps)
    then show ?thesis using assms lq_Cons(2)[OF assms Cons] by (simp add: commitLoads_def lq_wf_def)
  qed
  ultimately show ?thesis using assms by simp
qed

lemma lq_snoc:
  assumes "lq_wf l" and "lq l = ps @ [p]"
  defines "i \<equiv> decr (LQEntries l) (loadTail l)"
  shows "loads l \<noteq> 0" and "i < length (loadQueue l)" and "loadQueue l ! i = Some p"
    and "loadQueue l' = (loadQueue l)[i := None] \<Longrightarrow> loads l' = loads l - 1 \<Longrightarrow> loadTail l' = i \<Longrightarrow> loadHead l' = loadHead l \<Longrightarrow>
      LQEntries l' = LQEntries l \<Longrightarrow> lq_wf l' \<and> lq l' = ps"
proof -
  let ?n = "LQEntries l" and ?k = "length ps"
  note w = assms(1)[unfolded lq_wf_def]
  have k: "nat (loads l) = Suc ?k" using assms(2) length_lq[of l] by simp
  show "loads l \<noteq> 0" using k by auto
  have i: "i = (loadHead l + ?k) mod ?n" using w k decr_window[of ?n "loadHead l" ?k] by (simp add: i_def)
  then show il: "i < length (loadQueue l)" using w wrap_less[of ?k ?n "loadHead l" ?k] k by simp
  have h: "held (loadQueue l) (loadHead l) (nat (loads l)) = held (loadQueue l) (loadHead l) ?k @ [loadQueue l ! i]"
    using w k i by (simp add: held_last)
  have "i \<in> set (window ?n (loadHead l) (nat (loads l)))" using k i by (simp add: window_last)
  then obtain x where x: "loadQueue l ! i = Some x" using w il by (auto simp: only_window_def)
  then show "loadQueue l ! i = Some p" using assms(2) h by (simp add: lq_def)
  assume l': "loadQueue l' = (loadQueue l)[i := None]" "loads l' = loads l - 1" "loadTail l' = i" "loadHead l' = loadHead l"
    "LQEntries l' = LQEntries l"
  have n: "nat (loads l - 1) = ?k" using k by simp
  have "i \<notin> set (window ?n (loadHead l) ?k)" using window_fresh[of ?k ?n "loadHead l"] w k i by simp
  then have "lq l' = ps" using assms(2) h w n l' by (simp add: lq_def held_update_outside)
  moreover have "lq_wf l'"
    using w k n l' i only_window_pop_back[of "loadQueue l" "loadHead l" ?k] by (auto simp: lq_wf_def)
  ultimately show "lq_wf l' \<and> lq l' = ps" by simp
qed

definition squash_insts :: "iptr list \<Rightarrow> inst_heap \<Rightarrow> inst_heap" where
  "squash_insts ps h = fold (\<lambda>p h. h(p := setSquashed (h p))) ps h"

lemma setSquashed_seqNum [simp]: "seqNum (setSquashed i) = seqNum i"
  by (simp add: setSquashed_def)

lemma squash_insts_seqNum [simp]: "seqNum (squash_insts ps h x) = seqNum (h x)"
proof (induction ps arbitrary: h)
  case (Cons p ps)
  then show ?case by (simp add: squash_insts_def)
qed (simp add: squash_insts_def)

lemma squash_insts_Cons: "squash_insts (p # ps) h = squash_insts ps (h(p := setSquashed (h p)))"
  by (simp add: squash_insts_def)

text \<open>A load that waits for a store is in the queue, and is younger than the store.\<close>

definition stall_ok :: "inst_heap \<Rightarrow> lsq_unit \<Rightarrow> bool" where
  "stall_ok h l \<longleftrightarrow> (stalled l \<longrightarrow> (\<exists>j < nat (loads l). stallingLoadIdx l = (loadHead l + j) mod LQEntries l \<and>
     stallingStoreIsn l < seqNum (h (lq l ! j))))"

text \<open>The fields a squash of loads leaves alone.\<close>

definition lq_squash_frame :: "lsq_unit \<Rightarrow> lsq_unit \<Rightarrow> bool" where
  "lq_squash_frame l l' \<longleftrightarrow> l' = l\<lparr>loadQueue := loadQueue l', loads := loads l', loadTail := loadTail l', stalled := stalled l',
     stallingStoreIsn := stallingStoreIsn l', stallingLoadIdx := stallingLoadIdx l'\<rparr>"

lemma squash_fields_trans:
  assumes "l1 = l\<lparr>loadQueue := a, loads := b, loadTail := c, stalled := d,
    stallingStoreIsn := e, stallingLoadIdx := f\<rparr>"
    and "l2 = l1\<lparr>loadQueue := a', loads := b', loadTail := c', stalled := d',
    stallingStoreIsn := e', stallingLoadIdx := f'\<rparr>"
  shows "l2 = l\<lparr>loadQueue := a', loads := b', loadTail := c', stalled := d',
    stallingStoreIsn := e', stallingLoadIdx := f'\<rparr>"
  using assms by simp

lemma lq_squash_frame_trans: "lq_squash_frame l l1 \<Longrightarrow> lq_squash_frame l1 l2 \<Longrightarrow> lq_squash_frame l l2"
  unfolding lq_squash_frame_def by (rule squash_fields_trans)

lemma stall_ok_cong: "(\<And>x. seqNum (h' x) = seqNum (h x)) \<Longrightarrow> stall_ok h' l = stall_ok h l"
  by (simp add: stall_ok_def)

lemma stall_ok_last:
  assumes "lq_wf l" and "lq l = ps @ [p]" and "lq l2 = ps" and "stall_ok h l" and "loadHead l2 = loadHead l"
    and "LQEntries l2 = LQEntries l" and "stalled l2 = stalled l" and "stallingLoadIdx l2 = stallingLoadIdx l"
    and "stallingStoreIsn l2 = stallingStoreIsn l" and "\<not> (stalled l \<and> decr (LQEntries l) (loadTail l) = stallingLoadIdx l)"
  shows "stall_ok h l2"
proof -
  have n: "nat (loads l) = Suc (length ps)" "nat (loads l2) = length ps"
    using assms(2,3) length_lq[of l] length_lq[of l2] by simp_all
  have "0 < LQEntries l" "loadTail l = (loadHead l + Suc (length ps)) mod LQEntries l" using assms(1) n(1) by (auto simp: lq_wf_def)
  then have d: "decr (LQEntries l) (loadTail l) = (loadHead l + length ps) mod LQEntries l"
    using decr_window[of "LQEntries l" "loadHead l" "length ps"] by simp
  show ?thesis unfolding stall_ok_def
  proof
    assume st: "stalled l2"
    with assms(4,7) n(1) obtain j where j: "j < Suc (length ps)" "stallingLoadIdx l = (loadHead l + j) mod LQEntries l"
      "stallingStoreIsn l < seqNum (h (lq l ! j))" unfolding stall_ok_def by auto
    have "j \<noteq> length ps" using assms(7,10) st d j(2) by metis
    then have "j < length ps" "lq l ! j = lq l2 ! j" using j(1) assms(2,3) by (simp_all add: nth_append)
    then show "\<exists>j < nat (loads l2). stallingLoadIdx l2 = (loadHead l2 + j) mod LQEntries l2 \<and> stallingStoreIsn l2 < seqNum (h (lq l2 ! j))"
      using j(2,3) n(2) assms(5,6,8,9) by (intro exI[of _ j]) simp
  qed
qed

lemma squash_loads_lq:
  assumes "lq_wf l"
  shows "\<exists>l'. squash_loads sn (decr (LQEntries l) (loadTail l)) h l =
      Some (squash_insts (takeWhile (\<lambda>p. seqNum (h p) > sn) (rev (lq l))) h, l') \<and>
    lq_wf l' \<and> lq l' = rev (dropWhile (\<lambda>p. seqNum (h p) > sn) (rev (lq l))) \<and> same_stores l l' \<and>
    lq_squash_frame l l' \<and> (stall_ok h l \<longrightarrow> stall_ok h l')"
proof -
  have "\<exists>l'. squash_loads sn (decr (LQEntries l) (loadTail l)) h l =
      Some (squash_insts (takeWhile (\<lambda>p. seqNum (h p) > sn) ps) h, l') \<and>
    lq_wf l' \<and> lq l' = rev (dropWhile (\<lambda>p. seqNum (h p) > sn) ps) \<and> same_stores l l' \<and>
    lq_squash_frame l l' \<and> (stall_ok h l \<longrightarrow> stall_ok h l')"
    if "lq_wf l" "lq l = rev ps" for ps
    using that
  proof (induction ps arbitrary: l h)
    case Nil
    then have "squash_loads sn (decr (LQEntries l) (loadTail l)) h l = Some (h, l)"
      using lq_Nil by (subst squash_loads.simps) simp
    then show ?case using Nil by (simp add: squash_insts_def lq_squash_frame_def)
  next
    case (Cons p ps)
    let ?i = "decr (LQEntries l) (loadTail l)"
    have l: "lq l = rev ps @ [p]" using Cons.prems(2) by simp
    note b = lq_snoc[OF Cons.prems(1) l]
    show ?case
    proof (cases "seqNum (h p) > sn")
      case False
      then have "squash_loads sn ?i h l = Some (h, l)" using b(1-3) by (subst squash_loads.simps) simp
      then show ?thesis using False Cons.prems by (simp add: squash_insts_def lq_squash_frame_def)
    next
      case True
      define l1 where "l1 = (if stalled l \<and> ?i = stallingLoadIdx l then unstall l else l)"
      define l2 where "l2 = l1\<lparr>loadQueue := (loadQueue l1)[?i := None], loads := loads l1 - 1, loadTail := ?i\<rparr>"
      let ?h = "h(p := setSquashed (h p))"
      have s: "same_stores l l2" "lq_squash_frame l l2" by (auto simp: l2_def l1_def same_stores_def unstall_def lq_squash_frame_def)
      have lq2: "loadQueue l2 = (loadQueue l)[?i := None]" "loads l2 = loads l - 1" "loadTail l2 = ?i"
        "loadHead l2 = loadHead l" "LQEntries l2 = LQEntries l" by (auto simp: l2_def l1_def unstall_def)
      have w: "lq_wf l2" "lq l2 = rev ps" using b(4)[OF lq2] by simp_all
      have sk: "stall_ok h l2" if "stall_ok h l"
      proof (cases "stalled l \<and> ?i = stallingLoadIdx l")
        case True
        then show ?thesis by (simp add: stall_ok_def l2_def l1_def unstall_def)
      next
        case False
        then have f: "stalled l2 = stalled l" "stallingLoadIdx l2 = stallingLoadIdx l" "stallingStoreIsn l2 = stallingStoreIsn l"
          by (auto simp: l2_def l1_def)
        show ?thesis using stall_ok_last[OF Cons.prems(1) l w(2)] that False f lq2 by simp
      qed
      have sk1: "stall_ok ?h l2 = stall_ok h l2" for l2 by (rule stall_ok_cong) simp
      have step: "squash_loads sn ?i h l = squash_loads sn (decr (LQEntries l2) (loadTail l2)) ?h l2"
        using b(1-3) True lq2 by (subst squash_loads.simps) (simp add: l2_def l1_def Let_def)
      have sn: "seqNum (?h x) = seqNum (h x)" for x by simp
      from Cons.IH[OF w, of ?h] obtain l' where
        "squash_loads sn (decr (LQEntries l2) (loadTail l2)) ?h l2 = Some (squash_insts (takeWhile (\<lambda>p. seqNum (h p) > sn) ps) ?h, l')"
        "lq_wf l'" "lq l' = rev (dropWhile (\<lambda>p. seqNum (h p) > sn) ps)" "same_stores l2 l'"
        "lq_squash_frame l2 l'" "stall_ok h l2 \<longrightarrow> stall_ok h l'"
        unfolding sn sk1 by blast
      then show ?thesis unfolding step using True s sk same_stores_trans lq_squash_frame_trans by (auto simp: squash_insts_Cons)
    qed
  qed
  from this[of "rev (lq l)"] assms show ?thesis by simp
qed

end
