(* ===== verification/Lsq_Stores.thy ===== *)
theory Lsq_Stores
  imports Lsq_Queues
begin

text \<open>
  The store queue as a list: its entries from head to tail, of which a prefix has been handed to
  the cache. Insertion appends, commit marks a prefix, a squash removes a suffix that is not
  committed, and completion marks an entry and frees the completed prefix.
\<close>

definition sq :: "lsq_unit \<Rightarrow> sq_entry list" where
  "sq l = held (storeQueue l) (storeHead l) (nat (stores l))"

definition sq_wf :: "lsq_unit \<Rightarrow> bool" where
  "sq_wf l \<longleftrightarrow> length (storeQueue l) = SQEntries l \<and> storeHead l < SQEntries l \<and> 0 \<le> stores l \<and> nat (stores l) < SQEntries l \<and>
     storeTail l = (storeHead l + nat (stores l)) mod SQEntries l \<and> (\<forall>e \<in> set (sq l). sq_inst e \<noteq> None)"

lemma length_sq [simp]: "length (sq l) = nat (stores l)"
  by (simp add: sq_def)

lemma same_loads_lq: "same_loads l l' \<Longrightarrow> lq l' = lq l \<and> lq_wf l' = lq_wf l"
  by (simp add: same_loads_def lq_def lq_wf_def)

lemma same_stores_sq: "same_stores l l' \<Longrightarrow> sq l' = sq l \<and> sq_wf l' = sq_wf l"
  by (simp add: same_stores_def sq_def sq_wf_def)

text \<open>Updating an entry of the window.\<close>

lemma held_update_inside:
  assumes "i < k" and "k \<le> length xs"
  shows "held (xs[(a + i) mod length xs := x]) a k = (held xs a k)[i := x]"
proof (rule nth_equalityI)
  fix j assume "j < length (held (xs[(a + i) mod length xs := x]) a k)"
  then have j: "j < k" by simp
  have "(a + i) mod length xs < length xs" using assms wrap_less[of i "length xs" a i] by simp
  moreover have "(a + i) mod length xs = (a + j) mod length xs \<longleftrightarrow> i = j"
    using add_mod_inj[of a i "length xs" j] assms j by auto
  ultimately show "held (xs[(a + i) mod length xs := x]) a k ! j = (held xs a k)[i := x] ! j"
    using assms j by (simp add: held_def window_nth nth_list_update)
qed simp

lemma sq_nth:
  assumes "sq_wf l" and "i < nat (stores l)"
  shows "(storeHead l + i) mod SQEntries l < length (storeQueue l)"
    and "storeQueue l ! ((storeHead l + i) mod SQEntries l) = sq l ! i"
  using assms wrap_less[of i "SQEntries l" "storeHead l" i] by (auto simp: sq_wf_def sq_def held_def window_nth)

lemma sq_update:
  assumes "sq_wf l" and "i < nat (stores l)" and "sq_inst e \<noteq> None"
    and "storeQueue l' = (storeQueue l)[(storeHead l + i) mod SQEntries l := e]" and "storeHead l' = storeHead l"
    and "stores l' = stores l" and "SQEntries l' = SQEntries l" and "storeTail l' = storeTail l"
  shows "sq l' = (sq l)[i := e] \<and> sq_wf l'"
proof -
  have "sq l' = (sq l)[i := e]"
    using assms held_update_inside[of i "nat (stores l)" "storeQueue l" "storeHead l" e] by (simp add: sq_def sq_wf_def)
  then show ?thesis using assms by (auto simp: sq_wf_def dest!: subsetD[OF set_update_subset_insert])
qed

section \<open>Insertion\<close>

lemma insertStore_sq_lists:
  assumes "sq_wf l"
  shows "if sqFull l then lsq_insertStore p (h, l) = None
    else \<exists>l'. lsq_insertStore p (h, l) = Some (h(p := (h p)\<lparr>sqIdx := int (storeTail l), lqIdx := int (loadTail l)\<rparr>), l') \<and>
      sq_wf l' \<and> sq l' = sq l @ [empty_sq (Some p)] \<and> same_loads l l' \<and> storeWBIdx l' = storeWBIdx l \<and> storeHead l' = storeHead l"
proof -
  let ?n = "SQEntries l" and ?k = "nat (stores l)"
  note w = assms[unfolded sq_wf_def]
  have full: "(storeTail l + 1) mod ?n = storeHead l \<longleftrightarrow> Suc ?k = ?n" using w tail_full by simp
  have f: "sqFull l \<longleftrightarrow> Suc ?k = ?n" using w by (auto simp: sqFull_def)
  show ?thesis
  proof (cases "sqFull l")
    case True
    then show ?thesis using full f by (simp add: lsq_insertStore_def)
  next
    case False
    define l' where "l' = l\<lparr>storeQueue := (storeQueue l)[storeTail l := empty_sq (Some p)], storeTail := incr ?n (storeTail l),
      stores := stores l + 1\<rparr>"
    have k: "nat (stores l + 1) = Suc ?k" and t: "storeTail l < ?n" using w by auto
    have q: "sq l' = sq l @ [empty_sq (Some p)]"
      using w k held_push[of ?k "storeQueue l" "storeHead l" "empty_sq (Some p)"] by (simp add: sq_def l'_def)
    moreover have "sq_wf l'"
      using w k False f incr_window[of ?n "storeHead l" ?k] by (auto simp: sq_wf_def q) (auto simp: l'_def empty_sq_def)
    ultimately show ?thesis using False full f w t by (auto simp: lsq_insertStore_def Let_def l'_def same_loads_def)
  qed
qed

section \<open>Commit\<close>

fun mark_committed :: "inst_seq_num \<Rightarrow> inst_heap \<Rightarrow> sq_entry list \<Rightarrow> sq_entry list" where
  "mark_committed y h [] = []"
| "mark_committed y h (e # es) =
     (if sq_canWB e then e # mark_committed y h es
      else if seqNum (h (the (sq_inst e))) > y then e # es
      else e\<lparr>sq_canWB := True\<rparr> # mark_committed y h es)"

lemma length_mark_committed [simp]: "length (mark_committed y h es) = length es"
  by (induction es) auto

lemma commitStores_loop_sq:
  assumes "sq_wf l" and "sq l = done @ todo" and "i = (storeHead l + length done) mod SQEntries l"
  shows "\<exists>l'. commitStores_loop y h i l = Some l' \<and> sq_wf l' \<and> sq l' = done @ mark_committed y h todo \<and> same_loads l l' \<and>
    storeWBIdx l' = storeWBIdx l \<and> storeHead l' = storeHead l \<and> stores l' = stores l \<and> SQEntries l' = SQEntries l"
  using assms
proof (induction todo arbitrary: l "done" i)
  case Nil
  then have "i = storeTail l" using length_sq[of l] by (auto simp: sq_wf_def)
  then have "commitStores_loop y h i l = Some l" by (subst commitStores_loop.simps) simp
  then show ?case using Nil by (simp add: same_loads_def)
next
  case (Cons e es)
  let ?n = "SQEntries l" and ?d = "length done"
  have len: "nat (stores l) = Suc (?d + length es)" using Cons.prems(2) length_sq[of l] by simp
  then have d: "?d < nat (stores l)" and n: "nat (stores l) < ?n" using Cons.prems(1) by (auto simp: sq_wf_def)
  have i: "i < length (storeQueue l)" "storeQueue l ! i = e"
    using sq_nth[OF Cons.prems(1) d] Cons.prems(2,3) by (auto simp: nth_append)
  have "i \<noteq> storeTail l"
    using add_mod_inj[of "storeHead l" ?d ?n "nat (stores l)"] Cons.prems(1,3) d n by (auto simp: sq_wf_def)
  moreover have "e \<in> set (sq l)" using Cons.prems(2) by simp
  then obtain p where p: "sq_inst e = Some p" using Cons.prems(1) by (auto simp: sq_wf_def)
  have nxt: "incr ?n i = (storeHead l + length (done @ [x])) mod ?n" for x :: sq_entry
    using Cons.prems(3) n incr_window[of ?n "storeHead l" ?d] by simp
  consider (wb) "sq_canWB e" | (stop) "\<not> sq_canWB e" "seqNum (h p) > y" | (mark) "\<not> sq_canWB e" "\<not> seqNum (h p) > y" by blast
  then show ?case
  proof cases
    case wb
    then have "commitStores_loop y h i l = commitStores_loop y h (incr ?n i) l"
      using calculation i p by (subst commitStores_loop.simps) simp
    then show ?thesis using Cons.IH[of l "done @ [e]" "incr ?n i"] Cons.prems(1,2) nxt wb by simp
  next
    case stop
    then have "commitStores_loop y h i l = Some l" using calculation i p by (subst commitStores_loop.simps) simp
    then show ?thesis using stop Cons.prems p by (simp add: same_loads_def)
  next
    case mark
    define e1 where "e1 = e\<lparr>sq_canWB := True\<rparr>"
    define l1 where "l1 = l\<lparr>storeQueue := (storeQueue l)[i := e1], storesToWB := storesToWB l + 1\<rparr>"
    have u: "sq l1 = (sq l)[?d := e1] \<and> sq_wf l1"
      using Cons.prems(1,3) d p by (intro sq_update) (auto simp: l1_def e1_def)
    then have q1: "sq l1 = (done @ [e1]) @ es" using Cons.prems(2) by simp
    have step: "commitStores_loop y h i l = commitStores_loop y h (incr ?n i) l1"
      using calculation i p mark by (subst commitStores_loop.simps) (simp add: l1_def e1_def)
    have "\<exists>l'. commitStores_loop y h (incr ?n i) l1 = Some l' \<and> sq_wf l' \<and> sq l' = (done @ [e1]) @ mark_committed y h es \<and>
      same_loads l1 l' \<and> storeWBIdx l' = storeWBIdx l1 \<and> storeHead l' = storeHead l1 \<and> stores l' = stores l1 \<and> SQEntries l' = SQEntries l1"
      using u nxt by (intro Cons.IH[OF _ q1]) (auto simp: l1_def)
    then show ?thesis unfolding step using mark p by (auto simp: l1_def e1_def same_loads_def)
  qed
qed

lemma commitStores_sq:
  assumes "sq_wf l"
  shows "\<exists>l'. commitStores y h l = Some l' \<and> sq_wf l' \<and> sq l' = mark_committed y h (sq l) \<and> same_loads l l' \<and>
    storeWBIdx l' = storeWBIdx l \<and> storeHead l' = storeHead l \<and> SQEntries l' = SQEntries l"
proof -
  have "storeHead l < length (storeQueue l)" using assms by (simp add: sq_wf_def)
  moreover have "stores l = 0 \<or> sq_inst (storeQueue l ! storeHead l) \<noteq> None"
  proof (cases "stores l = 0")
    case False
    then have "0 < nat (stores l)" using assms by (auto simp: sq_wf_def)
    then show ?thesis using sq_nth(2)[OF assms, of 0] nth_mem[of 0 "sq l"] assms by (auto simp: sq_wf_def)
  qed simp
  ultimately have "commitStores y h l = commitStores_loop y h (storeHead l) l" by (simp add: commitStores_def)
  moreover have "storeHead l = (storeHead l + length ([] :: sq_entry list)) mod SQEntries l" using assms by (simp add: sq_wf_def)
  ultimately show ?thesis using commitStores_loop_sq[of l "[]" "sq l" "storeHead l" y h] assms by auto
qed

section \<open>Squash\<close>

lemma sq_Nil: "sq_wf l \<Longrightarrow> sq l = [] \<longleftrightarrow> stores l = 0"
  using length_sq[of l] by (auto simp: sq_wf_def simp del: length_sq)

lemma sq_snoc:
  assumes "sq_wf l" and "sq l = es @ [e]"
  defines "i \<equiv> decr (SQEntries l) (storeTail l)"
  shows "stores l \<noteq> 0" and "i < length (storeQueue l)" and "storeQueue l ! i = e"
    and "storeQueue l' = (storeQueue l)[i := x] \<Longrightarrow> stores l' = stores l - 1 \<Longrightarrow> storeTail l' = i \<Longrightarrow> storeHead l' = storeHead l \<Longrightarrow>
      SQEntries l' = SQEntries l \<Longrightarrow> sq_wf l' \<and> sq l' = es"
proof -
  let ?n = "SQEntries l" and ?k = "length es"
  note w = assms(1)[unfolded sq_wf_def]
  have k: "nat (stores l) = Suc ?k" using assms(2) length_sq[of l] by simp
  then show "stores l \<noteq> 0" by auto
  have i: "i = (storeHead l + ?k) mod ?n" using w k decr_window[of ?n "storeHead l" ?k] by (simp add: i_def)
  show "i < length (storeQueue l)" "storeQueue l ! i = e"
    using sq_nth[OF assms(1), of ?k] k i assms(2) by simp_all
  assume l': "storeQueue l' = (storeQueue l)[i := x]" "stores l' = stores l - 1" "storeTail l' = i" "storeHead l' = storeHead l"
    "SQEntries l' = SQEntries l"
  have n: "nat (stores l - 1) = ?k" using k by simp
  have "i \<notin> set (window ?n (storeHead l) ?k)" using window_fresh[of ?k ?n "storeHead l"] w k i by simp
  then have q: "sq l' = es"
    using assms(2) w n l' k by (simp add: sq_def held_update_outside held_last)
  have "set es \<subseteq> set (sq l)" using assms(2) by auto
  then have "sq_wf l'" using w k n l' i by (auto simp: sq_wf_def q)
  then show "sq_wf l' \<and> sq l' = es" using q by simp
qed

text \<open>The entries a squash removes: the youngest ones, up to the first that is old enough or committed.\<close>

definition squashable :: "inst_seq_num \<Rightarrow> inst_heap \<Rightarrow> sq_entry \<Rightarrow> bool" where
  "squashable sn h e \<longleftrightarrow> seqNum (h (the (sq_inst e))) > sn \<and> \<not> sq_canWB e"

lemma squash_stores_sq:
  assumes "sq_wf l" and "stalled l \<longrightarrow> stallingStoreIsn l \<le> sn"
  shows "\<exists>l'. squash_stores sn (decr (SQEntries l) (storeTail l)) h l =
      Some (squash_insts (map (\<lambda>e. the (sq_inst e)) (takeWhile (squashable sn h) (rev (sq l)))) h, l') \<and>
    sq_wf l' \<and> sq l' = rev (dropWhile (squashable sn h) (rev (sq l))) \<and> same_loads l l' \<and>
    l' = l\<lparr>storeQueue := storeQueue l', stores := stores l', storeTail := storeTail l'\<rparr>"
proof -
  have "\<exists>l'. squash_stores sn (decr (SQEntries l) (storeTail l)) h l =
      Some (squash_insts (map (\<lambda>e. the (sq_inst e)) (takeWhile (squashable sn h) es)) h, l') \<and>
    sq_wf l' \<and> sq l' = rev (dropWhile (squashable sn h) es) \<and> same_loads l l' \<and>
    l' = l\<lparr>storeQueue := storeQueue l', stores := stores l', storeTail := storeTail l'\<rparr>"
    if "sq_wf l" "sq l = rev es" "stalled l \<longrightarrow> stallingStoreIsn l \<le> sn" for es
    using that
  proof (induction es arbitrary: l h)
    case Nil
    then have "squash_stores sn (decr (SQEntries l) (storeTail l)) h l = Some (h, l)"
      using sq_Nil by (subst squash_stores.simps) simp
    then show ?case using Nil by (simp add: squash_insts_def same_loads_def)
  next
    case (Cons e es)
    let ?i = "decr (SQEntries l) (storeTail l)"
    have l: "sq l = rev es @ [e]" using Cons.prems(2) by simp
    note b = sq_snoc[OF Cons.prems(1) l]
    have "e \<in> set (sq l)" using l by simp
    then obtain p where p: "sq_inst e = Some p" using Cons.prems(1) by (auto simp: sq_wf_def)
    show ?case
    proof (cases "squashable sn h e")
      case False
      then have "squash_stores sn ?i h l = Some (h, l)" using b(1-3) p by (subst squash_stores.simps) (auto simp: squashable_def)
      then show ?thesis using False Cons.prems by (simp add: squash_insts_def same_loads_def)
    next
      case True
      define e1 where "e1 = e\<lparr>sq_inst := None, sq_canWB := False, sq_req := None\<rparr>"
      define e2 where "e2 = (if HasUnalignedMemAcc \<and> sq_isSplit e then e1\<lparr>sq_sreqLow := None, sq_sreqHigh := None\<rparr> else e1)"
      define l2 where "l2 = l\<lparr>storeQueue := (storeQueue l)[?i := e2], stores := stores l - 1, storeTail := ?i\<rparr>"
      let ?h = "h(p := setSquashed (h p))"
      have w: "sq_wf l2" "sq l2 = rev es" using b(4)[of l2 e2] by (simp_all add: l2_def)
      have st: "stalled l2 \<longrightarrow> stallingStoreIsn l2 \<le> sn" using Cons.prems(3) by (simp add: l2_def)
      have "\<not> (stalled l \<and> seqNum (h p) = stallingStoreIsn l)" using Cons.prems(3) True p by (auto simp: squashable_def)
      then have step: "squash_stores sn ?i h l = squash_stores sn (decr (SQEntries l2) (storeTail l2)) ?h l2"
        using b(1-3) True p by (subst squash_stores.simps) (simp add: l2_def e2_def e1_def Let_def squashable_def)
      have sn: "squashable sn ?h = squashable sn h" by (auto simp: squashable_def fun_eq_iff)
      from Cons.IH[OF w st, of ?h] obtain l' where l':
        "squash_stores sn (decr (SQEntries l2) (storeTail l2)) ?h l2 =
          Some (squash_insts (map (\<lambda>e. the (sq_inst e)) (takeWhile (squashable sn h) es)) ?h, l')"
        "sq_wf l'" "sq l' = rev (dropWhile (squashable sn h) es)" "same_loads l2 l'"
        "l' = l2\<lparr>storeQueue := storeQueue l', stores := stores l', storeTail := storeTail l'\<rparr>"
        unfolding sn by blast
      moreover have "l' = l\<lparr>storeQueue := storeQueue l', stores := stores l', storeTail := storeTail l'\<rparr>"
        using l'(5) unfolding l2_def by simp
      ultimately show ?thesis unfolding step using True p by (auto simp: squash_insts_Cons l2_def same_loads_def)
    qed
  qed
  from this[of "rev (sq l)"] assms show ?thesis by simp
qed

section \<open>Completion\<close>

lemma sq_first:
  assumes "sq_wf l" and "sq l = e # es"
    and "storeHead l' = incr (SQEntries l) (storeHead l)" and "stores l' = stores l - 1"
    and "storeQueue l' = storeQueue l" and "storeTail l' = storeTail l" and "SQEntries l' = SQEntries l"
  shows "sq_wf l' \<and> sq l' = es"
proof -
  let ?n = "SQEntries l" and ?k = "length es"
  note w = assms(1)[unfolded sq_wf_def]
  have k: "nat (stores l) = Suc ?k" using assms(2) length_sq[of l] by simp
  have n: "nat (stores l') = ?k" using assms(4) k by simp
  have q: "sq l' = es" using assms k n w by (simp add: sq_def held_first)
  have "(incr ?n (storeHead l) + ?k) mod ?n = (storeHead l + Suc ?k) mod ?n"
    using w by (simp add: incr_mod mod_add_left_eq)
  moreover have "incr ?n (storeHead l) < ?n" using w by (auto simp: incr_def)
  moreover have "set es \<subseteq> set (sq l)" using assms(2) by auto
  ultimately have "sq_wf l'" using assms(3-) w k n by (auto simp: sq_wf_def q)
  then show ?thesis using q by simp
qed

lemma free_stores_sq:
  assumes "sq_wf l" and "sq l = e # es"
  shows "\<exists>l'. free_stores l = Some l' \<and> sq_wf l' \<and> sq l' = dropWhile sq_completed es \<and>
    l' = l\<lparr>storeHead := storeHead l', stores := stores l'\<rparr>"
  using assms
proof (induction es arbitrary: l e)
  case Nil
  define l1 where "l1 = l\<lparr>storeHead := incr (SQEntries l) (storeHead l), stores := stores l - 1\<rparr>"
  have w: "sq_wf l1" "sq l1 = []" using sq_first[OF Nil, of l1] by (simp_all add: l1_def)
  then have "storeHead l1 = storeTail l1" "storeHead l1 < length (storeQueue l1)"
    using sq_Nil[OF w(1)] by (auto simp: sq_wf_def)
  then have "free_stores l = Some l1" by (subst free_stores.simps) (simp add: l1_def Let_def)
  then show ?case using w by (simp add: l1_def)
next
  case (Cons e' es)
  define l1 where "l1 = l\<lparr>storeHead := incr (SQEntries l) (storeHead l), stores := stores l - 1\<rparr>"
  have w: "sq_wf l1" "sq l1 = e' # es" using sq_first[OF Cons.prems, of l1] by (simp_all add: l1_def)
  have pos: "0 < nat (stores l1)" using w(2) length_sq[of l1] by simp
  then have hd: "storeHead l1 < length (storeQueue l1)" "storeQueue l1 ! storeHead l1 = e'"
    using sq_nth[OF w(1) pos] w by (auto simp: sq_wf_def)
  have "storeHead l1 \<noteq> storeTail l1"
    using w(1) pos add_mod_inj[of "storeHead l1" 0 "SQEntries l1" "nat (stores l1)"] by (auto simp: sq_wf_def)
  then have step: "free_stores l = (if sq_completed e' then free_stores l1 else Some l1)"
    using hd by (subst free_stores.simps) (simp add: l1_def Let_def)
  show ?case
  proof (cases "sq_completed e'")
    case True
    from Cons.IH[OF w] obtain l' where l': "free_stores l1 = Some l'" "sq_wf l'" "sq l' = dropWhile sq_completed es"
      "l' = l1\<lparr>storeHead := storeHead l', stores := stores l'\<rparr>" by blast
    moreover have "l' = l\<lparr>storeHead := storeHead l', stores := stores l'\<rparr>" using l'(4) unfolding l1_def by simp
    ultimately show ?thesis using step True by auto
  next
    case False
    then show ?thesis using step w by (simp add: l1_def)
  qed
qed

text \<open>The unit after its store at position \<open>k\<close> has completed.\<close>

definition complete_at :: "nat \<Rightarrow> sq_entry list \<Rightarrow> sq_entry list" where
  "complete_at k es = dropWhile sq_completed (es[k := (es ! k)\<lparr>sq_completed := True\<rparr>])"

lemma completeStore_sq:
  assumes "sq_wf l" and "k < nat (stores l)" and "i = (storeHead l + k) mod SQEntries l"
    and "k \<noteq> 0 \<Longrightarrow> \<not> sq_completed (hd (sq l))"
    and "completeStore i (h, q, l) = Some (h', q', l')"
  shows "sq_wf l' \<and> sq l' = complete_at k (sq l) \<and> same_loads l l' \<and> storeWBIdx l' = storeWBIdx l"
proof -
  let ?e = "(sq l ! k)\<lparr>sq_completed := True\<rparr>"
  define l1 where "l1 = call_iew [WakeCPU, ActivityThisCycle]
    (l\<lparr>storeQueue := (storeQueue l)[i := ?e], storesToWB := storesToWB l - 1\<rparr>)"
  note nth = sq_nth[OF assms(1,2)]
  have ne: "sq_inst (sq l ! k) \<noteq> None" using assms(1,2) nth_mem[of k "sq l"] by (auto simp: sq_wf_def)
  then obtain p where p: "sq_inst (sq l ! k) = Some p" by auto
  have w1: "sq l1 = (sq l)[k := ?e]" "sq_wf l1"
    using sq_update[OF assms(1,2), of ?e l1] ne assms(3) by (simp_all add: l1_def call_iew_def)
  have n: "nat (stores l) < SQEntries l" "storeHead l < SQEntries l" using assms(1) by (auto simp: sq_wf_def)
  have k0: "i = storeHead l \<longleftrightarrow> k = 0"
    using add_mod_inj[of "storeHead l" k "SQEntries l" 0] n assms(2,3) by auto
  define fr where "fr = (if i = storeHead l1 then do { l' \<leftarrow> free_stores l1; Some (call_iew [UpdateLSQNextCycle] l') } else Some l1)"
  obtain l2 where l2: "fr = Some l2" "sq_wf l2" "sq l2 = complete_at k (sq l)" "same_loads l l2" "storeWBIdx l2 = storeWBIdx l"
  proof (cases "k = 0")
    case True
    obtain es where es: "sq l1 = ?e # es" using w1(1) True assms(2) length_sq[of l] by (cases "sq l") auto
    from free_stores_sq[OF w1(2) es] obtain l2 where l2: "free_stores l1 = Some l2" "sq_wf l2" "sq l2 = dropWhile sq_completed es"
      "l2 = l1\<lparr>storeHead := storeHead l2, stores := stores l2\<rparr>" by blast
    have "sq_wf (call_iew [UpdateLSQNextCycle] l2)" "sq (call_iew [UpdateLSQNextCycle] l2) = sq l2"
      using l2(2) by (simp_all add: sq_wf_def sq_def call_iew_def)
    moreover have "fr = Some (call_iew [UpdateLSQNextCycle] l2)" using l2(1) k0 True by (simp add: fr_def l1_def call_iew_def)
    moreover have "complete_at k (sq l) = dropWhile sq_completed es" using es w1(1) by (simp add: complete_at_def)
    moreover have "same_loads l l2" "storeWBIdx l2 = storeWBIdx l"
      by (subst l2(4), simp add: l1_def call_iew_def same_loads_def)+
    ultimately show ?thesis using that l2(3) by (simp add: call_iew_def same_loads_def)
  next
    case False
    have "complete_at k (sq l) = sq l1"
      using w1(1) False assms(2,4) length_sq[of l] by (cases "sq l"; cases k) (auto simp: complete_at_def)
    then show ?thesis using that[of l1] w1 k0 False by (simp add: fr_def l1_def call_iew_def same_loads_def)
  qed
  have rel: "\<exists>s. release_stalled p (h, q, l2) = Some (h3, q3, l3) \<Longrightarrow> same_loads l2 l3 \<and> same_stores l2 l3" for h3 q3 l3
    by (auto simp: release_stalled_def same_loads_def same_stores_def bind_eq_Some_conv split: if_splits)
  obtain h3 q3 l3 where r: "release_stalled p (h, q, l2) = Some (h3, q3, l3)"
    "l' = (if needsTSO l3 then l3\<lparr>storeInFlight := False\<rparr> else l3)"
    using assms(5) nth assms(3) p l2(1) unfolding fr_def l1_def
    by (auto simp: completeStore_def Let_def bind_eq_Some_conv)
  have "same_loads l2 l'" "same_stores l2 l'" using rel r by (auto simp: same_loads_def same_stores_def)
  then show ?thesis using l2 same_stores_sq[of l2 l'] by (auto simp: same_loads_def same_stores_def)
qed

end
