(* ===== verification/Lsq_Refine.thy ===== *)
theory Lsq_Refine
  imports Lsq_Stores Mem_Dep_Props
begin

text \<open>
  The load/store unit implements two program-ordered lists of sequence numbers. The operations of
  the unit, from dispatch to the answer of the cache, keep its invariant and act on the lists as
  the specification says.
\<close>

section \<open>The specification\<close>

text \<open>The loads, and the stores with two marks: committed, and completed.\<close>

type_synonym mem_queues = "inst_seq_num list \<times> (inst_seq_num \<times> bool \<times> bool) list"

datatype lsq_op = Dispatch_Load inst_seq_num | Dispatch_Store inst_seq_num | Commit_Upto inst_seq_num
  | Squash_Younger inst_seq_num | Write_Back | Response | Access

definition mq_complete :: "inst_seq_num \<Rightarrow> mem_queues \<Rightarrow> mem_queues" where
  "mq_complete s = (\<lambda>(ld, st). (ld, dropWhile (\<lambda>(_, _, d). d) (map (\<lambda>(s', c, d). (s', c, d \<or> s' = s)) st)))"

text \<open>Stores complete one after the other, each of them committed before.\<close>

definition mq_committed :: "inst_seq_num \<Rightarrow> mem_queues \<Rightarrow> bool" where
  "mq_committed s m \<longleftrightarrow> (s, True) \<in> (\<lambda>(s, c, _). (s, c)) ` set (snd m)"

fun mq_completes :: "inst_seq_num list \<Rightarrow> mem_queues \<Rightarrow> mem_queues \<Rightarrow> bool" where
  "mq_completes [] m m' \<longleftrightarrow> m' = m"
| "mq_completes (s # ss) m m' \<longleftrightarrow> mq_committed s m \<and> mq_completes ss (mq_complete s m) m'"

lemma mq_completes_append: "mq_completes ss m m1 \<Longrightarrow> mq_completes ss' m1 m2 \<Longrightarrow> mq_completes (ss @ ss') m m2"
  by (induction ss arbitrary: m) auto

definition mq_commit_loads :: "inst_seq_num \<Rightarrow> mem_queues \<Rightarrow> mem_queues" where
  "mq_commit_loads y = (\<lambda>(ld, st). (filter (\<lambda>s. y < s) ld, st))"

definition mq_commit_stores :: "inst_seq_num \<Rightarrow> mem_queues \<Rightarrow> mem_queues" where
  "mq_commit_stores y = (\<lambda>(ld, st). (ld, map (\<lambda>(s, c, d). (s, c \<or> s \<le> y, d)) st))"

fun mq_does :: "lsq_op \<Rightarrow> mem_queues \<Rightarrow> mem_queues \<Rightarrow> bool" where
  "mq_does (Dispatch_Load s) (ld, st) m' \<longleftrightarrow> m' = (ld @ [s], st)"
| "mq_does (Dispatch_Store s) (ld, st) m' \<longleftrightarrow> m' = (ld, st @ [(s, False, False)])"
| "mq_does (Commit_Upto y) m m' \<longleftrightarrow> m' = mq_commit_loads y (mq_commit_stores y m)"
| "mq_does (Squash_Younger y) (ld, st) m' \<longleftrightarrow> m' = (filter (\<lambda>s. s \<le> y) ld, filter (\<lambda>(s, c, d). s \<le> y \<or> c) st)"
| "mq_does Write_Back m m' \<longleftrightarrow> (\<exists>ss. mq_completes ss m m')"
| "mq_does Response m m' \<longleftrightarrow> m' = m \<or> (\<exists>s. mq_completes [s] m m')"
| "mq_does Access m m' \<longleftrightarrow> m' = m"

section \<open>The invariant\<close>

definition store_seq :: "inst_heap \<Rightarrow> sq_entry \<Rightarrow> inst_seq_num" where
  "store_seq h e = seqNum (h (the (sq_inst e)))"

definition abs_store :: "inst_heap \<Rightarrow> sq_entry \<Rightarrow> inst_seq_num \<times> bool \<times> bool" where
  "abs_store h e = (store_seq h e, sq_canWB e, sq_completed e)"

definition abs_lsq :: "inst_heap \<Rightarrow> lsq_unit \<Rightarrow> mem_queues" where
  "abs_lsq h l = (map (\<lambda>p. seqNum (h p)) (lq l), map (abs_store h) (sq l))"

text \<open>Both queues are in program order, and the committed stores come first.\<close>

definition mq_ok :: "mem_queues \<Rightarrow> bool" where
  "mq_ok = (\<lambda>(ld, st). sorted_wrt (<) ld \<and> sorted_wrt (\<lambda>(s, c, _) (s', c', _). s < s' \<and> (c' \<longrightarrow> c)) st \<and>
     (case st of [] \<Rightarrow> True | (_, _, d) # _ \<Rightarrow> \<not> d))"

text \<open>
  The position of \<^verbatim>\<open>storeWBIdx\<close>: the stores before it were handed to the cache, so they are
  committed; those after it cannot have completed. A packet that is kept for a retry belongs to
  the store at this position.
\<close>

definition wb_ok :: "lsq_unit \<Rightarrow> nat \<Rightarrow> bool" where
  "wb_ok l k \<longleftrightarrow> k \<le> nat (stores l) \<and> storeWBIdx l = (storeHead l + k) mod SQEntries l \<and>
     (\<forall>e \<in> set (take k (sq l)). sq_canWB e) \<and> (\<forall>e \<in> set (drop k (sq l)). \<not> sq_completed e) \<and>
     (hasPendingPkt l \<or> isStoreBlocked l \<longrightarrow> k < nat (stores l) \<and> sq_canWB (sq l ! k)) \<and>
     \<not> (hasPendingPkt l \<and> isStoreBlocked l)"

definition lsq_inv :: "inst_heap \<Rightarrow> lsq_unit \<Rightarrow> bool" where
  "lsq_inv h l \<longleftrightarrow> lq_wf l \<and> sq_wf l \<and> mq_ok (abs_lsq h l) \<and> (\<exists>k. wb_ok l k) \<and> stall_ok h l"

section \<open>Steps that leave the queues alone\<close>

text \<open>Instructions keep their sequence numbers and their places in the queues.\<close>

definition same_nums :: "inst_heap \<Rightarrow> inst_heap \<Rightarrow> bool" where
  "same_nums h h' \<longleftrightarrow> (\<forall>p. seqNum (h' p) = seqNum (h p))"

definition same_seqs :: "inst_heap \<Rightarrow> inst_heap \<Rightarrow> bool" where
  "same_seqs h h' \<longleftrightarrow> (\<forall>p. seqNum (h' p) = seqNum (h p) \<and> lqIdx (h' p) = lqIdx (h p) \<and> sqIdx (h' p) = sqIdx (h p))"

lemma same_seqs_nums [simp]: "same_seqs h h' \<Longrightarrow> same_nums h h'"
  by (simp add: same_seqs_def same_nums_def)

definition same_flow :: "lsq_unit \<Rightarrow> lsq_unit \<Rightarrow> bool" where
  "same_flow l l' \<longleftrightarrow> (hasPendingPkt l' \<longrightarrow> hasPendingPkt l) \<and> (isStoreBlocked l' \<longrightarrow> isStoreBlocked l)"

definition same_stall :: "lsq_unit \<Rightarrow> lsq_unit \<Rightarrow> bool" where
  "same_stall l l' \<longleftrightarrow> (stalled l' \<longrightarrow> stalled l \<and> stallingStoreIsn l' = stallingStoreIsn l \<and> stallingLoadIdx l' = stallingLoadIdx l)"

lemmas frame_defs = same_loads_def same_stores_def same_flow_def same_stall_def

lemma same_seqs_refl [simp]: "same_seqs h h"
  by (simp add: same_seqs_def)

lemma same_nums_refl [simp]: "same_nums h h"
  by (simp add: same_nums_def)

lemma same_seqs_trans: "same_seqs h h1 \<Longrightarrow> same_seqs h1 h2 \<Longrightarrow> same_seqs h h2"
  by (simp add: same_seqs_def)

lemma same_seqs_upd [simp]:
  "seqNum i = seqNum (h p) \<Longrightarrow> lqIdx i = lqIdx (h p) \<Longrightarrow> sqIdx i = sqIdx (h p) \<Longrightarrow> same_seqs h (h(p := i))"
  by (simp add: same_seqs_def)

lemma same_nums_upd [simp]: "seqNum i = seqNum (h p) \<Longrightarrow> same_nums h (h(p := i))"
  by (simp add: same_nums_def)

lemma status_idx [simp]:
  "lqIdx (set_status b i) = lqIdx i" "sqIdx (set_status b i) = sqIdx i"
  "lqIdx (reset_status b i) = lqIdx i" "sqIdx (reset_status b i) = sqIdx i"
  "lqIdx (set_flag f v i) = lqIdx i" "sqIdx (set_flag f v i) = sqIdx i" "seqNum (set_flag f v i) = seqNum i"
  by (simp_all add: set_status_def reset_status_def set_flag_def)

lemma abs_lsq_seqs: "same_nums h h' \<Longrightarrow> abs_lsq h' l = abs_lsq h l"
  by (simp add: abs_lsq_def abs_store_def[abs_def] store_seq_def same_nums_def)

lemma abs_lsq_same: "same_loads l l' \<Longrightarrow> same_stores l l' \<Longrightarrow> abs_lsq h l' = abs_lsq h l"
  using same_loads_lq same_stores_sq by (simp add: abs_lsq_def)

lemma stall_ok_same: "stall_ok h l \<Longrightarrow> same_nums h h' \<Longrightarrow> same_loads l l' \<Longrightarrow> same_stall l l' \<Longrightarrow> stall_ok h' l'"
  using same_loads_lq[of l l'] by (auto simp: stall_ok_def same_nums_def same_stall_def same_loads_def)

lemma wb_ok_same: "wb_ok l k \<Longrightarrow> same_stores l l' \<Longrightarrow> same_flow l l' \<Longrightarrow> wb_ok l' k"
  using same_stores_sq[of l l'] by (auto simp: wb_ok_def same_stores_def same_flow_def)

lemma lsq_inv_same:
  assumes "lsq_inv h l" and "same_nums h h'" and "same_loads l l'" and "same_stores l l'" and "same_flow l l'" and "same_stall l l'"
  shows "lsq_inv h' l' \<and> abs_lsq h' l' = abs_lsq h l"
proof -
  have "abs_lsq h' l' = abs_lsq h l" using abs_lsq_seqs[OF assms(2)] abs_lsq_same[OF assms(3,4)] by simp
  moreover have "\<exists>k. wb_ok l' k" using assms(1) wb_ok_same[OF _ assms(4,5)] by (auto simp: lsq_inv_def)
  ultimately show ?thesis
    using assms(1) same_loads_lq[OF assms(3)] same_stores_sq[OF assms(4)] stall_ok_same[OF _ assms(2,3,6)]
    by (simp add: lsq_inv_def)
qed

section \<open>Dispatch\<close>

lemma mq_ok_load: "mq_ok (ld, st) \<Longrightarrow> \<forall>s \<in> set ld. s < n \<Longrightarrow> mq_ok (ld @ [n], st)"
  by (simp add: mq_ok_def sorted_wrt_append)

lemma mq_ok_store: "mq_ok (ld, st) \<Longrightarrow> \<forall>(s, _) \<in> set st. s < n \<Longrightarrow> mq_ok (ld, st @ [(n, False, False)])"
  by (cases st) (auto simp: mq_ok_def sorted_wrt_append)

lemma insertLoad_fields:
  "lsq_insertLoad p (h, l) = Some (h', l') \<Longrightarrow>
    same_flow l l' \<and> same_stall l l' \<and> loadHead l' = loadHead l \<and> LQEntries l' = LQEntries l"
  by (auto simp: lsq_insertLoad_def Let_def bind_eq_Some_conv same_flow_def same_stall_def split: if_splits)

lemma insertStore_fields:
  "lsq_insertStore p (h, l) = Some (h', l') \<Longrightarrow> same_flow l l' \<and> same_stall l l' \<and> SQEntries l' = SQEntries l"
  by (auto simp: lsq_insertStore_def Let_def bind_eq_Some_conv same_flow_def same_stall_def split: if_splits)

lemma insertLoad_refines:
  assumes "lsq_inv h l" and "\<forall>q \<in> set (lq l). seqNum (h q) < seqNum (h p)" and "lsq_insertLoad p (h, l) = Some (h', l')"
  shows "lsq_inv h' l' \<and> same_nums h h' \<and> mq_does (Dispatch_Load (seqNum (h p))) (abs_lsq h l) (abs_lsq h' l')"
proof -
  have wf: "lq_wf l" "sq_wf l" using assms(1) by (auto simp: lsq_inv_def)
  note ins = insertLoad_lq[OF wf(1), of p h]
  have l': "lq_wf l'" "lq l' = lq l @ [p]" "same_stores l l'" and h': "same_nums h h'"
    using ins assms(3) by (auto split: if_splits)
  note f = insertLoad_fields[OF assms(3)]
  have a: "abs_lsq h' l' = (fst (abs_lsq h l) @ [seqNum (h p)], snd (abs_lsq h l))"
    using abs_lsq_seqs[OF h', of l'] l' same_stores_sq[OF l'(3)] by (simp add: abs_lsq_def)
  then have "mq_ok (abs_lsq h' l')" using assms(1,2) by (auto simp: lsq_inv_def abs_lsq_def intro!: mq_ok_load)
  moreover have "stall_ok h' l'"
  proof -
    have n: "nat (loads l') = Suc (nat (loads l))" using l'(2) length_lq[of l'] length_lq[of l] by simp
    have "stall_ok h l" using assms(1) by (simp add: lsq_inv_def)
    then show ?thesis using f l'(2) h' n length_lq[of l]
      by (fastforce simp: stall_ok_def same_stall_def same_nums_def nth_append simp del: length_lq)
  qed
  moreover have "\<exists>k. wb_ok l' k" using assms(1) wb_ok_same[of l _ l'] l'(3) f by (auto simp: lsq_inv_def)
  moreover have "sq_wf l'" using wf(2) same_stores_sq[OF l'(3)] by simp
  ultimately show ?thesis using l'(1) h' a by (auto simp: lsq_inv_def abs_lsq_def)
qed

lemma insertStore_refines:
  assumes "lsq_inv h l" and "\<forall>e \<in> set (sq l). store_seq h e < seqNum (h p)" and "lsq_insertStore p (h, l) = Some (h', l')"
  shows "lsq_inv h' l' \<and> same_nums h h' \<and> mq_does (Dispatch_Store (seqNum (h p))) (abs_lsq h l) (abs_lsq h' l')"
proof -
  have wf: "lq_wf l" "sq_wf l" using assms(1) by (auto simp: lsq_inv_def)
  note ins = insertStore_sq_lists[OF wf(2), of p h]
  have l': "sq_wf l'" "sq l' = sq l @ [empty_sq (Some p)]" "same_loads l l'" "storeWBIdx l' = storeWBIdx l" "storeHead l' = storeHead l"
    and h': "same_nums h h'"
    using ins assms(3) by (auto split: if_splits)
  note f = insertStore_fields[OF assms(3)]
  have a: "abs_lsq h' l' = (fst (abs_lsq h l), snd (abs_lsq h l) @ [(seqNum (h p), False, False)])"
    using abs_lsq_seqs[OF h', of l'] l' same_loads_lq[OF l'(3)] by (simp add: abs_lsq_def abs_store_def store_seq_def empty_sq_def)
  then have "mq_ok (abs_lsq h' l')" using assms(1,2) by (auto simp: lsq_inv_def abs_lsq_def abs_store_def intro!: mq_ok_store)
  moreover have "stall_ok h' l'" using assms(1) stall_ok_same[OF _ h' l'(3)] f by (simp add: lsq_inv_def)
  moreover have "\<exists>k. wb_ok l' k"
  proof -
    have n: "nat (stores l') = Suc (nat (stores l))" using l'(2) length_sq[of l'] length_sq[of l] by simp
    from assms(1) obtain k where "wb_ok l k" by (auto simp: lsq_inv_def)
    then have "wb_ok l' k" using l' f n length_sq[of l]
      by (auto simp: wb_ok_def same_flow_def nth_append empty_sq_def simp del: length_sq)
    then show ?thesis ..
  qed
  moreover have "lq_wf l'" using wf(1) same_loads_lq[OF l'(3)] by simp
  ultimately show ?thesis using l'(1) h' a by (auto simp: lsq_inv_def abs_lsq_def)
qed

section \<open>Commit\<close>

lemma dropWhile_filter_sorted: "sorted_wrt (\<lambda>x y. P y \<longrightarrow> P x) xs \<Longrightarrow> dropWhile P xs = filter (\<lambda>x. \<not> P x) xs"
  by (induction xs) (auto intro: filter_True[symmetric])

lemma rev_dropWhile_filter:
  assumes "sorted_wrt (\<lambda>x y. P x \<longrightarrow> P y) xs"
  shows "rev (dropWhile P (rev xs)) = filter (\<lambda>x. \<not> P x) xs"
proof -
  have "dropWhile P (rev xs) = filter (\<lambda>x. \<not> P x) (rev xs)" using assms by (intro dropWhile_filter_sorted) (simp add: sorted_wrt_rev)
  then show ?thesis by (simp add: rev_filter)
qed

lemma lq_nth:
  assumes "lq_wf l" and "j < nat (loads l)"
  shows "(loadHead l + j) mod LQEntries l < length (loadQueue l)"
    and "loadQueue l ! ((loadHead l + j) mod LQEntries l) = Some (lq l ! j)"
proof -
  note w = assms(1)[unfolded lq_wf_def]
  let ?i = "(loadHead l + j) mod LQEntries l"
  show i: "?i < length (loadQueue l)" using w assms(2) wrap_less[of j "LQEntries l" "loadHead l" j] by simp
  have "?i \<in> set (window (length (loadQueue l)) (loadHead l) (nat (loads l)))" using w assms(2) by (auto simp: window_def)
  then have "loadQueue l ! ?i \<noteq> None" using w i by (simp add: only_window_def)
  then show "loadQueue l ! ?i = Some (lq l ! j)" using w assms(2) by (auto simp: lq_def held_def window_nth)
qed

text \<open>A load that waits has not executed, so it is not among the loads that commit.\<close>

definition waits_above :: "inst_seq_num \<Rightarrow> inst_heap \<Rightarrow> lsq_unit \<Rightarrow> bool" where
  "waits_above y h l \<longleftrightarrow> (stalled l \<longrightarrow> (\<forall>p. loadQueue l ! stallingLoadIdx l = Some p \<longrightarrow> y < seqNum (h p)))"

lemma head_moves:
  assumes "lq_wf l" and "lq_wf l'" and "lq l = gone @ lq l'" and "loadTail l' = loadTail l" and "LQEntries l' = LQEntries l"
  shows "loadHead l' = (loadHead l + length gone) mod LQEntries l"
proof -
  let ?n = "LQEntries l" and ?r = "nat (loads l')"
  have len: "nat (loads l) = length gone + ?r" using assms(3) length_lq[of l] length_lq[of l'] by simp
  have n: "0 < ?n" "loadHead l' < ?n" using assms(1,2,5) by (auto simp: lq_wf_def)
  have "(?r + loadHead l') mod ?n = (?r + (loadHead l + length gone)) mod ?n"
    using assms(1,2,4,5) len by (simp add: lq_wf_def ac_simps)
  then have "(?r + loadHead l') mod ?n = (?r + (loadHead l + length gone) mod ?n) mod ?n" by (simp add: mod_add_right_eq)
  then show ?thesis using n by (intro add_mod_inj[of ?r "loadHead l'" ?n]) simp_all
qed

lemma stall_ok_commit:
  assumes "lq_wf l" and "lq_wf l'" and "lq l = gone @ lq l'" and "\<forall>p \<in> set gone. seqNum (h p) \<le> y"
    and "l' = l\<lparr>loadQueue := loadQueue l', loadHead := loadHead l', loads := loads l'\<rparr>"
    and "stall_ok h l" and "waits_above y h l"
  shows "stall_ok h l'"
  unfolding stall_ok_def
proof
  assume st: "stalled l'"
  have f: "stalled l' = stalled l" "stallingLoadIdx l' = stallingLoadIdx l" "stallingStoreIsn l' = stallingStoreIsn l"
    "loadTail l' = loadTail l" "LQEntries l' = LQEntries l"
    by (subst assms(5), simp)+
  obtain j where j: "j < nat (loads l)" "stallingLoadIdx l = (loadHead l + j) mod LQEntries l" "stallingStoreIsn l < seqNum (h (lq l ! j))"
    using assms(6) st f(1) unfolding stall_ok_def by auto
  have len: "nat (loads l) = length gone + nat (loads l')" using assms(3) length_lq[of l] length_lq[of l'] by simp
  have "y < seqNum (h (lq l ! j))" using assms(7) st f(1) lq_nth(2)[OF assms(1) j(1)] j(2) by (simp add: waits_above_def)
  then have ge: "length gone \<le> j" using assms(3,4) nth_mem[of j gone] by (metis nth_append not_le)
  have hd: "loadHead l' = (loadHead l + length gone) mod LQEntries l" by (rule head_moves[OF assms(1-3) f(4,5)])
  have "(loadHead l' + (j - length gone)) mod LQEntries l' = (loadHead l + j) mod LQEntries l"
    using ge mod_add_left_eq[of "loadHead l + length gone" "LQEntries l" "j - length gone"] unfolding hd f(5) by simp
  moreover have "lq l' ! (j - length gone) = lq l ! j" using ge assms(3) by (simp add: nth_append)
  ultimately show "\<exists>j < nat (loads l'). stallingLoadIdx l' = (loadHead l' + j) mod LQEntries l' \<and> stallingStoreIsn l' < seqNum (h (lq l' ! j))"
    using j len ge f(2,3) by (intro exI[of _ "j - length gone"]) auto
qed

lemma commitLoads_refines:
  assumes "lsq_inv h l" and "waits_above y h l"
  shows "\<exists>l'. commitLoads y h l = Some l' \<and> lsq_inv h l' \<and> abs_lsq h l' = mq_commit_loads y (abs_lsq h l) \<and>
    lq l' = filter (\<lambda>p. y < seqNum (h p)) (lq l) \<and> loadTail l' = loadTail l \<and> LQEntries l' = LQEntries l \<and> same_stores l l'"
proof -
  let ?P = "\<lambda>p. seqNum (h p) \<le> y"
  note inv = assms(1)[unfolded lsq_inv_def]
  from commitLoads_lq[of l y h] inv obtain l' where l': "commitLoads y h l = Some l'" "lq_wf l'" "lq l' = dropWhile ?P (lq l)"
    "same_stores l l'" "l' = l\<lparr>loadQueue := loadQueue l', loadHead := loadHead l', loads := loads l'\<rparr>" by blast
  have fl: "same_flow l l'" unfolding same_flow_def by (subst l'(5), simp)+
  have gone: "lq l = takeWhile ?P (lq l) @ lq l'" using l'(3) by simp
  have st: "stall_ok h l'"
    by (rule stall_ok_commit[OF _ l'(2) gone _ l'(5) _ assms(2)]) (use inv in \<open>auto dest: set_takeWhileD\<close>)
  have "sorted_wrt (\<lambda>a b. seqNum (h a) < seqNum (h b)) (lq l)" using inv by (auto simp: mq_ok_def abs_lsq_def sorted_wrt_map)
  then have "sorted_wrt (\<lambda>a b. ?P b \<longrightarrow> ?P a) (lq l)" by (rule sorted_wrt_mono_rel[rotated]) auto
  then have flt: "lq l' = filter (\<lambda>p. \<not> ?P p) (lq l)" using l'(3) dropWhile_filter_sorted by metis
  have f: "loadTail l' = loadTail l" "LQEntries l' = LQEntries l" by (subst l'(5), simp)+
  from flt have a: "abs_lsq h l' = (filter (\<lambda>s. y < s) (fst (abs_lsq h l)), snd (abs_lsq h l))"
    using same_stores_sq[OF l'(4)] by (simp add: abs_lsq_def filter_map o_def not_le)
  then have "mq_ok (abs_lsq h l')" using inv by (auto simp: mq_ok_def intro: sorted_wrt_filter)
  moreover have "\<exists>k. wb_ok l' k" using inv wb_ok_same[OF _ l'(4) fl] by blast
  ultimately show ?thesis using l'(1,2,4) st a inv same_stores_sq[OF l'(4)] flt f by (auto simp: lsq_inv_def abs_lsq_def not_le mq_commit_loads_def)
qed

text \<open>Entries that change without losing their marks.\<close>

definition keeps_marks :: "sq_entry \<Rightarrow> sq_entry \<Rightarrow> bool" where
  "keeps_marks e e' \<longleftrightarrow> sq_inst e' = sq_inst e \<and> (sq_canWB e \<longrightarrow> sq_canWB e') \<and> sq_completed e' = sq_completed e"

lemma list_all2_image: "list_all2 P xs ys \<Longrightarrow> y \<in> set ys \<Longrightarrow> \<exists>x \<in> set xs. P x y"
  by (induction rule: list_all2_induct) auto

lemma wb_ok_marks:
  assumes "wb_ok l k" and "list_all2 keeps_marks (sq l) (sq l')" and "same_flow l l'" and "storeWBIdx l' = storeWBIdx l"
    and "storeHead l' = storeHead l" and "SQEntries l' = SQEntries l"
  shows "wb_ok l' k"
proof -
  have len: "nat (stores l') = nat (stores l)" using list_all2_lengthD[OF assms(2)] by simp
  have t: "list_all2 keeps_marks (take k (sq l)) (take k (sq l'))" and d: "list_all2 keeps_marks (drop k (sq l)) (drop k (sq l'))"
    using assms(2) by (rule list_all2_takeI, rule list_all2_dropI)
  have c: "\<forall>e \<in> set (take k (sq l')). sq_canWB e"
    using list_all2_image[OF t] assms(1) by (meson keeps_marks_def wb_ok_def)
  have n: "\<forall>e \<in> set (drop k (sq l')). \<not> sq_completed e"
    using list_all2_image[OF d] assms(1) by (meson keeps_marks_def wb_ok_def)
  have "k < nat (stores l) \<Longrightarrow> sq_canWB (sq l ! k) \<Longrightarrow> sq_canWB (sq l' ! k)"
    using list_all2_nthD[OF assms(2), of k] by (simp add: keeps_marks_def)
  then show ?thesis using assms(1,3-) len c n unfolding wb_ok_def same_flow_def by metis
qed

lemma mark_committed_marks: "list_all2 keeps_marks es (mark_committed y h es)"
  by (induction es) (auto simp: keeps_marks_def list_all2_refl)

lemma mark_committed_abs:
  assumes "sorted_wrt (\<lambda>e e'. store_seq h e < store_seq h e') es"
  shows "map (abs_store h) (mark_committed y h es) = map (\<lambda>(s, c, d). (s, c \<or> s \<le> y, d)) (map (abs_store h) es)"
  using assms
proof (induction es)
  case (Cons e es)
  have "map (abs_store h) es = map (\<lambda>(s, c, d). (s, c \<or> s \<le> y, d)) (map (abs_store h) es)" if "y < store_seq h e"
    using that Cons.prems by (auto simp: abs_store_def)
  then show ?case using Cons by (auto simp: abs_store_def store_seq_def)
qed simp

lemma mark_fields_trans:
  "l1 = l\<lparr>storeQueue := a, storesToWB := b\<rparr> \<Longrightarrow> l' = l1\<lparr>storeQueue := a', storesToWB := b'\<rparr> \<Longrightarrow> l' = l\<lparr>storeQueue := a', storesToWB := b'\<rparr>"
  by simp

lemma commitStores_frame:
  assumes "commitStores_loop y h i l = Some l'"
  shows "l' = l\<lparr>storeQueue := storeQueue l', storesToWB := storesToWB l'\<rparr>"
proof (rule commitStores_loop.raw_induct[of "\<lambda>y h i l l'. l' = l\<lparr>storeQueue := storeQueue l', storesToWB := storesToWB l'\<rparr>", OF _ assms])
  fix loop :: "inst_seq_num \<Rightarrow> inst_heap \<Rightarrow> nat \<Rightarrow> lsq_unit \<Rightarrow> lsq_unit option" and y h i l l'
  assume IH: "\<And>y h i l l'. loop y h i l = Some l' \<Longrightarrow> l' = l\<lparr>storeQueue := storeQueue l', storesToWB := storesToWB l'\<rparr>"
    and run: "(if i = storeTail l then Some l
      else do {
        e \<leftarrow> vec_get (storeQueue l) i;
        p \<leftarrow> sq_inst e;
        (if sq_canWB e then loop y h (incr (SQEntries l) i) l
         else if seqNum (h p) > y then Some l
         else loop y h (incr (SQEntries l) i)
           (l\<lparr>storeQueue := (storeQueue l)[i := e\<lparr>sq_canWB := True\<rparr>], storesToWB := storesToWB l + 1\<rparr>)) }) = Some l'"
  show "l' = l\<lparr>storeQueue := storeQueue l', storesToWB := storesToWB l'\<rparr>"
  proof (cases "i = storeTail l")
    case False
    then obtain e p where "vec_get (storeQueue l) i = Some e" "sq_inst e = Some p" using run by (auto simp: bind_eq_Some_conv)
    then show ?thesis using run False IH mark_fields_trans[OF refl IH]
      by (cases "sq_canWB e"; cases "seqNum (h p) > y") simp_all
  qed (use run in simp)
qed

lemma mq_ok_commit:
  assumes "mq_ok (ld, st)"
  shows "mq_ok (ld, map (\<lambda>(s, c, d). (s, c \<or> s \<le> y, d)) st)"
proof -
  let ?R = "\<lambda>(s, c, _ :: bool) (s' :: inst_seq_num, c', _ :: bool). s < s' \<and> (c' \<longrightarrow> c)"
  have "?R x x' \<Longrightarrow> ?R ((\<lambda>(s, c, d). (s, c \<or> s \<le> y, d)) x) ((\<lambda>(s, c, d). (s, c \<or> s \<le> y, d)) x')" for x x'
    by (cases x; cases x') auto
  then have "sorted_wrt ?R (map (\<lambda>(s, c, d). (s, c \<or> s \<le> y, d)) st)"
    unfolding sorted_wrt_map using assms by (auto simp: mq_ok_def intro: sorted_wrt_mono_rel[of st ?R])
  then show ?thesis using assms by (cases st) (auto simp: mq_ok_def)
qed

lemma commitStores_refines:
  assumes "lsq_inv h l"
  shows "\<exists>l'. commitStores y h l = Some l' \<and> lsq_inv h l' \<and> abs_lsq h l' = mq_commit_stores y (abs_lsq h l) \<and>
    sq l' = mark_committed y h (sq l) \<and> same_loads l l' \<and> same_stall l l' \<and> storeHead l' = storeHead l \<and> SQEntries l' = SQEntries l"
proof -
  note inv = assms[unfolded lsq_inv_def]
  from commitStores_sq[of l y h] inv obtain l' where l': "commitStores y h l = Some l'" "sq_wf l'" "sq l' = mark_committed y h (sq l)"
    "same_loads l l'" "storeWBIdx l' = storeWBIdx l" "storeHead l' = storeHead l" "SQEntries l' = SQEntries l" by blast
  then have eq: "l' = l\<lparr>storeQueue := storeQueue l', storesToWB := storesToWB l'\<rparr>"
    by (intro commitStores_frame[of y h "storeHead l"]) (auto simp: commitStores_def bind_eq_Some_conv split: if_splits)
  have fr: "same_flow l l'" "same_stall l l'" unfolding same_flow_def same_stall_def by (subst eq, simp)+
  have "sorted_wrt (\<lambda>e e'. store_seq h e < store_seq h e') (sq l)"
    using inv by (auto simp: mq_ok_def abs_lsq_def abs_store_def sorted_wrt_map intro: sorted_wrt_mono_rel[rotated])
  then have a: "abs_lsq h l' = (fst (abs_lsq h l), map (\<lambda>(s, c, d). (s, c \<or> s \<le> y, d)) (snd (abs_lsq h l)))"
    using same_loads_lq[OF l'(4)] mark_committed_abs[of h "sq l" y] l'(3) by (simp add: abs_lsq_def)
  have "mq_ok (abs_lsq h l')" unfolding a using inv by (intro mq_ok_commit) simp
  moreover have "\<exists>k. wb_ok l' k" using inv wb_ok_marks[OF _ _ fr(1) l'(5-7)] mark_committed_marks l'(3) by metis
  moreover have "stall_ok h l'" using inv stall_ok_same[OF _ same_nums_refl l'(4) fr(2)] by blast
  ultimately show ?thesis using l' fr(2) a inv same_loads_lq[OF l'(4)] by (auto simp: lsq_inv_def abs_lsq_def mq_commit_stores_def)
qed

end
