(* ===== verification/Lsq_Steps.thy ===== *)
theory Lsq_Steps
  imports Lsq_Refine
begin

text \<open>
  Squash, write back, memory accesses and responses of the load/store unit keep its invariant and
  act on the two lists of the specification.
\<close>

section \<open>Squash\<close>

lemma setSquashed_idx [simp]: "lqIdx (setSquashed i) = lqIdx i" "sqIdx (setSquashed i) = sqIdx i"
  by (simp_all add: setSquashed_def drop_dolma_reqs_def Let_def)

lemma squash_insts_seqs [simp]: "same_seqs h (squash_insts ps h)"
proof (induction ps arbitrary: h)
  case (Cons p ps)
  then show ?case by (auto simp: squash_insts_Cons intro: same_seqs_trans[of h "h(p := setSquashed (h p))"])
qed (simp add: squash_insts_def)

lemma lsq_sorted:
  assumes "lsq_inv h l"
  shows "sorted_wrt (\<lambda>a b. seqNum (h a) < seqNum (h b)) (lq l)"
    and "sorted_wrt (\<lambda>e e'. store_seq h e < store_seq h e' \<and> (sq_canWB e' \<longrightarrow> sq_canWB e)) (sq l)"
  using assms by (auto simp: lsq_inv_def mq_ok_def abs_lsq_def abs_store_def sorted_wrt_map)

lemma wb_ok_prefix:
  assumes "wb_ok l k" and "sq l = sq l' @ gone" and "\<forall>e \<in> set gone. \<not> sq_canWB e" and "same_flow l l'"
    and "storeWBIdx l' = storeWBIdx l" and "storeHead l' = storeHead l" and "SQEntries l' = SQEntries l"
  shows "wb_ok l' k"
proof -
  have len: "nat (stores l) = nat (stores l') + length gone" using assms(2) length_sq[of l] length_sq[of l'] by simp
  have in_gone: "sq l ! i \<in> set gone" if "nat (stores l') \<le> i" "i < nat (stores l)" for i
    using that assms(2) len length_sq[of l'] by (auto simp: nth_append)
  have k: "k \<le> nat (stores l')"
  proof (rule ccontr)
    assume a: "\<not> k \<le> nat (stores l')"
    then have "sq l ! (k - 1) \<in> set (take k (sq l))"
      using assms(1) length_sq[of l] by (auto simp: wb_ok_def in_set_conv_nth intro!: exI[of _ "k - 1"])
    moreover have "sq l ! (k - 1) \<in> set gone" using a assms(1) by (intro in_gone) (auto simp: wb_ok_def)
    ultimately show False using assms(1,3) by (auto simp: wb_ok_def)
  qed
  have tk: "take k (sq l) = take k (sq l')" using k assms(2) by simp
  have dk: "set (drop k (sq l')) \<subseteq> set (drop k (sq l))" using k assms(2) by auto
  have busy: "k < nat (stores l') \<and> sq_canWB (sq l' ! k)" if "k < nat (stores l)" "sq_canWB (sq l ! k)"
  proof -
    have "k < nat (stores l')" using that in_gone[of k] assms(3) by (meson not_le)
    then show ?thesis using that assms(2) length_sq[of l'] by (simp add: nth_append)
  qed
  show ?thesis using assms(1,4-) k busy tk dk unfolding wb_ok_def same_flow_def by (metis subsetD)
qed

lemma mq_ok_squash:
  assumes "mq_ok (ld, st)"
  shows "mq_ok (filter P ld, filter (\<lambda>(s, c, d). s \<le> y \<or> c) st)"
proof (cases st)
  case Nil
  then show ?thesis using assms by (simp add: mq_ok_def sorted_wrt_filter)
next
  case (Cons x xs)
  obtain s c d where x: "x = (s, c, d)" by (cases x)
  have "filter (\<lambda>(s, c, d). s \<le> y \<or> c) xs = []" if "\<not> (s \<le> y \<or> c)"
    using that assms Cons x by (fastforce simp: mq_ok_def filter_empty_conv)
  then show ?thesis using assms Cons x by (auto simp: mq_ok_def sorted_wrt_filter)
qed

lemma lq_squash_frame_fields:
  assumes "lq_squash_frame l l1"
  shows "hasPendingPkt l1 = hasPendingPkt l" and "isStoreBlocked l1 = isStoreBlocked l" and "loadHead l1 = loadHead l"
    and "LQEntries l1 = LQEntries l"
  by (subst assms[unfolded lq_squash_frame_def], simp)+

text \<open>What is left in the queues.\<close>

definition squashed_to :: "inst_seq_num \<Rightarrow> inst_heap \<Rightarrow> lsq_unit \<Rightarrow> lsq_unit \<Rightarrow> bool" where
  "squashed_to sn h l l' \<longleftrightarrow> lq l' = filter (\<lambda>p. seqNum (h p) \<le> sn) (lq l) \<and>
     sq l' = filter (\<lambda>e. store_seq h e \<le> sn \<or> sq_canWB e) (sq l) \<and>
     loadHead l' = loadHead l \<and> LQEntries l' = LQEntries l \<and> storeHead l' = storeHead l \<and> SQEntries l' = SQEntries l"

lemma lsq_squash_refines:
  assumes "lsq_inv h l"
  shows "\<exists>h' l'. lsq_squash sn (h, l) = Some (h', l') \<and> same_seqs h h' \<and> lsq_inv h' l' \<and>
    mq_does (Squash_Younger sn) (abs_lsq h l) (abs_lsq h' l') \<and> squashed_to sn h l l'"
proof -
  let ?P = "\<lambda>p. seqNum (h p) > sn"
  note inv = assms[unfolded lsq_inv_def]
  define h1 where "h1 = squash_insts (takeWhile ?P (rev (lq l))) h"
  have h1: "same_seqs h h1" by (simp add: h1_def)
  from squash_loads_lq[of l sn h] inv obtain l1 where l1:
    "squash_loads sn (decr (LQEntries l) (loadTail l)) h l = Some (h1, l1)" "lq_wf l1"
    "lq l1 = rev (dropWhile ?P (rev (lq l)))" "same_stores l l1" "lq_squash_frame l l1" "stall_ok h l1" unfolding h1_def by blast
  have lq1: "lq l1 = filter (\<lambda>p. \<not> ?P p) (lq l)"
    unfolding l1(3) by (rule rev_dropWhile_filter, rule sorted_wrt_mono_rel[OF _ lsq_sorted(1)[OF assms]]) auto
  define l2 where "l2 = (case memDepViolator l1 of None \<Rightarrow> l1
    | Some v \<Rightarrow> if sn < seqNum (h1 v) then l1\<lparr>memDepViolator := None\<rparr> else l1)"
  have l2: "same_loads l1 l2" "same_stores l1 l2" "same_flow l1 l2" "same_stall l1 l2"
    by (auto simp: l2_def frame_defs split: option.splits)
  have flow: "same_flow l l2" using lq_squash_frame_fields[OF l1(5)] l2(3) by (auto simp: same_flow_def)
  have st2: "stall_ok h l2" by (rule stall_ok_same[OF l1(6) _ l2(1,4)]) simp
  have lq2: "lq l2 = lq l1" "lq_wf l2" using same_loads_lq[OF l2(1)] l1(2) by simp_all
  have sq2: "sq l2 = sq l" "sq_wf l2" using same_stores_sq[OF l1(4)] same_stores_sq[OF l2(2)] inv by simp_all
  have isn: "stalled l2 \<longrightarrow> stallingStoreIsn l2 \<le> sn"
  proof
    assume "stalled l2"
    with st2 obtain j where j: "j < nat (loads l2)" "stallingStoreIsn l2 < seqNum (h (lq l2 ! j))" by (auto simp: stall_ok_def)
    then have "lq l2 ! j \<in> set (lq l1)" using lq2(1) length_lq[of l2] nth_mem[of j "lq l2"] by simp
    then show "stallingStoreIsn l2 \<le> sn" using j(2) lq1 by auto
  qed
  define h2 where "h2 = squash_insts (map (\<lambda>e. the (sq_inst e)) (takeWhile (squashable sn h1) (rev (sq l2)))) h1"
  from squash_stores_sq[OF sq2(2) isn, of h1] obtain l' where l':
    "squash_stores sn (decr (SQEntries l2) (storeTail l2)) h1 l2 = Some (h2, l')" "sq_wf l'"
    "sq l' = rev (dropWhile (squashable sn h1) (rev (sq l2)))" "same_loads l2 l'"
    "l' = l2\<lparr>storeQueue := storeQueue l', stores := stores l', storeTail := storeTail l'\<rparr>" unfolding h2_def by blast
  have h2: "same_seqs h h2" using h1 same_seqs_trans[OF h1] by (simp add: h2_def)
  have q: "squashable sn h1 e \<longleftrightarrow> store_seq h e > sn \<and> \<not> sq_canWB e" for e
    using h1 by (simp add: squashable_def store_seq_def same_seqs_def)
  have sq': "sq l' = filter (\<lambda>e. \<not> squashable sn h1 e) (sq l)" unfolding l'(3) sq2(1)
    by (rule rev_dropWhile_filter, rule sorted_wrt_mono_rel[OF _ lsq_sorted(2)[OF assms]]) (auto simp: q)
  have a: "abs_lsq h2 l' = (filter (\<lambda>s. s \<le> sn) (fst (abs_lsq h l)), filter (\<lambda>(s, c, d). s \<le> sn \<or> c) (snd (abs_lsq h l)))"
    using abs_lsq_seqs[OF same_seqs_nums[OF h2], of l'] same_loads_lq[OF l'(4)] lq2(1)
    by (simp add: abs_lsq_def lq1 sq' filter_map o_def abs_store_def q not_less)
  have f: "storeWBIdx l' = storeWBIdx l2" "storeHead l' = storeHead l2" "SQEntries l' = SQEntries l2" "same_flow l2 l'" "same_stall l2 l'"
    unfolding same_flow_def same_stall_def by (subst l'(5), simp)+
  have wb: "\<exists>k. wb_ok l' k"
  proof -
    from inv obtain k where "wb_ok l k" by blast
    moreover have "sq l = sq l' @ rev (takeWhile (squashable sn h1) (rev (sq l)))"
      unfolding l'(3) sq2(1) rev_append[symmetric] by simp
    ultimately have "wb_ok l' k"
      by (rule wb_ok_prefix) (use f flow l1(4) l2(2) q in \<open>auto simp: same_flow_def same_stores_def dest: set_takeWhileD\<close>)
    then show ?thesis ..
  qed
  have "mq_ok (abs_lsq h2 l')" unfolding a using inv by (intro mq_ok_squash) simp
  moreover have "stall_ok h2 l'" by (rule stall_ok_same[OF st2 same_seqs_nums[OF h2] l'(4) f(5)])
  ultimately have "lsq_inv h2 l'" using l'(2) same_loads_lq[OF l'(4)] lq2(2) wb by (simp add: lsq_inv_def)
  moreover have "lsq_squash sn (h, l) = Some (h2, l')" using l1(1) l'(1) by (simp add: lsq_squash_def l2_def Let_def)
  moreover have "mq_does (Squash_Younger sn) (abs_lsq h l) (abs_lsq h2 l')" unfolding a by (cases "abs_lsq h l") simp
  moreover have "squashed_to sn h l l'"
    using lq1 sq' same_loads_lq[OF l'(4)] lq2(1) f(2,3) l'(4) l2(1,2) l1(4) lq_squash_frame_fields[OF l1(5)]
    by (simp add: squashed_to_def same_loads_def same_stores_def q not_less)
  ultimately show ?thesis using h2 by blast
qed

section \<open>Completion of a store\<close>

lemma replay_heap: "replayMemInst p (h, q) = Some (h', q') \<Longrightarrow> h' = h"
  by (auto simp: replayMemInst_def with_memdep_def md_replay_def bind_eq_Some_conv dest!: replay_loop_shape)

lemma release_stalled_frame:
  assumes "release_stalled p (h, q, l) = Some (h', q', l')"
  shows "h' = h" and "l' = l \<or> l' = l\<lparr>stalled := False, stallingStoreIsn := 0\<rparr>"
  using assms replay_heap[of _ h q]
  by (auto simp: release_stalled_def bind_eq_Some_conv split: if_splits prod.splits)

lemma free_fields_trans:
  "l1 = l\<lparr>storeHead := a, stores := b\<rparr> \<Longrightarrow> l' = l1\<lparr>storeHead := a', stores := b'\<rparr> \<Longrightarrow> l' = l\<lparr>storeHead := a', stores := b'\<rparr>"
  by simp

lemma free_stores_frame:
  assumes "free_stores l = Some l'"
  shows "l' = l\<lparr>storeHead := storeHead l', stores := stores l'\<rparr>"
proof (rule free_stores.raw_induct[of "\<lambda>l l'. l' = l\<lparr>storeHead := storeHead l', stores := stores l'\<rparr>", OF _ assms])
  fix loop :: "lsq_unit \<Rightarrow> lsq_unit option" and l l'
  assume IH: "\<And>l l'. loop l = Some l' \<Longrightarrow> l' = l\<lparr>storeHead := storeHead l', stores := stores l'\<rparr>"
    and run: "do {
     let hd = incr (SQEntries l) (storeHead l);
     let l1 = l\<lparr>storeHead := hd, stores := stores l - 1\<rparr>;
     e \<leftarrow> vec_get (storeQueue l1) hd;
     (if sq_completed e \<and> hd \<noteq> storeTail l1 then loop l1 else Some l1) } = Some l'"
  define l1 where "l1 = l\<lparr>storeHead := incr (SQEntries l) (storeHead l), stores := stores l - 1\<rparr>"
  have "loop l1 = Some l' \<or> l' = l1" using run by (auto simp: Let_def l1_def bind_eq_Some_conv split: if_splits)
  then show "l' = l\<lparr>storeHead := storeHead l', stores := stores l'\<rparr>"
  proof
    assume "loop l1 = Some l'"
    from free_fields_trans[OF l1_def IH[OF this]] show ?thesis .
  qed (simp add: l1_def)
qed

lemma completeStoreE:
  assumes "completeStore i (h, q, l) = Some (h', q', l')"
  obtains e p l1 l2 h3 q3 l3 where "vec_get (storeQueue l) i = Some e" "sq_inst e = Some p"
    and "l1 = call_iew [WakeCPU, ActivityThisCycle]
       (l\<lparr>storeQueue := (storeQueue l)[i := e\<lparr>sq_completed := True\<rparr>], storesToWB := storesToWB l - 1\<rparr>)"
    and "(if i = storeHead l1 then do { l' \<leftarrow> free_stores l1; Some (call_iew [UpdateLSQNextCycle] l') } else Some l1) = Some l2"
    and "release_stalled p (h, q, l2) = Some (h3, q3, l3)" and "h' = h3(p := set_status Completed (h3 p))"
    and "l' = (if needsTSO l3 then l3\<lparr>storeInFlight := False\<rparr> else l3)"
proof -
  show ?thesis
    using assms that unfolding completeStore_def case_prod_conv Let_def bind_eq_Some_conv by fast
qed

lemma completeStore_frame:
  assumes "completeStore i (h, q, l) = Some (h', q', l')"
  shows "same_seqs h h' \<and> same_flow l l' \<and> same_stall l l' \<and> storeTail l' = storeTail l \<and> SQEntries l' = SQEntries l \<and>
    usedStorePorts l' = usedStorePorts l \<and> cacheStorePorts l' = cacheStorePorts l \<and> senderStates l' = senderStates l"
    (is "_ \<and> ?F l'")
proof -
  from completeStoreE[OF assms] obtain e p l1 l2 h3 q3 l3 where
    l1: "l1 = call_iew [WakeCPU, ActivityThisCycle]
       (l\<lparr>storeQueue := (storeQueue l)[i := e\<lparr>sq_completed := True\<rparr>], storesToWB := storesToWB l - 1\<rparr>)" and
    l2: "(if i = storeHead l1 then do { l' \<leftarrow> free_stores l1; Some (call_iew [UpdateLSQNextCycle] l') } else Some l1) = Some l2" and
    r: "release_stalled p (h, q, l2) = Some (h3, q3, l3)" and
    l': "h' = h3(p := set_status Completed (h3 p))" "l' = (if needsTSO l3 then l3\<lparr>storeInFlight := False\<rparr> else l3)" .
  have "?F l1" by (simp add: l1 call_iew_def same_flow_def same_stall_def)
  moreover have "\<exists>a b c. l2 = l1\<lparr>storeHead := a, stores := b, iew_calls := c\<rparr>"
  proof (cases "i = storeHead l1")
    case True
    then obtain l2' where "free_stores l1 = Some l2'" "l2 = call_iew [UpdateLSQNextCycle] l2'"
      using l2 by (auto simp: bind_eq_Some_conv)
    then show ?thesis using free_stores_frame[of l1 l2'] unfolding call_iew_def by metis
  next
    case False
    then have "l2 = l1" using l2 by simp
    then show ?thesis by (intro exI[of _ "storeHead l1"] exI[of _ "stores l1"] exI[of _ "iew_calls l1"]) simp
  qed
  ultimately have "?F l2" by (auto simp: same_flow_def same_stall_def)
  then have "?F l'" using release_stalled_frame(2)[OF r] l'(2) by (auto simp: same_flow_def same_stall_def)
  moreover have "same_seqs h h'" using release_stalled_frame(1)[OF r] l'(1) by simp
  ultimately show ?thesis by blast
qed

text \<open>A position that separates the stores handed to the cache from the others.\<close>

definition wb_at :: "lsq_unit \<Rightarrow> nat \<Rightarrow> bool" where
  "wb_at l k \<longleftrightarrow> k \<le> nat (stores l) \<and> (\<forall>e \<in> set (take k (sq l)). sq_canWB e) \<and> (\<forall>e \<in> set (drop k (sq l)). \<not> sq_completed e)"

lemma wb_ok_at:
  "wb_ok l k \<longleftrightarrow> wb_at l k \<and> storeWBIdx l = (storeHead l + k) mod SQEntries l \<and>
    (hasPendingPkt l \<or> isStoreBlocked l \<longrightarrow> k < nat (stores l) \<and> sq_canWB (sq l ! k)) \<and> \<not> (hasPendingPkt l \<and> isStoreBlocked l)"
  by (auto simp: wb_ok_def wb_at_def)

definition lsq_core :: "inst_heap \<Rightarrow> lsq_unit \<Rightarrow> bool" where
  "lsq_core h l \<longleftrightarrow> lq_wf l \<and> sq_wf l \<and> mq_ok (abs_lsq h l) \<and> stall_ok h l"

lemma lsq_inv_core: "lsq_inv h l \<longleftrightarrow> lsq_core h l \<and> (\<exists>k. wb_ok l k)"
  by (auto simp: lsq_inv_def lsq_core_def)

lemma store_head_moves:
  assumes "sq_wf l" and "sq_wf l'" and "nat (stores l) = d + nat (stores l')" and "storeTail l' = storeTail l" and "SQEntries l' = SQEntries l"
  shows "storeHead l' = (storeHead l + d) mod SQEntries l"
proof -
  let ?n = "SQEntries l" and ?r = "nat (stores l')"
  have n: "0 < ?n" "storeHead l' < ?n" using assms(1,2,5) by (auto simp: sq_wf_def)
  have "(?r + storeHead l') mod ?n = (?r + (storeHead l + d)) mod ?n"
    using assms by (simp add: sq_wf_def ac_simps)
  then have "(?r + storeHead l') mod ?n = (?r + (storeHead l + d) mod ?n) mod ?n" by (simp add: mod_add_right_eq)
  then show ?thesis using n by (intro add_mod_inj[of ?r "storeHead l'" ?n]) simp_all
qed

lemma complete_marks:
  assumes "sorted_wrt (\<lambda>e e'. store_seq h e < store_seq h e') es" and "j < length es"
  shows "map (abs_store h) (es[j := (es ! j)\<lparr>sq_completed := True\<rparr>]) =
    map (\<lambda>(s', c, d). (s', c, d \<or> s' = store_seq h (es ! j))) (map (abs_store h) es)"
proof (rule nth_equalityI)
  fix i assume "i < length (map (abs_store h) (es[j := (es ! j)\<lparr>sq_completed := True\<rparr>]))"
  then have i: "i < length es" by simp
  have "store_seq h (es ! i) \<noteq> store_seq h (es ! j)" if "i \<noteq> j"
    using that i assms sorted_wrt_nth_less[OF assms(1), of i j] sorted_wrt_nth_less[OF assms(1), of j i] by (cases "i < j") auto
  then show "map (abs_store h) (es[j := (es ! j)\<lparr>sq_completed := True\<rparr>]) ! i =
    map (\<lambda>(s', c, d). (s', c, d \<or> s' = store_seq h (es ! j))) (map (abs_store h) es) ! i"
    using i assms(2) by (cases "i = j") (auto simp: abs_store_def store_seq_def)
qed simp

lemma mq_ok_complete:
  assumes "mq_ok m"
  shows "mq_ok (mq_complete s m)"
proof -
  obtain ld st where m: "m = (ld, st)" by (cases m)
  let ?f = "\<lambda>(s', c, d). (s', c, d \<or> s' = s)" and ?R = "\<lambda>(s :: inst_seq_num, c, _ :: bool) (s', c', _ :: bool). s < s' \<and> (c' \<longrightarrow> c)"
  have "sorted_wrt ?R st" using assms m by (simp add: mq_ok_def)
  then have "sorted_wrt ?R (map ?f st)" unfolding sorted_wrt_map by (rule sorted_wrt_mono_rel[rotated]) auto
  then have so: "sorted_wrt ?R (dropWhile (\<lambda>(_, _, d). d) (map ?f st))" unfolding dropWhile_eq_drop by (rule sorted_wrt_drop)
  have hd: "case dropWhile (\<lambda>(_ :: inst_seq_num, _ :: bool, d). d) xs of [] \<Rightarrow> True | (_, _, d) # _ \<Rightarrow> \<not> d" for xs
    by (induction xs) auto
  show ?thesis using assms so hd[of "map ?f st"] unfolding m mq_complete_def mq_ok_def case_prod_conv by blast
qed

text \<open>The store queue loses a prefix of committed stores.\<close>

definition id_of :: "sq_entry \<Rightarrow> iptr option \<times> bool" where
  "id_of e = (sq_inst e, sq_canWB e)"

definition sq_drops :: "lsq_unit \<Rightarrow> lsq_unit \<Rightarrow> bool" where
  "sq_drops l l' \<longleftrightarrow> same_loads l l' \<and> storeTail l' = storeTail l \<and> SQEntries l' = SQEntries l \<and>
     (\<exists>d \<le> nat (stores l). map id_of (sq l') = drop d (map id_of (sq l)) \<and> (\<forall>e \<in> set (take d (sq l)). sq_canWB e))"

lemma sq_drops_trans:
  assumes "sq_drops l l1" and "sq_drops l1 l2"
  shows "sq_drops l l2"
proof -
  obtain d where d: "d \<le> nat (stores l)" "map id_of (sq l1) = drop d (map id_of (sq l))" "\<forall>e \<in> set (take d (sq l)). sq_canWB e"
    using assms(1) by (auto simp: sq_drops_def)
  obtain d' where d': "d' \<le> nat (stores l1)" "map id_of (sq l2) = drop d' (map id_of (sq l1))" "\<forall>e \<in> set (take d' (sq l1)). sq_canWB e"
    using assms(2) by (auto simp: sq_drops_def)
  have len: "nat (stores l1) = nat (stores l) - d" using arg_cong[OF d(2), of length] by simp
  have "map id_of (sq l2) = drop (d + d') (map id_of (sq l))" using d(2) d'(2) by (simp add: add.commute)
  moreover have "\<forall>e \<in> set (take (d + d') (sq l)). sq_canWB e"
  proof
    have "map id_of (take d' (drop d (sq l))) = map id_of (take d' (sq l1))" using d(2) by (metis take_map drop_map)
    then have im: "id_of ` set (take d' (drop d (sq l))) = id_of ` set (take d' (sq l1))" by (metis set_map)
    have *: "sq_canWB e" if "e \<in> set (take d' (drop d (sq l)))" for e
    proof -
      have "id_of e \<in> id_of ` set (take d' (sq l1))" using that im by blast
      then obtain e' where "e' \<in> set (take d' (sq l1))" "id_of e = id_of e'" by blast
      then show ?thesis using d'(3) by (simp add: id_of_def)
    qed
    fix e assume "e \<in> set (take (d + d') (sq l))"
    then have "e \<in> set (take d (sq l)) \<or> e \<in> set (take d' (drop d (sq l)))" by (simp add: take_add)
    then show "sq_canWB e" using * d(3) by blast
  qed
  ultimately have "\<exists>d \<le> nat (stores l). map id_of (sq l2) = drop d (map id_of (sq l)) \<and> (\<forall>e \<in> set (take d (sq l)). sq_canWB e)"
    using d(1) d'(1) len by (intro exI[of _ "d + d'"]) auto
  then show ?thesis using assms by (simp add: sq_drops_def same_loads_def)
qed

lemma sq_drops_none:
  assumes "same_loads l l'" and "storeTail l' = storeTail l" and "SQEntries l' = SQEntries l" and "map id_of (sq l') = map id_of (sq l)"
  shows "sq_drops l l'"
  unfolding sq_drops_def using assms by (intro conjI exI[of _ 0]) simp_all

lemma complete_at_wb:
  assumes "wb_at l m" and "j < m" and "sq l' = complete_at j (sq l)"
  shows "\<exists>d \<le> m. nat (stores l) = d + nat (stores l') \<and> wb_at l' (m - d) \<and> (m < nat (stores l) \<longrightarrow> sq l' ! (m - d) = sq l ! m) \<and>
    map id_of (sq l') = drop d (map id_of (sq l))"
proof -
  define es where "es = (sq l)[j := (sq l ! j)\<lparr>sq_completed := True\<rparr>]"
  define d where "d = length (takeWhile sq_completed es)"
  have len: "length es = nat (stores l)" by (simp add: es_def)
  have m: "m \<le> length es" using assms(1) by (simp add: wb_at_def len)
  have q: "sq l' = drop d es" unfolding assms(3) complete_at_def es_def[symmetric] d_def by (rule dropWhile_eq_drop)
  have dr: "drop m es = drop m (sq l)" using assms(2) by (simp add: es_def)
  have d: "d \<le> m"
  proof (rule ccontr)
    assume "\<not> d \<le> m"
    then have "m < length (takeWhile sq_completed es)" by (simp add: d_def)
    then have "sq_completed (es ! m)" "m < length es"
      using nth_mem[of m "takeWhile sq_completed es"] takeWhile_nth[of m sq_completed es] length_takeWhile_le[of sq_completed es]
      by (auto dest: set_takeWhileD)
    moreover have "es ! m \<in> set (drop m (sq l))" using \<open>m < length es\<close> dr by (metis Cons_nth_drop_Suc list.set_intros(1))
    ultimately show False using assms(1) by (auto simp: wb_at_def)
  qed
  have n: "nat (stores l) = d + nat (stores l')" using q len m d length_sq[of l'] by simp
  have "\<forall>e \<in> set (take m es). sq_canWB e"
  proof
    fix e assume "e \<in> set (take m es)"
    then obtain i where i: "i < m" "e = es ! i" using m by (auto simp: in_set_conv_nth)
    have "sq l ! i \<in> set (take m (sq l))" using i m len by (auto simp: in_set_conv_nth intro!: exI[of _ i])
    then have "sq_canWB (sq l ! i)" using assms(1) by (simp add: wb_at_def)
    then show "sq_canWB e" using i m len by (cases "i = j") (auto simp: es_def)
  qed
  then have "\<forall>e \<in> set (take (m - d) (sq l')). sq_canWB e"
    using q d by (metis in_set_dropD take_drop le_add_diff_inverse2)
  moreover have "drop (m - d) (sq l') = drop m (sq l)" using q d dr by simp
  moreover have "sq l' ! (m - d) = sq l ! m" if "m < nat (stores l)" using that q d len assms(2) by (simp add: es_def)
  moreover have "map id_of es = map id_of (sq l)"
    unfolding es_def using assms(1,2) by (simp add: map_update list_update_same_conv wb_at_def id_of_def)
  then have "map id_of (sq l') = drop d (map id_of (sq l))" unfolding q drop_map[symmetric] by simp
  ultimately show ?thesis using d n assms(1) by (intro exI[of _ d]) (auto simp: wb_at_def)
qed

lemma completeStore_refines:
  assumes "lsq_core h l" and "wb_at l m" and "j < m" and "i = (storeHead l + j) mod SQEntries l"
    and "completeStore i (h, q, l) = Some (h', q', l')"
  shows "lsq_core h' l'" and "abs_lsq h' l' = mq_complete (store_seq h (sq l ! j)) (abs_lsq h l)"
    and "\<exists>k. wb_at l' k \<and> (storeHead l' + k) mod SQEntries l' = (storeHead l + m) mod SQEntries l \<and>
      (m < nat (stores l) \<longrightarrow> k < nat (stores l') \<and> sq l' ! k = sq l ! m)"
    and "storeWBIdx l' = storeWBIdx l" and "sq_drops l l'"
proof -
  note c = assms(1)[unfolded lsq_core_def]
  note fr = completeStore_frame[OF assms(5)]
  have j: "j < nat (stores l)" using assms(2,3) by (simp add: wb_at_def)
  have srt: "sorted_wrt (\<lambda>e e'. store_seq h e < store_seq h e') (sq l)"
    using c by (auto simp: mq_ok_def abs_lsq_def abs_store_def sorted_wrt_map intro: sorted_wrt_mono_rel[rotated])
  have "j \<noteq> 0 \<Longrightarrow> \<not> sq_completed (hd (sq l))"
    using c j length_sq[of l] by (cases "sq l") (auto simp: mq_ok_def abs_lsq_def abs_store_def)
  then have l': "sq_wf l'" "sq l' = complete_at j (sq l)" "same_loads l l'" "storeWBIdx l' = storeWBIdx l"
    using completeStore_sq[OF _ j assms(4) _ assms(5)] c by blast+
  then show "storeWBIdx l' = storeWBIdx l" by simp
  have "map (abs_store h) (sq l') = dropWhile (\<lambda>(_, _, d). d) (map (abs_store h) ((sq l)[j := (sq l ! j)\<lparr>sq_completed := True\<rparr>]))"
    unfolding l'(2) complete_at_def dropWhile_map by (simp add: o_def abs_store_def)
  also have "\<dots> = snd (mq_complete (store_seq h (sq l ! j)) (abs_lsq h l))"
    using complete_marks[OF srt, of j] j by (simp add: mq_complete_def abs_lsq_def)
  finally show a: "abs_lsq h' l' = mq_complete (store_seq h (sq l ! j)) (abs_lsq h l)"
    using abs_lsq_seqs[of h h' l'] fr same_loads_lq[OF l'(3)] by (simp add: abs_lsq_def mq_complete_def)
  have "stall_ok h' l'" using c fr stall_ok_same[OF _ same_seqs_nums l'(3)] by blast
  then show "lsq_core h' l'" using c l'(1) same_loads_lq[OF l'(3)] a mq_ok_complete by (simp add: lsq_core_def)
  from complete_at_wb[OF assms(2,3) l'(2)] obtain d where d: "d \<le> m" "nat (stores l) = d + nat (stores l')" "wb_at l' (m - d)"
    "m < nat (stores l) \<longrightarrow> sq l' ! (m - d) = sq l ! m" "map id_of (sq l') = drop d (map id_of (sq l))" by blast
  have "set (take d (sq l)) \<subseteq> set (take m (sq l))" using d(1) by (rule set_take_subset_set_take)
  then have "\<forall>e \<in> set (take d (sq l)). sq_canWB e" using assms(2) by (auto simp: wb_at_def)
  then show "sq_drops l l'" unfolding sq_drops_def using l'(3) fr d(2,5) by (intro conjI exI[of _ d]) auto
  have "storeHead l' = (storeHead l + d) mod SQEntries l" using c l'(1) d(2) fr by (intro store_head_moves) auto
  then have "(storeHead l' + (m - d)) mod SQEntries l' = (storeHead l + m) mod SQEntries l"
    using fr d(1) mod_add_left_eq[of "storeHead l + d" "SQEntries l" "m - d"] by simp
  then show "\<exists>k. wb_at l' k \<and> (storeHead l' + k) mod SQEntries l' = (storeHead l + m) mod SQEntries l \<and>
      (m < nat (stores l) \<longrightarrow> k < nat (stores l') \<and> sq l' ! k = sq l ! m)"
    using d by (intro exI[of _ "m - d"]) auto
qed

end
