(* ===== verification/Lsq_Writeback.thy ===== *)
theory Lsq_Writeback
  imports Lsq_Steps
begin

text \<open>Handing stores to the data cache keeps the invariant of the unit; each store that needs no access completes.\<close>

text \<open>The write back position, without what it says of packets that wait for a retry.\<close>

definition wb_mid :: "lsq_unit \<Rightarrow> nat \<Rightarrow> bool" where
  "wb_mid l k \<longleftrightarrow> wb_at l k \<and> storeWBIdx l = (storeHead l + k) mod SQEntries l"

definition idle :: "lsq_unit \<Rightarrow> bool" where
  "idle l \<longleftrightarrow> \<not> hasPendingPkt l \<and> \<not> isStoreBlocked l"

text \<open>The store at the write back position may be sent.\<close>

definition can_send :: "lsq_unit \<Rightarrow> nat \<Rightarrow> bool" where
  "can_send l k \<longleftrightarrow> wb_mid l k \<and> k < nat (stores l) \<and> sq_canWB (sq l ! k)"

lemma wb_ok_idle: "idle l \<Longrightarrow> wb_mid l k \<Longrightarrow> wb_ok l k"
  by (simp add: wb_ok_at wb_mid_def idle_def)

lemma wb_ok_mid: "wb_ok l k \<Longrightarrow> wb_mid l k"
  by (simp add: wb_ok_at wb_mid_def)

lemma wb_ok_busy: "can_send l k \<Longrightarrow> \<not> (hasPendingPkt l \<and> isStoreBlocked l) \<Longrightarrow> wb_ok l k"
  by (simp add: wb_ok_at wb_mid_def can_send_def)

lemma wb_at_Suc: "wb_at l k \<Longrightarrow> k < nat (stores l) \<Longrightarrow> sq_canWB (sq l ! k) \<Longrightarrow> wb_at l (Suc k)"
  using length_sq[of l] set_drop_subset_set_drop[of k "Suc k" "sq l"] by (auto simp: wb_at_def take_Suc_conv_app_nth)

text \<open>The unit with the queues of another.\<close>

definition same_unit :: "lsq_unit \<Rightarrow> lsq_unit \<Rightarrow> bool" where
  "same_unit l l' \<longleftrightarrow> same_loads l l' \<and> storeQueue l' = storeQueue l \<and> stores l' = stores l \<and> storeHead l' = storeHead l \<and>
     storeTail l' = storeTail l \<and> SQEntries l' = SQEntries l \<and> same_stall l l'"

lemma same_unit_refl [simp]: "same_unit l l"
  by (simp add: same_unit_def frame_defs)

lemma same_unit_trans: "same_unit l l1 \<Longrightarrow> same_unit l1 l2 \<Longrightarrow> same_unit l l2"
  by (auto simp: same_unit_def frame_defs)

lemma same_unit_sq: "same_unit l l' \<Longrightarrow> sq l' = sq l \<and> sq_wf l' = sq_wf l \<and> wb_at l' k = wb_at l k"
  by (simp add: same_unit_def sq_def sq_wf_def wb_at_def)

lemma same_unit_drops [simp]: "same_unit l l' \<Longrightarrow> sq_drops l l'"
  using same_unit_sq[of l l'] by (intro sq_drops_none) (auto simp: same_unit_def)

lemma sq_drops_refl [simp]: "sq_drops l l"
  by simp

lemma same_unit_core:
  assumes "lsq_core h l" and "same_unit l l'" and "same_seqs h h'"
  shows "lsq_core h' l'" and "abs_lsq h' l' = abs_lsq h l"
proof -
  have ld: "same_loads l l'" "same_stall l l'" using assms(2) by (simp_all add: same_unit_def)
  show a: "abs_lsq h' l' = abs_lsq h l"
    using abs_lsq_seqs[OF same_seqs_nums[OF assms(3)], of l'] same_unit_sq[OF assms(2)] same_loads_lq[OF ld(1)] by (simp add: abs_lsq_def)
  then show "lsq_core h' l'"
    using assms(1) same_unit_sq[OF assms(2)] same_loads_lq[OF ld(1)] stall_ok_same[OF _ same_seqs_nums[OF assms(3)] ld] by (simp add: lsq_core_def)
qed

lemma same_unit_can_send: "can_send l k \<Longrightarrow> same_unit l l' \<Longrightarrow> storeWBIdx l' = storeWBIdx l \<Longrightarrow> can_send l' k"
  using same_unit_sq[of l l' k] by (auto simp: can_send_def wb_mid_def same_unit_def)

lemma same_unit_mid: "wb_mid l k \<Longrightarrow> same_unit l l' \<Longrightarrow> storeWBIdx l' = storeWBIdx l \<Longrightarrow> wb_mid l' k"
  using same_unit_sq[of l l' k] by (auto simp: wb_mid_def same_unit_def)

lemma advance_wb:
  assumes "can_send l k" and "sq_wf l" and "same_unit l l'" and "storeWBIdx l' = incr (SQEntries l) (storeWBIdx l)"
  shows "wb_mid l' (Suc k)"
proof -
  have "wb_at l (Suc k)" using assms(1) by (intro wb_at_Suc) (auto simp: can_send_def wb_mid_def)
  moreover have "storeWBIdx l' = (storeHead l + Suc k) mod SQEntries l"
    using assms incr_window[of "SQEntries l" "storeHead l" k] by (simp add: can_send_def wb_mid_def sq_wf_def)
  ultimately show ?thesis using assms(3) same_unit_sq[OF assms(3)] by (simp add: wb_mid_def same_unit_def)
qed

lemma storePostSend_refines:
  assumes "storePostSend (h, q, l) = Some (h', q', l')"
  shows "same_seqs h h'" and "same_unit l l'" and "storeWBIdx l' = incr (SQEntries l) (storeWBIdx l)"
    and "hasPendingPkt l' = hasPendingPkt l" and "isStoreBlocked l' = isStoreBlocked l" and "senderStates l' = senderStates l"
    and "retryPkt l' = retryPkt l"
proof -
  from assms obtain e p h1 q1 l1 where r: "release_stalled p (h, q, l) = Some (h1, q1, l1)" and
    h': "h' = (if \<not> isStoreConditional (h1 p) then h1(p := set_status Completed (h1 p)) else h1)" and
    l': "l' = (if needsTSO l1 then l1\<lparr>storeInFlight := True\<rparr> else l1)\<lparr>storeWBIdx := incr (SQEntries l1) (storeWBIdx l1)\<rparr>"
    unfolding storePostSend_def case_prod_conv Let_def bind_eq_Some_conv by fastforce
  note f = release_stalled_frame[OF r]
  show "same_seqs h h'" using f(1) h' by simp
  show "same_unit l l'" "storeWBIdx l' = incr (SQEntries l) (storeWBIdx l)" "hasPendingPkt l' = hasPendingPkt l"
    "isStoreBlocked l' = isStoreBlocked l" "senderStates l' = senderStates l" "retryPkt l' = retryPkt l"
    using f(2) by (auto simp: l' same_unit_def frame_defs)
qed

lemma sendStore_cases:
  assumes "sendStore port pkt l = Some (ok, l')"
  obtains s where "ok" "l' = l\<lparr>sent := s\<rparr>" | s where "\<not> ok" "l' = l\<lparr>sent := s, isStoreBlocked := True, retryPkt := Some pkt\<rparr>" "retryPkt l = None"
  using assms by (auto simp: sendStore_def send_def Let_def split: prod.splits if_splits)

text \<open>A step of the unit that does not change the lists.\<close>

definition quiet :: "inst_heap \<Rightarrow> lsq_unit \<Rightarrow> inst_heap \<Rightarrow> lsq_unit \<Rightarrow> bool" where
  "quiet h l h' l' \<longleftrightarrow> same_seqs h h' \<and> lsq_inv h' l' \<and> abs_lsq h' l' = abs_lsq h l \<and> sq_drops l l'"

lemma sent_quiet:
  assumes "lsq_core h l" and "can_send l k" and "idle l" and "storePostSend (h, q, l) = Some (h', q', l')"
  shows "quiet h l h' l' \<and> idle l'"
proof -
  note f = storePostSend_refines[OF assms(4)]
  have "wb_mid l' (Suc k)" using assms(1) f(3) by (intro advance_wb[OF assms(2) _ f(2)]) (auto simp: lsq_core_def)
  moreover have i: "idle l'" using assms(3) f(4,5) by (simp add: idle_def)
  ultimately show ?thesis
    using same_unit_core[OF assms(1) f(2,1)] f(1) wb_ok_idle same_unit_drops[OF f(2)] by (auto simp: quiet_def lsq_inv_core)
qed

lemma kept_quiet:
  assumes "lsq_core h l" and "can_send l k" and "same_unit l l'" and "storeWBIdx l' = storeWBIdx l"
    and "\<not> (hasPendingPkt l' \<and> isStoreBlocked l')"
  shows "quiet h l h l'"
  using same_unit_core[OF assms(1,3) same_seqs_refl] same_unit_drops[OF assms(3)] wb_ok_busy[OF same_unit_can_send[OF assms(2-4)] assms(5)]
  by (auto simp: quiet_def lsq_inv_core)

lemma quiet_after: "quiet h l1 h' l' \<Longrightarrow> abs_lsq h l1 = abs_lsq h l \<Longrightarrow> sq_drops l l1 \<Longrightarrow> quiet h l h' l'"
  using sq_drops_trans by (auto simp: quiet_def)

text \<open>A packet is kept for the next cycle only when the ports are used up.\<close>

definition ports_used :: "lsq_unit \<Rightarrow> bool" where
  "ports_used l \<longleftrightarrow> (hasPendingPkt l \<longrightarrow> cacheStorePorts l \<le> usedStorePorts l)"

lemma idle_ports [simp]: "idle l \<Longrightarrow> ports_used l"
  by (simp add: idle_def ports_used_def)

lemmas unit_simps = same_unit_def frame_defs idle_def ports_used_def

lemma send_both:
  assumes "lsq_core h l" and "can_send l k" and "idle l" and "sendStore port pkt l = Some (ok, l1)"
    and "(if ok then storePostSend (h, q, l1) else Some (h, q, l1)) = Some (h', q', l')"
  shows "quiet h l h' l' \<and> ports_used l'"
  using assms(4)
proof (cases rule: sendStore_cases)
  case (1 s)
  have u: "same_unit l l1" "storeWBIdx l1 = storeWBIdx l" "idle l1" using 1 assms(3) by (auto simp: unit_simps)
  note c = same_unit_core[OF assms(1) u(1) same_seqs_refl]
  show ?thesis
    using sent_quiet[OF c(1) same_unit_can_send[OF assms(2) u(1,2)] u(3)] 1 assms(5) quiet_after[OF _ c(2) same_unit_drops[OF u(1)]] by auto
next
  case (2 s)
  then have "h' = h" "l' = l1" using assms(5) by auto
  moreover have "quiet h l h l1" by (rule kept_quiet[OF assms(1,2)]) (use 2 assms(3) in \<open>auto simp: unit_simps\<close>)
  ultimately show ?thesis using 2 assms(3) by (simp add: unit_simps)
qed

lemma send_packets_quiet:
  assumes "lsq_core h l" and "can_send l k" and "idle l" and "send_packets port pkt second (h, q, l) = Some (h', q', l')"
  shows "quiet h l h' l' \<and> ports_used l'"
proof -
  from assms(4) obtain ok l1 where s: "sendStore port pkt l = Some (ok, l1)"
    by (auto simp: send_packets_def bind_eq_Some_conv)
  show ?thesis
    using s
  proof (cases rule: sendStore_cases)
    case (1 s')
    have u: "same_unit l l1" "storeWBIdx l1 = storeWBIdx l" "idle l1" using 1 assms(3) by (auto simp: unit_simps)
    note c = same_unit_core[OF assms(1) u(1) same_seqs_refl] and cs = same_unit_can_send[OF assms(2) u(1,2)]
    show ?thesis
    proof (cases second)
      case None
      then have "storePostSend (h, q, l1) = Some (h', q', l')" using assms(4) s 1 by (simp add: send_packets_def)
      then show ?thesis using sent_quiet[OF c(1) cs u(3)] quiet_after[OF _ c(2) same_unit_drops[OF u(1)]] by auto
    next
      case (Some sp)
      show ?thesis
      proof (cases "usedStorePorts l1 < cacheStorePorts l1")
        case True
        let ?l = "l1\<lparr>usedStorePorts := usedStorePorts l1 + 1\<rparr>"
        from assms(4) s 1 Some True obtain ok2 l2 where s2: "sendStore port sp ?l = Some (ok2, l2)"
          "(if ok2 then storePostSend (h, q, l2) else Some (h, q, l2)) = Some (h', q', l')"
          by (auto simp: send_packets_def bind_eq_Some_conv)
        have u2: "same_unit l1 ?l" "storeWBIdx ?l = storeWBIdx l1" "idle ?l" using u(3) by (auto simp: unit_simps)
        note c2 = same_unit_core[OF c(1) u2(1) same_seqs_refl]
        show ?thesis
          using send_both[OF c2(1) same_unit_can_send[OF cs u2(1,2)] u2(3) s2] quiet_after[of h ?l h' l' l] c(2) c2(2)
            sq_drops_trans[OF same_unit_drops[OF u(1)] same_unit_drops[OF u2(1)]] by auto
      next
        case False
        then have e: "h' = h" "l' = l1\<lparr>pendingPkt := Some sp, hasPendingPkt := True\<rparr>"
          using assms(4) s 1 Some by (auto simp: send_packets_def split: if_splits)
        have "quiet h l1 h l'" by (rule kept_quiet[OF c(1) cs]) (use e u(3) in \<open>auto simp: unit_simps\<close>)
        then show ?thesis using quiet_after[OF _ c(2) same_unit_drops[OF u(1)]] e False by (auto simp: ports_used_def)
      qed
    qed
  next
    case (2 s')
    have e: "h' = h" "\<exists>x. l' = l1\<lparr>senderStates := x\<rparr>"
      using assms(4) s 2 by (auto simp: send_packets_def upd_state_def bind_eq_Some_conv split: option.splits intro: exI[of _ "senderStates l1"])
    have "quiet h l h l'" by (rule kept_quiet[OF assms(1,2)]) (use 2 e assms(3) in \<open>auto simp: unit_simps\<close>)
    then show ?thesis using e 2 assms(3) by (auto simp: unit_simps)
  qed
qed

text \<open>Changing an entry without its instruction and its marks.\<close>

lemma map_update_same: "i < length xs \<Longrightarrow> f x = f (xs ! i) \<Longrightarrow> map f (xs[i := x]) = map f xs"
  by (simp add: map_update list_update_same_conv)

lemma ball_image_eq:
  assumes "P ` A = P ` B"
  shows "(\<forall>e \<in> A. P e) = (\<forall>e \<in> B. P e)" and "(\<forall>e \<in> A. \<not> P e) = (\<forall>e \<in> B. \<not> P e)"
  using assms by (metis image_iff)+

lemma core_update:
  assumes "lsq_core h l" and "i < nat (stores l)"
    and e: "sq_inst e = sq_inst (sq l ! i)" "sq_canWB e = sq_canWB (sq l ! i)" "sq_completed e = sq_completed (sq l ! i)"
    and l': "storeQueue l' = (storeQueue l)[(storeHead l + i) mod SQEntries l := e]" "storeHead l' = storeHead l" "stores l' = stores l"
      "SQEntries l' = SQEntries l" "storeTail l' = storeTail l" "same_loads l l'" "same_stall l l'"
  shows "lsq_core h l'" and "abs_lsq h l' = abs_lsq h l" and "wb_at l' k = wb_at l k" and "sq l' = (sq l)[i := e]"
    and "sq_drops l l'"
proof -
  note c = assms(1)[unfolded lsq_core_def]
  have "sq_inst (sq l ! i) \<noteq> None" using c assms(2) nth_mem[of i "sq l"] by (auto simp: sq_wf_def)
  then have u: "sq l' = (sq l)[i := e]" "sq_wf l'" using sq_update[of l i e l'] c assms(2) e(1) l'(1-5) by auto
  show "sq l' = (sq l)[i := e]" by (rule u(1))
  have i: "i < length (sq l)" using assms(2) by simp
  have "map id_of (sq l') = map id_of (sq l)" unfolding u(1) using i e by (intro map_update_same) (simp_all add: id_of_def)
  then show "sq_drops l l'" using l'(4-6) by (intro sq_drops_none)
  have "map (abs_store h) (sq l') = map (abs_store h) (sq l)"
    unfolding u(1) using i e by (intro map_update_same) (simp_all add: abs_store_def store_seq_def)
  then show a: "abs_lsq h l' = abs_lsq h l" using same_loads_lq[OF l'(6)] by (simp add: abs_lsq_def)
  have m: "map (\<lambda>e. (sq_canWB e, sq_completed e)) (sq l') = map (\<lambda>e. (sq_canWB e, sq_completed e)) (sq l)"
    unfolding u(1) using i e by (intro map_update_same) simp_all
  have im: "sq_canWB ` set (take k (sq l')) = sq_canWB ` set (take k (sq l))"
    "sq_completed ` set (drop k (sq l')) = sq_completed ` set (drop k (sq l))"
    using arg_cong[OF m, of "\<lambda>xs. fst ` set (take k xs)"] arg_cong[OF m, of "\<lambda>xs. snd ` set (drop k xs)"]
    by (simp_all add: take_map drop_map image_image)
  show "wb_at l' k = wb_at l k" unfolding wb_at_def l'(3) ball_image_eq(1)[OF im(1)] ball_image_eq(2)[OF im(2)] ..
  have "stall_ok h l'" using c stall_ok_same[OF _ same_nums_refl l'(6,7)] by blast
  then show "lsq_core h l'" using c a u(2) same_loads_lq[OF l'(6)] by (simp add: lsq_core_def)
qed

text \<open>What the write back of stores does: some of them complete.\<close>

definition wb_result :: "inst_heap \<Rightarrow> lsq_unit \<Rightarrow> inst_heap \<Rightarrow> lsq_unit \<Rightarrow> bool" where
  "wb_result h l h' l' \<longleftrightarrow> same_seqs h h' \<and> lsq_inv h' l' \<and> ports_used l' \<and> sq_drops l l' \<and>
     (\<exists>ss. mq_completes ss (abs_lsq h l) (abs_lsq h' l'))"

lemma wb_result_quiet: "quiet h l h' l' \<Longrightarrow> ports_used l' \<Longrightarrow> wb_result h l h' l'"
  by (auto simp: quiet_def wb_result_def intro: exI[of _ "[]"])

lemma wb_result_trans:
  assumes "wb_result h l h1 l1" and "wb_result h1 l1 h2 l2"
  shows "wb_result h l h2 l2"
proof -
  obtain ss ss' where "mq_completes ss (abs_lsq h l) (abs_lsq h1 l1)" "mq_completes ss' (abs_lsq h1 l1) (abs_lsq h2 l2)"
    using assms by (auto simp: wb_result_def)
  then have "mq_completes (ss @ ss') (abs_lsq h l) (abs_lsq h2 l2)" by (rule mq_completes_append)
  then show ?thesis using assms same_seqs_trans sq_drops_trans unfolding wb_result_def by blast
qed

lemma wb_result_from:
  "wb_result h1 l1 h' l' \<Longrightarrow> abs_lsq h1 l1 = abs_lsq h l \<Longrightarrow> same_seqs h h1 \<Longrightarrow> sq_drops l l1 \<Longrightarrow> wb_result h l h' l'"
  using same_seqs_trans sq_drops_trans by (auto simp: wb_result_def)

lemma committed_at: "k < nat (stores l) \<Longrightarrow> sq_canWB (sq l ! k) \<Longrightarrow> mq_committed (store_seq h (sq l ! k)) (abs_lsq h l)"
  unfolding mq_committed_def abs_lsq_def snd_conv set_map image_image
  by (rule image_eqI[of _ _ "sq l ! k"]) (auto simp: abs_store_def)

lemma completed_in_place:
  assumes "lsq_core h l" and "can_send l k" and "idle l" and "completeStore (storeWBIdx l) (h, q, l) = Some (h', q', l')"
    and "l'' = l'\<lparr>storeWBIdx := incr (SQEntries l') (storeWBIdx l')\<rparr>"
  shows "wb_result h l h' l''"
proof -
  have m: "wb_at l (Suc k)" and wb: "storeWBIdx l = (storeHead l + k) mod SQEntries l"
    using assms(2) by (auto simp: can_send_def wb_mid_def intro: wb_at_Suc)
  note c = completeStore_refines[OF assms(1) m lessI wb assms(4)] and f = completeStore_frame[OF assms(4)]
  from c(3) obtain k' where k': "wb_at l' k'" "(storeHead l' + k') mod SQEntries l' = (storeHead l + Suc k) mod SQEntries l" by blast
  have u: "same_unit l' l''" using assms(5) by (simp add: unit_simps)
  have "0 < SQEntries l" using assms(1) by (auto simp: lsq_core_def sq_wf_def)
  then have "storeWBIdx l'' = (storeHead l' + k') mod SQEntries l'"
    using k'(2) c(4) f wb incr_window[of "SQEntries l" "storeHead l" k] by (simp add: assms(5))
  then have "wb_mid l'' k'" using k'(1) same_unit_sq[OF u, of k'] by (simp add: wb_mid_def assms(5))
  moreover have i: "idle l''" using assms(3,5) f by (auto simp: idle_def same_flow_def)
  ultimately have "lsq_inv h' l''" using same_unit_core[OF c(1) u same_seqs_refl] wb_ok_idle by (auto simp: lsq_inv_core)
  moreover have "mq_completes [store_seq h (sq l ! k)] (abs_lsq h l) (abs_lsq h' l'')"
    using same_unit_core(2)[OF c(1) u same_seqs_refl] c(2) committed_at[of k l h] assms(2) by (simp add: can_send_def)
  ultimately show ?thesis unfolding wb_result_def using f idle_ports[OF i] sq_drops_trans[OF c(5) same_unit_drops[OF u]] by blast
qed

lemma prepare_store_fields:
  assumes "prepare_store (h, l) = Some (pkt, second, n, p, h2, l2)"
  obtains e r ss m mem where "vec_get (storeQueue l) (storeWBIdx l) = Some e" "same_seqs h h2"
    "l2 = l\<lparr>senderStates := ss, nextState := m, storeQueue := (storeQueue l)[storeWBIdx l := e\<lparr>sq_committed := True, sq_req := r\<rparr>],
       memData := mem\<rparr>"
proof -
  from assms obtain e p r where e: "vec_get (storeQueue l) (storeWBIdx l) = Some e" "sq_inst e = Some p" "sq_req e = Some r"
    by (auto simp: prepare_store_def bind_eq_Some_conv)
  show ?thesis
    using assms e by (intro that[where e = e and ss = "senderStates l2" and m = "nextState l2" and r = "Some (pkt_req pkt)" and mem = "memData l2"])
      (auto simp: prepare_store_def Let_def new_state_def bind_eq_Some_conv set_flag_def split: if_splits prod.splits)
qed

lemma writeback_store_result:
  assumes "lsq_core h l" and "can_send l k" and "idle l" and "writeback_store port (h, q, l) = Some (h', q', l')"
  shows "wb_result h l h' l'"
proof -
  from assms(4) obtain pkt second n p h2 l2 where pr: "prepare_store (h, l) = Some (pkt, second, n, p, h2, l2)"
    by (auto simp: writeback_store_def bind_eq_Some_conv)
  from prepare_store_fields[OF pr] obtain e r ss m mem where e: "vec_get (storeQueue l) (storeWBIdx l) = Some e" and h2: "same_seqs h h2"
    and l2: "l2 = l\<lparr>senderStates := ss, nextState := m,
       storeQueue := (storeQueue l)[storeWBIdx l := e\<lparr>sq_committed := True, sq_req := r\<rparr>], memData := mem\<rparr>" .
  have k: "k < nat (stores l)" "storeWBIdx l = (storeHead l + k) mod SQEntries l" "sq_wf l"
    using assms(1,2) by (auto simp: can_send_def wb_mid_def lsq_core_def)
  then have ek: "e = sq l ! k" using e sq_nth[OF k(3,1)] by simp
  have u: "lsq_core h l3 \<and> abs_lsq h l3 = abs_lsq h l \<and> can_send l3 k \<and> idle l3 \<and> sq_drops l l3"
    if "\<exists>x y. l3 = l2\<lparr>ipr_writes := x, senderStates := y\<rparr>" for l3
  proof -
    note c = core_update[OF assms(1) k(1), of "e\<lparr>sq_committed := True, sq_req := r\<rparr>" l3]
    have f: "storeQueue l3 = (storeQueue l)[(storeHead l + k) mod SQEntries l := e\<lparr>sq_committed := True, sq_req := r\<rparr>]"
      "storeHead l3 = storeHead l" "stores l3 = stores l" "SQEntries l3 = SQEntries l" "storeTail l3 = storeTail l"
      "same_loads l l3" "same_stall l l3" "storeWBIdx l3 = storeWBIdx l" "idle l3"
      using that k(2) assms(3) by (auto simp: l2 frame_defs idle_def)
    have sq3: "sq l3 = (sq l)[k := e\<lparr>sq_committed := True, sq_req := r\<rparr>]" and wb3: "wb_at l3 k = wb_at l k"
      using c ek f(1-7) by simp_all
    have "can_send l3 k" using assms(2) ek k(1) by (simp add: can_send_def wb_mid_def wb3 sq3 f)
    then show ?thesis using c(1,2,5) ek f(1-7,9) by simp
  qed
  consider (ipr) x y l3 where "completeStore (storeWBIdx l2) (h2, q, l2\<lparr>ipr_writes := x, senderStates := y\<rparr>) = Some (h', q', l3)"
      "l' = l3\<lparr>storeWBIdx := incr (SQEntries l3) (storeWBIdx l3)\<rparr>"
    | (mem) "send_packets port pkt second (h2, q, l2) = Some (h', q', l')"
    using assms(4) pr by (auto simp: writeback_store_def bind_eq_Some_conv split: if_splits)
  then show ?thesis
  proof cases
    case ipr
    let ?l = "l2\<lparr>ipr_writes := x, senderStates := y\<rparr>"
    have v: "lsq_core h ?l \<and> abs_lsq h ?l = abs_lsq h l \<and> can_send ?l k \<and> idle ?l \<and> sq_drops l ?l" by (rule u) blast
    note c = same_unit_core[of h ?l ?l h2, OF _ same_unit_refl h2]
    have "wb_result h2 ?l h' l'"
      using completed_in_place[of h2 ?l k q h' q' l3 l'] c(1) v ipr by simp
    then show ?thesis using wb_result_from c(2) v h2 by metis
  next
    case mem
    have v: "lsq_core h l2 \<and> abs_lsq h l2 = abs_lsq h l \<and> can_send l2 k \<and> idle l2 \<and> sq_drops l l2"
      by (rule u) (auto intro!: exI[of _ "ipr_writes l2"] exI[of _ "senderStates l2"])
    note c = same_unit_core[of h l2 l2 h2, OF _ same_unit_refl h2]
    have "quiet h2 l2 h' l' \<and> ports_used l'" using send_packets_quiet[OF _ _ _ mem] c(1) v by blast
    then have "wb_result h2 l2 h' l'" using wb_result_quiet by blast
    then show ?thesis using wb_result_from c(2) v h2 by metis
  qed
qed

lemma wb_result_refl: "lsq_inv h l \<Longrightarrow> ports_used l \<Longrightarrow> wb_result h l h l"
  by (auto simp: wb_result_def intro: exI[of _ "[]"])

lemma at_wb:
  assumes "lsq_inv h l" and "storeWBIdx l \<noteq> storeTail l" and "vec_get (storeQueue l) (storeWBIdx l) = Some e" and "sq_canWB e"
  obtains k where "can_send l k" and "lsq_core h l"
proof -
  obtain k where k: "wb_ok l k" and c: "lsq_core h l" using assms(1) by (auto simp: lsq_inv_core)
  then have "wb_mid l k" and w: "sq_wf l" using wb_ok_mid by (auto simp: lsq_core_def)
  then have m: "k \<le> nat (stores l)" "storeWBIdx l = (storeHead l + k) mod SQEntries l" by (auto simp: wb_mid_def wb_at_def)
  have "k \<noteq> nat (stores l)" using assms(2) m(2) w by (auto simp: sq_wf_def)
  then have kk: "k < nat (stores l)" using m(1) by simp
  have "e = sq l ! k" using assms(3) sq_nth[OF w kk] m(2) by simp
  then show ?thesis using that[of k] kk assms(4) \<open>wb_mid l k\<close> c by (simp add: can_send_def)
qed

lemma wb_iteration:
  fixes f :: "dcache_port \<Rightarrow> inst_heap \<Rightarrow> inst_queue \<Rightarrow> lsq_unit \<Rightarrow> lsq_state option"
  assumes "lsq_core h l" and "can_send l k" and "idle l"
    and run: "(if sq_size e = 0 then do {
                  (h1, q1, l1) \<leftarrow> completeStore (storeWBIdx l) (h, q, l);
                  f port h1 q1 (l1\<lparr>storeWBIdx := incr (SQEntries l1) (storeWBIdx l1)\<rparr>) }
                else if isDataPrefetch (h p) then
                  f port h q (l\<lparr>usedStorePorts := usedStorePorts l + 1, storeWBIdx := incr (SQEntries l) (storeWBIdx l)\<rparr>)
                else do {
                  (h1, q1, l1) \<leftarrow> writeback_store port (h, q, l\<lparr>usedStorePorts := usedStorePorts l + 1\<rparr>);
                  f port h1 q1 l1 }) = Some s"
  shows "\<exists>h1 q1 l1. wb_result h l h1 l1 \<and> f port h1 q1 l1 = Some s"
proof -
  consider (none) "sq_size e = 0" | (pf) "sq_size e \<noteq> 0" "isDataPrefetch (h p)" | (mem) "sq_size e \<noteq> 0" "\<not> isDataPrefetch (h p)" by blast
  then show ?thesis
  proof cases
    case none
    then obtain h1 q1 l1 where c: "completeStore (storeWBIdx l) (h, q, l) = Some (h1, q1, l1)"
      "f port h1 q1 (l1\<lparr>storeWBIdx := incr (SQEntries l1) (storeWBIdx l1)\<rparr>) = Some s"
      using run by (auto simp: bind_eq_Some_conv)
    then show ?thesis using completed_in_place[OF assms(1-3) c(1) refl] by blast
  next
    case pf
    let ?l = "l\<lparr>usedStorePorts := usedStorePorts l + 1, storeWBIdx := incr (SQEntries l) (storeWBIdx l)\<rparr>"
    have u: "same_unit l ?l" "idle ?l" using assms(3) by (simp_all add: unit_simps)
    have "wb_mid ?l (Suc k)" using assms(1) by (intro advance_wb[OF assms(2) _ u(1)]) (simp_all add: lsq_core_def)
    then have "quiet h l h ?l"
      using same_unit_core[OF assms(1) u(1) same_seqs_refl] same_unit_drops[OF u(1)] wb_ok_idle[OF u(2)]
      by (auto simp: quiet_def lsq_inv_core)
    then have "wb_result h l h ?l" using wb_result_quiet u(2) by simp
    then show ?thesis using run pf by auto
  next
    case mem
    let ?l = "l\<lparr>usedStorePorts := usedStorePorts l + 1\<rparr>"
    from mem obtain h1 q1 l1 where c: "writeback_store port (h, q, ?l) = Some (h1, q1, l1)" "f port h1 q1 l1 = Some s"
      using run by (auto simp: bind_eq_Some_conv)
    have u: "same_unit l ?l" "storeWBIdx ?l = storeWBIdx l" "idle ?l" using assms(3) by (simp_all add: unit_simps)
    note d = same_unit_core[OF assms(1) u(1) same_seqs_refl]
    have "wb_result h ?l h1 l1" by (rule writeback_store_result[OF d(1) same_unit_can_send[OF assms(2) u(1,2)] u(3) c(1)])
    then have "wb_result h l h1 l1" using wb_result_from[OF _ d(2) same_seqs_refl] u(1) by simp
    then show ?thesis using c(2) by blast
  qed
qed

lemma writeback_loop_result:
  assumes "writeback_loop port h q l = Some s" and "lsq_inv h l" and "ports_used l"
  shows "wb_result h l (fst s) (snd (snd s))"
proof -
  let ?P = "\<lambda>port h q l s. lsq_inv h l \<longrightarrow> ports_used l \<longrightarrow> wb_result h l (fst s) (snd (snd s))"
  have "?P port h q l s"
  proof (rule writeback_loop.raw_induct[of ?P, OF _ assms(1)])
    fix loop :: "dcache_port \<Rightarrow> inst_heap \<Rightarrow> inst_queue \<Rightarrow> lsq_unit \<Rightarrow> lsq_state option" and port h q l s
    assume IH: "\<And>port h q l s. loop port h q l = Some s \<Longrightarrow> ?P port h q l s"
      and run: "(if storesToWB l > 0 \<and> storeWBIdx l \<noteq> storeTail l then do {
        e \<leftarrow> vec_get (storeQueue l) (storeWBIdx l);
        (case sq_inst e of
           None \<Rightarrow> Some (h, q, l)
         | Some p \<Rightarrow>
             if sq_canWB e \<and> (\<not> needsTSO l \<or> \<not> storeInFlight l) \<and> usedStorePorts l < cacheStorePorts l \<and> \<not> isStoreBlocked l then
               (if sq_size e = 0 then do {
                  (h1, q1, l1) \<leftarrow> completeStore (storeWBIdx l) (h, q, l);
                  loop port h1 q1 (l1\<lparr>storeWBIdx := incr (SQEntries l1) (storeWBIdx l1)\<rparr>) }
                else if isDataPrefetch (h p) then
                  loop port h q (l\<lparr>usedStorePorts := usedStorePorts l + 1, storeWBIdx := incr (SQEntries l) (storeWBIdx l)\<rparr>)
                else do {
                  (h1, q1, l1) \<leftarrow> writeback_store port (h, q, l\<lparr>usedStorePorts := usedStorePorts l + 1\<rparr>);
                  loop port h1 q1 l1 })
             else Some (h, q, l)) }
      else Some (h, q, l)) = Some s"
    show "?P port h q l s"
    proof (intro impI)
      assume inv: "lsq_inv h l" and pu: "ports_used l"
      show "wb_result h l (fst s) (snd (snd s))"
      proof (cases "storesToWB l > 0 \<and> storeWBIdx l \<noteq> storeTail l")
        case True
        then obtain e where e: "vec_get (storeQueue l) (storeWBIdx l) = Some e" using run by (auto simp: bind_eq_Some_conv)
        show ?thesis
        proof (cases "\<exists>p. sq_inst e = Some p \<and> sq_canWB e \<and> (\<not> needsTSO l \<or> \<not> storeInFlight l) \<and>
            usedStorePorts l < cacheStorePorts l \<and> \<not> isStoreBlocked l")
          case False
          then have "s = (h, q, l)" using run True e by (auto split: option.splits if_splits)
          then show ?thesis using wb_result_refl[OF inv pu] by simp
        next
          case go: True
          then obtain p where p: "sq_inst e = Some p" by blast
          have idle: "idle l" using go pu by (auto simp: idle_def ports_used_def)
          from at_wb[OF inv _ e] go True obtain k where k: "can_send l k" "lsq_core h l" by blast
          have "\<exists>h1 q1 l1. wb_result h l h1 l1 \<and> loop port h1 q1 l1 = Some s"
            by (rule wb_iteration[OF k(2,1) idle, where e = e and p = p and q = q]) (use run True e p go in simp)
          then obtain h1 q1 l1 where m: "wb_result h l h1 l1" "loop port h1 q1 l1 = Some s" by blast
          then have "wb_result h1 l1 (fst s) (snd (snd s))" using IH[OF m(2)] by (simp add: wb_result_def)
          then show ?thesis using wb_result_trans[OF m(1)] by blast
        qed
      qed (use run wb_result_refl[OF inv pu] in auto)
    qed
  qed
  then show ?thesis using assms by blast
qed

lemma waiting_store:
  assumes "lsq_inv h l" and "hasPendingPkt l \<or> isStoreBlocked l"
  obtains k where "can_send l k" and "lsq_core h l"
  using assms by (auto simp: lsq_inv_core wb_ok_at can_send_def wb_mid_def)

lemma writebackPending_quiet:
  assumes "lsq_inv h l" and "writebackPendingStore port (h, q, l) = Some (h', q', l')"
  shows "quiet h l h' l' \<and> \<not> hasPendingPkt l'"
proof (cases "hasPendingPkt l")
  case False
  then show ?thesis using assms by (auto simp: writebackPendingStore_def quiet_def)
next
  case True
  from waiting_store[OF assms(1)] True obtain k where k: "can_send l k" "lsq_core h l" by blast
  from True assms(1) have nb: "\<not> isStoreBlocked l" by (auto simp: lsq_inv_core wb_ok_at)
  let ?l = "l\<lparr>hasPendingPkt := False\<rparr>"
  have u: "same_unit l ?l" "storeWBIdx ?l = storeWBIdx l" "idle ?l" using nb by (simp_all add: unit_simps)
  note d = same_unit_core[OF k(2) u(1) same_seqs_refl]
  from True assms(2) obtain pkt ok l1 h2 q2 l2 where s: "sendStore port pkt l = Some (ok, l1)"
    "(if ok then storePostSend (h, q, l1) else Some (h, q, l1)) = Some (h2, q2, l2)" "h' = h2"
    "l' = l2\<lparr>pendingPkt := None, hasPendingPkt := False\<rparr>"
    by (auto simp: writebackPendingStore_def bind_eq_Some_conv)
  have "quiet h l h' l'"
    using s(1)
  proof (cases rule: sendStore_cases)
    case (1 x)
    note f = storePostSend_refines[of h q l1 h2 q2 l2]
    have p: "storePostSend (h, q, l1) = Some (h2, q2, l2)" using s(2) 1 by simp
    have v: "same_unit l l1" "storeWBIdx l1 = storeWBIdx l" "hasPendingPkt l1 = hasPendingPkt l" "isStoreBlocked l1 = isStoreBlocked l"
      using 1 by (simp_all add: unit_simps)
    have w: "same_unit l1 l'" "storeWBIdx l' = incr (SQEntries l1) (storeWBIdx l1)" "idle l'"
      using f(2,3,5)[OF p] s(4) v(4) nb by (auto simp: unit_simps)
    note e = same_unit_core[OF k(2) v(1) same_seqs_refl]
    have "wb_mid l' (Suc k)"
      using e(1) by (intro advance_wb[OF same_unit_can_send[OF k(1) v(1,2)] _ w(1,2)]) (simp add: lsq_core_def)
    then show ?thesis
      using same_unit_core[OF e(1) w(1) f(1)[OF p]] e(2) f(1)[OF p] wb_ok_idle[OF w(3)] s(3)
        sq_drops_trans[OF same_unit_drops[OF v(1)] same_unit_drops[OF w(1)]] by (auto simp: quiet_def lsq_inv_core)
  next
    case (2 x)
    then have "h' = h" "l' = l1\<lparr>pendingPkt := None, hasPendingPkt := False\<rparr>" using s by auto
    moreover have "quiet h l h l'" by (rule kept_quiet[OF k(2,1)]) (use 2 calculation in \<open>auto simp: unit_simps\<close>)
    ultimately show ?thesis by simp
  qed
  then show ?thesis using s(4) by simp
qed

lemma writebackStores_refines:
  assumes "lsq_inv h l" and "writebackStores port (h, q, l) = Some (h', q', l')"
  shows "same_seqs h h' \<and> lsq_inv h' l' \<and> mq_does Write_Back (abs_lsq h l) (abs_lsq h' l') \<and> sq_drops l l'"
proof -
  from assms(2) obtain h1 q1 l1 h2 q2 l2 where s: "writebackPendingStore port (h, q, l) = Some (h1, q1, l1)"
    "writeback_loop port h1 q1 l1 = Some (h2, q2, l2)" "h' = h2" "l' = l2\<lparr>usedStorePorts := 0\<rparr>"
    by (auto simp: writebackStores_def bind_eq_Some_conv HasUnalignedMemAcc_def split: if_splits)
  have q: "quiet h l h1 l1" "\<not> hasPendingPkt l1" using writebackPending_quiet[OF assms(1) s(1)] by simp_all
  then have "wb_result h1 l1 h2 l2"
    using writeback_loop_result[OF s(2)] by (auto simp: quiet_def ports_used_def)
  then have r: "wb_result h l h2 l2" using wb_result_trans wb_result_quiet[OF q(1)] q(2) by (auto simp: ports_used_def)
  have "lsq_inv h2 l' \<and> abs_lsq h2 l' = abs_lsq h2 l2"
    using r s(4) by (intro lsq_inv_same) (auto simp: wb_result_def frame_defs)
  moreover have "sq_drops l l'" using r s(4) by (auto simp: wb_result_def unit_simps intro: sq_drops_trans same_unit_drops)
  ultimately show ?thesis using r s(3) by (auto simp: wb_result_def)
qed

lemma recvRetry_refines:
  assumes "lsq_inv h l" and "recvRetry port (h, q, l) = Some (h', q', l')"
  shows "quiet h l h' l'"
proof (cases "isStoreBlocked l")
  case False
  then show ?thesis using assms by (auto simp: recvRetry_def quiet_def)
next
  case True
  from waiting_store[OF assms(1)] True obtain k where k: "can_send l k" "lsq_core h l" by blast
  from True assms(1) have np: "\<not> hasPendingPkt l" by (auto simp: lsq_inv_core wb_ok_at)
  from True assms(2) obtain pkt s0 where s0: "retryPkt l = Some pkt" "senderStates l (pkt_state pkt) = Some s0"
    by (auto simp: recvRetry_def bind_eq_Some_conv)
  obtain ok r l1 where sd: "send port pkt l = (ok, r, l1)" by (metis prod.exhaust)
  then have l1: "\<exists>x. l1 = l\<lparr>sent := x\<rparr>" by (auto simp: send_def Let_def split: prod.splits)
  let ?last = "\<not> HasUnalignedMemAcc \<or> \<not> st_pktToSend s0 \<or> (case st_pendingPacket s0 of None \<Rightarrow> False | Some sp \<Rightarrow> pkt_second sp = pkt_second pkt)"
  consider (no) "\<not> ok" "h' = h" "l' = l1"
    | (last) l2 h2 q2 l3 where "upd_state (pkt_state pkt) (\<lambda>s. s\<lparr>st_pktToSend := False\<rparr>) l1 = Some l2"
        "storePostSend (h, q, l2) = Some (h2, q2, l3)" "h' = h2" "l' = l3\<lparr>retryPkt := None, isStoreBlocked := False\<rparr>"
    | (second) sp ok2 l4 where "sendStore port sp (l1\<lparr>retryPkt := None, isStoreBlocked := False\<rparr>) = Some (ok2, l4)"
        "(if ok2 then storePostSend (h, q, l4) else Some (h, q, l4)) = Some (h', q', l')"
  proof (cases "ok \<and> ?last")
    case l: True
    then obtain l2 h2 q2 l3 where u: "upd_state (pkt_state pkt) (\<lambda>s. s\<lparr>st_pktToSend := False\<rparr>) l1 = Some l2"
      "storePostSend (h, q, l2) = Some (h2, q2, l3)" using assms(2) True s0 sd by (auto simp: recvRetry_def bind_eq_Some_conv)
    have "senderStates l3 (pkt_state pkt) = Some (s0\<lparr>st_pktToSend := False\<rparr>)"
      using storePostSend_refines(6)[OF u(2)] u(1) l1 s0(2) by (auto simp: upd_state_def)
    then have "h' = h2" "l' = l3\<lparr>retryPkt := None, isStoreBlocked := False\<rparr>"
      using assms(2) True s0 sd l u by (auto simp: recvRetry_def)
    then show ?thesis using that(2)[OF u] by blast
  next
    case False
    have ss: "senderStates l1 = senderStates l" using l1 by auto
    show ?thesis
    proof (cases ok)
      case o: True
      then have nl: "\<not> ?last" and ps: "st_pktToSend s0" "HasUnalignedMemAcc" using False by auto
      have "do { sp \<leftarrow> st_pendingPacket s0; (ok2, l4) \<leftarrow> sendStore port sp (l1\<lparr>retryPkt := None, isStoreBlocked := False\<rparr>);
        (if ok2 then storePostSend (h, q, l4) else Some (h, q, l4)) } = Some (h', q', l')"
        using assms(2) True s0 sd o nl ss ps by (simp add: recvRetry_def)
      then show ?thesis using that(3) by (auto simp: bind_eq_Some_conv)
    next
      case f: False
      then have "h' = h" "l' = l1" using assms(2) True s0 sd by (simp_all add: recvRetry_def)
      then show ?thesis using that(1) f by blast
    qed
  qed
  then show ?thesis
  proof cases
    case no
    then show ?thesis using kept_quiet[OF k(2,1), of l1] l1 np by (auto simp: unit_simps)
  next
    case last
    have u: "same_unit l l2" "storeWBIdx l2 = storeWBIdx l" "hasPendingPkt l2 = hasPendingPkt l"
      using last(1) l1 by (auto simp: upd_state_def bind_eq_Some_conv unit_simps)
    note f = storePostSend_refines[OF last(2)] and c = same_unit_core[OF k(2) u(1) same_seqs_refl]
    have w: "same_unit l2 l'" "storeWBIdx l' = incr (SQEntries l2) (storeWBIdx l2)" "idle l'"
      using f(2-4) last(4) u(3) np by (auto simp: unit_simps)
    have "wb_mid l' (Suc k)" using c(1) by (intro advance_wb[OF same_unit_can_send[OF k(1) u(1,2)] _ w(1,2)]) (simp add: lsq_core_def)
    then show ?thesis using same_unit_core[OF c(1) w(1) f(1)] c(2) f(1) last(3) wb_ok_idle[OF w(3)]
        sq_drops_trans[OF same_unit_drops[OF u(1)] same_unit_drops[OF w(1)]] by (auto simp: quiet_def lsq_inv_core)
  next
    case second
    let ?l = "l1\<lparr>retryPkt := None, isStoreBlocked := False\<rparr>"
    have u: "same_unit l ?l" "storeWBIdx ?l = storeWBIdx l" "idle ?l" using l1 np by (auto simp: unit_simps)
    note c = same_unit_core[OF k(2) u(1) same_seqs_refl]
    show ?thesis using send_both[OF c(1) same_unit_can_send[OF k(1) u(1,2)] u(3) second] quiet_after[OF _ c(2) same_unit_drops[OF u(1)]] by blast
  qed
qed

end
