(* ===== verification/Lsq_Index.thy ===== *)
theory Lsq_Index
  imports Lsq_Writeback
begin

text \<open>
  The indices that tie the two queues together. A load remembers where the stores older than it
  end, a store where the loads younger than it begin. The operations of the unit keep these links
  in step with the program order of the queues.
\<close>

section \<open>Links into a circular queue\<close>

text \<open>
  The index of the first element of a window, with the given head and elements, that comes after
  \<open>s\<close> in program order, when the elements before it come before \<open>s\<close>.
\<close>

definition linked :: "nat \<Rightarrow> nat \<Rightarrow> inst_seq_num list \<Rightarrow> inst_seq_num \<Rightarrow> int \<Rightarrow> bool" where
  "linked n a xs s idx \<longleftrightarrow> (\<exists>m \<le> length xs. idx = int ((a + m) mod n) \<and> (\<forall>x \<in> set (take m xs). x < s) \<and> (\<forall>x \<in> set (drop m xs). s < x))"

lemma linked_new: "\<forall>x \<in> set xs. x < s \<Longrightarrow> linked n a xs s (int ((a + length xs) mod n))"
  unfolding linked_def by (intro exI[of _ "length xs"]) simp

lemma linked_append:
  assumes "linked n a xs s idx" and "s < x"
  shows "linked n a (xs @ [x]) s idx"
proof -
  obtain m where "m \<le> length xs" "idx = int ((a + m) mod n)" "\<forall>x \<in> set (take m xs). x < s" "\<forall>x \<in> set (drop m xs). s < x"
    using assms(1) by (auto simp: linked_def)
  then show ?thesis unfolding linked_def using assms(2) by (intro exI[of _ m]) auto
qed

lemma linked_drop:
  assumes "linked n a xs s idx" and "d \<le> length xs" and "\<forall>x \<in> set (take d xs). x < s"
  shows "linked n ((a + d) mod n) (drop d xs) s idx"
proof -
  obtain m where m: "m \<le> length xs" "idx = int ((a + m) mod n)" "\<forall>x \<in> set (take m xs). x < s" "\<forall>x \<in> set (drop m xs). s < x"
    using assms(1) by (auto simp: linked_def)
  have d: "d \<le> m"
  proof (rule ccontr)
    assume "\<not> d \<le> m"
    then have "xs ! m \<in> set (take d xs)" using assms(2) by (auto simp: in_set_conv_nth intro!: exI[of _ m])
    moreover have "xs ! m \<in> set (drop m xs)" using \<open>\<not> d \<le> m\<close> assms(2) by (simp add: Cons_nth_drop_Suc[symmetric])
    ultimately show False using assms(3) m(4) by (metis less_asym)
  qed
  have "((a + d) mod n + (m - d)) mod n = (a + m) mod n" using d mod_add_left_eq[of "a + d" n "m - d"] by simp
  moreover have "\<forall>x \<in> set (take (m - d) (drop d xs)). x < s" using m(3) d by (metis take_drop in_set_dropD le_add_diff_inverse2)
  moreover have "drop (m - d) (drop d xs) = drop m xs" using d by simp
  ultimately show ?thesis unfolding linked_def using m d assms(2) by (intro exI[of _ "m - d"]) simp
qed

lemma linked_prefix:
  assumes "linked n a (ys @ zs) s idx" and "\<forall>z \<in> set zs. s < z"
  shows "linked n a ys s idx"
proof -
  obtain m where m: "m \<le> length (ys @ zs)" "idx = int ((a + m) mod n)" "\<forall>x \<in> set (take m (ys @ zs)). x < s"
    "\<forall>x \<in> set (drop m (ys @ zs)). s < x" using assms(1) by (auto simp: linked_def)
  have False if "x \<in> set (take (m - length ys) zs)" for x
    using m(3) assms(2) that by (auto dest: in_set_takeD less_asym)
  then have "set (take (m - length ys) zs) = {}" using equals0I by metis
  then have "take (m - length ys) zs = []" by (simp only: set_empty)
  then have le: "m \<le> length ys" using m(1) by (cases zs) auto
  then show ?thesis unfolding linked_def using m by (intro exI[of _ m]) auto
qed

section \<open>The links of the unit\<close>

abbreviation load_seqs :: "inst_heap \<Rightarrow> lsq_unit \<Rightarrow> inst_seq_num list" where
  "load_seqs h l \<equiv> map (\<lambda>p. seqNum (h p)) (lq l)"

abbreviation store_seqs :: "inst_heap \<Rightarrow> lsq_unit \<Rightarrow> inst_seq_num list" where
  "store_seqs h l \<equiv> map (store_seq h) (sq l)"

definition load_link :: "inst_heap \<Rightarrow> lsq_unit \<Rightarrow> iptr \<Rightarrow> bool" where
  "load_link h l p \<longleftrightarrow> (sqIdx (h p) = -1 \<and> (\<forall>s \<in> set (store_seqs h l). seqNum (h p) < s)) \<or>
     linked (SQEntries l) (storeHead l) (store_seqs h l) (seqNum (h p)) (sqIdx (h p))"

definition store_link :: "inst_heap \<Rightarrow> lsq_unit \<Rightarrow> sq_entry \<Rightarrow> bool" where
  "store_link h l e \<longleftrightarrow> sq_canWB e \<or>
     linked (LQEntries l) (loadHead l) (load_seqs h l) (store_seq h e) (lqIdx (h (the (sq_inst e))))"

definition commit_order :: "inst_heap \<Rightarrow> lsq_unit \<Rightarrow> bool" where
  "commit_order h l \<longleftrightarrow> (\<forall>p \<in> set (lq l). \<forall>e \<in> set (sq l). sq_canWB e \<longrightarrow> store_seq h e < seqNum (h p))"

definition own_places :: "inst_heap \<Rightarrow> lsq_unit \<Rightarrow> bool" where
  "own_places h l \<longleftrightarrow> (\<forall>j < nat (loads l). lqIdx (h (lq l ! j)) = int ((loadHead l + j) mod LQEntries l)) \<and>
     (\<forall>i < nat (stores l). sqIdx (h (the (sq_inst (sq l ! i)))) = int ((storeHead l + i) mod SQEntries l))"

definition idx_ok :: "inst_heap \<Rightarrow> lsq_unit \<Rightarrow> bool" where
  "idx_ok h l \<longleftrightarrow> commit_order h l \<and> (\<forall>p \<in> set (lq l). load_link h l p) \<and> (\<forall>e \<in> set (sq l). store_link h l e) \<and> own_places h l"

section \<open>The store queue loses a prefix\<close>

lemma idx_ok_drops:
  assumes "idx_ok h l" and "lsq_core h l" and "lsq_core h' l'" and "same_seqs h h'" and "sq_drops l l'"
  shows "idx_ok h' l'"
proof -
  obtain d where d: "d \<le> nat (stores l)" "map id_of (sq l') = drop d (map id_of (sq l))" "\<forall>e \<in> set (take d (sq l)). sq_canWB e"
    and f: "same_loads l l'" "storeTail l' = storeTail l" "SQEntries l' = SQEntries l"
    using assms(5) by (auto simp: sq_drops_def)
  have ld: "lq l' = lq l" "loadHead l' = loadHead l" "LQEntries l' = LQEntries l" "loads l' = loads l"
    using same_loads_lq[OF f(1)] f(1) by (simp_all add: same_loads_def)
  have h: "seqNum (h' p) = seqNum (h p)" "lqIdx (h' p) = lqIdx (h p)" "sqIdx (h' p) = sqIdx (h p)" for p
    using assms(4) by (simp_all add: same_seqs_def)
  have len: "nat (stores l) = d + nat (stores l')" using arg_cong[OF d(2), of length] d(1) by simp
  have hd: "storeHead l' = (storeHead l + d) mod SQEntries l"
    using store_head_moves[OF _ _ len f(2,3)] assms(2,3) by (simp add: lsq_core_def)
  have nth: "id_of (sq l' ! i) = id_of (sq l ! (d + i))" if "i < nat (stores l')" for i
    using arg_cong[OF d(2), of "\<lambda>xs. xs ! i"] that len by simp
  have ex: "\<exists>e' \<in> set (drop d (sq l)). id_of e = id_of e'" if "e \<in> set (sq l')" for e
  proof -
    have "id_of e \<in> set (map id_of (sq l'))" using that by simp
    then show ?thesis unfolding d(2) drop_map by auto
  qed
  have sq_h: "store_seq h' e = store_seq h e'" if "id_of e = id_of e'" for e e' using that h by (simp add: store_seq_def id_of_def)
  have "map (\<lambda>x. seqNum (h (the (fst x)))) (map id_of (sq l')) = drop d (map (\<lambda>x. seqNum (h (the (fst x)))) (map id_of (sq l)))"
    unfolding d(2) by (rule drop_map[symmetric])
  then have st: "store_seqs h' l' = drop d (store_seqs h l)" by (simp add: store_seq_def[abs_def] id_of_def h o_def)
  show ?thesis unfolding idx_ok_def
  proof (intro conjI ballI)
    show "commit_order h' l'" unfolding commit_order_def ld h(1)
    proof (intro ballI impI)
      fix p e assume p: "p \<in> set (lq l)" and e: "e \<in> set (sq l')" "sq_canWB e"
      obtain e' where "e' \<in> set (sq l)" "id_of e = id_of e'" using ex[OF e(1)] by (auto dest: in_set_dropD)
      then show "store_seq h' e < seqNum (h p)" using assms(1) p e(2) sq_h[of e e'] by (auto simp: idx_ok_def commit_order_def id_of_def)
    qed
  next
    fix p assume "p \<in> set (lq l')"
    then have p: "p \<in> set (lq l)" by (simp add: ld)
    have tk: "\<forall>x \<in> set (take d (store_seqs h l)). x < seqNum (h p)"
      using assms(1) p d(3) by (auto simp: idx_ok_def commit_order_def take_map dest: in_set_takeD)
    have "load_link h l p" using assms(1) p by (simp add: idx_ok_def)
    then consider (none) "sqIdx (h p) = -1" "\<forall>s \<in> set (store_seqs h l). seqNum (h p) < s"
      | (some) "linked (SQEntries l) (storeHead l) (store_seqs h l) (seqNum (h p)) (sqIdx (h p))" unfolding load_link_def by blast
    then show "load_link h' l' p" unfolding load_link_def st h f(3) hd
    proof cases
      case none
      then show "sqIdx (h p) = - 1 \<and> (\<forall>s \<in> set (drop d (store_seqs h l)). seqNum (h p) < s) \<or>
        linked (SQEntries l) ((storeHead l + d) mod SQEntries l) (drop d (store_seqs h l)) (seqNum (h p)) (sqIdx (h p))"
        using set_drop_subset[of d "store_seqs h l"] by blast
    next
      case some
      have "linked (SQEntries l) ((storeHead l + d) mod SQEntries l) (drop d (store_seqs h l)) (seqNum (h p)) (sqIdx (h p))"
        by (rule linked_drop[OF some _ tk]) (use d(1) in simp)
      then show "sqIdx (h p) = - 1 \<and> (\<forall>s \<in> set (drop d (store_seqs h l)). seqNum (h p) < s) \<or>
        linked (SQEntries l) ((storeHead l + d) mod SQEntries l) (drop d (store_seqs h l)) (seqNum (h p)) (sqIdx (h p))" ..
    qed
  next
    fix e assume "e \<in> set (sq l')"
    from ex[OF this] obtain e' where e': "e' \<in> set (sq l)" "id_of e = id_of e'" by (auto dest: in_set_dropD)
    then have "store_link h l e'" using assms(1) by (simp add: idx_ok_def)
    then show "store_link h' l' e" using e'(2) sq_h[OF e'(2)] by (simp add: store_link_def ld h id_of_def)
  next
    have "sqIdx (h (the (sq_inst (sq l' ! i)))) = int ((storeHead l' + i) mod SQEntries l')" if "i < nat (stores l')" for i
    proof -
      have "(storeHead l' + i) mod SQEntries l' = (storeHead l + (d + i)) mod SQEntries l"
        using mod_add_left_eq[of "storeHead l + d" "SQEntries l" i] by (simp add: hd f(3) add.assoc)
      moreover have "sq_inst (sq l' ! i) = sq_inst (sq l ! (d + i))" using nth[OF that] by (simp add: id_of_def)
      moreover have "d + i < nat (stores l)" using that len by simp
      ultimately show ?thesis using assms(1) by (simp add: idx_ok_def own_places_def)
    qed
    then show "own_places h' l'" using assms(1) by (simp add: own_places_def idx_ok_def ld h)
  qed
qed

section \<open>Dispatch\<close>

text \<open>Instructions reach the queues in program order.\<close>

definition youngest :: "inst_heap \<Rightarrow> lsq_unit \<Rightarrow> iptr \<Rightarrow> bool" where
  "youngest h l p \<longleftrightarrow> (\<forall>q \<in> set (lq l). seqNum (h q) < seqNum (h p)) \<and> (\<forall>e \<in> set (sq l). store_seq h e < seqNum (h p))"

lemma youngest_fresh:
  assumes "youngest h l p"
  shows "q \<in> set (lq l) \<Longrightarrow> q \<noteq> p" and "e \<in> set (sq l) \<Longrightarrow> the (sq_inst e) \<noteq> p"
  using assms by (auto simp: youngest_def store_seq_def)

lemma seqs_nums: "same_nums h h' \<Longrightarrow> load_seqs h' l = load_seqs h l \<and> store_seqs h' l = store_seqs h l \<and> store_seq h' e = store_seq h e"
  by (simp add: same_nums_def store_seq_def)

lemma insertLoad_idx:
  assumes "idx_ok h l" and "lsq_core h l" and "youngest h l p" and "lsq_insertLoad p (h, l) = Some (h', l')"
  shows "idx_ok h' l'"
proof -
  have wf: "lq_wf l" "sq_wf l" using assms(2) by (auto simp: lsq_core_def)
  note ins = insertLoad_lq[OF wf(1), of p h] and f = insertLoad_fields[OF assms(4)]
  have l': "lq l' = lq l @ [p]" "same_stores l l'" and
    h': "h' = h(p := (h p)\<lparr>lqIdx := int (loadTail l), sqIdx := (if stores l = 0 then -1 else int (storeTail l))\<rparr>)"
    using ins assms(4) by (auto split: if_splits)
  note fresh = youngest_fresh[OF assms(3)]
  have nums: "same_nums h h'" by (simp add: h')
  have st: "sq l' = sq l" "storeHead l' = storeHead l" "SQEntries l' = SQEntries l" "stores l' = stores l"
    using same_stores_sq[OF l'(2)] l'(2) by (auto simp: same_stores_def)
  note s = seqs_nums[OF nums]
  have n: "nat (loads l') = Suc (nat (loads l))" using l'(1) length_lq[of l'] length_lq[of l] by simp
  show ?thesis unfolding idx_ok_def
  proof (intro conjI ballI)
    show "commit_order h' l'"
      using assms(1,3) nums by (auto simp: commit_order_def idx_ok_def youngest_def l'(1) st s same_nums_def)
  next
    fix x assume "x \<in> set (lq l')"
    then consider (old) "x \<in> set (lq l)" | (new) "x = p" using l'(1) by auto
    then show "load_link h' l' x"
    proof cases
      case old
      then have "load_link h l x" "h' x = h x" using assms(1) fresh(1)[OF old] by (auto simp: idx_ok_def h')
      then show ?thesis using s st unfolding load_link_def by metis
    next
      case new
      have "linked (SQEntries l) (storeHead l) (store_seqs h l) (seqNum (h p)) (int ((storeHead l + length (store_seqs h l)) mod SQEntries l))"
        using assms(3) by (intro linked_new) (auto simp: youngest_def)
      moreover have "storeTail l = (storeHead l + length (store_seqs h l)) mod SQEntries l" using wf(2) by (simp add: sq_wf_def)
      moreover have "store_seqs h' l' = store_seqs h l" using s st by simp
      ultimately have "linked (SQEntries l') (storeHead l') (store_seqs h' l') (seqNum (h p)) (int (storeTail l))"
        using st(2,3) by metis
      moreover have "stores l = 0 \<Longrightarrow> store_seqs h' l' = []" using sq_Nil[OF wf(2)] st by simp
      moreover have "sqIdx (h' p) = (if stores l = 0 then -1 else int (storeTail l))" "seqNum (h' p) = seqNum (h p)" by (simp_all add: h')
      ultimately show ?thesis unfolding load_link_def new by (cases "stores l = 0") simp_all
    qed
  next
    fix e assume e: "e \<in> set (sq l')"
    then have o: "e \<in> set (sq l)" and i: "h' (the (sq_inst e)) = h (the (sq_inst e))" using fresh(2)[of e] by (auto simp: st h')
    have "store_link h l e" "store_seq h e < seqNum (h p)" using assms(1,3) o by (auto simp: idx_ok_def youngest_def)
    then show "store_link h' l' e"
      using linked_append[of "LQEntries l" "loadHead l" "load_seqs h l" "store_seq h e" _ "seqNum (h p)"] s[of l] f i nums
      unfolding store_link_def by (auto simp: l'(1) same_nums_def store_seq_def)
  next
    have "lqIdx (h' (lq l' ! j)) = int ((loadHead l + j) mod LQEntries l)" if "j < Suc (nat (loads l))" for j
    proof (cases "j = nat (loads l)")
      case True
      then show ?thesis using l'(1) wf(1) length_lq[of l] by (simp add: nth_append h' lq_wf_def)
    next
      case False
      then have j: "j < nat (loads l)" using that by simp
      then have "lq l' ! j = lq l ! j" "lq l ! j \<in> set (lq l)" using l'(1) length_lq[of l] by (auto simp: nth_append)
      then show ?thesis using assms(1) j fresh(1)[of "lq l ! j"] by (simp add: idx_ok_def own_places_def h')
    qed
    moreover have "h' (the (sq_inst (sq l ! i))) = h (the (sq_inst (sq l ! i)))" if "i < nat (stores l)" for i
      using fresh(2)[of "sq l ! i"] that length_sq[of l] by (simp add: h')
    ultimately show "own_places h' l'" using assms(1) f n by (simp add: own_places_def idx_ok_def st)
  qed
qed

lemma insertStore_idx:
  assumes "idx_ok h l" and "lsq_core h l" and "youngest h l p" and "lsq_insertStore p (h, l) = Some (h', l')"
  shows "idx_ok h' l'"
proof -
  have wf: "lq_wf l" "sq_wf l" using assms(2) by (auto simp: lsq_core_def)
  note ins = insertStore_sq_lists[OF wf(2), of p h] and f = insertStore_fields[OF assms(4)]
  have l': "sq l' = sq l @ [empty_sq (Some p)]" "same_loads l l'" "storeHead l' = storeHead l" and
    h': "h' = h(p := (h p)\<lparr>sqIdx := int (storeTail l), lqIdx := int (loadTail l)\<rparr>)"
    using ins assms(4) by (auto split: if_splits)
  note fresh = youngest_fresh[OF assms(3)]
  have nums: "same_nums h h'" by (simp add: h')
  have ld: "lq l' = lq l" "loadHead l' = loadHead l" "LQEntries l' = LQEntries l" "loads l' = loads l"
    using same_loads_lq[OF l'(2)] l'(2) by (auto simp: same_loads_def)
  note s = seqs_nums[OF nums]
  have n: "nat (stores l') = Suc (nat (stores l))" using l'(1) length_sq[of l'] length_sq[of l] by simp
  have new: "sq_inst (empty_sq (Some p)) = Some p" "\<not> sq_canWB (empty_sq (Some p))" "store_seq h (empty_sq (Some p)) = seqNum (h p)"
    by (simp_all add: empty_sq_def store_seq_def)
  have sts: "store_seqs h' l' = store_seqs h l @ [seqNum (h p)]" using s[of l] l'(1) new(3) s[of l "empty_sq (Some p)"] by simp
  show ?thesis unfolding idx_ok_def
  proof (intro conjI ballI)
    show "commit_order h' l'"
      using assms(1) nums new(2) s by (auto simp: commit_order_def idx_ok_def l'(1) ld same_nums_def)
  next
    fix x assume "x \<in> set (lq l')"
    then have x: "x \<in> set (lq l)" "h' x = h x" using ld fresh(1)[of x] by (auto simp: h')
    have "seqNum (h x) < seqNum (h p)" using assms(3) x(1) by (auto simp: youngest_def)
    moreover have "load_link h l x" using assms(1) x by (simp add: idx_ok_def)
    ultimately show "load_link h' l' x"
      using linked_append[of "SQEntries l" "storeHead l" "store_seqs h l"] f unfolding load_link_def sts x(2) l'(3) by auto
  next
    fix e assume "e \<in> set (sq l')"
    then consider (old) "e \<in> set (sq l)" | (new) "e = empty_sq (Some p)" using l'(1) by auto
    then show "store_link h' l' e"
    proof cases
      case old
      then have "store_link h l e" "h' (the (sq_inst e)) = h (the (sq_inst e))" using assms(1) fresh(2)[of e] by (auto simp: idx_ok_def h')
      then show ?thesis using s[of l e] ld unfolding store_link_def by metis
    next
      case n: new
      have "linked (LQEntries l) (loadHead l) (load_seqs h l) (seqNum (h p)) (int ((loadHead l + length (load_seqs h l)) mod LQEntries l))"
        using assms(3) by (intro linked_new) (auto simp: youngest_def)
      moreover have "loadTail l = (loadHead l + length (load_seqs h l)) mod LQEntries l" using wf(1) by (simp add: lq_wf_def)
      moreover have "lqIdx (h' p) = int (loadTail l)" by (simp add: h')
      ultimately show ?thesis using s[of l "empty_sq (Some p)"] ld new unfolding store_link_def n by (metis option.sel)
    qed
  next
    have "sqIdx (h' (the (sq_inst (sq l' ! i)))) = int ((storeHead l + i) mod SQEntries l)" if "i < Suc (nat (stores l))" for i
    proof (cases "i = nat (stores l)")
      case True
      then show ?thesis using l'(1) wf(2) length_sq[of l] new(1) by (simp add: nth_append h' sq_wf_def)
    next
      case False
      then have i: "i < nat (stores l)" using that by simp
      then have "sq l' ! i = sq l ! i" "sq l ! i \<in> set (sq l)" using l'(1) length_sq[of l] by (auto simp: nth_append)
      then show ?thesis using assms(1) i fresh(2)[of "sq l ! i"] by (simp add: idx_ok_def own_places_def h')
    qed
    moreover have "h' (lq l ! j) = h (lq l ! j)" if "j < nat (loads l)" for j
      using fresh(1)[of "lq l ! j"] that length_lq[of l] by (simp add: h')
    ultimately show "own_places h' l'" using assms(1) f n l'(3) by (simp add: own_places_def idx_ok_def ld)
  qed
qed

section \<open>Squash\<close>

lemma filter_split_sorted: "sorted_wrt (\<lambda>x y. P y \<longrightarrow> P x) xs \<Longrightarrow> xs = filter P xs @ filter (\<lambda>x. \<not> P x) xs"
proof (induction xs)
  case (Cons x xs)
  then show ?case
  proof (cases "P x")
    case False
    then have "filter P xs = []" "filter (\<lambda>x. \<not> P x) xs = xs" using Cons.prems by (auto simp: filter_empty_conv filter_id_conv)
    then show ?thesis using False by simp
  qed simp
qed simp

lemma squash_idx:
  assumes "idx_ok h l" and "lsq_inv h l" and "same_seqs h h'" and "squashed_to sn h l l'"
  shows "idx_ok h' l'"
proof -
  let ?P = "\<lambda>p. seqNum (h p) \<le> sn" and ?Q = "\<lambda>e. store_seq h e \<le> sn \<or> sq_canWB e"
  note t = assms(4)[unfolded squashed_to_def]
  have "sorted_wrt (\<lambda>x y. ?P y \<longrightarrow> ?P x) (lq l)" by (rule sorted_wrt_mono_rel[OF _ lsq_sorted(1)[OF assms(2)]]) auto
  from filter_split_sorted[OF this] obtain gl where gl: "lq l = lq l' @ gl" "\<forall>p \<in> set gl. \<not> ?P p"
    unfolding conjunct1[OF t, symmetric] by force
  have "sorted_wrt (\<lambda>x y. ?Q y \<longrightarrow> ?Q x) (sq l)" by (rule sorted_wrt_mono_rel[OF _ lsq_sorted(2)[OF assms(2)]]) auto
  from filter_split_sorted[OF this] obtain gs where gs: "sq l = sq l' @ gs" "\<forall>e \<in> set gs. \<not> ?Q e"
    unfolding conjunct1[OF conjunct2[OF t], symmetric] by force
  have h: "seqNum (h' p) = seqNum (h p)" "lqIdx (h' p) = lqIdx (h p)" "sqIdx (h' p) = sqIdx (h p)" for p
    using assms(3) by (simp_all add: same_seqs_def)
  have hs: "store_seq h' e = store_seq h e" for e by (simp add: store_seq_def h)
  have sub: "set (lq l') \<subseteq> set (lq l)" "set (sq l') \<subseteq> set (sq l)" by (auto simp: gl(1) gs(1))
  have LD: "load_seqs h l = load_seqs h' l' @ map (\<lambda>p. seqNum (h p)) gl" by (simp add: gl(1) h)
  have ST: "store_seqs h l = store_seqs h' l' @ map (store_seq h) gs" by (simp add: gs(1) hs)
  show ?thesis unfolding idx_ok_def
  proof (intro conjI ballI)
    show "commit_order h' l'" using assms(1) sub by (auto simp: idx_ok_def commit_order_def h hs)
  next
    fix p assume p: "p \<in> set (lq l')"
    then have "load_link h l p" "seqNum (h p) \<le> sn" using assms(1) sub t by (auto simp: idx_ok_def)
    then have z: "\<forall>z \<in> set (map (store_seq h) gs). seqNum (h p) < z" using gs(2) by fastforce
    have f: "SQEntries l' = SQEntries l" "storeHead l' = storeHead l" using t by simp_all
    show "load_link h' l' p"
      using \<open>load_link h l p\<close> linked_prefix[OF _ z, of "SQEntries l" "storeHead l" "store_seqs h' l'" "sqIdx (h p)"]
      unfolding load_link_def ST h f set_append by blast
  next
    fix e assume e: "e \<in> set (sq l')"
    then have "store_link h l e" "store_seq h e \<le> sn \<or> sq_canWB e" using assms(1) sub t by (auto simp: idx_ok_def)
    then have z: "\<forall>z \<in> set (map (\<lambda>p. seqNum (h p)) gl). store_seq h e < z" if "\<not> sq_canWB e" using gl(2) that by fastforce
    have f: "LQEntries l' = LQEntries l" "loadHead l' = loadHead l" using t by simp_all
    show "store_link h' l' e"
      using \<open>store_link h l e\<close> linked_prefix[OF _ z, of "LQEntries l" "loadHead l" "load_seqs h' l'" "lqIdx (h (the (sq_inst e)))"]
      unfolding store_link_def LD h(2) hs f by blast
  next
    have "lq l' ! j = lq l ! j \<and> j < nat (loads l)" if "j < nat (loads l')" for j
      using that length_lq[of l] length_lq[of l'] by (simp add: gl(1) nth_append)
    moreover have "sq l' ! i = sq l ! i \<and> i < nat (stores l)" if "i < nat (stores l')" for i
      using that length_sq[of l] length_sq[of l'] by (simp add: gs(1) nth_append)
    ultimately show "own_places h' l'" using assms(1) t by (simp add: own_places_def idx_ok_def h)
  qed
qed

section \<open>Commit\<close>

text \<open>The IEW stage commits the stores and then the loads up to the number it gets from the commit stage.\<close>

definition commit_mem :: "inst_seq_num \<Rightarrow> inst_heap \<Rightarrow> lsq_unit \<Rightarrow> lsq_unit option" where
  "commit_mem doneSeqNum h l = do { l1 \<leftarrow> commitStores doneSeqNum h l; commitLoads doneSeqNum h l1 }"

lemma mark_committed_nth:
  assumes "sorted_wrt (\<lambda>e e'. store_seq h e < store_seq h e') es" and "i < length es"
  shows "sq_inst (mark_committed y h es ! i) = sq_inst (es ! i)"
    and "sq_canWB (mark_committed y h es ! i) \<longleftrightarrow> sq_canWB (es ! i) \<or> store_seq h (es ! i) \<le> y"
proof -
  show inst: "sq_inst (mark_committed y h es ! i) = sq_inst (es ! i)"
    using list_all2_nthD[OF mark_committed_marks assms(2)] by (simp add: keeps_marks_def)
  have "abs_store h (mark_committed y h es ! i) = (\<lambda>(s, c, d). (s, c \<or> s \<le> y, d)) (abs_store h (es ! i))"
    using arg_cong[OF mark_committed_abs[OF assms(1), of y], of "\<lambda>xs. xs ! i"] assms(2) by simp
  then show "sq_canWB (mark_committed y h es ! i) \<longleftrightarrow> sq_canWB (es ! i) \<or> store_seq h (es ! i) \<le> y" by (simp add: abs_store_def)
qed

lemma commit_mem_ok:
  assumes "lsq_inv h l" and "idx_ok h l" and "waits_above y h l"
  shows "\<exists>l'. commit_mem y h l = Some l' \<and> lsq_inv h l' \<and> idx_ok h l' \<and>
    mq_does (Commit_Upto y) (abs_lsq h l) (abs_lsq h l')"
proof -
  from commitStores_refines[OF assms(1), of y] obtain l1 where l1: "commitStores y h l = Some l1" "lsq_inv h l1"
    "abs_lsq h l1 = mq_commit_stores y (abs_lsq h l)" "sq l1 = mark_committed y h (sq l)" "same_loads l l1" "same_stall l l1"
    "storeHead l1 = storeHead l" "SQEntries l1 = SQEntries l" by blast
  have w1: "waits_above y h l1" using assms(3) l1(5,6) by (auto simp: waits_above_def same_loads_def same_stall_def)
  from commitLoads_refines[OF l1(2) w1] obtain l' where l': "commitLoads y h l1 = Some l'" "lsq_inv h l'"
    "abs_lsq h l' = mq_commit_loads y (abs_lsq h l1)" "lq l' = filter (\<lambda>p. y < seqNum (h p)) (lq l1)"
    "loadTail l' = loadTail l1" "LQEntries l' = LQEntries l1" "same_stores l1 l'" by blast
  have ld1: "lq l1 = lq l" "loadHead l1 = loadHead l" "LQEntries l1 = LQEntries l" "loads l1 = loads l"
    using same_loads_lq[OF l1(5)] l1(5) by (auto simp: same_loads_def)
  have st': "sq l' = mark_committed y h (sq l)" "storeHead l' = storeHead l" "SQEntries l' = SQEntries l" "stores l' = stores l"
    using same_stores_sq[OF l'(7)] l'(7) l1(4,7,8) length_sq[of l] length_sq[of l'] l'(2) assms(1)
    by (auto simp: same_stores_def lsq_inv_def sq_wf_def)
  have srt: "sorted_wrt (\<lambda>e e'. store_seq h e < store_seq h e') (sq l)"
    by (rule sorted_wrt_mono_rel[OF _ lsq_sorted(2)[OF assms(1)]]) simp
  note mk = mark_committed_nth[OF srt, unfolded length_sq]
  let ?P = "\<lambda>p. seqNum (h p) \<le> y"
  have "sorted_wrt (\<lambda>a b. ?P b \<longrightarrow> ?P a) (lq l)" by (rule sorted_wrt_mono_rel[OF _ lsq_sorted(1)[OF assms(1)]]) auto
  from filter_split_sorted[OF this] obtain gone where g: "lq l = gone @ lq l'" "\<forall>p \<in> set gone. ?P p"
    unfolding l'(4) ld1(1) not_le by force
  have g1: "lq l1 = gone @ lq l'" using g(1) ld1(1) by simp
  have hd: "loadHead l' = (loadHead l + length gone) mod LQEntries l"
    using head_moves[OF _ _ g1 l'(5,6)] l1(2) l'(2) ld1 by (simp add: lsq_inv_def)
  have len: "nat (loads l) = length gone + nat (loads l')" using g(1) length_lq[of l] length_lq[of l'] by simp
  have sts: "store_seqs h l' = store_seqs h l"
    using mk(1) by (intro nth_equalityI) (simp_all add: st' store_seq_def)
  have ex: "\<exists>i < nat (stores l). e = mark_committed y h (sq l) ! i \<and> sq l ! i \<in> set (sq l)" if "e \<in> set (sq l')" for e
    using that length_sq[of l] unfolding st'(1) by (auto simp: in_set_conv_nth)
  have "idx_ok h l'" unfolding idx_ok_def
  proof (intro conjI ballI)
    show "commit_order h l'" unfolding commit_order_def
    proof (intro ballI impI)
      fix p e assume p: "p \<in> set (lq l')" and e: "e \<in> set (sq l')" "sq_canWB e"
      from ex[OF e(1)] obtain i where i: "i < nat (stores l)" "e = mark_committed y h (sq l) ! i" "sq l ! i \<in> set (sq l)" by blast
      have "store_seq h e = store_seq h (sq l ! i)" using mk(1)[OF i(1)] i(2) by (simp add: store_seq_def)
      moreover have "sq_canWB (sq l ! i) \<or> store_seq h (sq l ! i) \<le> y" using mk(2)[OF i(1)] i(2) e(2) by simp
      moreover have "y < seqNum (h p)" "p \<in> set (lq l)" using p l'(4) ld1 by auto
      ultimately show "store_seq h e < seqNum (h p)" using assms(2) i(3) by (auto simp: idx_ok_def commit_order_def)
    qed
  next
    fix p assume "p \<in> set (lq l')"
    then have "load_link h l p" using assms(2) g(1) by (auto simp: idx_ok_def)
    then show "load_link h l' p" unfolding load_link_def sts st'(2-) .
  next
    fix e assume "e \<in> set (sq l')"
    from ex[OF this] obtain i where i: "i < nat (stores l)" "e = mark_committed y h (sq l) ! i" "sq l ! i \<in> set (sq l)" by blast
    have s: "store_seq h e = store_seq h (sq l ! i)" "sq_inst e = sq_inst (sq l ! i)" using mk(1)[OF i(1)] i(2) by (simp_all add: store_seq_def)
    show "store_link h l' e"
    proof (cases "sq_canWB e")
      case False
      then have n: "\<not> sq_canWB (sq l ! i)" "y < store_seq h (sq l ! i)" using mk(2)[OF i(1)] i(2) by auto
      then have "linked (LQEntries l) (loadHead l) (load_seqs h l) (store_seq h e) (lqIdx (h (the (sq_inst e))))"
        using assms(2) i(3) s by (auto simp: idx_ok_def store_link_def)
      moreover have "\<forall>x \<in> set (take (length gone) (load_seqs h l)). x < store_seq h e"
        using g n(2) s(1) by (auto intro: order.strict_trans1)
      ultimately have "linked (LQEntries l) ((loadHead l + length gone) mod LQEntries l) (drop (length gone) (load_seqs h l))
          (store_seq h e) (lqIdx (h (the (sq_inst e))))"
        using len by (intro linked_drop) auto
      moreover have "drop (length gone) (load_seqs h l) = load_seqs h l'" using g(1) by simp
      ultimately show ?thesis unfolding store_link_def hd l'(6) ld1(3) by simp
    qed (simp add: store_link_def)
  next
    have "lqIdx (h (lq l' ! j)) = int ((loadHead l' + j) mod LQEntries l')" if "j < nat (loads l')" for j
    proof -
      have "lq l' ! j = lq l ! (length gone + j)" using g(1) by (simp add: nth_append)
      moreover have "length gone + j < nat (loads l)" using that len by simp
      moreover have "(loadHead l' + j) mod LQEntries l' = (loadHead l + (length gone + j)) mod LQEntries l"
        using mod_add_left_eq[of "loadHead l + length gone" "LQEntries l" j] by (simp add: hd l'(6) ld1(3) add.assoc)
      ultimately show ?thesis using assms(2) by (simp add: idx_ok_def own_places_def)
    qed
    then show "own_places h l'" using assms(2) mk(1) by (simp add: own_places_def idx_ok_def st')
  qed
  moreover have "commit_mem y h l = Some l'" using l1(1) l'(1) by (simp add: commit_mem_def)
  ultimately show ?thesis using l1(3) l'(2,3) by simp
qed

end
