(* ===== verification/Lsq_Forward.thy ===== *)
theory Lsq_Forward
  imports Lsq_Index
begin

text \<open>
  Which store a load gets its data from: the search of the store queue finds the youngest older
  store that shares bytes with the load, and the bytes it forwards are those a memory would hold
  after the older stores.
\<close>

section \<open>The search\<close>

abbreviation store_inst :: "inst_heap \<Rightarrow> sq_entry \<Rightarrow> dyn_inst" where
  "store_inst h e \<equiv> h (the (sq_inst e))"

text \<open>A store whose bytes a load has to look at.\<close>

definition matches :: "inst_heap \<Rightarrow> request \<Rightarrow> sq_entry \<Rightarrow> bool" where
  "matches h r e \<longleftrightarrow> \<not> no_forward e (store_inst h e) \<and>
     (covers r (store_inst h e) (sq_size e) \<or> partly_covers r (store_inst h e) (sq_size e))"

text \<open>The last match among the stores from the position \<open>k\<close> to the position \<open>m\<close>, both the whole and the partial ones.\<close>

definition last_match :: "inst_heap \<Rightarrow> request \<Rightarrow> lsq_unit \<Rightarrow> nat \<Rightarrow> nat \<Rightarrow> nat \<Rightarrow> bool" where
  "last_match h r l k m t \<longleftrightarrow> k \<le> t \<and> t < m \<and> matches h r (sq l ! t) \<and> (\<forall>u. t < u \<and> u < m \<longrightarrow> \<not> matches h r (sq l ! u))"

definition hit_spec :: "inst_heap \<Rightarrow> request \<Rightarrow> lsq_unit \<Rightarrow> nat \<Rightarrow> nat \<Rightarrow> store_hit \<Rightarrow> bool" where
  "hit_spec h r l k m hit = (case hit of
     NoHit \<Rightarrow> \<forall>t. k \<le> t \<and> t < m \<longrightarrow> \<not> matches h r (sq l ! t)
   | TotalHit i \<Rightarrow> \<exists>t. i = (storeHead l + t) mod SQEntries l \<and> last_match h r l k m t \<and>
       covers r (store_inst h (sq l ! t)) (sq_size (sq l ! t))
   | PartialHit i \<Rightarrow> \<exists>t. i = (storeHead l + t) mod SQEntries l \<and> last_match h r l k m t \<and>
       \<not> covers r (store_inst h (sq l ! t)) (sq_size (sq l ! t)))"

text \<open>The search changes nothing but the status of the load.\<close>

definition load_marked :: "iptr \<Rightarrow> inst_heap \<Rightarrow> inst_heap \<Rightarrow> bool" where
  "load_marked p h h' \<longleftrightarrow> (\<exists>S. h' = h(p := (h p)\<lparr>status := S\<rparr>))"

lemma load_marked_refl [simp]: "load_marked p h h"
  unfolding load_marked_def by (intro exI[of _ "status (h p)"]) simp

lemma load_marked_trans: "load_marked p h h1 \<Longrightarrow> load_marked p h1 h2 \<Longrightarrow> load_marked p h h2"
  by (auto simp: load_marked_def)

lemma load_marked_other: "load_marked p h h' \<Longrightarrow> x \<noteq> p \<Longrightarrow> h' x = h x"
  by (auto simp: load_marked_def)

lemma load_marked_seqs: "load_marked p h h' \<Longrightarrow> same_seqs h h'"
  by (auto simp: load_marked_def)

lemma load_marked_upd: "load_marked p h (h(p := set_status b (h p)))" "load_marked p h (h(p := reset_status b (h p)))"
  by (auto simp: load_marked_def set_status_def reset_status_def)

lemma bypass_marked: "bypass c p e s h = Some h' \<Longrightarrow> load_marked p h h'"
  by (auto simp: bypass_def setDataInducer_def bind_eq_Some_conv intro: load_marked_upd split: if_splits)

lemma hit_spec_step:
  assumes "hit_spec h r l k m hit" and "k \<le> m" and "\<not> matches h r (sq l ! m)"
  shows "hit_spec h r l k (Suc m) hit"
  using assms by (auto simp: hit_spec_def last_match_def less_Suc_eq split: store_hit.splits)

lemma hit_spec_heap:
  assumes "\<And>t. t < m \<Longrightarrow> store_inst h' (sq l ! t) = store_inst h (sq l ! t)"
  shows "hit_spec h' r l k m hit = hit_spec h r l k m hit"
proof -
  have "matches h' r (sq l ! t) = matches h r (sq l ! t)" if "t < m" for t using assms[OF that] by (simp add: matches_def)
  then have "last_match h' r l k m t = last_match h r l k m t" for t by (auto simp: last_match_def)
  then show ?thesis using assms \<open>\<And>t. t < m \<Longrightarrow> matches h' r (sq l ! t) = matches h r (sq l ! t)\<close>
    by (auto simp: hit_spec_def last_match_def split: store_hit.splits)
qed

lemma search_stores_spec:
  assumes "sq_wf l" and "storeWBIdx l = (storeHead l + k) mod SQEntries l" and "k \<le> m" and "m \<le> nat (stores l)"
    and "\<forall>e \<in> set (sq l). the (sq_inst e) \<noteq> p"
    and "search_stores c p r l ((storeHead l + m) mod SQEntries l) h = Some (hit, h')"
  shows "load_marked p h h' \<and> hit_spec h r l k m hit"
  using assms(3,4,6)
proof (induction "m - k" arbitrary: m h)
  case 0
  then have "search_stores c p r l ((storeHead l + m) mod SQEntries l) h = Some (NoHit, h)"
    using assms(2) by (subst search_stores.simps) simp
  then show ?case using 0 by (auto simp: hit_spec_def)
next
  case (Suc d)
  let ?n = "SQEntries l"
  obtain t where t: "m = Suc t" "k \<le> t" "d = t - k" "t < nat (stores l)" using Suc.hyps(2) Suc.prems by (cases m) auto
  have w: "nat (stores l) < ?n" "0 < ?n" using assms(1) by (auto simp: sq_wf_def)
  let ?i = "(storeHead l + t) mod ?n" and ?e = "sq l ! t"
  have ne: "(storeHead l + m) mod ?n \<noteq> storeWBIdx l"
    using add_mod_inj[of "storeHead l" m ?n k] assms(2) Suc.hyps(2) Suc.prems(2) t w by auto
  have i: "decr ?n ((storeHead l + m) mod ?n) = ?i" using decr_window[OF w(2), of "storeHead l" t] t(1) by simp
  have e: "vec_get (storeQueue l) ?i = Some ?e" using sq_nth[OF assms(1) t(4)] by (simp add: vec_get_eq_Some)
  have mem: "?e \<in> set (sq l)" using t(4) by simp
  then obtain s where s: "sq_inst ?e = Some s" "s \<noteq> p" using assms(1,5) by (fastforce simp: sq_wf_def)
  have run: "(if no_forward ?e (h s) then do { h1 \<leftarrow> bypass c p ?e s h; search_stores c p r l ?i h1 }
     else do {
       check (effAddrValid (h s));
       (if covers r (h s) (sq_size ?e) then Some (TotalHit ?i, h)
        else if partly_covers r (h s) (sq_size ?e) then do { check (\<not> sq_completed ?e); Some (PartialHit ?i, h) }
        else search_stores c p r l ?i h) }) = Some (hit, h')"
    using Suc.prems(3) ne i e s by (subst (asm) search_stores.simps) (simp add: Let_def)
  have M: "matches h r ?e \<longleftrightarrow> \<not> no_forward ?e (h s) \<and> (covers r (h s) (sq_size ?e) \<or> partly_covers r (h s) (sq_size ?e))"
    using s by (simp add: matches_def)
  have IH: "load_marked p h1 h' \<and> hit_spec h1 r l k t hit" if "search_stores c p r l ?i h1 = Some (hit, h')" for h1
    using Suc.hyps(1)[OF t(3) t(2) _ that] t(4) by simp
  consider (skip) "no_forward ?e (h s)" | (total) "\<not> no_forward ?e (h s)" "covers r (h s) (sq_size ?e)"
    | (part) "\<not> no_forward ?e (h s)" "\<not> covers r (h s) (sq_size ?e)" "partly_covers r (h s) (sq_size ?e)"
    | (other) "\<not> matches h r ?e" "\<not> no_forward ?e (h s)" using M by blast
  then show ?case
  proof cases
    case skip
    then obtain h1 where h1: "bypass c p ?e s h = Some h1" "search_stores c p r l ?i h1 = Some (hit, h')"
      using run by (auto simp: bind_eq_Some_conv)
    note b = bypass_marked[OF h1(1)] and r = IH[OF h1(2)]
    have "store_inst h1 (sq l ! u) = store_inst h (sq l ! u)" if "u < t" for u
      using that t(4) assms(5) load_marked_other[OF b] by simp
    then have "hit_spec h r l k t hit" using r hit_spec_heap[of t h1 l h r k hit] by blast
    then show ?thesis using hit_spec_step[OF _ t(2)] M skip t(1) load_marked_trans[OF b] r by blast
  next
    case total
    then have "hit = TotalHit ?i" "h' = h" using run by (auto split: if_splits)
    moreover have "last_match h r l k m t" using M total t by (auto simp: last_match_def)
    ultimately show ?thesis using total s by (auto simp: hit_spec_def)
  next
    case part
    then have "hit = PartialHit ?i" "h' = h" using run by (auto split: if_splits)
    moreover have "last_match h r l k m t" using M part t by (auto simp: last_match_def)
    ultimately show ?thesis using part s by (auto simp: hit_spec_def)
  next
    case other
    then have "search_stores c p r l ?i h = Some (hit, h')" using run M by (auto split: if_splits)
    then show ?thesis using IH hit_spec_step[OF _ t(2) other(1)] t(1) by blast
  qed
qed

end
