(* ===== verification/Lsq_Access.thy ===== *)
theory Lsq_Access
  imports Lsq_Forward
begin

text \<open>
  Accesses of loads and stores keep the queues of the unit: a read changes the instruction, its
  buffers and what was sent, and at most lets the load wait for an older store.
\<close>

section \<open>Frames\<close>

definition unit_kept :: "lsq_unit \<Rightarrow> lsq_unit \<Rightarrow> bool" where
  "unit_kept l l' \<longleftrightarrow> same_loads l l' \<and> same_stores l l' \<and> hasPendingPkt l' = hasPendingPkt l \<and> isStoreBlocked l' = isStoreBlocked l \<and>
     stalled l' = stalled l \<and> stallingStoreIsn l' = stallingStoreIsn l \<and> stallingLoadIdx l' = stallingLoadIdx l"

lemma unit_kept_refl [simp]: "unit_kept l l"
  by (simp add: unit_kept_def frame_defs)

lemma unit_kept_trans: "unit_kept l l1 \<Longrightarrow> unit_kept l1 l2 \<Longrightarrow> unit_kept l l2"
  by (simp add: unit_kept_def frame_defs)

lemma unit_kept_frames: "unit_kept l l' \<Longrightarrow> same_loads l l' \<and> same_stores l l' \<and> same_flow l l' \<and> same_stall l l'"
  by (simp add: unit_kept_def same_flow_def same_stall_def)

text \<open>A step that may change one instruction, but not its number and its places.\<close>

definition only_inst :: "iptr \<Rightarrow> inst_heap \<Rightarrow> inst_heap \<Rightarrow> bool" where
  "only_inst p h h' \<longleftrightarrow> (\<exists>i. h' = h(p := i) \<and> seqNum i = seqNum (h p) \<and> lqIdx i = lqIdx (h p) \<and> sqIdx i = sqIdx (h p))"

lemma only_inst_refl [simp]: "only_inst p h h"
  unfolding only_inst_def by (intro exI[of _ "h p"]) simp

lemma only_inst_trans: "only_inst p h h1 \<Longrightarrow> only_inst p h1 h2 \<Longrightarrow> only_inst p h h2"
  by (auto simp: only_inst_def)

lemma only_inst_upd: "seqNum i = seqNum (h p) \<Longrightarrow> lqIdx i = lqIdx (h p) \<Longrightarrow> sqIdx i = sqIdx (h p) \<Longrightarrow> only_inst p h (h(p := i))"
  by (auto simp: only_inst_def)

lemma only_inst_seqs: "only_inst p h h' \<Longrightarrow> same_seqs h h'"
  by (auto simp: only_inst_def)

lemma load_marked_only: "load_marked p h h' \<Longrightarrow> only_inst p h h'"
  by (auto simp: load_marked_def only_inst_def)

lemma clear_translation_idx [simp]:
  "seqNum (clear_translation i) = seqNum i" "lqIdx (clear_translation i) = lqIdx i" "sqIdx (clear_translation i) = sqIdx i"
  by (simp_all add: clear_translation_def)

lemma drop_physical_idx [simp]:
  "seqNum (drop_physical i) = seqNum i" "lqIdx (drop_physical i) = lqIdx i" "sqIdx (drop_physical i) = sqIdx i"
  by (simp_all add: drop_physical_def Let_def)

lemma drop_dolma_reqs_idx [simp]:
  "seqNum (drop_dolma_reqs i) = seqNum i" "lqIdx (drop_dolma_reqs i) = lqIdx i" "sqIdx (drop_dolma_reqs i) = sqIdx i"
  by (simp_all add: drop_dolma_reqs_def Let_def)

lemma setDolmaStalled_idx: "setDolmaStalled c i = Some i' \<Longrightarrow> seqNum i' = seqNum i \<and> lqIdx i' = lqIdx i \<and> sqIdx i' = sqIdx i"
  by (auto simp: setDolmaStalled_def split: if_splits)

lemma clearDataInducer_idx [simp]:
  "seqNum (clearDataInducer i) = seqNum i" "lqIdx (clearDataInducer i) = lqIdx i" "sqIdx (clearDataInducer i) = sqIdx i"
  by (simp_all add: clearDataInducer_def)

lemma reschedule_only: "rescheduleMemInst p (h, q) = Some (h', q') \<Longrightarrow> only_inst p h h'"
  by (auto simp: rescheduleMemInst_def Let_def bind_eq_Some_conv intro!: only_inst_upd)

section \<open>Reading\<close>

lemma send_kept: "send port pkt l = (ok, r, l') \<Longrightarrow> unit_kept l l'"
  by (auto simp: send_def Let_def unit_kept_def frame_defs split: prod.splits)

lemma upd_state_kept: "upd_state n f l = Some l' \<Longrightarrow> unit_kept l l'"
  by (auto simp: upd_state_def bind_eq_Some_conv unit_kept_def frame_defs)

lemma send_load_kept:
  assumes "send_load port r lo hi n l = Some (ok, miss, first, l')"
  shows "unit_kept l l'"
proof -
  define pkt where "pkt = (\<lambda>rq second. \<lparr>pkt_req = rq, pkt_write = False, pkt_data = [], pkt_state = n, pkt_second = second\<rparr>)"
  define r1 where "r1 = (case lo of None \<Rightarrow> r | Some x \<Rightarrow> x)"
  obtain ok1 r1' l1 where s1: "send port (pkt r1 False) l = (ok1, r1', l1)" by (metis prod.exhaust)
  note k1 = send_kept[OF s1]
  show ?thesis
  proof (cases "ok1 \<and> lo \<noteq> None")
    case False
    then have "l' = l1" using assms s1 by (auto simp: send_load_def Let_def pkt_def r1_def split: if_splits option.splits)
    then show ?thesis using k1 by simp
  next
    case True
    then obtain x where x: "lo = Some x" by auto
    from True assms s1 x obtain hq where hq: "hi = Some hq" by (auto simp: send_load_def Let_def pkt_def r1_def bind_eq_Some_conv)
    obtain ok2 r2' l2 where s2: "send port (pkt hq True) l1 = (ok2, r2', l2)" by (metis prod.exhaust)
    have "l' = l2 \<or> (\<exists>f. upd_state n f l2 = Some l')"
      using True assms s1 s2 x hq by (auto simp: send_load_def Let_def pkt_def r1_def bind_eq_Some_conv split: if_splits)
    then have "unit_kept l2 l'" using upd_state_kept by auto
    then show ?thesis using k1 send_kept[OF s2] unit_kept_trans by blast
  qed
qed

text \<open>The unit after a load may have been told to wait for the store \<open>s\<close>.\<close>

definition may_wait :: "nat \<Rightarrow> inst_seq_num \<Rightarrow> lsq_unit \<Rightarrow> lsq_unit \<Rightarrow> bool" where
  "may_wait i s l l' \<longleftrightarrow> unit_kept l l' \<or> (\<exists>l0. unit_kept l l0 \<and> l' = l0\<lparr>stalled := True, stallingStoreIsn := s, stallingLoadIdx := i\<rparr>)"

lemma may_wait_kept: "unit_kept l l' \<Longrightarrow> may_wait i s l l'"
  by (simp add: may_wait_def)

lemma may_wait_stall: "unit_kept l l0 \<Longrightarrow> may_wait i s l (l0\<lparr>stalled := True, stallingStoreIsn := s, stallingLoadIdx := i\<rparr>)"
  by (auto simp: may_wait_def)

lemma may_wait_after: "unit_kept l l1 \<Longrightarrow> may_wait i s l1 l2 \<Longrightarrow> may_wait i s l l2"
  using unit_kept_trans by (auto simp: may_wait_def)

lemma stall_on_frame:
  assumes "stall_on i p s (h, q, l) = Some (h', q', l')"
  shows "only_inst p h h' \<and> may_wait i (seqNum (h s)) l l'"
proof -
  define old where "old = (if \<not> stalled l then Some True else do {
    x \<leftarrow> vec_get (loadQueue l) (stallingLoadIdx l); o1 \<leftarrow> x; Some (seqNum (h p) < seqNum (h o1)) })"
  have run: "do { older \<leftarrow> old; (h1, q1) \<leftarrow> rescheduleMemInst p (h, q);
      Some (h1(p := reset_status Issued (h1 p)), q1,
        if older then l\<lparr>stalled := True, stallingStoreIsn := seqNum (h s), stallingLoadIdx := i\<rparr> else l) } = Some (h', q', l')"
    using assms by (simp add: stall_on_def old_def Let_def)
  obtain older where "old = Some older" using run by (cases old) auto
  then obtain h1 q1 where r: "rescheduleMemInst p (h, q) = Some (h1, q1)" "h' = h1(p := reset_status Issued (h1 p))"
    "l' = (if older then l\<lparr>stalled := True, stallingStoreIsn := seqNum (h s), stallingLoadIdx := i\<rparr> else l)"
    using run by (cases "rescheduleMemInst p (h, q)") auto
  have "only_inst p h1 h'" using r(2) by (auto intro!: only_inst_upd)
  then show ?thesis using reschedule_only[OF r(1)] only_inst_trans r(3)
    may_wait_stall[OF unit_kept_refl] may_wait_kept[OF unit_kept_refl] by (cases older) auto
qed

lemma load_refused_frame:
  assumes "load_refused c miss was p (h, q, l) = Some (h', q', l')"
  shows "only_inst p h h' \<and> l' = l"
  using assms
  by (auto simp: load_refused_def blockMemInst_def Let_def bind_eq_Some_conv intro!: only_inst_upd dest!: setDolmaStalled_idx split: if_splits)

lemma access_memory_frame:
  assumes "access_memory c port r lo hi i p st was (h, q, l) = Some (h', q', l')"
    and "\<And>s. st = Some s \<Longrightarrow> seqNum (h s) = n"
  shows "only_inst p h h' \<and> may_wait i n l l' \<and> (st = None \<longrightarrow> unit_kept l l')"
proof -
  define dummy where "dummy = (isTotalStoreBufferHit (h p) \<or> (isPartialStoreBufferHit (h p) \<and> \<not> was))"
  define l0 where "l0 = (if dummy then l\<lparr>delayedFwdData := alloc (unat (req_size r)) p (delayedFwdData l)\<rparr>
    else l\<lparr>memData := alloc (unat (req_size r)) p (memData l)\<rparr>)"
  obtain m l1 where ns: "new_state \<lparr>st_inst = p, st_pendingPacket = None, st_idx = i,
        st_outstanding = (if lo = None then 1 else 2), st_isLoad = True, st_noWB = dummy,
        st_isSplit = (lo \<noteq> None), st_pktToSend = False, st_cacheBlocked = False\<rparr> l0 = (m, l1)" by (metis prod.exhaust)
  define i1 where "i1 = (if isDolmaRestricted (h p) then
                 (let i = (h p)\<lparr>dolmaPhysicalReq := Some r\<rparr>
                  in if lo = None then i else i\<lparr>dolmaPhysicalSreqLow := lo, dolmaPhysicalSreqHigh := hi\<rparr>)
               else h p)"
  define h1 where "h1 = h(p := i1)"
  have o1: "only_inst p h h1" unfolding h1_def i1_def by (intro only_inst_upd) (simp_all add: Let_def)
  have run: "do { (ok, miss, first, l2) \<leftarrow> send_load port r lo hi m l1;
     (if \<not> ok then load_refused c miss was p (h1, q, if first then l2 else l2\<lparr>senderStates := (senderStates l2)(m := None)\<rparr>)
      else if isTotalStoreBufferHit i1 then Some (h1, q, l2\<lparr>writebacks := writebacks l2 @ [(p, memData l2 p)]\<rparr>)
      else if isPartialStoreBufferHit i1 \<and> \<not> was then do { s \<leftarrow> st; stall_on i p s (h1, q, l2) }
      else Some (h1, q, l2)) } = Some (h', q', l')"
    using assms(1) ns unfolding access_memory_def Let_def case_prod_conv dummy_def l0_def i1_def h1_def by simp
  then obtain ok miss first l2 where sl: "send_load port r lo hi m l1 = Some (ok, miss, first, l2)"
    by (cases "send_load port r lo hi m l1") auto
  have k: "unit_kept l l2"
  proof -
    have "unit_kept l l0" by (simp add: l0_def unit_kept_def frame_defs)
    moreover have "unit_kept l0 l1" using ns by (auto simp: new_state_def unit_kept_def frame_defs)
    ultimately show ?thesis using send_load_kept[OF sl] unit_kept_trans by blast
  qed
  have k2: "unit_kept l (l2\<lparr>senderStates := x\<rparr>)" "unit_kept l (l2\<lparr>writebacks := y\<rparr>)" for x y
    using k by (auto simp: unit_kept_def frame_defs)
  consider (no) "\<not> ok" | (tot) "ok" "isTotalStoreBufferHit i1" | (part) s where "ok" "\<not> isTotalStoreBufferHit i1" "isPartialStoreBufferHit i1 \<and> \<not> was"
      "st = Some s" "stall_on i p s (h1, q, l2) = Some (h', q', l')"
    | (taken) "ok" "\<not> isTotalStoreBufferHit i1" "\<not> (isPartialStoreBufferHit i1 \<and> \<not> was)"
    using run sl by (cases st) (auto split: if_splits)
  then show ?thesis
  proof cases
    case no
    then have lr: "load_refused c miss was p (h1, q, if first then l2 else l2\<lparr>senderStates := (senderStates l2)(m := None)\<rparr>) = Some (h', q', l')"
      using run sl by simp
    show ?thesis using load_refused_frame[OF lr] only_inst_trans[OF o1] k k2(1) may_wait_kept by (cases first) auto
  next
    case tot
    then show ?thesis using run sl o1 k2(2) may_wait_kept by auto
  next
    case part
    have "seqNum (h1 s) = n" using assms(2)[OF part(4)] o1 by (auto simp: only_inst_def)
    then show ?thesis using stall_on_frame[OF part(5)] only_inst_trans[OF o1] may_wait_after[OF k] part(4) by auto
  next
    case taken
    then show ?thesis using run sl o1 k may_wait_kept by auto
  qed
qed

text \<open>The store a load waits for is older than the load.\<close>

lemma load_position:
  assumes "lq_wf l" and "vec_get (loadQueue l) i = Some (Some p)"
  obtains j where "j < nat (loads l)" "i = (loadHead l + j) mod LQEntries l" "lq l ! j = p"
proof -
  have "i < length (loadQueue l)" "loadQueue l ! i = Some p" using assms(2) by (auto simp: vec_get_eq_Some)
  then have "i \<in> set (window (LQEntries l) (loadHead l) (nat (loads l)))" using assms(1) by (auto simp: lq_wf_def only_window_def)
  then obtain j where j: "j < nat (loads l)" "i = (loadHead l + j) mod LQEntries l" by (auto simp: window_def)
  then show ?thesis using that[OF j] lq_nth(2)[OF assms(1) j(1)] \<open>loadQueue l ! i = Some p\<close> by simp
qed

lemma load_store_distinct:
  assumes "lsq_core h l" and "idx_ok h l" and "p \<in> set (lq l)"
  shows "\<forall>e \<in> set (sq l). the (sq_inst e) \<noteq> p"
proof
  fix e assume e: "e \<in> set (sq l)"
  have "load_link h l p" using assms(2,3) by (simp add: idx_ok_def)
  then have "store_seq h e \<noteq> seqNum (h p)"
  proof (unfold load_link_def, elim disjE conjE)
    assume "\<forall>s \<in> set (store_seqs h l). seqNum (h p) < s"
    then show ?thesis using e by auto
  next
    assume "linked (SQEntries l) (storeHead l) (store_seqs h l) (seqNum (h p)) (sqIdx (h p))"
    then obtain m where m: "\<forall>x \<in> set (take m (store_seqs h l)). x < seqNum (h p)" "\<forall>x \<in> set (drop m (store_seqs h l)). seqNum (h p) < x"
      by (auto simp: linked_def)
    have "store_seq h e \<in> set (take m (store_seqs h l) @ drop m (store_seqs h l))" using e by simp
    then show ?thesis using m unfolding set_append by (metis UnE less_irrefl)
  qed
  then show "the (sq_inst e) \<noteq> p" by (auto simp: store_seq_def)
qed

text \<open>Where the search of a load begins, and what lies before.\<close>

lemma search_start:
  assumes "lsq_inv h l" and "idx_ok h l" and "p \<in> set (lq l)" and "sqIdx (h p) \<noteq> -1"
  obtains k m where "wb_ok l k" "k \<le> m" "m \<le> nat (stores l)" "nat (sqIdx (h p)) = (storeHead l + m) mod SQEntries l"
    "\<forall>t < m. store_seq h (sq l ! t) < seqNum (h p)" "\<forall>t. m \<le> t \<and> t < nat (stores l) \<longrightarrow> seqNum (h p) < store_seq h (sq l ! t)"
proof -
  obtain k where k: "wb_ok l k" using assms(1) by (auto simp: lsq_inv_def)
  have "load_link h l p" using assms(2,3) by (simp add: idx_ok_def)
  then have "linked (SQEntries l) (storeHead l) (store_seqs h l) (seqNum (h p)) (sqIdx (h p))" using assms(4) by (simp add: load_link_def)
  then obtain m where m: "m \<le> nat (stores l)" "sqIdx (h p) = int ((storeHead l + m) mod SQEntries l)"
    "\<forall>x \<in> set (take m (store_seqs h l)). x < seqNum (h p)" "\<forall>x \<in> set (drop m (store_seqs h l)). seqNum (h p) < x"
    unfolding linked_def length_map length_sq by blast
  have older: "\<forall>t < m. store_seq h (sq l ! t) < seqNum (h p)"
  proof (intro allI impI)
    fix t assume t: "t < m"
    then have "store_seqs h l ! t \<in> set (take m (store_seqs h l))" using m(1) by (auto simp: in_set_conv_nth intro!: exI[of _ t])
    then show "store_seq h (sq l ! t) < seqNum (h p)" using m(1,3) t by simp
  qed
  have younger: "\<forall>t. m \<le> t \<and> t < nat (stores l) \<longrightarrow> seqNum (h p) < store_seq h (sq l ! t)"
  proof (intro allI impI)
    fix t assume t: "m \<le> t \<and> t < nat (stores l)"
    then have "store_seqs h l ! t \<in> set (drop m (store_seqs h l))"
      by (auto simp: in_set_conv_nth intro!: exI[of _ "t - m"])
    then show "seqNum (h p) < store_seq h (sq l ! t)" using m(4) t by simp
  qed
  have "k \<le> m"
  proof (rule ccontr)
    assume a: "\<not> k \<le> m"
    then have mk: "m < nat (stores l)" using k by (auto simp: wb_ok_def)
    have "sq l ! m \<in> set (take k (sq l))" using a mk by (auto simp: in_set_conv_nth intro!: exI[of _ m])
    then have "sq_canWB (sq l ! m)" using k by (simp add: wb_ok_def)
    then have "store_seq h (sq l ! m) < seqNum (h p)" using assms(2,3) mk by (simp add: idx_ok_def commit_order_def)
    then show False using younger mk by (metis le_refl less_asym)
  qed
  then show ?thesis using that[OF k _ m(1) _ older younger] m(2) by simp
qed

definition read_frame :: "nat \<Rightarrow> iptr \<Rightarrow> inst_heap \<Rightarrow> lsq_unit \<Rightarrow> inst_heap \<Rightarrow> lsq_unit \<Rightarrow> bool" where
  "read_frame i p h l h' l' \<longleftrightarrow> only_inst p h h' \<and> (\<exists>n. may_wait i n l l' \<and> (unit_kept l l' \<or> n < seqNum (h p)))"

lemma read_frame_kept: "only_inst p h h' \<Longrightarrow> unit_kept l l' \<Longrightarrow> read_frame i p h l h' l'"
  by (auto simp: read_frame_def intro: may_wait_kept)

lemma read_frame_wait: "only_inst p h h' \<Longrightarrow> may_wait i n l l' \<Longrightarrow> n < seqNum (h p) \<Longrightarrow> read_frame i p h l h' l'"
  by (auto simp: read_frame_def)

lemma read_frame_ok:
  assumes "lsq_inv h l" and "idx_ok h l" and "vec_get (loadQueue l) i = Some (Some p)" and "read_frame i p h l h' l'"
  shows "lsq_inv h' l' \<and> idx_ok h' l' \<and> abs_lsq h' l' = abs_lsq h l \<and> same_seqs h h'"
proof -
  have c: "lsq_core h l" "lq_wf l" using assms(1) by (auto simp: lsq_inv_core lsq_core_def)
  have s: "same_seqs h h'" using assms(4) only_inst_seqs by (auto simp: read_frame_def)
  have inv: "lsq_inv h' l' \<and> abs_lsq h' l' = abs_lsq h l \<and> sq_drops l l'"
  proof (cases "unit_kept l l'")
    case True
    note f = unit_kept_frames[OF True]
    have "sq l' = sq l" "storeTail l' = storeTail l" "SQEntries l' = SQEntries l"
      using f same_stores_sq[of l l'] by (simp_all add: same_stores_def)
    then have "sq_drops l l'" using f by (intro sq_drops_none) simp_all
    then show ?thesis using f lsq_inv_same[OF assms(1) same_seqs_nums[OF s]] by blast
  next
    case False
    then obtain l0 n where l0: "unit_kept l l0" "l' = l0\<lparr>stalled := True, stallingStoreIsn := n, stallingLoadIdx := i\<rparr>" "n < seqNum (h p)"
      using assms(4) by (auto simp: read_frame_def may_wait_def)
    have i0: "lsq_inv h' l0" "abs_lsq h' l0 = abs_lsq h l" using unit_kept_frames[OF l0(1)] lsq_inv_same[OF assms(1) same_seqs_nums[OF s]] by blast+
    have q: "lq l' = lq l0" "sq l' = sq l0" "lq_wf l' = lq_wf l0" "sq_wf l' = sq_wf l0" "wb_ok l' k = wb_ok l0 k" for k
      by (simp_all add: l0(2) lq_def sq_def lq_wf_def sq_wf_def wb_ok_def)
    from load_position[OF c(2) assms(3)] obtain j where j: "j < nat (loads l)" "i = (loadHead l + j) mod LQEntries l" "lq l ! j = p" .
    have "lq l0 = lq l" "loads l0 = loads l" "loadHead l0 = loadHead l" "LQEntries l0 = LQEntries l"
      using l0(1) same_loads_lq[of l l0] by (auto simp: unit_kept_def same_loads_def)
    then have "stall_ok h' l'" unfolding stall_ok_def using j l0(3) s q(1) by (auto simp: l0(2) same_seqs_def)
    moreover have "abs_lsq h' l' = abs_lsq h' l0" by (simp add: abs_lsq_def q)
    ultimately have "lsq_inv h' l'" using i0(1) q by (simp add: lsq_inv_def)
    moreover have "sq_drops l l'"
      using l0(1) same_stores_sq[of l l0] q(2) by (intro sq_drops_none) (auto simp: l0(2) unit_kept_def frame_defs)
    ultimately show ?thesis using i0(2) \<open>abs_lsq h' l' = abs_lsq h' l0\<close> by simp
  qed
  moreover have "lsq_core h' l'" using inv by (simp add: lsq_inv_core)
  ultimately show ?thesis using idx_ok_drops[OF assms(2) c(1) _ s] s by blast
qed

lemma search_hit:
  assumes "lsq_inv h l" and "idx_ok h l" and "p \<in> set (lq l)" and "same_seqs h h0" and "\<And>x. x \<noteq> p \<Longrightarrow> h0 x = h x"
    and "(if sqIdx (h0 p) = -1 then Some (NoHit, h0) else search_stores c p r l (nat (sqIdx (h0 p))) h0) = Some (hit, h1)"
  obtains k m where "wb_ok l k" "k \<le> m" "m \<le> nat (stores l)" "load_marked p h0 h1" "hit_spec h r l k m hit"
    "\<forall>t < m. store_seq h (sq l ! t) < seqNum (h p)" "\<forall>t. m \<le> t \<and> t < nat (stores l) \<longrightarrow> seqNum (h p) < store_seq h (sq l ! t)"
proof (cases "sqIdx (h p) = -1")
  case True
  then have e: "hit = NoHit" "h1 = h0" using assms(4,6) by (auto simp: same_seqs_def)
  obtain k where k: "wb_ok l k" using assms(1) by (auto simp: lsq_inv_def)
  have w: "sq_wf l" using assms(1) by (simp add: lsq_inv_def)
  have "load_link h l p" using assms(2,3) by (simp add: idx_ok_def)
  then have y: "\<forall>s \<in> set (store_seqs h l). seqNum (h p) < s" using True by (auto simp: load_link_def linked_def)
  have "k = 0"
  proof (rule ccontr)
    assume "k \<noteq> 0"
    then have "0 < nat (stores l)" "sq_canWB (sq l ! 0)" using k nth_mem[of 0 "take k (sq l)"] by (auto simp: wb_ok_def)
    then have "store_seq h (sq l ! 0) < seqNum (h p)" "seqNum (h p) < store_seq h (sq l ! 0)"
      using assms(2,3) y by (auto simp: idx_ok_def commit_order_def)
    then show False by (metis less_asym)
  qed
  then show ?thesis using that[of 0 0] k e y by (auto simp: hit_spec_def)
next
  case False
  from search_start[OF assms(1-3) False] obtain k m where k: "wb_ok l k" "k \<le> m" "m \<le> nat (stores l)"
    "nat (sqIdx (h p)) = (storeHead l + m) mod SQEntries l" "\<forall>t < m. store_seq h (sq l ! t) < seqNum (h p)"
    "\<forall>t. m \<le> t \<and> t < nat (stores l) \<longrightarrow> seqNum (h p) < store_seq h (sq l ! t)" .
  have d: "\<forall>e \<in> set (sq l). the (sq_inst e) \<noteq> p" using load_store_distinct[OF _ assms(2,3)] assms(1) by (simp add: lsq_inv_core)
  have run: "search_stores c p r l ((storeHead l + m) mod SQEntries l) h0 = Some (hit, h1)"
    using assms(4,6) False k(4) by (simp add: same_seqs_def)
  have "sq_wf l" "storeWBIdx l = (storeHead l + k) mod SQEntries l" using assms(1) k(1) by (auto simp: lsq_inv_def wb_ok_def)
  from search_stores_spec[OF this k(2,3) d run] have s: "load_marked p h0 h1" "hit_spec h0 r l k m hit" by simp_all
  have "hit_spec h0 r l k m hit = hit_spec h r l k m hit"
    using d k(3) assms(5) by (intro hit_spec_heap) simp
  then show ?thesis using that[OF k(1-3) s(1) _ k(5,6)] s(2) by simp
qed

lemma lsq_read_cases:
  assumes "lsq_read c port r lo hi i (h, q, l) = Some (f, h', q', l')"
  obtains (ordered) p where "vec_get (loadQueue l) i = Some (Some p)" "rescheduleMemInst p (h, q) = Some (h', q')" "l' = l" "f = order_fault"
  | (ipr) p x y where "vec_get (loadQueue l) i = Some (Some p)" "only_inst p h h'" "l' = l\<lparr>memData := x, writebacks := y\<rparr>" "f = NoFault"
      "flag_set MMAPPED_IPR r"
  | (mem) p h0 hit h1 where "vec_get (loadQueue l) i = Some (Some p)" "f = NoFault" "\<not> isExecuted (h p)"
      "h0 = (if flag_set LLSC r then h(p := set_flag RecordResult True (h p)) else h)"
      "(if sqIdx (h0 p) = -1 then Some (NoHit, h0) else search_stores c p r l (nat (sqIdx (h0 p))) h0) = Some (hit, h1)"
      "after_search c port r lo hi i p (isPartialStoreBufferHit (h p)) hit (h1, q, l) = Some (h', q', l')"
proof -
  from assms obtain p where p: "vec_get (loadQueue l) i = Some (Some p)" "\<not> isExecuted (h p)"
    by (auto simp: lsq_read_def bind_eq_Some_conv split: if_splits)
  define h0 where "h0 = (if flag_set LLSC r then h(p := set_flag RecordResult True (h p)) else h)"
  have pb: "isPartialStoreBufferHit (h0 p) = isPartialStoreBufferHit (h p)" by (simp add: h0_def set_flag_def)
  consider (a) "flag_set STRICT_ORDER r \<and> (i \<noteq> loadHead l \<or> \<not> isAtCommit (h p))"
    | (b) "\<not> (flag_set STRICT_ORDER r \<and> (i \<noteq> loadHead l \<or> \<not> isAtCommit (h p)))" "flag_set MMAPPED_IPR r"
    | (c) "\<not> (flag_set STRICT_ORDER r \<and> (i \<noteq> loadHead l \<or> \<not> isAtCommit (h p)))" "\<not> flag_set MMAPPED_IPR r" by blast
  then show ?thesis
  proof cases
    case a
    then have "rescheduleMemInst p (h, q) = Some (h', q')" "l' = l" "f = order_fault"
      using assms p by (auto simp: lsq_read_def bind_eq_Some_conv)
    then show ?thesis using that(1)[OF p(1)] by blast
  next
    case b
    then have "h' = h0" "l' = l\<lparr>memData := (memData l)(p := Unfilled 64), writebacks := writebacks l @ [(p, Unfilled 64)]\<rparr>" "f = NoFault"
      using assms p by (auto simp: lsq_read_def h0_def Let_def split: if_splits)
    moreover have "only_inst p h h0" by (simp add: h0_def only_inst_upd)
    ultimately show ?thesis using that(2)[OF p(1)] b(2) by blast
  next
    case c
    have "do {
        (hit, h1) \<leftarrow> (if sqIdx (h0 p) = -1 then Some (NoHit, h0) else search_stores c p r l (nat (sqIdx (h0 p))) h0);
        s \<leftarrow> after_search c port r lo hi i p (isPartialStoreBufferHit (h0 p)) hit (h1, q, l);
        Some (NoFault, s) } = Some (f, h', q', l')"
      using assms p c unfolding lsq_read_def h0_def Let_def by (simp split: if_splits)
    then obtain hit h1 where "(if sqIdx (h0 p) = -1 then Some (NoHit, h0) else search_stores c p r l (nat (sqIdx (h0 p))) h0) = Some (hit, h1)"
      "after_search c port r lo hi i p (isPartialStoreBufferHit (h0 p)) hit (h1, q, l) = Some (h', q', l')" "f = NoFault"
      by (auto simp: bind_eq_Some_conv split: prod.splits)
    then show ?thesis using that(3)[OF p(1) _ p(2) h0_def] pb by simp
  qed
qed

lemma hit_entry:
  assumes "sq_wf l" and "m \<le> nat (stores l)" and "hit_spec h r l k m hit"
    and "hit = TotalHit i \<or> hit = PartialHit i" and "vec_get (storeQueue l) i = Some e" and "sq_inst e = Some s"
  obtains t where "t < m" "e = sq l ! t" "last_match h r l k m t" "seqNum (h s) = store_seq h (sq l ! t)"
    "i = (storeHead l + t) mod SQEntries l"
proof -
  from assms(3,4) obtain t where t: "i = (storeHead l + t) mod SQEntries l" "last_match h r l k m t" by (auto simp: hit_spec_def)
  have "t < m" using t(2) by (simp add: last_match_def)
  moreover have "e = sq l ! t" using sq_nth[OF assms(1), of t] assms(2,5) t(1) \<open>t < m\<close> by simp
  ultimately show ?thesis using that[of t] t assms(6) by (auto simp: store_seq_def)
qed

lemma lsq_read_frame:
  assumes "lsq_inv h l" and "idx_ok h l" and "lsq_read c port r lo hi i (h, q, l) = Some (f, h', q', l')"
  obtains p where "vec_get (loadQueue l) i = Some (Some p)" and "read_frame i p h l h' l'"
  using assms(3)
proof (cases rule: lsq_read_cases)
  case (ordered p)
  then show ?thesis using that[OF ordered(1)] read_frame_kept[OF reschedule_only unit_kept_refl] by blast
next
  case (ipr p x y)
  have "unit_kept l l'" by (simp add: ipr(3) unit_kept_def frame_defs)
  then show ?thesis using that[OF ipr(1)] read_frame_kept[OF ipr(2)] by blast
next
  case (mem p h0 hit h1)
  have wf: "lq_wf l" "sq_wf l" using assms(1) by (auto simp: lsq_inv_def)
  from load_position[OF wf(1) mem(1)] have p: "p \<in> set (lq l)" by (metis length_lq nth_mem)
  have o0: "only_inst p h h0" by (simp add: mem(4) only_inst_upd)
  then have o0x: "\<And>x. x \<noteq> p \<Longrightarrow> h0 x = h x" by (auto simp: only_inst_def)
  from search_hit[OF assms(1,2) p only_inst_seqs[OF o0] o0x mem(5)] obtain k m where
    "wb_ok l k" "k \<le> m" and k: "m \<le> nat (stores l)" "load_marked p h0 h1" "hit_spec h r l k m hit" "\<forall>t < m. store_seq h (sq l ! t) < seqNum (h p)"
    and "\<forall>t. m \<le> t \<and> t < nat (stores l) \<longrightarrow> seqNum (h p) < store_seq h (sq l ! t)" .
  have o1: "only_inst p h h1" using only_inst_trans[OF o0 load_marked_only[OF k(2)]] .
  have n1: "seqNum (h1 x) = seqNum (h x)" for x using only_inst_seqs[OF o1] by (simp add: same_seqs_def)
  have st: "only_inst p h1 (h1(p := set_status b (h1 p)))" for b by (rule only_inst_upd) simp_all
  have older: "seqNum (h s) < seqNum (h p)"
    if "hit = TotalHit x \<or> hit = PartialHit x" "vec_get (storeQueue l) x = Some e" "sq_inst e = Some s" for x e s
  proof -
    from hit_entry[OF wf(2) k(1,3) that] obtain t where "t < m" "seqNum (h s) = store_seq h (sq l ! t)" .
    then show ?thesis using k(4) by simp
  qed
  have "read_frame i p h l h' l'"
  proof (cases hit)
    case NoHit
    then have "access_memory c port r lo hi i p None (isPartialStoreBufferHit (h p)) (h1, q, l) = Some (h', q', l')"
      using mem(6) by (simp add: after_search_def)
    then have "only_inst p h1 h'" "unit_kept l l'" using access_memory_frame[of c port r lo hi i p None _ h1 q l h' q' l'] by auto
    then show ?thesis using read_frame_kept only_inst_trans[OF o1] by blast
  next
    case (TotalHit x)
    then obtain e s where e: "vec_get (storeQueue l) x = Some e" "sq_inst e = Some s" using mem(6) by (auto simp: after_search_def bind_eq_Some_conv)
    let ?l = "l\<lparr>memData := (memData l)(p := Filled (forwarded r (h1 s) e))\<rparr>" and ?h = "h1(p := set_status TotalStoreBufferHit (h1 p))"
    have kl: "unit_kept l ?l" by (simp add: unit_kept_def frame_defs)
    have lt: "seqNum (?h s) < seqNum (h p)" using older[of x e s] TotalHit e by (auto simp: n1)
    show ?thesis
    proof (cases "isDolma c \<and> isDolmaRestricted (h1 s) \<and> \<not> isDolmaRestricted (h1 p)")
      case True
      then have "access_memory c port r lo hi i p (Some s) (isPartialStoreBufferHit (h p)) (?h, q, ?l) = Some (h', q', l')"
        using mem(6) TotalHit e by (simp add: after_search_def Let_def)
      from access_memory_frame[OF this, of "seqNum (?h s)"] have "only_inst p ?h h'" "may_wait i (seqNum (?h s)) ?l l'" by auto
      then show ?thesis using read_frame_wait[of p h h' i _ l l'] may_wait_after[OF kl] lt only_inst_trans[OF only_inst_trans[OF o1 st]] by blast
    next
      case False
      then have "h' = h1" "l' = ?l\<lparr>writebacks := writebacks ?l @ [(p, memData ?l p)]\<rparr>"
        using mem(6) TotalHit e unfolding after_search_def by (auto simp: Let_def)
      then show ?thesis using o1 by (intro read_frame_kept) (auto simp: unit_kept_def frame_defs)
    qed
  next
    case (PartialHit x)
    then obtain e s where e: "vec_get (storeQueue l) x = Some e" "sq_inst e = Some s" using mem(6) by (auto simp: after_search_def bind_eq_Some_conv)
    let ?h = "h1(p := set_status PartialStoreBufferHit (h1 p))"
    have lt: "seqNum (?h s) < seqNum (h p)" "seqNum (h1 s) < seqNum (h p)" using older[of x e s] PartialHit e by (auto simp: n1)
    show ?thesis
    proof (cases "isDolma c \<and> \<not> isSTT c \<and> isDolmaRestricted (h1 s) \<and> \<not> isDolmaRestricted (h1 p) \<and> \<not> isPartialStoreBufferHit (h p)")
      case True
      then have "access_memory c port r lo hi i p (Some s) (isPartialStoreBufferHit (h p)) (?h, q, l) = Some (h', q', l')"
        using mem(6) PartialHit e by (simp add: after_search_def)
      from access_memory_frame[OF this, of "seqNum (?h s)"] have "only_inst p ?h h'" "may_wait i (seqNum (?h s)) l l'" by auto
      then show ?thesis using read_frame_wait[of p h h' i _ l l'] lt(1) only_inst_trans[OF only_inst_trans[OF o1 st]] by blast
    next
      case False
      then have "stall_on i p s (h1, q, l) = Some (h', q', l')"
        using mem(6) PartialHit e unfolding after_search_def by auto
      then show ?thesis using stall_on_frame[of i p s h1 q l h' q' l'] read_frame_wait[of p h h' i _ l l'] lt(2) only_inst_trans[OF o1] by blast
    qed
  qed
  then show ?thesis using that[OF mem(1)] by blast
qed

end
