(* ===== verification/Simulation.thy ===== *)
theory Simulation
  imports Main
begin

text \<open>
  Labelled runs, and the contract between an implementation and its specification: the
  implementation keeps an invariant, and each of its steps is one of the specification.
\<close>

fun run :: "('op \<Rightarrow> 's \<Rightarrow> 's \<Rightarrow> bool) \<Rightarrow> 'op list \<Rightarrow> 's \<Rightarrow> 's \<Rightarrow> bool" where
  "run step [] s s' \<longleftrightarrow> s' = s"
| "run step (a # as) s s' \<longleftrightarrow> (\<exists>s1. step a s s1 \<and> run step as s1 s')"

locale simulation =
  fixes step :: "'op \<Rightarrow> 's \<Rightarrow> 's \<Rightarrow> bool"
    and spec :: "'op \<Rightarrow> 'a \<Rightarrow> 'a \<Rightarrow> bool"
    and inv :: "'s \<Rightarrow> bool"
    and abstr :: "'s \<Rightarrow> 'a"
  assumes keeps: "inv s \<Longrightarrow> step a s s' \<Longrightarrow> inv s'"
    and simulates: "inv s \<Longrightarrow> step a s s' \<Longrightarrow> spec a (abstr s) (abstr s')"
begin

lemma run_keeps: "run step as s s' \<Longrightarrow> inv s \<Longrightarrow> inv s'"
  by (induction as arbitrary: s) (auto dest: keeps)

lemma run_simulates: "run step as s s' \<Longrightarrow> inv s \<Longrightarrow> run spec as (abstr s) (abstr s')"
  by (induction as arbitrary: s) (auto dest: keeps simulates)

end

end
