(* ===== verification/Lsq_Run.thy ===== *)
theory Lsq_Run
  imports Lsq_Access Simulation
begin

text \<open>
  The load/store unit as a transition system, and that it implements the two program-ordered lists
  of the specification: every operation of the unit, in any order the pipeline may call them,
  keeps the invariant and is a step of the specification.
\<close>

section \<open>Responses\<close>

text \<open>The store at this index was handed to the cache and is still in the queue.\<close>

definition in_flight :: "lsq_unit \<Rightarrow> nat \<Rightarrow> bool" where
  "in_flight l i \<longleftrightarrow> (let n = SQEntries l in i < n \<and> (i + n - storeHead l) mod n < (storeWBIdx l + n - storeHead l) mod n)"

lemma offset_mod: "a < n \<Longrightarrow> j < (n :: nat) \<Longrightarrow> ((a + j) mod n + n - a) mod n = j"
proof -
  assume a: "a < n" and j: "j < n"
  have "((a + j) mod n + n - a) mod n = ((a + j) mod n + (n - a)) mod n" using a by simp
  also have "\<dots> = (a + j + (n - a)) mod n" by (simp add: mod_add_left_eq)
  also have "\<dots> = j" using a j by simp
  finally show ?thesis .
qed

lemma in_flight_position:
  assumes "sq_wf l" and "wb_ok l k" and "in_flight l i"
  obtains j where "j < k" "i = (storeHead l + j) mod SQEntries l"
proof -
  let ?n = "SQEntries l" and ?j = "(i + SQEntries l - storeHead l) mod SQEntries l"
  have w: "storeHead l < ?n" "nat (stores l) < ?n" "k \<le> nat (stores l)" "storeWBIdx l = (storeHead l + k) mod ?n" "i < ?n"
    using assms by (auto simp: sq_wf_def wb_ok_def in_flight_def Let_def)
  then have "?j < k" using assms(3) offset_mod[of "storeHead l" ?n k] by (simp add: in_flight_def Let_def)
  moreover have "(storeHead l + ?j) mod ?n = (storeHead l + (i + ?n - storeHead l)) mod ?n" by (simp add: mod_add_right_eq)
  then have "i = (storeHead l + ?j) mod ?n" using w by simp
  ultimately show ?thesis using that by blast
qed

definition lsq_ok :: "lsq_state \<Rightarrow> bool" where
  "lsq_ok = (\<lambda>(h, q, l). lsq_inv h l \<and> idx_ok h l)"

definition abs_state :: "lsq_state \<Rightarrow> mem_queues" where
  "abs_state = (\<lambda>(h, q, l). abs_lsq h l)"

lemma lsq_ok_kept:
  assumes "lsq_inv h l" and "idx_ok h l" and "same_seqs h h'" and "unit_kept l l'"
  shows "lsq_inv h' l' \<and> idx_ok h' l' \<and> abs_lsq h' l' = abs_lsq h l"
proof -
  note f = unit_kept_frames[OF assms(4)]
  have i: "lsq_inv h' l' \<and> abs_lsq h' l' = abs_lsq h l" using f lsq_inv_same[OF assms(1) same_seqs_nums[OF assms(3)]] by blast
  have "sq l' = sq l" "storeTail l' = storeTail l" "SQEntries l' = SQEntries l" using f same_stores_sq[of l l'] by (simp_all add: same_stores_def)
  then have "sq_drops l l'" using f by (intro sq_drops_none) simp_all
  then show ?thesis using i idx_ok_drops[OF assms(2) _ _ assms(3)] assms(1) by (simp add: lsq_inv_core)
qed

lemma completeStore_response:
  assumes "lsq_inv h l" and "idx_ok h l" and "in_flight l i" and "completeStore i (h, q, l) = Some (h', q', l')"
  shows "lsq_inv h' l' \<and> idx_ok h' l' \<and> (\<exists>s. mq_completes [s] (abs_lsq h l) (abs_lsq h' l'))"
proof -
  obtain k where k: "wb_ok l k" and c: "lsq_core h l" "sq_wf l" using assms(1) by (auto simp: lsq_inv_core lsq_core_def)
  from in_flight_position[OF c(2) k assms(3)] obtain j where j: "j < k" "i = (storeHead l + j) mod SQEntries l" .
  have wb: "wb_at l k" "storeWBIdx l = (storeHead l + k) mod SQEntries l" using k by (auto simp: wb_ok_at)
  note r = completeStore_refines[OF c(1) wb(1) j assms(4)] and f = completeStore_frame[OF assms(4)]
  from r(3) obtain k' where k': "wb_at l' k'" "(storeHead l' + k') mod SQEntries l' = (storeHead l + k) mod SQEntries l"
    "k < nat (stores l) \<longrightarrow> k' < nat (stores l') \<and> sq l' ! k' = sq l ! k" by blast
  have "wb_ok l' k'" using k k' r(4) wb(2) f by (auto simp: wb_ok_at same_flow_def)
  then have inv: "lsq_inv h' l'" using r(1) by (auto simp: lsq_inv_core)
  have jl: "j < nat (stores l)" using j(1) k by (simp add: wb_ok_def)
  have "sq l ! j \<in> set (take k (sq l))" using j(1) jl by (auto simp: in_set_conv_nth intro!: exI[of _ j])
  then have "mq_committed (store_seq h (sq l ! j)) (abs_lsq h l)" using committed_at[OF jl] wb(1) by (simp add: wb_at_def)
  then have "mq_completes [store_seq h (sq l ! j)] (abs_lsq h l) (abs_lsq h' l')" using r(2) by simp
  moreover have "idx_ok h' l'" using idx_ok_drops[OF assms(2) c(1) r(1) _ r(5)] f by blast
  ultimately show ?thesis using inv by blast
qed

text \<open>What the generated code of an instruction may change when its data arrives: not the place in the queues, and not the instruction itself.\<close>

definition completes_only :: "(iptr \<Rightarrow> inst_heap \<Rightarrow> inst_heap) \<Rightarrow> bool" where
  "completes_only completeAcc \<longleftrightarrow> (\<forall>p h. same_seqs h (completeAcc p h) \<and> (\<forall>x. staticInst (completeAcc p h x) = staticInst (h x)))"

lemma lsq_writeback_kept:
  assumes "lsq_writeback completeAcc p (h, q, l) = Some (h', q', l')" and "completes_only completeAcc"
  shows "same_seqs h h' \<and> unit_kept l l' \<and> (\<forall>x. staticInst (h' x) = staticInst (h x))"
proof -
  have c: "unit_kept l (call_iew cs l)" for cs l by (simp add: call_iew_def unit_kept_def frame_defs)
  let ?h = "h(p := set_status Executed (h p))"
  have e: "same_seqs h ?h" "\<forall>x. staticInst (?h x) = staticInst (h x)" by (simp_all add: set_status_def)
  have a: "same_seqs ?h (completeAcc p ?h)" "\<forall>x. staticInst (completeAcc p ?h x) = staticInst (?h x)"
    using assms(2) by (simp_all add: completes_only_def)
  have "h' = h \<or> h' = ?h \<or> h' = completeAcc p ?h" "\<exists>cs ds. l' = call_iew cs (call_iew ds l) \<or> l' = call_iew cs l"
    using assms(1) by (auto simp: lsq_writeback_def Let_def bind_eq_Some_conv split: if_splits)
  then show ?thesis using e a unit_kept_trans[OF c c] c same_seqs_trans[OF e(1) a(1)] by (elim disjE exE) (simp_all only: same_seqs_refl, simp_all)
qed

lemma completeDataAccess_refines:
  assumes "lsq_inv h l" and "idx_ok h l" and "completes_only completeAcc"
    and "\<forall>st. senderStates l (pkt_state pkt) = Some st \<longrightarrow> isStore (h (st_inst st)) \<longrightarrow> in_flight l (st_idx st)"
    and "completeDataAccess completeAcc pkt (h, q, l) = Some (h', q', l')"
  shows "lsq_inv h' l' \<and> idx_ok h' l' \<and> mq_does Response (abs_lsq h l) (abs_lsq h' l')"
proof -
  obtain st where st: "senderStates l (pkt_state pkt) = Some st"
    using assms(5) by (cases "senderStates l (pkt_state pkt)") (auto simp: completeDataAccess_def Let_def)
  let ?p = "st_inst st"
  have states: "unit_kept l1 (l1\<lparr>senderStates := x\<rparr>)" for l1 x by (simp add: unit_kept_def frame_defs)
  consider (kept) x where "same_seqs h h'" "l' = l\<lparr>senderStates := x\<rparr>"
    | (answered) h1 q1 l1 h2 q2 l2 where
      "(if \<not> st_noWB st then do { check (isLoad (h ?p) \<or> isStoreConditional (h ?p)); lsq_writeback completeAcc ?p (h, q, l) }
        else Some (h, q, l)) = Some (h1, q1, l1)"
      "(if isStore (h1 ?p) then completeStore (st_idx st) (h1, q1, l1) else Some (h1, q1, l1)) = Some (h2, q2, l2)"
      "h' = h2" "l' = l2\<lparr>senderStates := (senderStates l2)(pkt_state pkt := None)\<rparr>"
  proof -
    let ?gone = "l\<lparr>senderStates := (senderStates l)(pkt_state pkt := None)\<rparr>"
    let ?i = "(h ?p)\<lparr>dolmaPhysicalReq := None, dolmaPhysicalSreqLow := None, dolmaPhysicalSreqHigh := None\<rparr>"
    define rest where "rest = do {
        (h1, q1, l1) \<leftarrow> (if \<not> st_noWB st then do { check (isLoad (h ?p) \<or> isStoreConditional (h ?p)); lsq_writeback completeAcc ?p (h, q, l) }
          else Some (h, q, l));
        (h2, q2, l2) \<leftarrow> (if isStore (h1 ?p) then completeStore (st_idx st) (h1, q1, l1) else Some (h1, q1, l1));
        Some (h2, q2, l2\<lparr>senderStates := (senderStates l2)(pkt_state pkt := None)\<rparr>) }"
    have run: "(if st_cacheBlocked st then Some (h, q, ?gone)
      else if HasUnalignedMemAcc \<and> st_outstanding st - 1 \<noteq> 0 then
        Some (h, q, l\<lparr>senderStates := (senderStates l)(pkt_state pkt := Some (st\<lparr>st_outstanding := st_outstanding st - 1\<rparr>))\<rparr>)
      else if st_noWB st \<and> dolmaPhysicalReq (h ?p) \<noteq> None then do { check (st_isLoad st); Some (h(?p := ?i), q, ?gone) }
      else if isSquashed (h ?p) then Some (h, q, ?gone)
      else rest) = Some (h', q', l')"
      using assms(5) st unfolding completeDataAccess_def Let_def rest_def by simp
    have i: "same_seqs h (h(?p := ?i))" by simp
    define late where "late \<longleftrightarrow> HasUnalignedMemAcc \<and> st_outstanding st - 1 \<noteq> 0"
    from run consider "h' = h" "\<exists>x. l' = l\<lparr>senderStates := x\<rparr>" | "h' = h(?p := ?i)" "l' = ?gone" | "rest = Some (h', q', l')"
      unfolding late_def[symmetric] by (auto split: if_splits)
    then show ?thesis
    proof cases
      case 1
      then show ?thesis using that(1) by auto
    next
      case 2
      then show ?thesis using that(1) i by blast
    next
      case 3
      note 3 = 3[unfolded rest_def]
      then obtain h1 q1 l1 where w: "(if \<not> st_noWB st then do { check (isLoad (h ?p) \<or> isStoreConditional (h ?p)); lsq_writeback completeAcc ?p (h, q, l) }
          else Some (h, q, l)) = Some (h1, q1, l1)"
        by (cases "if \<not> st_noWB st then do { check (isLoad (h ?p) \<or> isStoreConditional (h ?p)); lsq_writeback completeAcc ?p (h, q, l) }
          else Some (h, q, l)") auto
      with 3 have "do { (h2, q2, l2) \<leftarrow> (if isStore (h1 ?p) then completeStore (st_idx st) (h1, q1, l1) else Some (h1, q1, l1));
        Some (h2, q2, l2\<lparr>senderStates := (senderStates l2)(pkt_state pkt := None)\<rparr>) } = Some (h', q', l')" by simp
      then obtain h2 q2 l2 where "(if isStore (h1 ?p) then completeStore (st_idx st) (h1, q1, l1) else Some (h1, q1, l1)) = Some (h2, q2, l2)"
        "h' = h2" "l' = l2\<lparr>senderStates := (senderStates l2)(pkt_state pkt := None)\<rparr>"
        by (cases "if isStore (h1 ?p) then completeStore (st_idx st) (h1, q1, l1) else Some (h1, q1, l1)") auto
      with w show ?thesis by (rule that(2))
    qed
  qed
  then show ?thesis
  proof cases
    case (kept x)
    then show ?thesis using lsq_ok_kept[OF assms(1,2) kept(1), of l'] states[of l x] by simp
  next
    case (answered h1 q1 l1 h2 q2 l2)
    have w: "same_seqs h h1 \<and> unit_kept l l1 \<and> (\<forall>x. staticInst (h1 x) = staticInst (h x))"
      using answered(1) lsq_writeback_kept[OF _ assms(3), of ?p h q l h1 q1 l1] by (auto split: if_splits)
    note k = lsq_ok_kept[OF assms(1,2), of h1 l1]
    have k1: "lsq_inv h1 l1" "idx_ok h1 l1" "abs_lsq h1 l1 = abs_lsq h l" using k w by simp_all
    have fl: "in_flight l1 i = in_flight l i" for i using w by (simp add: in_flight_def unit_kept_def frame_defs Let_def)
    have "lsq_inv h2 l2 \<and> idx_ok h2 l2 \<and> mq_does Response (abs_lsq h l) (abs_lsq h2 l2)"
    proof (cases "isStore (h1 ?p)")
      case True
      then have "in_flight l1 (st_idx st)" "completeStore (st_idx st) (h1, q1, l1) = Some (h2, q2, l2)"
        using assms(4) st w fl answered(2) by simp_all
      note r = completeStore_response[OF k1(1,2) this]
      obtain s where "mq_completes [s] (abs_lsq h l) (abs_lsq h2 l2)" using r k1(3) by auto
      then show ?thesis using r by auto
    next
      case False
      then show ?thesis using answered(2) k1 by simp
    qed
    moreover have "lsq_inv h' l' \<and> idx_ok h' l' \<and> abs_lsq h' l' = abs_lsq h2 l2"
      using lsq_ok_kept[of h2 l2 h' l'] calculation answered(3,4) states[of l2] by simp
    ultimately show ?thesis by simp
  qed
qed

section \<open>Accesses\<close>

lemma lsq_write_entry:
  assumes "lsq_write r lo hi bytes i l = Some l'" and "vec_get (storeQueue l) i = Some e"
  shows "\<exists>e'. l' = l\<lparr>storeQueue := (storeQueue l)[i := e']\<rparr> \<and> sq_inst e' = sq_inst e \<and> sq_canWB e' = sq_canWB e \<and>
    sq_completed e' = sq_completed e"
proof -
  define e1 where "e1 = e\<lparr>sq_req := Some r, sq_sreqLow := lo, sq_sreqHigh := hi, sq_size := ucast (req_size r),
    sq_isAllZeros := flag_set STORE_NO_DATA r, sq_isSplit := (if HasUnalignedMemAcc \<and> lo \<noteq> None then True else sq_isSplit e)\<rparr>"
  define e2 where "e2 = (if \<not> flag_set CACHE_BLOCK_ZERO r \<and> \<not> flag_set (CLEAN OR INVALIDATE) r
    then e1\<lparr>sq_data := take (unat (req_size r)) bytes @ drop (unat (req_size r)) (sq_data e1)\<rparr> else e1)"
  have "l' = l\<lparr>storeQueue := (storeQueue l)[i := e2]\<rparr>"
  proof -
    have "(check (sq_inst e \<noteq> None) \<bind> (\<lambda>_. check (unat (req_size r) \<le> 16 \<or> flag_set STORE_NO_DATA r) \<bind>
      (\<lambda>_. Some (l\<lparr>storeQueue := (storeQueue l)[i := e2]\<rparr>)))) = Some l'"
      using assms(1) unfolding lsq_write_def Let_def assms(2) bind.bind_lunit e1_def[symmetric] e2_def[symmetric] .
    then show ?thesis by (auto split: if_splits)
  qed
  moreover have "sq_inst e2 = sq_inst e" "sq_canWB e2 = sq_canWB e" "sq_completed e2 = sq_completed e"
    by (simp_all add: e2_def e1_def)
  ultimately show ?thesis by blast
qed

lemma lsq_write_ok:
  assumes "lsq_inv h l" and "idx_ok h l" and "e \<in> set (sq l)" and "i = nat (sqIdx (h (the (sq_inst e))))"
    and "lsq_write r lo hi bytes i l = Some l'"
  shows "lsq_inv h l' \<and> idx_ok h l' \<and> abs_lsq h l' = abs_lsq h l"
proof -
  have c: "lsq_core h l" "sq_wf l" using assms(1) by (auto simp: lsq_inv_core lsq_core_def)
  obtain j where j: "j < nat (stores l)" "e = sq l ! j" using assms(3) length_sq[of l] by (metis in_set_conv_nth)
  have i: "i = (storeHead l + j) mod SQEntries l" using assms(2,4) j by (simp add: idx_ok_def own_places_def)
  have e: "vec_get (storeQueue l) i = Some (sq l ! j)" using sq_nth[OF c(2) j(1)] by (simp add: i vec_get_eq_Some)
  from assms(5) e obtain e' where e': "l' = l\<lparr>storeQueue := (storeQueue l)[i := e']\<rparr>" "sq_inst e' = sq_inst (sq l ! j)"
    "sq_canWB e' = sq_canWB (sq l ! j)" "sq_completed e' = sq_completed (sq l ! j)"
    using lsq_write_entry by blast
  note u = core_update[OF c(1) j(1) e'(2-4), of l']
  have l': "storeQueue l' = (storeQueue l)[(storeHead l + j) mod SQEntries l := e']" "storeHead l' = storeHead l" "stores l' = stores l"
      "SQEntries l' = SQEntries l" "storeTail l' = storeTail l" "same_loads l l'" "same_stall l l'"
      "hasPendingPkt l' = hasPendingPkt l" "isStoreBlocked l' = isStoreBlocked l" "storeWBIdx l' = storeWBIdx l"
    by (simp_all add: e'(1) i frame_defs)
  note u = u[OF l'(1-7)]
  obtain k where k: "wb_ok l k" using assms(1) by (auto simp: lsq_inv_core)
  have "sq_canWB (sq l' ! k) = sq_canWB (sq l ! k)" if "k < nat (stores l)"
    using u(4) e'(3) that by (cases "k = j") auto
  then have "wb_ok l' k" using k u(3) l' by (auto simp: wb_ok_at)
  then show ?thesis using u idx_ok_drops[OF assms(2) c(1) u(1) same_seqs_refl u(5)] by (auto simp: lsq_inv_core)
qed

lemma checkViolations_kept:
  assumes "checkViolations c i p h l = Some (f, h', l')"
  shows "same_seqs h h' \<and> unit_kept l l'"
proof -
  let ?P = "\<lambda>c i p h l y. same_seqs h (fst (snd y)) \<and> unit_kept l (snd (snd y))"
  have "?P c i p h l (f, h', l')"
  proof (rule checkViolations.raw_induct[of ?P, OF _ assms])
    fix loop c i p h l y
    assume IH: "\<And>c i p h l y. loop c i p h l = Some y \<Longrightarrow> ?P c i p h l y"
      and run: "(if i = loadTail l then Some (NoFault, h, l)
      else do {
        x \<leftarrow> vec_get (loadQueue l) i;
        ld \<leftarrow> x;
        let nxt = incr (LQEntries l) i;
        (if \<not> effAddrValid (h ld) \<or> strictlyOrdered (h ld) \<or> isDolmaStalled (h ld) then loop c nxt p h l
         else if last_block l (h p) \<ge> first_block l (h ld) \<and> first_block l (h p) \<le> last_block l (h ld) then
           (if isLoad (h p) then
              (if hitExternalSnoop (h ld) \<and> (case memDepViolator l of None \<Rightarrow> True | Some v \<Rightarrow> seqNum (h ld) < seqNum (h v))
               then Some (order_fault, h, l\<lparr>memDepViolator := Some ld\<rparr>)
               else loop c nxt p (h(ld := set_flag PossibleLoadViolation True (h ld))) l)
            else if (case memDepViolator l of None \<Rightarrow> False | Some v \<Rightarrow> seqNum (h ld) > seqNum (h v)) then Some (NoFault, h, l)
            else Some (order_fault,
                       (if isDolma c \<and> \<not> isDolmaConservative c \<and> \<not> isSTT c then h(p := (h p)\<lparr>violatorSeqNum := seqNum (h ld)\<rparr>) else h),
                       l\<lparr>memDepViolator := Some ld\<rparr>))
         else loop c nxt p h l) }) = Some y"
    have v: "unit_kept l (l\<lparr>memDepViolator := x\<rparr>)" for x by (simp add: unit_kept_def frame_defs)
    have m: "same_seqs h h2" if "same_seqs (h(ld := set_flag PossibleLoadViolation True (h ld))) h2" for ld h2
      using that by (rule same_seqs_trans[rotated]) simp
    show "?P c i p h l y"
    proof (cases "i = loadTail l")
      case False
      then obtain ld where "vec_get (loadQueue l) i = Some (Some ld)" using run by (auto simp: bind_eq_Some_conv)
      then show ?thesis using run False v m[of ld] by (auto simp: Let_def dest!: IH split: if_splits)
    qed (use run in auto)
  qed
  then show ?thesis by simp
qed

lemma checkSnoop_seqs:
  assumes "checkSnoop a h l = Some h'"
  shows "same_seqs h h'"
proof -
  let ?P = "\<lambda>a fs i h l h'. same_seqs h h'"
  have loop: "same_seqs h h'" if "snoop_loop a fs i h l = Some h'" for a fs i h l h'
  proof (rule snoop_loop.raw_induct[of ?P, OF _ that])
    fix loop a fs i h l y
    assume IH: "\<And>a fs i h l y. loop a fs i h l = Some y \<Longrightarrow> same_seqs h y"
      and run: "(if i = loadTail l then Some h
      else do {
        x \<leftarrow> vec_get (loadQueue l) i;
        ld \<leftarrow> x;
        let nxt = incr (LQEntries l) i;
        (if \<not> effAddrValid (h ld) \<or> strictlyOrdered (h ld) \<or> isDolmaStalled (h ld)
         then loop a fs nxt h l
         else if physEffAddrLow (h ld) AND cacheBlockMask l = a \<or>
                 physEffAddrHigh (h ld) AND cacheBlockMask l = a \<or> fs then
           (let force = (fs \<or> needsTSO l)
            in loop a force nxt
                 (h(ld := if possibleLoadViolation (h ld) \<or> force then (h ld)\<lparr>fault := FaultBase ''ReExec''\<rparr>
                          else set_flag HitExternalSnoop True (h ld))) l)
         else loop a fs nxt h l) }) = Some y"
    show "same_seqs h y"
    proof (cases "i = loadTail l")
      case False
      then obtain ld where ld: "vec_get (loadQueue l) i = Some (Some ld)" using run by (auto simp: bind_eq_Some_conv)
      let ?i = "\<lambda>force. if possibleLoadViolation (h ld) \<or> force then (h ld)\<lparr>fault := FaultBase ''ReExec''\<rparr> else set_flag HitExternalSnoop True (h ld)"
      have m: "same_seqs h h2" if "same_seqs (h(ld := ?i force)) h2" for force h2
        using that by (rule same_seqs_trans[rotated]) simp
      consider nxt where "loop a fs nxt h l = Some y" | force nxt where "loop a force nxt (h(ld := ?i force)) l = Some y"
        using run False ld by (auto simp only: Let_def split: if_splits)
      then show ?thesis using IH m by cases blast+
    qed (use run in auto)
  qed
  show ?thesis using assms loop by (auto simp: checkSnoop_def split: if_splits)
qed

section \<open>The transition system\<close>

text \<open>
  The steps of the unit, as the pipeline makes them. Instructions are dispatched in program order;
  a load that waits for a store is not committed; the memory answers for a store that it was handed.
  Between the calls the other stages change the instructions, except their numbers and places, and the
  instruction queue. The answer to the first half of a split store comes when both halves were sent. Not among the steps are the
  execution of a store conditional, which lets its own store write back, and the change of the size of the queues.
\<close>

inductive lsq_step :: "dolma_cpu \<Rightarrow> dcache_port \<Rightarrow> lsq_op \<Rightarrow> lsq_state \<Rightarrow> lsq_state \<Rightarrow> bool" for c port where
  dispatch_load: "lsq_insert p (h, l) = Some (h', l') \<Longrightarrow> isLoad (h p) \<Longrightarrow> youngest h l p \<Longrightarrow>
    lsq_step c port (Dispatch_Load (seqNum (h p))) (h, q, l) (h', q, l')"
| dispatch_store: "lsq_insert p (h, l) = Some (h', l') \<Longrightarrow> \<not> isLoad (h p) \<Longrightarrow> youngest h l p \<Longrightarrow>
    lsq_step c port (Dispatch_Store (seqNum (h p))) (h, q, l) (h', q, l')"
| commit: "commit_mem y h l = Some l' \<Longrightarrow> waits_above y h l \<Longrightarrow> lsq_step c port (Commit_Upto y) (h, q, l) (h, q, l')"
| squash: "lsq_squash y (h, l) = Some (h', l') \<Longrightarrow> lsq_step c port (Squash_Younger y) (h, q, l) (h', q, l')"
| write_back: "writebackStores port s = Some s' \<Longrightarrow> lsq_step c port Write_Back s s'"
| retry: "recvRetry port s = Some s' \<Longrightarrow> lsq_step c port Access s s'"
| response: "completeDataAccess completeAcc pkt (h, q, l) = Some s' \<Longrightarrow> completes_only completeAcc \<Longrightarrow>
    \<forall>st. senderStates l (pkt_state pkt) = Some st \<longrightarrow> isStore (h (st_inst st)) \<longrightarrow> in_flight l (st_idx st) \<Longrightarrow>
    lsq_step c port Response (h, q, l) s'"
| forward: "lsq_writeback completeAcc p (h, q, l) = Some s' \<Longrightarrow> completes_only completeAcc \<Longrightarrow> lsq_step c port Access (h, q, l) s'"
| read_load: "lsq_read c port r lo hi i s = Some (f, s') \<Longrightarrow> lsq_step c port Access s s'"
| write_store: "lsq_write r lo hi bytes (nat (sqIdx (h (the (sq_inst e))))) l = Some l' \<Longrightarrow> e \<in> set (sq l) \<Longrightarrow>
    lsq_step c port Access (h, q, l) (h, q, l')"
| violations: "checkViolations c i p h l = Some (f, h', l') \<Longrightarrow> lsq_step c port Access (h, q, l) (h', q, l')"
| violator: "getMemDepViolator l = (v, l') \<Longrightarrow> lsq_step c port Access (h, q, l) (h, q, l')"
| snoop: "checkSnoop a h l = Some h' \<Longrightarrow> lsq_step c port Access (h, q, l) (h', q, l)"
| other: "same_seqs h h' \<Longrightarrow> lsq_step c port Access (h, q, l) (h', q', l)"

lemma dispatch_ok:
  assumes "lsq_inv h l" and "idx_ok h l" and "lsq_insert p (h, l) = Some (h', l')" and "youngest h l p"
  shows "lsq_inv h' l' \<and> idx_ok h' l' \<and>
    mq_does (if isLoad (h p) then Dispatch_Load (seqNum (h p)) else Dispatch_Store (seqNum (h p))) (abs_lsq h l) (abs_lsq h' l')"
proof -
  have c: "lsq_core h l" using assms(1) by (simp add: lsq_inv_core)
  from assms(3) obtain h1 where h1: "(if isLoad (h p) then lsq_insertLoad p (h, l) else lsq_insertStore p (h, l)) = Some (h1, l')"
    "h' = h1(p := set_status LsqEntry (h1 p))"
    by (auto simp: lsq_insert_def bind_eq_Some_conv split: if_splits)
  have y: "\<forall>q \<in> set (lq l). seqNum (h q) < seqNum (h p)" "\<forall>e \<in> set (sq l). store_seq h e < seqNum (h p)"
    using assms(4) by (simp_all add: youngest_def)
  have r: "lsq_inv h1 l' \<and> idx_ok h1 l' \<and>
    mq_does (if isLoad (h p) then Dispatch_Load (seqNum (h p)) else Dispatch_Store (seqNum (h p))) (abs_lsq h l) (abs_lsq h1 l')"
  proof (cases "isLoad (h p)")
    case True
    then show ?thesis
      using insertLoad_refines[OF assms(1) y(1)] insertLoad_idx[OF assms(2) c assms(4)] h1(1) by auto
  next
    case False
    then show ?thesis
      using insertStore_refines[OF assms(1) y(2)] insertStore_idx[OF assms(2) c assms(4)] h1(1) by auto
  qed
  have "same_seqs h1 h'" using h1(2) by simp
  then show ?thesis using lsq_ok_kept[of h1 l' h' l'] r by simp
qed

lemma quiet_ok:
  assumes "lsq_inv h l" and "idx_ok h l" and "quiet h l h' l'"
  shows "lsq_inv h' l' \<and> idx_ok h' l' \<and> abs_lsq h' l' = abs_lsq h l"
  using assms idx_ok_drops[OF assms(2), of h' l'] by (auto simp: quiet_def lsq_inv_core)

lemma lsq_step_ok:
  assumes "lsq_step c port a s s'" and "lsq_ok s"
  shows "lsq_ok s' \<and> mq_does a (abs_state s) (abs_state s')"
  using assms
proof (induction rule: lsq_step.induct)
  case (dispatch_load p h l h' l' q)
  then show ?case using dispatch_ok[of h l p h' l'] by (auto simp: lsq_ok_def abs_state_def)
next
  case (dispatch_store p h l h' l' q)
  then show ?case using dispatch_ok[of h l p h' l'] by (auto simp: lsq_ok_def abs_state_def)
next
  case (commit y h l l' q)
  then show ?case using commit_mem_ok[of h l y] by (auto simp: lsq_ok_def abs_state_def)
next
  case (squash y h l h' l' q)
  then have i: "lsq_inv h l" "idx_ok h l" by (simp_all add: lsq_ok_def)
  then show ?case using lsq_squash_refines[OF i(1), of y] squash_idx[OF i(2,1), of h' y l'] squash by (auto simp: lsq_ok_def abs_state_def)
next
  case (write_back s s')
  obtain h q l h' q' l' where s: "s = (h, q, l)" "s' = (h', q', l')" by (metis prod.exhaust)
  have i: "lsq_inv h l" "idx_ok h l" using write_back s by (simp_all add: lsq_ok_def)
  note r = writebackStores_refines[OF i(1) write_back(1)[unfolded s]]
  then have "idx_ok h' l'" using idx_ok_drops[OF i(2), of h' l'] i(1) by (simp add: lsq_inv_core)
  then show ?case using r s by (simp add: lsq_ok_def abs_state_def)
next
  case (retry s s')
  obtain h q l h' q' l' where s: "s = (h, q, l)" "s' = (h', q', l')" by (metis prod.exhaust)
  then show ?case using quiet_ok[of h l h' l'] recvRetry_refines[of h l port q h' q' l'] retry by (simp add: lsq_ok_def abs_state_def)
next
  case (response completeAcc pkt h q l s')
  obtain h' q' l' where "s' = (h', q', l')" by (metis prod.exhaust)
  then show ?case using completeDataAccess_refines[of h l completeAcc pkt q h' q' l'] response by (simp add: lsq_ok_def abs_state_def)
next
  case (forward completeAcc p h q l s')
  obtain h' q' l' where s: "s' = (h', q', l')" by (metis prod.exhaust)
  then show ?case using lsq_writeback_kept[OF forward(1)[unfolded s] forward(2)] lsq_ok_kept[of h l h' l'] forward(3)
    by (simp add: lsq_ok_def abs_state_def)
next
  case (read_load r lo hi i s f s')
  obtain h q l h' q' l' where s: "s = (h, q, l)" "s' = (h', q', l')" by (metis prod.exhaust)
  have i: "lsq_inv h l" "idx_ok h l" using read_load s by (simp_all add: lsq_ok_def)
  from lsq_read_frame[OF i read_load(1)[unfolded s]] obtain p where "vec_get (loadQueue l) i = Some (Some p)" "read_frame i p h l h' l'" .
  from read_frame_ok[OF i this] show ?case using s by (simp add: lsq_ok_def abs_state_def)
next
  case (write_store r lo hi bytes h e l l' q)
  then show ?case using lsq_write_ok[of h l e _ r lo hi bytes l'] by (simp add: lsq_ok_def abs_state_def)
next
  case (violations i p h l f h' l' q)
  then show ?case using checkViolations_kept lsq_ok_kept[of h l h' l'] by (simp add: lsq_ok_def abs_state_def)
next
  case (violator l v l' h q)
  then have "unit_kept l l'" by (auto simp: getMemDepViolator_def unit_kept_def frame_defs)
  then show ?case using violator lsq_ok_kept[of h l h l'] by (simp add: lsq_ok_def abs_state_def)
next
  case (snoop a h l h' q)
  then show ?case using checkSnoop_seqs lsq_ok_kept[of h l h' l] by (simp add: lsq_ok_def abs_state_def)
next
  case (other h h' q l q')
  then show ?case using lsq_ok_kept[of h l h' l] by (simp add: lsq_ok_def abs_state_def)
qed

interpretation lsq_sim: simulation "lsq_step c port" mq_does lsq_ok abs_state for c port
  by unfold_locales (use lsq_step_ok in blast)+

end
