(* ===== verification/Lsq_Memory.thy ===== *)
theory Lsq_Memory
  imports Lsq_Run
begin

text \<open>
  The effect of a read in terms of the older stores: what a load gets from the store queue is what a
  memory holds after the older stores, a load goes to the memory for its data only when no store that
  waits has bytes of it, and which packets it sends.
\<close>

section \<open>Memory after the older stores\<close>

text \<open>Stores and requests that do not cross the end of the address space, and stores whose bytes are in the entry.\<close>

definition req_fits :: "request \<Rightarrow> bool" where
  "req_fits r \<longleftrightarrow> unat (req_vaddr r) + unat (req_size r) < 2 ^ 64"

definition store_fits :: "inst_heap \<Rightarrow> sq_entry \<Rightarrow> bool" where
  "store_fits h e \<longleftrightarrow> unat (effAddr (store_inst h e)) + unat (sq_size e) < 2 ^ 64 \<and>
     (sq_isAllZeros e \<or> unat (sq_size e) \<le> length (sq_data e))"

lemma unat_sum_less: "unat (a :: 'a::len word) + unat (b :: 'b::len word) < 2 ^ 64 \<longleftrightarrow> uint a + uint b < 2 ^ 64"
  using of_nat_less_iff[of "unat a + unat b" "2 ^ 64 :: nat", where ?'a = int] by simp

lemma req_fits_code [code]: "req_fits r \<longleftrightarrow> uint (req_vaddr r) + uint (req_size r) < 2 ^ 64"
  unfolding req_fits_def by (rule unat_sum_less)

lemma store_fits_code [code]:
  "store_fits h e \<longleftrightarrow> uint (effAddr (store_inst h e)) + uint (sq_size e) < 2 ^ 64 \<and>
     (sq_isAllZeros e \<or> unat (sq_size e) \<le> length (sq_data e))"
  unfolding store_fits_def unat_sum_less by (rule refl)

definition touches :: "inst_heap \<Rightarrow> sq_entry \<Rightarrow> nat \<Rightarrow> bool" where
  "touches h e a \<longleftrightarrow> \<not> no_forward e (store_inst h e) \<and> unat (effAddr (store_inst h e)) \<le> a \<and>
     a < unat (effAddr (store_inst h e)) + unat (sq_size e)"

definition store_into :: "inst_heap \<Rightarrow> sq_entry \<Rightarrow> (nat \<Rightarrow> 8 word) \<Rightarrow> nat \<Rightarrow> 8 word" where
  "store_into h e mem a = (if \<not> touches h e a then mem a
     else if sq_isAllZeros e then 0 else sq_data e ! (a - unat (effAddr (store_inst h e))))"

definition memory_after :: "inst_heap \<Rightarrow> sq_entry list \<Rightarrow> (nat \<Rightarrow> 8 word) \<Rightarrow> nat \<Rightarrow> 8 word" where
  "memory_after h es mem = fold (store_into h) es mem"

definition older_stores :: "inst_heap \<Rightarrow> lsq_unit \<Rightarrow> iptr \<Rightarrow> sq_entry list" where
  "older_stores h l p = filter (\<lambda>e. store_seq h e < seqNum (h p)) (sq l)"

text \<open>The older stores that were not handed to the cache.\<close>

definition waiting_stores :: "inst_heap \<Rightarrow> lsq_unit \<Rightarrow> iptr \<Rightarrow> sq_entry list" where
  "waiting_stores h l p = drop ((storeWBIdx l + SQEntries l - storeHead l) mod SQEntries l) (older_stores h l p)"

lemma untouched: "\<forall>e \<in> set es. \<not> touches h e a \<Longrightarrow> fold (store_into h) es mem a = mem a"
  by (induction es arbitrary: mem) (auto simp: store_into_def)

lemma unat_ucast_up: "LENGTH('a) \<le> 64 \<Longrightarrow> unat (ucast (b :: 'a::len word) :: 64 word) = unat b"
  by transfer (simp add: min_def)

lemma unat_end: "unat (a :: 64 word) + unat (b :: 'a::len word) < 2 ^ 64 \<Longrightarrow> LENGTH('a) \<le> 64 \<Longrightarrow> unat (a + ucast b) = unat a + unat b"
proof -
  assume a: "unat a + unat b < 2 ^ 64" and n: "LENGTH('a) \<le> 64"
  show ?thesis using a unat_add_lem[of a "ucast b :: 64 word"] unat_ucast_up[OF n, of b] by simp
qed

lemma shares_matches:
  assumes "req_fits r" and "store_fits h e" and "touches h e (unat (req_vaddr r) + j)" and "j < unat (req_size r)"
  shows "matches h r e"
proof -
  let ?s = "store_inst h e"
  have r: "unat (req_vaddr r + ucast (req_size r)) = unat (req_vaddr r) + unat (req_size r)"
    by (rule unat_end) (use assms(1) in \<open>simp_all add: req_fits_def\<close>)
  have s: "unat (effAddr ?s + ucast (sq_size e)) = unat (effAddr ?s) + unat (sq_size e)"
    by (rule unat_end) (use assms(2) in \<open>simp_all add: store_fits_def\<close>)
  have "req_vaddr r < effAddr ?s + ucast (sq_size e)" "req_vaddr r + ucast (req_size r) > effAddr ?s"
    using assms(3,4) by (simp_all add: word_less_nat_alt r s touches_def)
  then show ?thesis using assms(3) by (auto simp: matches_def partly_covers_def Let_def touches_def)
qed

lemma covers_forwarded:
  assumes "req_fits r" and "store_fits h e" and "\<not> no_forward e (store_inst h e)" and "covers r (store_inst h e) (sq_size e)"
  shows "length (forwarded r (store_inst h e) e) = unat (req_size r)"
    and "j < unat (req_size r) \<Longrightarrow> forwarded r (store_inst h e) e ! j = store_into h e mem (unat (req_vaddr r) + j)"
proof -
  let ?s = "store_inst h e" and ?d = "unat (req_vaddr r) - unat (effAddr (store_inst h e))"
  have r: "unat (req_vaddr r + ucast (req_size r)) = unat (req_vaddr r) + unat (req_size r)"
    by (rule unat_end) (use assms(1) in \<open>simp_all add: req_fits_def\<close>)
  have s: "unat (effAddr ?s + ucast (sq_size e)) = unat (effAddr ?s) + unat (sq_size e)"
    by (rule unat_end) (use assms(2) in \<open>simp_all add: store_fits_def\<close>)
  have c: "effAddr ?s \<le> req_vaddr r" "unat (effAddr ?s) \<le> unat (req_vaddr r)"
    "unat (req_vaddr r) + unat (req_size r) \<le> unat (effAddr ?s) + unat (sq_size e)"
    using assms(4) by (simp_all add: covers_def word_le_nat_alt r s)
  have d: "unat (req_vaddr r - effAddr ?s) = ?d" using c(1) by (rule unat_sub)
  have fit: "sq_isAllZeros e \<or> ?d + unat (req_size r) \<le> length (sq_data e)" using assms(2) c by (auto simp: store_fits_def)
  then show "length (forwarded r ?s e) = unat (req_size r)" by (auto simp: forwarded_def d)
  assume j: "j < unat (req_size r)"
  then have t: "touches h e (unat (req_vaddr r) + j)" using assms(3) c by (simp add: touches_def)
  show "forwarded r ?s e ! j = store_into h e mem (unat (req_vaddr r) + j)"
    using t j fit c by (auto simp: store_into_def forwarded_def d)
qed

lemma last_match_memory:
  assumes "last_match h r l k m t" and "m \<le> nat (stores l)" and "covers r (store_inst h (sq l ! t)) (sq_size (sq l ! t))"
    and "req_fits r" and "\<forall>e \<in> set (sq l). store_fits h e" and "j < unat (req_size r)"
  shows "forwarded r (store_inst h (sq l ! t)) (sq l ! t) ! j = memory_after h (take m (sq l)) mem (unat (req_vaddr r) + j)"
proof -
  let ?a = "unat (req_vaddr r) + j" and ?e = "sq l ! t"
  have t: "t < m" "matches h r ?e" "\<forall>u. t < u \<and> u < m \<longrightarrow> \<not> matches h r (sq l ! u)" using assms(1) by (auto simp: last_match_def)
  have split: "take m (sq l) = take t (sq l) @ ?e # drop (Suc t) (take m (sq l))"
    using t(1) assms(2) id_take_nth_drop[of t "take m (sq l)"] by simp
  have "\<not> touches h e ?a" if e: "e \<in> set (drop (Suc t) (take m (sq l)))" for e
  proof
    assume "touches h e ?a"
    moreover obtain i where "i < m - Suc t" "e = sq l ! (Suc t + i)" using e assms(2) by (auto simp: in_set_conv_nth)
    then obtain u where u: "t < u" "u < m" "e = sq l ! u" by (intro that[of "Suc t + i"]) auto
    then have "e \<in> set (sq l)" using assms(2) by simp
    ultimately have "matches h r e" using shares_matches[OF assms(4) _ _ assms(6)] assms(5) by blast
    then show False using t(3) u by blast
  qed
  then have "memory_after h (take m (sq l)) mem ?a = store_into h ?e (fold (store_into h) (take t (sq l)) mem) ?a"
    unfolding memory_after_def by (subst split) (simp add: untouched)
  moreover have "?e \<in> set (sq l)" using t(1) assms(2) by simp
  ultimately show ?thesis
    using covers_forwarded(2)[where h = h and e = ?e, OF assms(4) _ _ assms(3) assms(6)] assms(5) t(2) by (auto simp: matches_def)
qed

lemma older_stores_take:
  assumes "m \<le> nat (stores l)" and "\<forall>t < m. store_seq h (sq l ! t) < seqNum (h p)"
    and "\<forall>t. m \<le> t \<and> t < nat (stores l) \<longrightarrow> seqNum (h p) < store_seq h (sq l ! t)"
  shows "older_stores h l p = take m (sq l)"
proof -
  have "filter (\<lambda>e. store_seq h e < seqNum (h p)) (take m (sq l)) = take m (sq l)"
    using assms(1,2) by (auto simp: filter_id_conv in_set_conv_nth)
  moreover have "filter (\<lambda>e. store_seq h e < seqNum (h p)) (drop m (sq l)) = []"
  proof -
    have "seqNum (h p) \<le> store_seq h (sq l ! (m + i))" if "i < nat (stores l) - m" for i
      using that assms(3) by (intro less_imp_le) simp
    then show ?thesis using assms(1) by (auto simp: filter_empty_conv in_set_conv_nth not_less)
  qed
  ultimately show ?thesis unfolding older_stores_def by (metis append_Nil2 append_take_drop_id filter_append)
qed

lemma waiting_stores_take:
  assumes "sq_wf l" and "wb_ok l k" and "older_stores h l p = take m (sq l)"
  shows "waiting_stores h l p = drop k (take m (sq l))"
proof -
  have "storeHead l < SQEntries l" "k < SQEntries l" "storeWBIdx l = (storeHead l + k) mod SQEntries l"
    using assms(1,2) by (auto simp: sq_wf_def wb_ok_def)
  then show ?thesis using offset_mod[of "storeHead l" "SQEntries l" k] assms(3) by (simp add: waiting_stores_def)
qed

section \<open>What a read does\<close>

text \<open>The effect of an access on what the unit tells the rest of the machine.\<close>

definition load_traffic ::
  "dcache_port \<Rightarrow> request \<Rightarrow> request option \<Rightarrow> request option \<Rightarrow> nat \<Rightarrow> (packet \<times> bool) list \<Rightarrow> (packet \<times> bool) list" where
  "load_traffic port r lo hi n tr =
     (let pkt = (\<lambda>rq second. \<lparr>pkt_req = rq, pkt_write = False, pkt_data = [], pkt_state = n, pkt_second = second\<rparr>);
          p1 = pkt (case lo of None \<Rightarrow> r | Some x \<Rightarrow> x) False;
          tr1 = tr @ [(p1, fst (port tr p1))]
      in if fst (port tr p1) \<and> lo \<noteq> None then tr1 @ [(pkt (the hi) True, fst (port tr1 (pkt (the hi) True)))] else tr1)"

definition told :: "lsq_unit \<Rightarrow> (packet \<times> bool) list \<times> (iptr \<times> buffer) list \<times> (iptr \<Rightarrow> buffer)" where
  "told l = (sent l, writebacks l, memData l)"

lemma send_load_effect:
  assumes "send_load port r lo hi n l = Some (ok, miss, first, l')"
  shows "told l' = (load_traffic port r lo hi n (sent l), writebacks l, memData l)"
    and "senderStates l' n = Some s' \<Longrightarrow> \<exists>s. senderStates l n = Some s \<and> st_noWB s' = st_noWB s"
proof -
  define pkt where "pkt = (\<lambda>rq second. \<lparr>pkt_req = rq, pkt_write = False, pkt_data = [], pkt_state = n, pkt_second = second\<rparr>)"
  define p1 where "p1 = pkt (case lo of None \<Rightarrow> r | Some x \<Rightarrow> x) False"
  define tr1 where "tr1 = sent l @ [(p1, fst (port (sent l) p1))]"
  define p2 where "p2 = pkt (the hi) True"
  have s1: "send port p1 l = (fst (port (sent l) p1), snd (port (sent l) p1), l\<lparr>sent := tr1\<rparr>)" by (simp add: send_def tr1_def split: prod.splits)
  have tr: "load_traffic port r lo hi n (sent l) = (if fst (port (sent l) p1) \<and> lo \<noteq> None then tr1 @ [(p2, fst (port tr1 p2))] else tr1)"
    by (simp add: load_traffic_def Let_def pkt_def p1_def tr1_def p2_def)
  have "told l' = (load_traffic port r lo hi n (sent l), writebacks l, memData l) \<and>
    (senderStates l' = senderStates l \<or> (\<exists>s. senderStates l n = Some s \<and>
       senderStates l' = (senderStates l)(n := Some (s\<lparr>st_outstanding := st_outstanding s - 1, st_cacheBlocked := True\<rparr>))))"
  proof (cases "fst (port (sent l) p1) \<and> lo \<noteq> None")
    case False
    then have "l' = l\<lparr>sent := tr1\<rparr>"
      using assms s1 by (auto simp: send_load_def Let_def pkt_def[symmetric] p1_def[symmetric] split: if_splits option.splits)
    then show ?thesis unfolding tr using False by (auto simp: told_def)
  next
    case True
    then obtain x where x: "lo = Some x" by auto
    have p1x: "\<lparr>pkt_req = x, pkt_write = False, pkt_data = [], pkt_state = n, pkt_second = False\<rparr> = p1" by (simp add: p1_def pkt_def x)
    obtain hq where hq: "hi = Some hq" using assms True x s1 by (cases hi) (auto simp: send_load_def Let_def p1x)
    have p2x: "\<lparr>pkt_req = hq, pkt_write = False, pkt_data = [], pkt_state = n, pkt_second = True\<rparr> = p2" by (simp add: p2_def pkt_def hq)
    have s2: "send port p2 (l\<lparr>sent := tr1\<rparr>) = (fst (port tr1 p2), snd (port tr1 p2), l\<lparr>sent := tr1 @ [(p2, fst (port tr1 p2))]\<rparr>)"
      by (simp add: send_def split: prod.splits)
    show ?thesis using assms True x hq s1 s2 unfolding tr
      by (auto simp: send_load_def Let_def p1x p2x told_def upd_state_def bind_eq_Some_conv split: if_splits)
  qed
  then show "told l' = (load_traffic port r lo hi n (sent l), writebacks l, memData l)"
    and "senderStates l' n = Some s' \<Longrightarrow> \<exists>s. senderStates l n = Some s \<and> st_noWB s' = st_noWB s" by auto
qed

lemma stall_on_effect:
  assumes "stall_on i p s (h, q, l) = Some (h', q', l')"
  shows "told l' = told l \<and> senderStates l' = senderStates l"
  using assms by (auto simp: stall_on_def Let_def bind_eq_Some_conv told_def split: if_splits prod.splits)

lemma access_memory_effect:
  assumes "access_memory c port r lo hi i p st was (h, q, l) = Some (h', q', l')"
  defines "dummy \<equiv> isTotalStoreBufferHit (h p) \<or> (isPartialStoreBufferHit (h p) \<and> \<not> was)"
  shows "sent l' = load_traffic port r lo hi (nextState l) (sent l)"
    and "writebacks l' = writebacks l \<or> (isTotalStoreBufferHit (h p) \<and> writebacks l' = writebacks l @ [(p, memData l p)])"
    and "senderStates l' (nextState l) = Some s' \<Longrightarrow> st_noWB s' = dummy"
proof -
  define l0 where "l0 = (if dummy then l\<lparr>delayedFwdData := alloc (unat (req_size r)) p (delayedFwdData l)\<rparr>
    else l\<lparr>memData := alloc (unat (req_size r)) p (memData l)\<rparr>)"
  define st1 where "st1 = \<lparr>st_inst = p, st_pendingPacket = None, st_idx = i,
        st_outstanding = (if lo = None then 1 else 2), st_isLoad = True, st_noWB = dummy,
        st_isSplit = (lo \<noteq> None), st_pktToSend = False, st_cacheBlocked = False\<rparr>"
  define l1 where "l1 = l0\<lparr>senderStates := (senderStates l0)(nextState l := Some st1), nextState := Suc (nextState l)\<rparr>"
  have ns: "new_state st1 l0 = (nextState l, l1)" by (simp add: new_state_def l1_def l0_def)
  define i1 where "i1 = (if isDolmaRestricted (h p) then
                 (let i = (h p)\<lparr>dolmaPhysicalReq := Some r\<rparr>
                  in if lo = None then i else i\<lparr>dolmaPhysicalSreqLow := lo, dolmaPhysicalSreqHigh := hi\<rparr>)
               else h p)"
  have run: "do { (ok, miss, first, l2) \<leftarrow> send_load port r lo hi (nextState l) l1;
     (if \<not> ok then load_refused c miss was p (h(p := i1), q, if first then l2 else l2\<lparr>senderStates := (senderStates l2)(nextState l := None)\<rparr>)
      else if isTotalStoreBufferHit i1 then Some (h(p := i1), q, l2\<lparr>writebacks := writebacks l2 @ [(p, memData l2 p)]\<rparr>)
      else if isPartialStoreBufferHit i1 \<and> \<not> was then do { s \<leftarrow> st; stall_on i p s (h(p := i1), q, l2) }
      else Some (h(p := i1), q, l2)) } = Some (h', q', l')"
    using assms(1) ns unfolding access_memory_def Let_def case_prod_conv dummy_def l0_def i1_def st1_def by simp
  have i1: "isTotalStoreBufferHit i1 = isTotalStoreBufferHit (h p)" "isPartialStoreBufferHit i1 = isPartialStoreBufferHit (h p)"
    by (simp_all add: i1_def Let_def)
  from run obtain ok miss first l2 where sl: "send_load port r lo hi (nextState l) l1 = Some (ok, miss, first, l2)"
    by (cases "send_load port r lo hi (nextState l) l1") auto
  note e = send_load_effect[OF sl]
  have t1: "told l1 = (sent l, writebacks l, memData l0)" "senderStates l1 (nextState l) = Some st1" "st_noWB st1 = dummy"
    by (simp_all add: l1_def l0_def told_def st1_def)
  have t: "sent l2 = load_traffic port r lo hi (nextState l) (sent l)" "writebacks l2 = writebacks l" "memData l2 = memData l0"
    using e(1) t1(1) by (simp_all add: told_def)
  have n: "senderStates l2 (nextState l) = Some s' \<Longrightarrow> st_noWB s' = dummy" for s' using e(2) t1(2,3) by auto
  consider (no) "\<not> ok" | (tot) "ok" "isTotalStoreBufferHit i1" | (part) s where "ok" "\<not> isTotalStoreBufferHit i1"
      "stall_on i p s (h(p := i1), q, l2) = Some (h', q', l')"
    | (taken) "ok" "\<not> isTotalStoreBufferHit i1" "l' = l2"
    using run sl by (cases st) (auto split: if_splits)
  then have "sent l' = load_traffic port r lo hi (nextState l) (sent l) \<and>
    (writebacks l' = writebacks l \<or> (isTotalStoreBufferHit (h p) \<and> writebacks l' = writebacks l @ [(p, memData l p)])) \<and>
    (\<forall>s'. senderStates l' (nextState l) = Some s' \<longrightarrow> st_noWB s' = dummy)"
  proof cases
    case no
    then have lr: "load_refused c miss was p (h(p := i1), q, if first then l2 else l2\<lparr>senderStates := (senderStates l2)(nextState l := None)\<rparr>) = Some (h', q', l')"
      using run sl by simp
    show ?thesis using load_refused_frame[OF lr] t n by (cases first) auto
  next
    case tot
    then have "dummy" using i1 by (simp add: dummy_def)
    then have "memData l0 = memData l" by (simp add: l0_def)
    then show ?thesis using tot run sl t n i1 by auto
  next
    case part
    then show ?thesis using stall_on_effect[OF part(3)] t n by (auto simp: told_def)
  next
    case taken
    then show ?thesis using t n by simp
  qed
  then show "sent l' = load_traffic port r lo hi (nextState l) (sent l)"
    and "writebacks l' = writebacks l \<or> (isTotalStoreBufferHit (h p) \<and> writebacks l' = writebacks l @ [(p, memData l p)])"
    and "senderStates l' (nextState l) = Some s' \<Longrightarrow> st_noWB s' = dummy" by blast+
qed

lemma search_status:
  assumes "search_stores c p r l i h = Some (hit, h')"
  shows "status (h' p) - {DataInducer} = status (h p) - {DataInducer}"
proof -
  let ?P = "\<lambda>c p r l i h y. status (snd y p) - {DataInducer} = status (h p) - {DataInducer}"
  have "?P c p r l i h (hit, h')"
  proof (rule search_stores.raw_induct[of ?P, OF _ assms])
    fix loop c p r l i h y
    assume IH: "\<And>c p r l i h y. loop c p r l i h = Some y \<Longrightarrow> ?P c p r l i h y"
      and run: "(if i = storeWBIdx l then Some (NoHit, h)
      else do {
        let i = decr (SQEntries l) i;
        e \<leftarrow> vec_get (storeQueue l) i;
        s \<leftarrow> sq_inst e;
        (if no_forward e (h s) then do { h1 \<leftarrow> bypass c p e s h; loop c p r l i h1 }
         else do {
           check (effAddrValid (h s));
           (if covers r (h s) (sq_size e) then Some (TotalHit i, h)
            else if partly_covers r (h s) (sq_size e) then do { check (\<not> sq_completed e); Some (PartialHit i, h) }
            else loop c p r l i h) }) }) = Some y"
    have b: "bypass c p e s h = Some h1 \<Longrightarrow> status (h1 p) - {DataInducer} = status (h p) - {DataInducer}" for e s h1
      by (auto simp: bypass_def setDataInducer_def set_status_def bind_eq_Some_conv split: if_splits)
    show "?P c p r l i h y"
    proof (cases "i = storeWBIdx l")
      case False
      define j where "j = decr (SQEntries l) i"
      obtain e s where e: "vec_get (storeQueue l) j = Some e" "sq_inst e = Some s" using run False unfolding Let_def j_def by (auto simp: bind_eq_Some_conv)
      have step: "(if no_forward e (h s) then do { h1 \<leftarrow> bypass c p e s h; loop c p r l j h1 }
         else do {
           check (effAddrValid (h s));
           (if covers r (h s) (sq_size e) then Some (TotalHit j, h)
            else if partly_covers r (h s) (sq_size e) then do { check (\<not> sq_completed e); Some (PartialHit j, h) }
            else loop c p r l j h) }) = Some y"
        using run False unfolding Let_def j_def[symmetric] e bind.bind_lunit by simp
      show ?thesis
      proof (cases "no_forward e (h s)")
        case True
        then obtain h1 where "bypass c p e s h = Some h1" "loop c p r l j h1 = Some y" using step by (auto simp: bind_eq_Some_conv)
        then show ?thesis using IH[of c p r l j h1 y] b by simp
      qed (use step in \<open>auto dest: IH split: if_splits\<close>)
    qed (use run in auto)
  qed
  then show ?thesis by simp
qed

text \<open>A load that reaches the search of the store queue.\<close>

lemma read_search:
  assumes "lsq_ok (h, q, l)" and "lsq_read c port r lo hi i (h, q, l) = Some (NoFault, h', q', l')" and "\<not> flag_set MMAPPED_IPR r"
    and "vec_get (loadQueue l) i = Some (Some p)"
  obtains m k hit h1 where "wb_ok l k" "m \<le> nat (stores l)" "older_stores h l p = take m (sq l)" "waiting_stores h l p = drop k (take m (sq l))"
    "hit_spec h r l k m hit" "after_search c port r lo hi i p (isPartialStoreBufferHit (h p)) hit (h1, q, l) = Some (h', q', l')"
    "\<forall>e \<in> set (sq l). store_inst h1 e = store_inst h e" "status (h1 p) - {DataInducer} = status (h p) - {DataInducer}"
  using assms(2)
proof (cases rule: lsq_read_cases)
  case (ordered p)
  then show ?thesis by (simp add: order_fault_def)
next
  case (ipr p x y)
  then show ?thesis using assms(3) by simp
next
  case (mem p' h0 hit h1)
  have inv: "lsq_inv h l" "idx_ok h l" "lq_wf l" "sq_wf l" using assms(1) by (auto simp: lsq_ok_def lsq_inv_def)
  have pp: "p' = p" using mem(1) assms(4) by simp
  note mem = mem[unfolded pp]
  from load_position[OF inv(3) mem(1)] have p: "p \<in> set (lq l)" by (metis length_lq nth_mem)
  have o0: "only_inst p h h0" by (simp add: mem(4) only_inst_upd)
  then have o0x: "\<And>x. x \<noteq> p \<Longrightarrow> h0 x = h x" by (auto simp: only_inst_def)
  from search_hit[OF inv(1,2) p only_inst_seqs[OF o0] o0x mem(5)] obtain k m where k: "wb_ok l k" "k \<le> m"
    and m: "m \<le> nat (stores l)" "load_marked p h0 h1" "hit_spec h r l k m hit" "\<forall>t < m. store_seq h (sq l ! t) < seqNum (h p)"
      "\<forall>t. m \<le> t \<and> t < nat (stores l) \<longrightarrow> seqNum (h p) < store_seq h (sq l ! t)" .
  note o = older_stores_take[OF m(1,4,5)]
  have "\<forall>e \<in> set (sq l). the (sq_inst e) \<noteq> p" using load_store_distinct[OF _ inv(2) p] inv(1) by (simp add: lsq_inv_core)
  then have e: "\<forall>e \<in> set (sq l). store_inst h1 e = store_inst h e" using o0x load_marked_other[OF m(2)] by simp
  have "status (h0 p) = status (h p)" by (simp add: mem(4) set_flag_def)
  then have s: "status (h1 p) - {DataInducer} = status (h p) - {DataInducer}"
    using mem(5) search_status[of c p r l _ h0 hit h1] by (auto split: if_splits)
  show ?thesis by (rule that[OF k(1) m(1) o waiting_stores_take[OF inv(4) k(1) o] m(3) mem(6) e s])
qed

lemma hit_store:
  assumes "sq_wf l" and "m \<le> nat (stores l)" and "hit_spec h r l k m hit" and "hit = TotalHit x \<or> hit = PartialHit x"
  obtains e s t where "vec_get (storeQueue l) x = Some e" "sq_inst e = Some s" "e = sq l ! t" "last_match h r l k m t" "k \<le> t" "t < m"
    "e \<in> set (drop k (take m (sq l)))"
proof -
  from assms(3,4) obtain t where t: "x = (storeHead l + t) mod SQEntries l" "last_match h r l k m t" by (auto simp: hit_spec_def)
  have b: "k \<le> t" "t < m" "t < nat (stores l)" using t(2) assms(2) by (auto simp: last_match_def)
  have e: "vec_get (storeQueue l) x = Some (sq l ! t)" using sq_nth[OF assms(1) b(3)] t(1) by (simp add: vec_get_eq_Some)
  obtain s where s: "sq_inst (sq l ! t) = Some s" using assms(1) b(3) by (fastforce simp: sq_wf_def)
  have "sq l ! t \<in> set (drop k (take m (sq l)))" using b assms(2) by (auto simp: in_set_conv_nth intro!: exI[of _ "t - k"])
  then show ?thesis using that e s t(2) b by blast
qed

lemma status_kept: "status i - {DataInducer} = status j - {DataInducer} \<Longrightarrow> b \<noteq> DataInducer \<Longrightarrow> b \<in> status i \<longleftrightarrow> b \<in> status j"
  by blast

text \<open>
  The load forwards from a store (and sends nothing), waits, or sends packets. Whatever it writes back
  was forwarded; an answer that counts is for a load no store has bytes of.
\<close>

lemma read_effect:
  assumes "lsq_ok (h, q, l)" and "lsq_read c port r lo hi i (h, q, l) = Some (NoFault, h', q', l')" and "\<not> flag_set MMAPPED_IPR r"
    and "vec_get (loadQueue l) i = Some (Some p)" and "\<not> isTotalStoreBufferHit (h p)"
  shows "writebacks l' = writebacks l \<or> (\<exists>m k t. m \<le> nat (stores l) \<and> older_stores h l p = take m (sq l) \<and> last_match h r l k m t \<and>
      covers r (store_inst h (sq l ! t)) (sq_size (sq l ! t)) \<and>
      writebacks l' = writebacks l @ [(p, Filled (forwarded r (store_inst h (sq l ! t)) (sq l ! t)))])"
    and "senderStates l (nextState l) = None \<Longrightarrow> senderStates l' (nextState l) = Some s \<Longrightarrow> \<not> st_noWB s \<Longrightarrow>
      e \<in> set (waiting_stores h l p) \<Longrightarrow> \<not> matches h r e"
    and "isDolma c \<Longrightarrow> \<not> isSTT c \<Longrightarrow> \<not> isDolmaRestricted (h p) \<Longrightarrow> \<not> isPartialStoreBufferHit (h p) \<Longrightarrow>
      \<forall>e \<in> set (waiting_stores h l p). matches h r e \<longrightarrow> isDolmaRestricted (store_inst h e) \<Longrightarrow>
      sent l' = load_traffic port r lo hi (nextState l) (sent l)"
proof -
  let ?was = "isPartialStoreBufferHit (h p)"
  from read_search[OF assms(1-4)] obtain m k hit h1 where k: "wb_ok l k" and m: "m \<le> nat (stores l)" and o: "older_stores h l p = take m (sq l)"
    and w: "waiting_stores h l p = drop k (take m (sq l))" and hit: "hit_spec h r l k m hit"
    and run: "after_search c port r lo hi i p ?was hit (h1, q, l) = Some (h', q', l')"
    and e1: "\<forall>e \<in> set (sq l). store_inst h1 e = store_inst h e" and st: "status (h1 p) - {DataInducer} = status (h p) - {DataInducer}" .
  have wf: "sq_wf l" using assms(1) by (simp add: lsq_ok_def lsq_inv_def)
  have flags: "isTotalStoreBufferHit (h1 p) = isTotalStoreBufferHit (h p)" "isPartialStoreBufferHit (h1 p) = isPartialStoreBufferHit (h p)"
    "isDolmaRestricted (h1 p) = isDolmaRestricted (h p)"
    using status_kept[OF st] by (simp_all add: isDolmaRestricted_def isControlRestricted_def isDataRestricted_def)
  let ?W = "\<exists>m k t. m \<le> nat (stores l) \<and> older_stores h l p = take m (sq l) \<and> last_match h r l k m t \<and>
      covers r (store_inst h (sq l ! t)) (sq_size (sq l ! t)) \<and>
      writebacks l' = writebacks l @ [(p, Filled (forwarded r (store_inst h (sq l ! t)) (sq l ! t)))]"
  let ?N = "senderStates l (nextState l) = None \<longrightarrow> (\<forall>s. senderStates l' (nextState l) = Some s \<longrightarrow> st_noWB s)"
  let ?R = "isDolma c \<and> \<not> isSTT c \<and> \<not> isDolmaRestricted (h p) \<and> \<not> ?was \<and>
    (\<forall>e \<in> set (waiting_stores h l p). matches h r e \<longrightarrow> isDolmaRestricted (store_inst h e))"
  let ?T = "sent l' = load_traffic port r lo hi (nextState l) (sent l)"
  have "(writebacks l' = writebacks l \<or> ?W) \<and> (?N \<or> (\<forall>e \<in> set (waiting_stores h l p). \<not> matches h r e)) \<and> (?R \<longrightarrow> ?T)"
  proof (cases hit)
    case NoHit
    then have a: "access_memory c port r lo hi i p None ?was (h1, q, l) = Some (h', q', l')" using run by (simp add: after_search_def)
    have "\<not> matches h r e" if "e \<in> set (waiting_stores h l p)" for e
    proof -
      obtain u where "u < m - k" "e = sq l ! (k + u)" using \<open>e \<in> _\<close> m unfolding w by (auto simp: in_set_conv_nth)
      then show ?thesis using hit NoHit by (auto simp: hit_spec_def)
    qed
    then show ?thesis using access_memory_effect[OF a] flags assms(5) by blast
  next
    case (TotalHit x)
    from hit_store[OF wf m hit, of x] TotalHit obtain e s t where e: "vec_get (storeQueue l) x = Some e" "sq_inst e = Some s"
      "e = sq l ! t" "last_match h r l k m t" "k \<le> t" "t < m" "e \<in> set (drop k (take m (sq l)))" by blast
    have es: "e \<in> set (sq l)" using e(7) by (meson in_set_dropD in_set_takeD)
    then have h1s: "h1 s = store_inst h e" using e1 e(2) by (metis option.sel)
    have cov: "covers r (store_inst h (sq l ! t)) (sq_size (sq l ! t))"
    proof -
      from hit TotalHit obtain t' where t': "x = (storeHead l + t') mod SQEntries l" "last_match h r l k m t'"
        "covers r (store_inst h (sq l ! t')) (sq_size (sq l ! t'))" by (auto simp: hit_spec_def)
      have "sq l ! t' = e" using sq_nth[OF wf, of t'] t' m e(1) by (auto simp: last_match_def vec_get_eq_Some)
      then show ?thesis using t'(3) e(3) by simp
    qed
    let ?l = "l\<lparr>memData := (memData l)(p := Filled (forwarded r (h1 s) e))\<rparr>"
    show ?thesis
    proof (cases "isDolma c \<and> isDolmaRestricted (h1 s) \<and> \<not> isDolmaRestricted (h1 p)")
      case True
      let ?h = "h1(p := set_status TotalStoreBufferHit (h1 p))"
      have a: "access_memory c port r lo hi i p (Some s) ?was (?h, q, ?l) = Some (h', q', l')"
        using run TotalHit e(1,2) True by (simp add: after_search_def Let_def)
      note ae = access_memory_effect[OF a]
      have "isTotalStoreBufferHit (?h p)" by (simp add: set_status_def)
      then have n: ?N using ae(3) by auto
      have "writebacks l' = writebacks l \<or> writebacks l' = writebacks l @ [(p, Filled (forwarded r (store_inst h (sq l ! t)) (sq l ! t)))]"
        using ae(2) h1s e(3) by auto
      then show ?thesis using n ae(1) m o e(4) cov by auto
    next
      case False
      have l': "l' = ?l\<lparr>writebacks := writebacks ?l @ [(p, memData ?l p)]\<rparr>"
        using run TotalHit e(1,2) False unfolding after_search_def by (auto simp: Let_def)
      then have "writebacks l' = writebacks l @ [(p, Filled (forwarded r (store_inst h (sq l ! t)) (sq l ! t)))]" using h1s e(3) by simp
      moreover have ?N using l' by simp
      moreover have "\<not> ?R" using False e(4,7) w h1s flags(3) e(3) by (auto simp: last_match_def)
      ultimately show ?thesis using m o e(4) cov by blast
    qed
  next
    case (PartialHit x)
    from hit_store[OF wf m hit, of x] PartialHit obtain e s t where e: "vec_get (storeQueue l) x = Some e" "sq_inst e = Some s"
      "e = sq l ! t" "last_match h r l k m t" "k \<le> t" "t < m" "e \<in> set (drop k (take m (sq l)))" by blast
    have es: "e \<in> set (sq l)" using e(7) by (meson in_set_dropD in_set_takeD)
    then have h1s: "h1 s = store_inst h e" using e1 e(2) by (metis option.sel)
    show ?thesis
    proof (cases "isDolma c \<and> \<not> isSTT c \<and> isDolmaRestricted (h1 s) \<and> \<not> isDolmaRestricted (h1 p) \<and> \<not> ?was")
      case True
      let ?h = "h1(p := set_status PartialStoreBufferHit (h1 p))"
      have a: "access_memory c port r lo hi i p (Some s) ?was (?h, q, l) = Some (h', q', l')"
        using run PartialHit e(1,2) True by (simp add: after_search_def)
      note ae = access_memory_effect[OF a]
      have "isPartialStoreBufferHit (?h p)" "isTotalStoreBufferHit (?h p) = isTotalStoreBufferHit (h p)" using flags by (simp_all add: set_status_def)
      then show ?thesis using ae True assms(5) by auto
    next
      case False
      then have "stall_on i p s (h1, q, l) = Some (h', q', l')" using run PartialHit e(1,2) unfolding after_search_def by auto
      moreover have "\<not> ?R" using False e(4,7) w h1s flags(3) e(3) by (auto simp: last_match_def)
      ultimately show ?thesis using stall_on_effect[of i p s h1 q l h' q' l'] by (auto simp: told_def)
    qed
  qed
  then show "writebacks l' = writebacks l \<or> ?W"
    and "senderStates l (nextState l) = None \<Longrightarrow> senderStates l' (nextState l) = Some s \<Longrightarrow> \<not> st_noWB s \<Longrightarrow>
      e \<in> set (waiting_stores h l p) \<Longrightarrow> \<not> matches h r e"
    and "isDolma c \<Longrightarrow> \<not> isSTT c \<Longrightarrow> \<not> isDolmaRestricted (h p) \<Longrightarrow> \<not> ?was \<Longrightarrow>
      \<forall>e \<in> set (waiting_stores h l p). matches h r e \<longrightarrow> isDolmaRestricted (store_inst h e) \<Longrightarrow> ?T" by blast+
qed

end
