(* ===== verification/Lsq_Props.thy ===== *)
theory Lsq_Props
  imports Lsq_Memory Iq_Wakeup
begin

text \<open>
  What the load/store unit promises: it implements the two program-ordered queues, a load reads what
  the older stores wrote, stores that are restricted do not show in the traffic of loads that are not,
  and a store that finds a younger load with its bytes reports the oldest one.
\<close>

section \<open>Ordering violations\<close>

text \<open>
  Two accesses share a block of \<open>2 ^ s\<close> bytes when a byte of the one and a byte of the other lie in it. An access fits when
  it has a byte and does not pass the end of the address space.
\<close>

definition shares_block :: "nat \<Rightarrow> dyn_inst \<Rightarrow> dyn_inst \<Rightarrow> bool" where
  "shares_block s i j \<longleftrightarrow> (\<exists>a < unat (effSize i). \<exists>b < unat (effSize j). (unat (effAddr i) + a) div 2 ^ s = (unat (effAddr j) + b) div 2 ^ s)"

definition access_fits :: "dyn_inst \<Rightarrow> bool" where
  "access_fits i \<longleftrightarrow> 0 < unat (effSize i) \<and> unat (effAddr i) + unat (effSize i) \<le> 2 ^ 64"

lemma div_intervals:
  fixes x y k :: nat
  assumes "0 < n" "0 < m" "0 < k"
  shows "(\<exists>a < n. \<exists>b < m. (x + a) div k = (y + b) div k) \<longleftrightarrow> x div k \<le> (y + m - 1) div k \<and> y div k \<le> (x + n - 1) div k"
proof
  assume "\<exists>a < n. \<exists>b < m. (x + a) div k = (y + b) div k"
  then obtain a b where ab: "a < n" "b < m" "(x + a) div k = (y + b) div k" by blast
  have "x div k \<le> (x + a) div k" "(y + b) div k \<le> (y + m - 1) div k" "y div k \<le> (y + b) div k" "(x + a) div k \<le> (x + n - 1) div k"
    using ab(1,2) by (auto intro!: div_le_mono)
  then show "x div k \<le> (y + m - 1) div k \<and> y div k \<le> (x + n - 1) div k" using ab(3) by simp
next
  have in_block: "\<exists>b < m. (y + b) div k = B" if "y div k \<le> B" "B \<le> (y + m - 1) div k" "0 < m" for y m B :: nat
  proof (cases "y div k = B")
    case False
    then have "y div k < B" using that(1) by simp
    then have "y < B * k" using assms(3) by (simp add: div_less_iff_less_mult)
    moreover have "B * k \<le> y + m - 1" using that(2) assms(3) by (simp add: less_eq_div_iff_mult_less_eq)
    ultimately show ?thesis using assms(3) that(3) by (intro exI[of _ "B * k - y"]) auto
  qed (use that in \<open>auto intro!: exI[of _ 0]\<close>)
  assume o: "x div k \<le> (y + m - 1) div k \<and> y div k \<le> (x + n - 1) div k"
  have "x div k \<le> (x + n - 1) div k" "y div k \<le> (y + m - 1) div k" using assms by (auto intro!: div_le_mono)
  then show "\<exists>a < n. \<exists>b < m. (x + a) div k = (y + b) div k"
    using in_block[of x "max (x div k) (y div k)" n] in_block[of y "max (x div k) (y div k)" m] o assms by fastforce
qed

lemma unat_last_byte:
  assumes "access_fits i"
  shows "unat (effAddr i + ucast (effSize i) - 1) = unat (effAddr i) + unat (effSize i) - 1"
proof -
  let ?n = "ucast (effSize i) :: addr"
  have "unat (effSize i) < 2 ^ 8" using unsigned_less[of "effSize i"] by simp
  then have n: "unat ?n = unat (effSize i)" by (simp add: unsigned_ucast_eq take_bit_nat_eq_self)
  then have "?n \<noteq> 0" using assms by (auto simp: access_fits_def)
  then have "unat (?n - 1) = unat (effSize i) - 1" using n by (simp add: unat_minus_one)
  moreover have "unat (effAddr i + (?n - 1)) = unat (effAddr i) + unat (?n - 1)"
    using assms calculation by (subst unat_add_lem[symmetric]) (auto simp: access_fits_def)
  ultimately show ?thesis using assms by (simp add: access_fits_def add_diff_eq)
qed

lemma blocks_overlap:
  assumes "access_fits i" "access_fits j"
  shows "first_block l i \<le> last_block l j \<and> first_block l j \<le> last_block l i \<longleftrightarrow> shares_block (depCheckShift l) i j"
proof -
  have "unat (first_block l x) = unat (effAddr x) div 2 ^ depCheckShift l" for x
    unfolding first_block_def unat_drop_bit_eq by (simp add: drop_bit_eq_div)
  moreover have "unat (last_block l x) = (unat (effAddr x) + unat (effSize x) - 1) div 2 ^ depCheckShift l" if "access_fits x" for x
    unfolding last_block_def unat_drop_bit_eq unat_last_byte[OF that] by (simp add: drop_bit_eq_div)
  ultimately show ?thesis
    using assms unfolding shares_block_def word_le_nat_alt by (subst div_intervals) (auto simp: access_fits_def)
qed

text \<open>
  A younger load that may have read before the store wrote: it has an address and shares a block with
  the store. The search passes over strictly ordered and stalled loads.
\<close>

definition load_conflicts :: "inst_heap \<Rightarrow> lsq_unit \<Rightarrow> iptr \<Rightarrow> iptr \<Rightarrow> bool" where
  "load_conflicts h l p ld \<longleftrightarrow> effAddrValid (h ld) \<and> \<not> strictlyOrdered (h ld) \<and> \<not> isDolmaStalled (h ld) \<and>
     shares_block (depCheckShift l) (h ld) (h p)"

definition younger_loads :: "inst_heap \<Rightarrow> lsq_unit \<Rightarrow> iptr \<Rightarrow> iptr list" where
  "younger_loads h l p = filter (\<lambda>ld. seqNum (h p) < seqNum (h ld)) (lq l)"

text \<open>What a store reports: the oldest of the younger loads, unless an older violation is known.\<close>

definition store_report :: "dolma_cpu \<Rightarrow> inst_heap \<Rightarrow> lsq_unit \<Rightarrow> iptr \<Rightarrow> iptr list \<Rightarrow> fault \<times> inst_heap \<times> lsq_unit" where
  "store_report c h l p lds = (case find (load_conflicts h l p) lds of
     None \<Rightarrow> (NoFault, h, l)
   | Some ld \<Rightarrow> if (case memDepViolator l of None \<Rightarrow> False | Some v \<Rightarrow> seqNum (h v) < seqNum (h ld)) then (NoFault, h, l)
       else (order_fault,
             (if isDolma c \<and> \<not> isDolmaConservative c \<and> \<not> isSTT c then h(p := (h p)\<lparr>violatorSeqNum := seqNum (h ld)\<rparr>) else h),
             l\<lparr>memDepViolator := Some ld\<rparr>))"

lemma checkViolations_report:
  assumes "lq_wf l" and "\<not> isLoad (h p)" and "m \<le> nat (loads l)"
    and "access_fits (h p)" and "\<forall>ld \<in> set (drop m (lq l)). effAddrValid (h ld) \<longrightarrow> access_fits (h ld)"
  shows "checkViolations c ((loadHead l + m) mod LQEntries l) p h l = Some (store_report c h l p (drop m (lq l)))"
  using assms(3,5)
proof (induction "nat (loads l) - m" arbitrary: m)
  case 0
  then have "loadTail l = (loadHead l + m) mod LQEntries l" using assms(1) by (simp add: lq_wf_def)
  then show ?case using 0 by (subst checkViolations.simps) (simp add: store_report_def)
next
  case (Suc d)
  let ?n = "LQEntries l" and ?ld = "lq l ! m"
  have m: "m < nat (loads l)" "d = nat (loads l) - Suc m" using Suc.hyps(2) by auto
  have w: "nat (loads l) < ?n" "0 < ?n" "loadTail l = (loadHead l + nat (loads l)) mod ?n" using assms(1) by (auto simp: lq_wf_def)
  have ne: "(loadHead l + m) mod ?n \<noteq> loadTail l" using add_mod_inj[of "loadHead l" m ?n "nat (loads l)"] w m(1) by auto
  have v: "vec_get (loadQueue l) ((loadHead l + m) mod ?n) = Some (Some ?ld)"
    using lq_nth[OF assms(1) m(1)] by (simp add: vec_get_eq_Some)
  have nxt: "incr ?n ((loadHead l + m) mod ?n) = (loadHead l + Suc m) mod ?n" using incr_window[OF w(2)] by simp
  have drop: "drop m (lq l) = ?ld # drop (Suc m) (lq l)" using m(1) by (simp add: Cons_nth_drop_Suc)
  have IH: "checkViolations c ((loadHead l + Suc m) mod ?n) p h l = Some (store_report c h l p (drop (Suc m) (lq l)))"
    using Suc.hyps(1)[OF m(2)] m(1) Suc.prems(2) drop by simp
  have fit: "effAddrValid (h ?ld) \<Longrightarrow> shares_block (depCheckShift l) (h ?ld) (h p) \<longleftrightarrow>
      first_block l (h ?ld) \<le> last_block l (h p) \<and> first_block l (h p) \<le> last_block l (h ?ld)"
    using Suc.prems(2) assms(4) blocks_overlap[of "h ?ld" "h p" l] unfolding drop by simp
  show ?case
  proof (cases "load_conflicts h l p ?ld")
    case True
    then show ?thesis using ne v assms(2) fit unfolding drop
      by (subst checkViolations.simps) (auto simp: store_report_def load_conflicts_def Let_def split: option.splits)
  next
    case False
    then have "checkViolations c ((loadHead l + m) mod ?n) p h l = checkViolations c ((loadHead l + Suc m) mod ?n) p h l"
      using ne v assms(2) nxt fit by (subst checkViolations.simps) (auto simp: load_conflicts_def Let_def)
    then show ?thesis using IH False unfolding drop by (simp add: store_report_def)
  qed
qed

lemma younger_loads_drop:
  assumes "m \<le> nat (loads l)" and "\<forall>x \<in> set (take m (load_seqs h l)). x < s" and "\<forall>x \<in> set (drop m (load_seqs h l)). s < x"
  shows "filter (\<lambda>ld. s < seqNum (h ld)) (lq l) = drop m (lq l)"
proof -
  have "filter (\<lambda>ld. s < seqNum (h ld)) (take m (lq l)) = []" using assms(2) by (auto simp: take_map filter_empty_conv not_less intro: less_imp_le)
  moreover have "filter (\<lambda>ld. s < seqNum (h ld)) (drop m (lq l)) = drop m (lq l)" using assms(3) by (auto simp: drop_map filter_id_conv)
  ultimately show ?thesis by (metis append_Nil append_take_drop_id filter_append)
qed

section \<open>A strictly ordered store\<close>

lemma ordered_store_stops:
  assumes "isDolma c" "\<not> isDolmaConservative c" "\<not> isSTT c" and "sq_wf l" and "k \<le> t" "t < nat (stores l)"
    and "storeWBIdx l = (storeHead l + k) mod SQEntries l"
    and "strictlyOrdered (store_inst h (sq l ! t))" "effAddrValid (store_inst h (sq l ! t))"
  shows "search_stores c p r l ((storeHead l + Suc t) mod SQEntries l) h = None"
proof -
  let ?n = "SQEntries l" and ?e = "sq l ! t"
  have w: "nat (stores l) < ?n" "0 < ?n" using assms(4) by (auto simp: sq_wf_def)
  have ne: "(storeHead l + Suc t) mod ?n \<noteq> storeWBIdx l"
    using add_mod_inj[of "storeHead l" "Suc t" ?n k] assms(5-7) w by auto
  have i: "decr ?n ((storeHead l + Suc t) mod ?n) = (storeHead l + t) mod ?n" by (rule decr_window[OF w(2)])
  have e: "vec_get (storeQueue l) ((storeHead l + t) mod ?n) = Some ?e" using sq_nth[OF assms(4,6)] by (simp add: vec_get_eq_Some)
  obtain s where s: "sq_inst ?e = Some s" using assms(4,6) by (fastforce simp: sq_wf_def)
  have "no_forward ?e (h s)" "bypass c p ?e s h = None" using assms(1-3,8,9) s by (simp_all add: no_forward_def bypass_def)
  then show ?thesis using ne i e s by (subst search_stores.simps) (simp add: Let_def)
qed

section \<open>Examples\<close>

text \<open>A store of eight bytes, and a load of them.\<close>

definition ex_lheap :: "status_bit set \<Rightarrow> addr \<Rightarrow> inst_heap" where
  "ex_lheap rs a = (\<lambda>p. if p = 1 then (ex_inst 1 {IsStore, IsMemRef} rs)\<lparr>effAddr := a, effSize := 8, instFlags := {EffAddrValid}\<rparr>
     else (ex_inst (of_nat p) {IsLoad, IsMemRef} {})\<lparr>effAddr := 0, effSize := 8, instFlags := {EffAddrValid}\<rparr>)"

definition ex_lsq :: lsq_unit where
  "ex_lsq = the (lsq_init 4 4 0 False 2 True 64)"

definition ex_store :: "status_bit set \<Rightarrow> addr \<Rightarrow> inst_heap \<times> lsq_unit" where
  "ex_store rs a = the (lsq_insert 1 (ex_lheap rs a, ex_lsq))"

definition ex_load :: "status_bit set \<Rightarrow> addr \<Rightarrow> inst_heap \<times> lsq_unit" where
  "ex_load rs a = the (lsq_insert 2 (ex_store rs a))"

definition ex_written :: "status_bit set \<Rightarrow> addr \<Rightarrow> lsq_unit" where
  "ex_written rs a = the (lsq_write (ex_req\<lparr>req_vaddr := a\<rparr>) None None (map of_nat [1..<9]) 0 (snd (ex_load rs a)))"

definition ex_port :: dcache_port where
  "ex_port = (\<lambda>_ pkt. (True, pkt_req pkt))"

declare search_stores.simps [code] checkViolations.simps [code] commitStores_loop.simps [code] commitLoads_loop.simps [code]

lemma Some_the: "x \<noteq> None \<Longrightarrow> x = Some (the x)"
  by auto

lemma lsq_init_ok:
  assumes "lsq_init nl ns shift chk ports tso line = Some l"
  shows "lsq_ok (h, q, l) \<and> abs_lsq h l = ([], [])"
proof -
  have f: "loads l = 0" "stores l = 0" "loadHead l = 0" "loadTail l = 0" "storeHead l = 0" "storeTail l = 0" "storeWBIdx l = 0"
    "LQEntries l = Suc nl" "SQEntries l = Suc ns" "length (loadQueue l) = Suc nl" "length (storeQueue l) = Suc ns"
    "\<not> stalled l" "\<not> hasPendingPkt l" "\<not> isStoreBlocked l" "loadQueue l = replicate (Suc nl) None"
    using assms by (auto simp: lsq_init_def lsq_resetState_def split: if_splits)
  have e: "lq l = []" "sq l = []" using length_lq[of l] length_sq[of l] f by (simp_all del: length_lq length_sq)
  have "wb_ok l 0" using f e by (simp add: wb_ok_def)
  moreover have "lq_wf l" using f e by (auto simp: lq_wf_def only_window_def window_def nth_Cons')
  moreover have "sq_wf l" using f e by (simp add: sq_wf_def)
  moreover have "idx_ok h l" using f e by (simp add: idx_ok_def commit_order_def own_places_def)
  ultimately show ?thesis using f e by (auto simp: lsq_ok_def lsq_inv_def abs_lsq_def mq_ok_def stall_ok_def)
qed

lemma ex_lsq_init: "lsq_init 4 4 0 False 2 True 64 = Some ex_lsq"
  unfolding ex_lsq_def by (rule Some_the) code_simp

definition ex_ready :: "status_bit set \<Rightarrow> addr \<Rightarrow> bool" where
  "ex_ready rs a \<longleftrightarrow> lsq_insert 1 (ex_lheap rs a, ex_lsq) \<noteq> None \<and> youngest (ex_lheap rs a) ex_lsq 1 \<and> \<not> isLoad (ex_lheap rs a 1) \<and>
     lsq_insert 2 (ex_store rs a) \<noteq> None \<and> youngest (fst (ex_store rs a)) (snd (ex_store rs a)) 2 \<and> isLoad (fst (ex_store rs a) 2) \<and>
     lsq_write (ex_req\<lparr>req_vaddr := a\<rparr>) None None (map of_nat [1..<9]) 0 (snd (ex_load rs a)) \<noteq> None \<and>
     map (\<lambda>e. nat (sqIdx (fst (ex_load rs a) (the (sq_inst e))))) (sq (snd (ex_load rs a))) = [0]"

lemma ex_steps:
  assumes "ex_ready rs a"
  shows "lsq_step c port (Dispatch_Store (seqNum (ex_lheap rs a 1))) (ex_lheap rs a, q, ex_lsq) (fst (ex_store rs a), q, snd (ex_store rs a))"
    and "lsq_step c port (Dispatch_Load (seqNum (fst (ex_store rs a) 2))) (fst (ex_store rs a), q, snd (ex_store rs a)) (fst (ex_load rs a), q, snd (ex_load rs a))"
    and "lsq_step c port Access (fst (ex_load rs a), q, snd (ex_load rs a)) (fst (ex_load rs a), q, ex_written rs a)"
proof -
  note r = assms[unfolded ex_ready_def]
  have 1: "lsq_insert 1 (ex_lheap rs a, ex_lsq) = Some (fst (ex_store rs a), snd (ex_store rs a))" using r by (auto simp: ex_store_def)
  show "lsq_step c port (Dispatch_Store (seqNum (ex_lheap rs a 1))) (ex_lheap rs a, q, ex_lsq) (fst (ex_store rs a), q, snd (ex_store rs a))"
    by (rule lsq_step.dispatch_store[OF 1]) (use r in auto)
  have 2: "lsq_insert 2 (fst (ex_store rs a), snd (ex_store rs a)) = Some (fst (ex_load rs a), snd (ex_load rs a))" using r by (auto simp: ex_load_def)
  show "lsq_step c port (Dispatch_Load (seqNum (fst (ex_store rs a) 2))) (fst (ex_store rs a), q, snd (ex_store rs a)) (fst (ex_load rs a), q, snd (ex_load rs a))"
    by (rule lsq_step.dispatch_load[OF 2]) (use r in auto)
  obtain e where e: "e \<in> set (sq (snd (ex_load rs a)))" "nat (sqIdx (fst (ex_load rs a) (the (sq_inst e)))) = 0" using r by (auto simp: map_eq_Cons_conv)
  have 3: "lsq_write (ex_req\<lparr>req_vaddr := a\<rparr>) None None (map of_nat [1..<9]) 0 (snd (ex_load rs a)) = Some (ex_written rs a)"
    using r unfolding ex_written_def by (intro Some_the) blast
  show "lsq_step c port Access (fst (ex_load rs a), q, snd (ex_load rs a)) (fst (ex_load rs a), q, ex_written rs a)"
    by (rule lsq_step.write_store[where h = "fst (ex_load rs a)" and e = e, OF 3[folded e(2)] e(1)])
qed

lemma ex_lsq_ok: "ex_ready rs a \<Longrightarrow> lsq_ok (fst (ex_load rs a), q, ex_written rs a)"
  using lsq_init_ok[OF ex_lsq_init] lsq_step_ok[OF ex_steps(1)] lsq_step_ok[OF ex_steps(2)] lsq_step_ok[OF ex_steps(3)] by blast

lemma ex_ready_plain: "ex_ready {} 0"
  by code_simp

lemma ex_ready_restricted: "ex_ready {DataRestricted} 0" "ex_ready {DataRestricted} 64"
  by code_simp+

section \<open>Properties\<close>

text \<open>
  C31: from the initial state, whatever the pipeline, the cache and the other stages do, the unit behaves
  as the two lists of the specification: loads and stores enter in program order at the back, committed
  loads leave at the front, a squash removes exactly the younger instructions that are not committed
  stores, only a committed store completes, and stores leave in order once they completed. Both lists
  stay in program order, and the committed stores come first. The calls are those of \<open>lsq_step\<close>: dispatch in program order, a load
  that waits for a store is not committed, and the memory answers for stores that it was handed.
\<close>

theorem lsq_refines_queues:
  assumes "lsq_init nl ns shift chk ports tso line = Some l0"
    and "run (lsq_step c port) ops (h, q, l0) (h', q', l)"
  shows "run mq_does ops ([], []) (abs_lsq h' l) \<and> mq_ok (abs_lsq h' l)"
proof -
  have i: "lsq_ok (h, q, l0)" "abs_state (h, q, l0) = ([], [])" using lsq_init_ok[OF assms(1), of h q] by (simp_all add: abs_state_def)
  have "run mq_does ops ([], []) (abs_state (h', q', l))" using lsq_sim.run_simulates[OF assms(2) i(1)] i(2) by simp
  moreover have "lsq_ok (h', q', l)" by (rule lsq_sim.run_keeps[OF assms(2) i(1)])
  ultimately show ?thesis by (simp add: abs_state_def lsq_ok_def lsq_inv_def)
qed

theorem lsq_refines_queues_witness:
  "\<exists>h l. run (lsq_step ex_cpu ex_port) [Dispatch_Store 1, Dispatch_Load 2, Access] (ex_lheap {} 0, ex_iq, ex_lsq) (h, ex_iq, l) \<and>
     abs_lsq h l = ([2], [(1, False, False)])"
proof -
  have n: "seqNum (ex_lheap {} 0 1) = 1" "seqNum (fst (ex_store {} 0) 2) = 2" by code_simp+
  have r: "run (lsq_step ex_cpu ex_port) [Dispatch_Store 1, Dispatch_Load 2, Access] (ex_lheap {} 0, ex_iq, ex_lsq)
    (fst (ex_load {} 0), ex_iq, ex_written {} 0)"
    using ex_steps[OF ex_ready_plain, unfolded n] by (auto intro!: exI)
  have "run mq_does [Dispatch_Store 1, Dispatch_Load 2, Access] ([], []) (abs_lsq (fst (ex_load {} 0)) (ex_written {} 0))"
    using lsq_refines_queues[OF ex_lsq_init r] by blast
  then have "abs_lsq (fst (ex_load {} 0)) (ex_written {} 0) = ([2], [(1, False, False)])" by simp
  then show ?thesis using r by blast
qed

text \<open>
  C32: the data a load takes from the store queue are the bytes that any memory holds at the load's
  address after the older stores of the queue, done in program order. A store without an address
  yet, a strictly ordered store and a cache maintenance operation do not write in this sense.
\<close>

theorem load_reads_older_stores:
  assumes "lsq_ok (h, q, l)" and "lsq_read c port r lo hi i (h, q, l) = Some (NoFault, h', q', l')"
    and "vec_get (loadQueue l) i = Some (Some p)" and "\<not> flag_set MMAPPED_IPR r" and "\<not> isTotalStoreBufferHit (h p)"
    and "req_fits r" and "\<forall>e \<in> set (sq l). store_fits h e"
  shows "writebacks l' = writebacks l \<or>
    (\<exists>bytes. writebacks l' = writebacks l @ [(p, Filled bytes)] \<and> length bytes = unat (req_size r) \<and>
       (\<forall>j < unat (req_size r). \<forall>mem. bytes ! j = memory_after h (older_stores h l p) mem (unat (req_vaddr r) + j)))"
proof (cases "writebacks l' = writebacks l")
  case False
  then obtain m k t where t: "m \<le> nat (stores l)" "older_stores h l p = take m (sq l)" "last_match h r l k m t"
    "covers r (store_inst h (sq l ! t)) (sq_size (sq l ! t))"
    "writebacks l' = writebacks l @ [(p, Filled (forwarded r (store_inst h (sq l ! t)) (sq l ! t)))]"
    using read_effect(1)[OF assms(1,2,4,3,5)] by blast
  have "sq l ! t \<in> set (sq l)" "\<not> no_forward (sq l ! t) (store_inst h (sq l ! t))" using t(1,3) by (auto simp: last_match_def matches_def)
  then have "length (forwarded r (store_inst h (sq l ! t)) (sq l ! t)) = unat (req_size r)"
    using covers_forwarded(1)[where h = h and e = "sq l ! t", OF assms(6) _ _ t(4)] assms(7) by blast
  then show ?thesis using t(5) last_match_memory[OF t(3,1,4) assms(6,7)] t(2) by auto
qed simp

theorem load_reads_older_stores_witness:
  "\<exists>h' q' l'. lsq_read ex_cpu ex_port ex_req None None 0 (fst (ex_load {} 0), ex_iq, ex_written {} 0) = Some (NoFault, h', q', l') \<and>
     (\<exists>bytes. writebacks l' = [(2, Filled bytes)] \<and>
        bytes ! 3 = memory_after (fst (ex_load {} 0)) (older_stores (fst (ex_load {} 0)) (ex_written {} 0) 2) (\<lambda>_. 0) 3)"
proof -
  let ?h = "fst (ex_load {} 0)" and ?l = "ex_written {} 0"
  have "map_option (\<lambda>(f, h', q', l'). (f = NoFault, map fst (writebacks l'))) (lsq_read ex_cpu ex_port ex_req None None 0 (?h, ex_iq, ?l)) = Some (True, [2])"
    by code_simp
  then obtain h' q' l' where r: "lsq_read ex_cpu ex_port ex_req None None 0 (?h, ex_iq, ?l) = Some (NoFault, h', q', l')"
    "map fst (writebacks l') = [2]" by auto
  have "vec_get (loadQueue ?l) 0 = Some (Some 2)" "\<not> flag_set MMAPPED_IPR ex_req" "\<not> isTotalStoreBufferHit (?h 2)" "req_fits ex_req"
    "\<forall>e \<in> set (sq ?l). store_fits ?h e" "writebacks ?l = []" "3 < unat (req_size ex_req)" "unat (req_vaddr ex_req) = 0" by code_simp+
  then show ?thesis
    using load_reads_older_stores[OF ex_lsq_ok[OF ex_ready_plain] r(1), of 2] r by (auto simp del: One_nat_def)
qed

text \<open>
  C33: a load takes its data from the memory only when none of the older stores that wait in the queue
  has a byte of it: a dummy access, whose answer is dropped, is marked as such.
\<close>

theorem memory_load_passes_no_store:
  assumes "lsq_ok (h, q, l)" and "lsq_read c port r lo hi i (h, q, l) = Some (NoFault, h', q', l')"
    and "vec_get (loadQueue l) i = Some (Some p)" and "\<not> flag_set MMAPPED_IPR r" and "\<not> isTotalStoreBufferHit (h p)"
    and "req_fits r" and "\<forall>e \<in> set (sq l). store_fits h e"
    and "senderStates l (nextState l) = None" and "senderStates l' (nextState l) = Some s" and "\<not> st_noWB s"
    and "e \<in> set (waiting_stores h l p)" and "j < unat (req_size r)"
  shows "\<not> touches h e (unat (req_vaddr r) + j)"
proof -
  have "\<not> matches h r e" by (rule read_effect(2)[OF assms(1,2,4,3,5,8-11)])
  moreover have "e \<in> set (sq l)" using assms(11) by (auto simp: waiting_stores_def older_stores_def dest: in_set_dropD)
  ultimately show ?thesis using shares_matches[OF assms(6) _ _ assms(12)] assms(7) by blast
qed

theorem memory_load_passes_no_store_witness:
  "\<exists>h' q' l'. lsq_read ex_cpu ex_port ex_req None None 0 (fst (ex_load {DataRestricted} 64), ex_iq, ex_written {DataRestricted} 64) = Some (NoFault, h', q', l') \<and>
     map_option st_noWB (senderStates l' 0) = Some False \<and>
     (\<forall>e \<in> set (sq (ex_written {DataRestricted} 64)). \<not> touches (fst (ex_load {DataRestricted} 64)) e 7)"
proof -
  let ?h = "fst (ex_load {DataRestricted} 64)" and ?l = "ex_written {DataRestricted} 64"
  have "map_option (\<lambda>(f, h', q', l'). (f = NoFault, map_option st_noWB (senderStates l' 0)))
      (lsq_read ex_cpu ex_port ex_req None None 0 (?h, ex_iq, ?l)) = Some (True, Some False)"
    by code_simp
  then obtain h' q' l' s where r: "lsq_read ex_cpu ex_port ex_req None None 0 (?h, ex_iq, ?l) = Some (NoFault, h', q', l')"
    "senderStates l' 0 = Some s" "\<not> st_noWB s" by auto
  have f: "vec_get (loadQueue ?l) 0 = Some (Some 2)" "\<not> flag_set MMAPPED_IPR ex_req" "\<not> isTotalStoreBufferHit (?h 2)" "req_fits ex_req"
    "\<forall>e \<in> set (sq ?l). store_fits ?h e" by code_simp+
  have n: "nextState ?l = 0" "senderStates ?l 0 = None" "7 < unat (req_size ex_req)" "unat (req_vaddr ex_req) = 0"
    "length (waiting_stores ?h ?l 2) = 1" "length (sq ?l) = 1" by code_simp+
  have w: "set (waiting_stores ?h ?l 2) = set (sq ?l)"
  proof -
    have sub: "set (waiting_stores ?h ?l 2) \<subseteq> set (sq ?l)" by (auto simp: waiting_stores_def older_stores_def dest: in_set_dropD)
    obtain a b where "waiting_stores ?h ?l 2 = [a]" "sq ?l = [b]" using n(5,6) by (auto simp: length_Suc_conv simp del: length_sq)
    then show ?thesis using sub by simp
  qed
  show ?thesis
    using memory_load_passes_no_store[OF ex_lsq_ok[OF ex_ready_restricted(2)] r(1) f, of s _ 7] r n w by auto
qed

text \<open>
  C34: under DOLMA the stores that are restricted do not show in the memory traffic of a load that is not: in two
  states of the unit that differ in any way in such stores, and where in neither state an unrestricted store that
  waits has bytes of the load, the load sends the same packets to the cache and gets the same answers. What
  has been sent before is the same in both states.
\<close>

theorem restricted_stores_hidden:
  assumes "isDolma c" and "\<not> isSTT c"
    and "lsq_ok (h, q, l)" and "lsq_read c port r lo hi i (h, q, l) = Some (NoFault, h', q', l')"
    and "lsq_ok (h2, q2, l2)" and "lsq_read c port r lo hi i2 (h2, q2, l2) = Some (NoFault, h2', q2', l2')"
    and "vec_get (loadQueue l) i = Some (Some p)" and "vec_get (loadQueue l2) i2 = Some (Some p2)"
    and "\<not> isDolmaRestricted (h p)" "\<not> isTotalStoreBufferHit (h p)" "\<not> isPartialStoreBufferHit (h p)"
    and "\<not> isDolmaRestricted (h2 p2)" "\<not> isTotalStoreBufferHit (h2 p2)" "\<not> isPartialStoreBufferHit (h2 p2)"
    and "\<not> flag_set MMAPPED_IPR r" and "sent l2 = sent l" and "nextState l2 = nextState l"
    and "\<forall>e \<in> set (waiting_stores h l p). matches h r e \<longrightarrow> isDolmaRestricted (store_inst h e)"
    and "\<forall>e \<in> set (waiting_stores h2 l2 p2). matches h2 r e \<longrightarrow> isDolmaRestricted (store_inst h2 e)"
  shows "sent l2' = sent l'"
proof -
  have "sent l' = load_traffic port r lo hi (nextState l) (sent l)"
    by (rule read_effect(3)[OF assms(3,4,15,7,10,1,2,9,11,18)])
  moreover have "sent l2' = load_traffic port r lo hi (nextState l2) (sent l2)"
    by (rule read_effect(3)[OF assms(5,6,15,8,13,1,2,12,14,19)])
  ultimately show ?thesis using assms(16,17) by simp
qed

theorem restricted_stores_hidden_witness:
  "\<exists>h' q' l' h2' q2' l2'.
     lsq_read ex_cpu ex_port ex_req None None 0 (fst (ex_load {DataRestricted} 0), ex_iq, ex_written {DataRestricted} 0) = Some (NoFault, h', q', l') \<and>
     lsq_read ex_cpu ex_port ex_req None None 0 (fst (ex_load {DataRestricted} 64), ex_iq, ex_written {DataRestricted} 64) = Some (NoFault, h2', q2', l2') \<and>
     writebacks l' \<noteq> [] \<and> writebacks l2' = [] \<and> sent l2' = sent l'"
proof -
  let ?h = "fst (ex_load {DataRestricted} 0)" and ?l = "ex_written {DataRestricted} 0"
  let ?h2 = "fst (ex_load {DataRestricted} 64)" and ?l2 = "ex_written {DataRestricted} 64"
  have "map_option (\<lambda>(f, h', q', l'). (f = NoFault, writebacks l' = [])) (lsq_read ex_cpu ex_port ex_req None None 0 (?h, ex_iq, ?l)) = Some (True, False)"
    "map_option (\<lambda>(f, h', q', l'). (f = NoFault, writebacks l' = [])) (lsq_read ex_cpu ex_port ex_req None None 0 (?h2, ex_iq, ?l2)) = Some (True, True)"
    by code_simp+
  then obtain h' q' l' h2' q2' l2' where r: "lsq_read ex_cpu ex_port ex_req None None 0 (?h, ex_iq, ?l) = Some (NoFault, h', q', l')"
    "lsq_read ex_cpu ex_port ex_req None None 0 (?h2, ex_iq, ?l2) = Some (NoFault, h2', q2', l2')" "writebacks l' \<noteq> []" "writebacks l2' = []" by auto
  have a: "vec_get (loadQueue ?l) 0 = Some (Some 2)" "vec_get (loadQueue ?l2) 0 = Some (Some 2)"
    "\<not> isDolmaRestricted (?h 2)" "\<not> isTotalStoreBufferHit (?h 2)" "\<not> isPartialStoreBufferHit (?h 2)"
    "\<not> isDolmaRestricted (?h2 2)" "\<not> isTotalStoreBufferHit (?h2 2)" "\<not> isPartialStoreBufferHit (?h2 2)" "\<not> flag_set MMAPPED_IPR ex_req"
    by code_simp+
  have b: "sent ?l2 = sent ?l" "nextState ?l2 = nextState ?l"
    "\<forall>e \<in> set (waiting_stores ?h ?l 2). matches ?h ex_req e \<longrightarrow> isDolmaRestricted (store_inst ?h e)"
    "\<forall>e \<in> set (waiting_stores ?h2 ?l2 2). matches ?h2 ex_req e \<longrightarrow> isDolmaRestricted (store_inst ?h2 e)"
    by code_simp+
  show ?thesis
    using restricted_stores_hidden[OF ex_cpu_modes(1,4) ex_lsq_ok[OF ex_ready_restricted(1)] r(1) ex_lsq_ok[OF ex_ready_restricted(2)] r(2) a b] r
    by blast
qed

text \<open>
  C35: a store that executes finds the oldest of the younger loads that have an address, are neither
  strictly ordered nor stalled, and have a byte in a block of \<open>2 ^ depCheckShift\<close> bytes in
  which the store has one. It reports that load as a violation unless one with an older load is
  known; with no such load nothing changes. The search always ends. In the default mode the store remembers
  the load. The store and the loads with an address have a size that is not zero and do not wrap around the address space.
\<close>

theorem store_finds_oldest_violator:
  assumes "lsq_ok (h, q, l)" and "e \<in> set (sq l)" and "sq_inst e = Some p" and "\<not> sq_canWB e" and "\<not> isLoad (h p)"
    and "access_fits (h p)" and "\<forall>ld \<in> set (younger_loads h l p). effAddrValid (h ld) \<longrightarrow> access_fits (h ld)"
  shows "checkViolations c (nat (lqIdx (h p))) p h l = Some (store_report c h l p (younger_loads h l p))"
proof -
  have w: "lq_wf l" "idx_ok h l" using assms(1) by (auto simp: lsq_ok_def lsq_inv_def)
  have "store_link h l e" using w(2) assms(2) by (simp add: idx_ok_def)
  then obtain m where m: "m \<le> nat (loads l)" "lqIdx (h p) = int ((loadHead l + m) mod LQEntries l)"
    "\<forall>x \<in> set (take m (load_seqs h l)). x < seqNum (h p)" "\<forall>x \<in> set (drop m (load_seqs h l)). seqNum (h p) < x"
    using assms(3,4) by (auto simp: store_link_def linked_def store_seq_def)
  have y: "drop m (lq l) = younger_loads h l p" using younger_loads_drop[OF m(1,3,4)] by (simp add: younger_loads_def)
  show ?thesis using checkViolations_report[where h = h and p = p, OF w(1) assms(5) m(1) assms(6), unfolded y, OF assms(7)] m(2) by simp
qed

theorem store_finds_oldest_violator_witness:
  "\<exists>h' l'. checkViolations ex_cpu (nat (lqIdx (fst (ex_load {} 0) 1))) 1 (fst (ex_load {} 0)) (ex_written {} 0) = Some (order_fault, h', l') \<and>
     memDepViolator l' = Some 2 \<and> violatorSeqNum (h' 1) = 2"
proof -
  let ?h = "fst (ex_load {} 0)" and ?l = "ex_written {} 0"
  have "\<forall>e \<in> set (sq ?l). sq_inst e = Some 1 \<and> \<not> sq_canWB e" "sq ?l \<noteq> []" "\<not> isLoad (?h 1)" by code_simp+
  moreover have "unat (effSize (?h 1)) = 8 \<and> unat (effAddr (?h 1)) = 0"
    "\<forall>ld \<in> set (younger_loads ?h ?l 1). unat (effSize (?h ld)) = 8 \<and> unat (effAddr (?h ld)) = 0" by code_simp+
  then have "access_fits (?h 1)" "\<forall>ld \<in> set (younger_loads ?h ?l 1). effAddrValid (?h ld) \<longrightarrow> access_fits (?h ld)"
    by (simp_all add: access_fits_def)
  moreover obtain e where "e \<in> set (sq ?l)" using calculation(2) by (cases "sq ?l") auto
  ultimately have "checkViolations ex_cpu (nat (lqIdx (?h 1))) 1 ?h ?l = Some (store_report ex_cpu ?h ?l 1 (younger_loads ?h ?l 1))"
    using store_finds_oldest_violator[OF ex_lsq_ok[OF ex_ready_plain], of e 1 ex_cpu] by blast
  moreover have "(case store_report ex_cpu ?h ?l 1 (younger_loads ?h ?l 1) of (f, h', l') \<Rightarrow>
      f = order_fault \<and> memDepViolator l' = Some 2 \<and> violatorSeqNum (h' 1) = 2)" by code_simp
  ultimately show ?thesis by (auto split: prod.splits)
qed

text \<open>
  C36: in the default mode a strictly ordered store that has its address makes the unit fail on the next
  load: the search asserts that the address of such a store is not valid.
\<close>

theorem ordered_store_fails_loads:
  assumes "lsq_ok (h, q, l)" and "isDolma c" "\<not> isDolmaConservative c" "\<not> isSTT c"
    and "vec_get (loadQueue l) i = Some (Some p)" and "\<not> flag_set STRICT_ORDER r" "\<not> flag_set MMAPPED_IPR r"
    and "waiting_stores h l p = ws @ [e]" and "strictlyOrdered (store_inst h e)" "effAddrValid (store_inst h e)"
  shows "lsq_read c port r lo hi i (h, q, l) = None"
proof (rule ccontr)
  assume "lsq_read c port r lo hi i (h, q, l) \<noteq> None"
  then obtain f h' q' l' where run: "lsq_read c port r lo hi i (h, q, l) = Some (f, h', q', l')" by auto
  have inv: "lsq_inv h l" "idx_ok h l" "lq_wf l" "sq_wf l" using assms(1) by (auto simp: lsq_ok_def lsq_inv_def)
  from load_position[OF inv(3) assms(5)] have p: "p \<in> set (lq l)" by (metis length_lq nth_mem)
  have "sqIdx (h p) \<noteq> -1"
  proof
    assume "sqIdx (h p) = -1"
    moreover have "load_link h l p" using inv(2) p by (simp add: idx_ok_def)
    ultimately have "\<forall>s \<in> set (store_seqs h l). seqNum (h p) < s" by (auto simp: load_link_def linked_def)
    then have "older_stores h l p = []" by (auto simp: older_stores_def filter_empty_conv not_less intro: less_imp_le)
    then show False using assms(8) by (simp add: waiting_stores_def)
  qed
  from search_start[OF inv(1,2) p this] obtain k m where k: "wb_ok l k" "k \<le> m" and m: "m \<le> nat (stores l)"
    "nat (sqIdx (h p)) = (storeHead l + m) mod SQEntries l" "\<forall>t < m. store_seq h (sq l ! t) < seqNum (h p)"
    "\<forall>t. m \<le> t \<and> t < nat (stores l) \<longrightarrow> seqNum (h p) < store_seq h (sq l ! t)" .
  have w: "ws @ [e] = drop k (take m (sq l))"
    using waiting_stores_take[OF inv(4) k(1) older_stores_take[OF m(1,3,4)]] assms(8) by simp
  then have "k < m" using m(1) by (metis append_is_Nil_conv drop_eq_Nil length_take length_sq linorder_not_le min.absorb2 not_Cons_self2)
  then obtain t where t: "m = Suc t" "k \<le> t" by (cases m) auto
  have e: "e = sq l ! t" using arg_cong[OF w, of last] t m(1) by (simp add: last_drop last_conv_nth)
  have "\<forall>e \<in> set (sq l). the (sq_inst e) \<noteq> p" using load_store_distinct[OF _ inv(2) p] inv(1) by (simp add: lsq_inv_core)
  moreover have "e \<in> set (sq l)" using e t m(1) by simp
  ultimately have ne: "the (sq_inst e) \<noteq> p" by blast
  show False using run
  proof (cases rule: lsq_read_cases)
    case (ordered p')
    then show ?thesis using run assms(5-7) unfolding lsq_read_def Let_def by (auto simp: bind_eq_Some_conv order_fault_def split: if_splits)
  next
    case (ipr p' x y)
    then show ?thesis using assms(7) by simp
  next
    case (mem p' h0 hit h1)
    have p': "p' = p" using mem(1) assms(5) by simp
    have x: "sqIdx (h0 p) = sqIdx (h p)" "store_inst h0 e = store_inst h e" using ne by (simp_all add: mem(4) p')
    have "search_stores c p r l ((storeHead l + Suc t) mod SQEntries l) h0 = None"
      using k(1) t m(1) e x(2) assms(9,10) by (intro ordered_store_stops[OF assms(2-4) inv(4)]) (auto simp: wb_ok_def)
    then show ?thesis using mem(5) \<open>sqIdx (h p) \<noteq> -1\<close> m(2) t(1) p' x(1) by simp
  qed
qed

theorem ordered_store_fails_loads_witness:
  "lsq_read ex_cpu ex_port ex_req None None 0 ((fst (ex_load {} 0))(1 := set_flag IsStrictlyOrdered True (fst (ex_load {} 0) 1)), ex_iq, ex_written {} 0) = None"
proof -
  let ?h = "(fst (ex_load {} 0))(1 := set_flag IsStrictlyOrdered True (fst (ex_load {} 0) 1))" and ?l = "ex_written {} 0"
  have "lsq_ok (?h, ex_iq, ?l)" using ex_lsq_ok[OF ex_ready_plain] lsq_step_ok[OF lsq_step.other] by (blast intro: same_seqs_upd status_idx)
  moreover have "vec_get (loadQueue ?l) 0 = Some (Some 2)" "\<not> flag_set STRICT_ORDER ex_req" "\<not> flag_set MMAPPED_IPR ex_req" by code_simp+
  moreover have "length (waiting_stores ?h ?l 2) = 1" "\<forall>e \<in> set (waiting_stores ?h ?l 2). strictlyOrdered (store_inst ?h e) \<and> effAddrValid (store_inst ?h e)"
    by code_simp+
  moreover then obtain e where "waiting_stores ?h ?l 2 = [] @ [e]" by (auto simp: length_Suc_conv)
  ultimately show ?thesis using ordered_store_fails_loads[of ?h ex_iq ?l ex_cpu 0 2 ex_req "[]" e] by simp
qed

end
