(* ===== verification/Trie.thy ===== *)
theory Trie
  imports O3_Prelude "HOL-Library.Word" "HOL-Library.Multiset"
begin

text \<open>
  The prefix tree of \<^verbatim>\<open>src/base/trie.hh\<close>, which indexes the entries of the TLBs. A node is
  named by a number, the handle that an insertion returns. The parent of a node is given by the shape
  of the tree. Keys are 64 bits wide; the values are the entries' numbers.
\<close>

unbundle bit_operations_syntax

section \<open>Nodes\<close>

datatype node = Null
  | Node (n_id: nat) (n_key: "64 word") (n_mask: "64 word") (n_tid: nat) (n_value: "nat option") (kid0: node) (kid1: node)

record trie =
  trie_head :: node
  trie_next :: nat

definition n_matches :: "node \<Rightarrow> 64 word \<Rightarrow> bool" where
  "n_matches n test \<longleftrightarrow> n \<noteq> Null \<and> test AND n_mask n = n_key n"

definition new_node :: "nat \<Rightarrow> nat \<Rightarrow> 64 word \<Rightarrow> 64 word \<Rightarrow> nat option \<Rightarrow> node" where
  "new_node i tid k msk v = Node i (k AND msk) msk tid v Null Null"

definition new_trie :: "nat \<Rightarrow> trie" where
  "new_trie tid = \<lparr>trie_head = new_node 0 tid 0 0 None, trie_next = 1\<rparr>"

section \<open>Lookup\<close>

fun lookup_node :: "64 word \<Rightarrow> node \<Rightarrow> node" where
  "lookup_node k Null = Null"
| "lookup_node k (Node i key msk tid v l r) =
     (if v \<noteq> None then Node i key msk tid v l r
      else if n_matches l k then lookup_node k l
      else if n_matches r k then lookup_node k r
      else Null)"

definition lookupHandle :: "64 word \<Rightarrow> trie \<Rightarrow> nat option" where
  "lookupHandle k t = (case lookup_node k (trie_head t) of Null \<Rightarrow> None | n \<Rightarrow> Some (n_id n))"

definition trie_lookup :: "64 word \<Rightarrow> trie \<Rightarrow> nat option" where
  "trie_lookup k t = (case lookup_node k (trie_head t) of Null \<Rightarrow> None | n \<Rightarrow> n_value n)"

section \<open>Insertion\<close>

definition goesAfter :: "node \<Rightarrow> 64 word \<Rightarrow> 64 word \<Rightarrow> bool" where
  "goesAfter kid k new_mask \<longleftrightarrow> n_matches kid k \<and> n_mask kid AND new_mask = n_mask kid"

definition extendMask :: "64 word \<Rightarrow> 64 word" where
  "extendMask orig = orig OR drop_bit 1 orig OR push_bit 63 1"

text \<open>The longest mask, from \<open>cur\<close> on, on which the key and the kid agree, at most the new one.\<close>

partial_function (option) common_mask :: "64 word \<Rightarrow> 64 word \<Rightarrow> 64 word \<Rightarrow> 64 word \<Rightarrow> 64 word option" where
  "common_mask k kid_key new_mask cur =
     (if k AND extendMask cur \<noteq> kid_key AND extendMask cur \<or> cur = new_mask then Some cur
      else common_mask k kid_key new_mask (extendMask cur))"

text \<open>The new leg, at the place of the kid: a split where the key leaves the path to the kid.\<close>

definition split_leg :: "nat \<Rightarrow> nat \<Rightarrow> 64 word \<Rightarrow> 64 word \<Rightarrow> 64 word \<Rightarrow> nat \<Rightarrow> node \<Rightarrow> node \<times> nat \<times> nat" where
  "split_leg i tid k new_mask cur v kid =
     (if cur = new_mask then (Node i (k AND cur) cur tid (Some v) kid Null, i, Suc i)
      else (Node i (k AND cur) cur tid None kid (new_node (Suc i) tid k new_mask (Some v)), Suc i, Suc (Suc i)))"

definition insert_here :: "nat \<Rightarrow> nat \<Rightarrow> 64 word \<Rightarrow> 64 word \<Rightarrow> nat \<Rightarrow> node \<Rightarrow> (node \<times> nat \<times> nat) option" where
  "insert_here i tid k new_mask v n = (case n of Null \<Rightarrow> None | Node ni key msk ntid nv l r \<Rightarrow>
     (if msk = new_mask then do {
        check (nv = None);
        check (ntid = tid);
        Some (Node ni key msk ntid (Some v) l r, ni, i) }
      else if l = Null then Some (Node ni key msk ntid nv (new_node i tid k new_mask (Some v)) r, i, Suc i)
      else do {
        cur \<leftarrow> common_mask k (n_key l) new_mask msk;
        (if cur \<noteq> msk then (let (l1, hn, nx) = split_leg i tid k new_mask cur v l in Some (Node ni key msk ntid nv l1 r, hn, nx))
         else if r = Null then Some (Node ni key msk ntid nv l (new_node i tid k new_mask (Some v)), i, Suc i)
         else do {
           cur2 \<leftarrow> common_mask k (n_key r) new_mask msk;
           (if cur2 \<noteq> msk then (let (r1, hn, nx) = split_leg i tid k new_mask cur2 v r in Some (Node ni key msk ntid nv l r1, hn, nx))
            else None) }) }))"

fun insert_below :: "nat \<Rightarrow> nat \<Rightarrow> 64 word \<Rightarrow> 64 word \<Rightarrow> nat \<Rightarrow> node \<Rightarrow> (node \<times> nat \<times> nat) option" where
  "insert_below i tid k new_mask v Null = None"
| "insert_below i tid k new_mask v (Node ni key msk ntid nv l r) =
     (if goesAfter l k new_mask then do {
        (l1, hn, nx) \<leftarrow> insert_below i tid k new_mask v l;
        Some (Node ni key msk ntid nv l1 r, hn, nx) }
      else if goesAfter r k new_mask then do {
        (r1, hn, nx) \<leftarrow> insert_below i tid k new_mask v r;
        Some (Node ni key msk ntid nv l r1, hn, nx) }
      else insert_here i tid k new_mask v (Node ni key msk ntid nv l r))"

definition width_mask :: "nat \<Rightarrow> 64 word" where
  "width_mask width = (if width < 64 then push_bit (64 - width) (NOT 0) else NOT 0)"

definition trie_insert :: "nat \<Rightarrow> 64 word \<Rightarrow> nat \<Rightarrow> nat \<Rightarrow> trie \<Rightarrow> (nat \<times> trie) option" where
  "trie_insert tid k width v t = do {
     check (width \<noteq> 0);
     let new_mask = width_mask width;
     (n, hn, nx) \<leftarrow> insert_below (trie_next t) tid (k AND new_mask) new_mask v (trie_head t);
     Some (hn, \<lparr>trie_head = n, trie_next = nx\<rparr>) }"

section \<open>Removal\<close>

fun has_id :: "nat \<Rightarrow> node \<Rightarrow> bool" where
  "has_id h Null = False"
| "has_id h (Node i key msk tid v l r) \<longleftrightarrow> i = h \<or> has_id h l \<or> has_id h r"

text \<open>If the parent only has one kid, it is the first.\<close>

definition shift_kids :: "node \<Rightarrow> node" where
  "shift_kids n = (case n of Node i key msk tid v Null r \<Rightarrow> Node i key msk tid v r Null | _ \<Rightarrow> n)"

text \<open>
  The subtree after the removal, and whether the pointer of the parent changed: then the parent
  is tidied up, and removed too if it has less than two kids and no value.
\<close>

definition tidy :: "node \<Rightarrow> node \<times> bool" where
  "tidy n = (let n1 = shift_kids n in if kid1 n1 = Null \<and> n_value n1 = None then (kid0 n1, True) else (n1, False))"

fun drop_node :: "nat \<Rightarrow> node \<Rightarrow> (node \<times> bool) option" where
  "drop_node h Null = None"
| "drop_node h (Node i key msk tid v l r) =
     (if i = h then
        (if r \<noteq> Null then do { check (v \<noteq> None); Some (Node i key msk tid None l r, False) }
         else Some (l, True))
      else if has_id h l then do {
        (l1, moved) \<leftarrow> drop_node h l;
        Some (if moved then tidy (Node i key msk tid v l1 r) else (Node i key msk tid v l1 r, False)) }
      else do {
        (r1, moved) \<leftarrow> drop_node h r;
        Some (if moved then tidy (Node i key msk tid v l r1) else (Node i key msk tid v l r1, False)) })"

text \<open>The root stays.\<close>

definition trie_remove :: "nat \<Rightarrow> trie \<Rightarrow> trie option" where
  "trie_remove h t = (case trie_head t of Null \<Rightarrow> None | Node i key msk tid v l r \<Rightarrow>
     (if i = h then
        (if r \<noteq> Null then do { check (v \<noteq> None); Some (t\<lparr>trie_head := Node i key msk tid None l r\<rparr>) } else None)
      else if has_id h l then do {
        (l1, moved) \<leftarrow> drop_node h l;
        Some (t\<lparr>trie_head := (if moved then shift_kids (Node i key msk tid v l1 r) else Node i key msk tid v l1 r)\<rparr>) }
      else do {
        (r1, moved) \<leftarrow> drop_node h r;
        Some (t\<lparr>trie_head := (if moved then shift_kids (Node i key msk tid v l r1) else Node i key msk tid v l r1)\<rparr>) }))"

definition trie_remove_key :: "64 word \<Rightarrow> trie \<Rightarrow> trie option" where
  "trie_remove_key key t = (case lookupHandle key t of None \<Rightarrow> Some t | Some h \<Rightarrow> trie_remove h t)"

definition trie_clear :: "trie \<Rightarrow> trie" where
  "trie_clear t = (case trie_head t of Null \<Rightarrow> t | Node i key msk tid v l r \<Rightarrow> t\<lparr>trie_head := Node i key msk tid v Null Null\<rparr>)"

section \<open>Masks\<close>

lemma bit_width_mask: "bit (width_mask w) j \<longleftrightarrow> j < 64 \<and> 64 - w \<le> j"
  by (auto simp: width_mask_def bit_push_bit_iff bit_not_iff bit_mask_iff)

lemma width_mask_and: "width_mask w AND width_mask w' = width_mask (min w w')"
  by (rule bit_word_eqI) (auto simp: bit_and_iff bit_width_mask)

lemma width_mask_inj: "w \<le> 64 \<Longrightarrow> w' \<le> 64 \<Longrightarrow> width_mask w = width_mask w' \<longleftrightarrow> w = w'"
proof
  assume w: "w \<le> 64" "w' \<le> 64" and eq: "width_mask w = width_mask w'"
  show "w = w'"
  proof (rule ccontr)
    assume "w \<noteq> w'"
    then have "bit (width_mask w) (64 - max w w') \<noteq> bit (width_mask w') (64 - max w w')"
      using w by (auto simp: bit_width_mask max_def)
    then show False using eq by simp
  qed
qed simp

lemma bit_extendMask: "j < 64 \<Longrightarrow> bit (extendMask m) j \<longleftrightarrow> bit m j \<or> bit m (Suc j) \<or> j = 63"
proof -
  assume "j < 64"
  then have "bit (push_bit 63 (1 :: 64 word)) j \<longleftrightarrow> j = 63" unfolding bit_push_bit_iff bit_1_iff by auto
  then show ?thesis unfolding extendMask_def bit_or_iff bit_drop_bit_eq by (simp add: o_def)
qed

lemma extend_width_mask: "extendMask (width_mask w) = width_mask (Suc w)"
  by (rule bit_word_eqI) (auto simp: bit_extendMask bit_width_mask)

text \<open>Two keys agree on the first bits.\<close>

definition agree :: "nat \<Rightarrow> 64 word \<Rightarrow> 64 word \<Rightarrow> bool" where
  "agree w a b \<longleftrightarrow> a AND width_mask w = b AND width_mask w"

lemma agree_refl [simp]: "agree w a a"
  by (simp add: agree_def)

lemma agree_sym: "agree w a b \<Longrightarrow> agree w b a"
  by (simp add: agree_def)

lemma agree_trans: "agree w a b \<Longrightarrow> agree w b c \<Longrightarrow> agree w a c"
  by (simp add: agree_def)

lemma agree_bits: "agree w a b \<longleftrightarrow> (\<forall>j. 64 - w \<le> j \<and> j < 64 \<longrightarrow> bit a j = bit b j)"
proof
  assume "agree w a b"
  then show "\<forall>j. 64 - w \<le> j \<and> j < 64 \<longrightarrow> bit a j = bit b j"
    unfolding agree_def by (metis bit_and_iff bit_width_mask)
next
  assume "\<forall>j. 64 - w \<le> j \<and> j < 64 \<longrightarrow> bit a j = bit b j"
  then show "agree w a b" unfolding agree_def by (intro bit_word_eqI) (auto simp: bit_and_iff bit_width_mask)
qed

lemma agree_less: "agree w a b \<Longrightarrow> w' \<le> w \<Longrightarrow> agree w' a b"
  by (auto simp: agree_bits)

lemma agree_0 [simp]: "agree 0 a b"
  by (auto simp: agree_bits)

text \<open>Of two keys that part at a bit, a third takes one side.\<close>

lemma agree_branch:
  assumes "agree w a b" "\<not> agree (Suc w) a b" "agree w k a"
  shows "agree (Suc w) k a \<or> agree (Suc w) k b"
proof (cases "w < 64")
  case True
  have split: "agree (Suc w) x y \<longleftrightarrow> agree w x y \<and> bit x (63 - w) = bit y (63 - w)" for x y
  proof -
    have "64 - Suc w \<le> j \<longleftrightarrow> 64 - w \<le> j \<or> j = 63 - w" for j using True by auto
    then show ?thesis unfolding agree_bits using True by auto
  qed
  show ?thesis using assms agree_trans[OF assms(3,1)] unfolding split by auto
next
  case False
  then have "64 - Suc w = 64 - w" by simp
  then show ?thesis using assms(1,2) by (simp add: agree_bits)
qed

lemma common_mask_longest:
  assumes "agree c0 k b" and "c0 \<le> w" and "w \<le> 64"
  shows "\<exists>c. common_mask k b (width_mask w) (width_mask c0) = Some (width_mask c) \<and> c0 \<le> c \<and> c \<le> w \<and> agree c k b \<and>
    (c < w \<longrightarrow> \<not> agree (Suc c) k b)"
  using assms
proof (induction "w - c0" arbitrary: c0)
  case 0
  then show ?case by (subst common_mask.simps) auto
next
  case (Suc d)
  then have lt: "c0 < w" by simp
  then have ne: "width_mask c0 \<noteq> width_mask w" using Suc.prems width_mask_inj[of c0 w] by simp
  show ?case
  proof (cases "agree (Suc c0) k b")
    case True
    then have "common_mask k b (width_mask w) (width_mask c0) = common_mask k b (width_mask w) (width_mask (Suc c0))"
      using ne by (subst common_mask.simps) (simp add: extend_width_mask agree_def)
    moreover obtain c where "common_mask k b (width_mask w) (width_mask (Suc c0)) = Some (width_mask c) \<and> Suc c0 \<le> c \<and> c \<le> w \<and> agree c k b \<and>
      (c < w \<longrightarrow> \<not> agree (Suc c) k b)" using Suc.hyps(1)[of "Suc c0"] Suc.hyps(2) Suc.prems True lt by (metis Suc_leI diff_Suc_Suc diff_Suc_1 Suc_diff_Suc)
    ultimately show ?thesis by (metis Suc_leD)
  next
    case False
    then have "common_mask k b (width_mask w) (width_mask c0) = Some (width_mask c0)"
      by (subst common_mask.simps) (simp add: extend_width_mask agree_def)
    then show ?thesis using Suc.prems False by blast
  qed
qed

section \<open>The invariant\<close>

text \<open>
  The keys in the tree, with their masks and values, and the names of its nodes. Below a node the keys
  extend the node's key, and the two kids part at the next bit.
\<close>

fun items :: "node \<Rightarrow> (nat \<times> 64 word \<times> 64 word \<times> nat) set" where
  "items Null = {}"
| "items (Node i key msk tid v l r) = (case v of None \<Rightarrow> {} | Some x \<Rightarrow> {(i, key, msk, x)}) \<union> items l \<union> items r"

fun ids :: "node \<Rightarrow> nat list" where
  "ids Null = []"
| "ids (Node i key msk tid v l r) = i # ids l @ ids r"

definition extends :: "nat \<Rightarrow> 64 word \<Rightarrow> node \<Rightarrow> bool" where
  "extends w key n \<longleftrightarrow> n = Null \<or> (\<exists>w' \<le> 64. w < w' \<and> n_mask n = width_mask w' \<and> agree w (n_key n) key)"

fun wf_node :: "nat \<Rightarrow> node \<Rightarrow> bool" where
  "wf_node tid Null = True"
| "wf_node tid (Node i key msk t v l r) \<longleftrightarrow> t = tid \<and> wf_node tid l \<and> wf_node tid r \<and> key AND msk = key \<and>
     (\<exists>w \<le> 64. msk = width_mask w \<and> extends w key l \<and> extends w key r \<and> (r \<noteq> Null \<longrightarrow> l \<noteq> Null \<and> \<not> agree (Suc w) (n_key l) (n_key r)))"

lemma wf_NodeI:
  "w \<le> 64 \<Longrightarrow> key AND width_mask w = key \<Longrightarrow> wf_node tid l \<Longrightarrow> wf_node tid r \<Longrightarrow> extends w key l \<Longrightarrow> extends w key r \<Longrightarrow>
    (r \<noteq> Null \<Longrightarrow> l \<noteq> Null \<and> \<not> agree (Suc w) (n_key l) (n_key r)) \<Longrightarrow> wf_node tid (Node i key (width_mask w) tid v l r)"
  by auto

lemma n_matches_agree: "n \<noteq> Null \<Longrightarrow> wf_node tid n \<Longrightarrow> n_mask n = width_mask w \<Longrightarrow> n_matches n k \<longleftrightarrow> agree w k (n_key n)"
  by (cases n) (auto simp: n_matches_def agree_def)

lemma ids_items: "(i, x) \<in> items n \<Longrightarrow> i \<in> set (ids n)"
  by (induction n) (auto split: option.splits)

lemma has_id_ids: "has_id h n \<longleftrightarrow> h \<in> set (ids n)"
  by (induction n) auto

lemma wf_width: "wf_node tid n \<Longrightarrow> n \<noteq> Null \<Longrightarrow> \<exists>w \<le> 64. n_mask n = width_mask w \<and> n_key n AND n_mask n = n_key n"
  by (cases n) auto

text \<open>Every key below a node extends the node's key.\<close>

lemma items_under:
  assumes "wf_node tid n" and "(i, key, msk, v) \<in> items n" and "n_mask n = width_mask w" "w \<le> 64"
  shows "\<exists>w' \<le> 64. w \<le> w' \<and> msk = width_mask w' \<and> agree w key (n_key n)"
  using assms
proof (induction n arbitrary: w)
  case (Node j nk nm t nv l r)
  obtain w0 where w0: "w0 \<le> 64" "nm = width_mask w0" "extends w0 nk l" "extends w0 nk r" using Node.prems(1) by auto
  then have w: "w0 = w" using Node.prems(3,4) width_mask_inj by simp
  have kid: "\<exists>w' \<le> 64. w \<le> w' \<and> msk = width_mask w' \<and> agree w key nk"
    if m: "m = l \<or> m = r" "(i, key, msk, v) \<in> items m" and IH: "\<And>u. n_mask m = width_mask u \<Longrightarrow> u \<le> 64 \<Longrightarrow>
      \<exists>w' \<le> 64. u \<le> w' \<and> msk = width_mask w' \<and> agree u key (n_key m)" for m
  proof -
    have "m \<noteq> Null" using m(2) by auto
    then obtain u where u: "u \<le> 64" "w < u" "n_mask m = width_mask u" "agree w (n_key m) nk" using m(1) w0(3,4) w by (auto simp: extends_def)
    from IH[OF u(3,1)] obtain w' where "w' \<le> 64" "u \<le> w'" "msk = width_mask w'" "agree u key (n_key m)" by blast
    then show ?thesis using u agree_trans[OF agree_less[of u key "n_key m" w] u(4)] by (intro exI[of _ w']) auto
  qed
  consider "(i, key, msk, v) = (j, nk, nm, v)" | "(i, key, msk, v) \<in> items l" | "(i, key, msk, v) \<in> items r"
    using Node.prems(2) by (auto split: option.splits)
  then show ?case
  proof cases
    case 1
    then show ?thesis using w0 w by auto
  next
    case 2
    then show ?thesis using kid[of l] Node.IH(1)[OF _ 2] Node.prems(1) by simp
  next
    case 3
    then show ?thesis using kid[of r] Node.IH(2)[OF _ 3] Node.prems(1) by simp
  qed
qed simp

text \<open>A key that is below a node, but not on the side of a kid, matches nothing below the kid.\<close>

lemma items_other_side:
  assumes "wf_node tid n" and "n_mask n = width_mask w" "w \<le> 64" and "\<not> agree w k (n_key n)" and "(i, key, msk, v) \<in> items n"
  shows "k AND msk \<noteq> key"
proof
  assume eq: "k AND msk = key"
  from items_under[OF assms(1,5,2,3)] obtain w' where w': "w' \<le> 64" "w \<le> w'" "msk = width_mask w'" "agree w key (n_key n)" by blast
  have "agree w' k key" using eq w'(3) by (auto simp: agree_def word_bw_assocs)
  then show False using assms(4) w'(2,4) agree_less agree_trans by blast
qed

section \<open>Lookup finds the shortest key that matches\<close>

lemma lookup_node_spec:
  assumes "wf_node tid n" and "n_matches n k"
  shows "case lookup_node k n of
      Null \<Rightarrow> \<forall>(i, key, msk, v) \<in> items n. k AND msk \<noteq> key
    | Node i key msk t v l r \<Rightarrow> \<exists>x. v = Some x \<and> (i, key, msk, x) \<in> items n \<and> k AND msk = key \<and>
        (\<forall>(i', key', msk', x') \<in> items n. k AND msk' = key' \<longrightarrow> msk AND msk' = msk)"
  using assms
proof (induction n)
  case (Node j nk nm t nv l r)
  obtain w where w: "w \<le> 64" "nm = width_mask w" "extends w nk l" "extends w nk r" "r \<noteq> Null \<longrightarrow> l \<noteq> Null \<and> \<not> agree (Suc w) (n_key l) (n_key r)"
    using Node.prems(1) by auto
  have wf: "wf_node tid l" "wf_node tid r" using Node.prems(1) by auto
  have kid: "\<forall>(i, key, msk, v) \<in> items m. k AND msk \<noteq> key" if m: "m = l \<or> m = r" "\<not> n_matches m k" for m
  proof (cases "m = Null")
    case False
    then obtain u where "u \<le> 64" "n_mask m = width_mask u" using m w(3,4) by (auto simp: extends_def)
    then show ?thesis using items_other_side[of tid m u k] n_matches_agree[of m tid u k] False m wf by auto
  qed simp
  show ?case
  proof (cases nv)
    case (Some x)
    have "nm AND msk' = nm" if "(i', key', msk', x') \<in> items (Node j nk nm t nv l r)" for i' key' msk' x'
      using items_under[OF Node.prems(1) that, of w] w(1,2) width_mask_and by auto
    then show ?thesis using Some Node.prems(2) by (auto simp: n_matches_def)
  next
    case None
    consider (l) "n_matches l k" | (r) "\<not> n_matches l k" "n_matches r k" | (no) "\<not> n_matches l k" "\<not> n_matches r k" by blast
    then show ?thesis
    proof cases
      case l
      have "\<forall>(i, key, msk, v) \<in> items r. k AND msk \<noteq> key"
      proof (cases "r = Null")
        case False
        obtain u u' where u: "w < u" "n_mask l = width_mask u" "u \<le> 64" "w < u'" "n_mask r = width_mask u'" "u' \<le> 64"
          using w False by (auto simp: extends_def)
        then have "agree u k (n_key l)" using l n_matches_agree[of l tid u k] w(5) False wf by auto
        then have "\<not> n_matches r k"
          using n_matches_agree[of r tid u' k] False wf u w(5) agree_less[of u k "n_key l" "Suc w"] agree_less[of u' k "n_key r" "Suc w"]
            agree_trans agree_sym by (metis Suc_leI)
        then show ?thesis using kid[of r] by simp
      qed simp
      then show ?thesis using None l Node.IH(1)[OF wf(1) l] by (auto split: node.splits)
    next
      case r
      then show ?thesis using None kid[of l] Node.IH(2)[OF wf(2) r(2)] by (auto split: node.splits)
    next
      case no
      then show ?thesis using None kid[of l] kid[of r] by auto
    qed
  qed
qed (simp add: n_matches_def)

section \<open>Insertion adds one key\<close>

text \<open>The result of an insertion below a node.\<close>

definition inserted :: "nat \<Rightarrow> nat \<Rightarrow> 64 word \<Rightarrow> nat \<Rightarrow> nat \<Rightarrow> node \<Rightarrow> node \<Rightarrow> nat \<Rightarrow> nat \<Rightarrow> bool" where
  "inserted i tid k w v n n' hn nx \<longleftrightarrow> wf_node tid n' \<and> items n' = insert (hn, k, width_mask w, v) (items n) \<and>
     mset (ids n') = mset (ids n) + mset [i..<nx] \<and> i \<le> nx \<and> hn \<in> set (ids n') \<and> (\<forall>x. (hn, x) \<notin> items n)"

lemma fresh_items: "\<forall>j \<in> set (ids n). j < i \<Longrightarrow> (i, x) \<notin> items n" "\<forall>j \<in> set (ids n). j < i \<Longrightarrow> (Suc i, x) \<notin> items n"
  using ids_items[of _ x n] by fastforce+

lemma split_leg_ok:
  assumes "wf_node tid kid" "kid \<noteq> Null" "n_mask kid = width_mask wk" "wk \<le> 64"
    and "k AND width_mask w = k" "w \<le> 64" "c \<le> w" "c < wk" "agree c k (n_key kid)" "c < w \<longrightarrow> \<not> agree (Suc c) k (n_key kid)"
    and "\<forall>j \<in> set (ids kid). j < i"
    and "split_leg i tid k (width_mask w) (width_mask c) v kid = (n', hn, nx)"
  shows "inserted i tid k w v kid n' hn nx" and "n' \<noteq> Null" "n_mask n' = width_mask c" "n_key n' = k AND width_mask c"
proof -
  have kc: "agree c (n_key kid) (k AND width_mask c)" using assms(9) by (simp add: agree_def word_bw_assocs)
  have u: "extends c (k AND width_mask c) kid" using assms(3,4,8) kc by (auto simp: extends_def)
  have and_c: "(k AND width_mask c) AND width_mask c = k AND width_mask c" by (simp add: word_bw_assocs)
  have "inserted i tid k w v kid n' hn nx \<and> n' \<noteq> Null \<and> n_mask n' = width_mask c \<and> n_key n' = k AND width_mask c"
  proof (cases "c = w")
    case True
    then have r: "n' = Node i (k AND width_mask c) (width_mask c) tid (Some v) kid Null" "hn = i" "nx = Suc i"
      using assms(12) by (auto simp: split_leg_def)
    have "wf_node tid n'" using r(1) assms(1,6) u and_c True by (auto simp: extends_def)
    then show ?thesis using r assms(5,11) True fresh_items by (auto simp: inserted_def)
  next
    case False
    then have lt: "c < w" using assms(7) by simp
    then have ne: "width_mask c \<noteq> width_mask w" using width_mask_inj[of c w] assms(6) by simp
    let ?new = "new_node (Suc i) tid k (width_mask w) (Some v)"
    have r: "n' = Node i (k AND width_mask c) (width_mask c) tid None kid ?new" "hn = Suc i" "nx = Suc (Suc i)"
      using assms(12) ne by (auto simp: split_leg_def)
    have new: "?new \<noteq> Null" "n_key ?new = k" "n_mask ?new = width_mask w" "wf_node tid ?new" "items ?new = {(Suc i, k, width_mask w, v)}" "ids ?new = [Suc i]"
      using assms(5,6) by (auto simp: new_node_def extends_def)
    have un: "extends c (k AND width_mask c) ?new" unfolding extends_def using new(2,3) lt assms(6) by (auto simp: agree_def word_bw_assocs)
    have part: "\<not> agree (Suc c) (n_key kid) (n_key ?new)" using assms(10) lt agree_sym new(2) by metis
    have "wf_node tid n'" unfolding r(1) using assms(1,2,6,7) u un part and_c new(4) by (intro wf_NodeI) auto
    then show ?thesis using r new fresh_items[OF assms(11)] by (auto simp: inserted_def)
  qed
  then show "inserted i tid k w v kid n' hn nx" and "n' \<noteq> Null" "n_mask n' = width_mask c" "n_key n' = k AND width_mask c" by blast+
qed

lemma not_after:
  assumes "\<not> goesAfter kid k (width_mask w)" and "kid \<noteq> Null" "wf_node tid kid" "n_mask kid = width_mask wk" "wk \<le> 64" "w \<le> 64"
    and "agree c k (n_key kid)" "c \<le> w"
  shows "c < wk"
proof (rule ccontr)
  assume "\<not> c < wk"
  then have "agree wk k (n_key kid)" "wk \<le> w" using agree_less[OF assms(7)] assms(8) by auto
  then have "goesAfter kid k (width_mask w)"
    using n_matches_agree[OF assms(2,3,4)] assms(4) width_mask_and[of wk w] by (simp add: goesAfter_def min_def)
  then show False using assms(1) by simp
qed

lemma inserted_ids: "inserted i tid k w v n n' hn nx \<Longrightarrow> set (ids n') = set (ids n) \<union> {i..<nx}"
  unfolding inserted_def by (metis mset_append set_append set_mset_mset set_upt)

lemma inserted_leg:
  assumes "inserted i tid k w v kid n' hn nx" and "\<And>j x. (j, x) \<in> rest \<Longrightarrow> j < i \<and> j \<notin> set (ids kid)"
  shows "(hn, x) \<notin> rest"
  using assms inserted_ids[OF assms(1)] by (fastforce simp: inserted_def)

text \<open>Replacing a kid by one with an insertion.\<close>

lemma inserted_kid:
  assumes "inserted i tid k w v kid n' hn nx" and "kid = l \<and> l' = n' \<and> r' = r \<or> kid = r \<and> l' = l \<and> r' = n'"
    and "distinct (ids (Node ni key msk tid nv l r))" "\<forall>j \<in> set (ids (Node ni key msk tid nv l r)). j < i"
    and "wf_node tid (Node ni key msk tid nv l' r')"
  shows "inserted i tid k w v (Node ni key msk tid nv l r) (Node ni key msk tid nv l' r') hn nx"
proof -
  let ?n = "Node ni key msk tid nv l r"
  let ?own = "case nv of None \<Rightarrow> {} | Some x \<Rightarrow> {(ni, key, msk, x)}"
  have own: "(j, x) \<in> ?own \<Longrightarrow> j = ni" for j x by (auto split: option.splits)
  have "(hn, x) \<notin> ?own \<union> (if kid = l then items r else items l)" for x
  proof (rule inserted_leg[OF assms(1)])
    fix j x assume "(j, x) \<in> ?own \<union> (if kid = l then items r else items l)"
    then have "j = ni \<or> j \<in> set (ids (if kid = l then r else l))" using own ids_items by (cases "kid = l") (simp_all, blast+)
    then show "j < i \<and> j \<notin> set (ids kid)" using assms(2-4) by (auto split: if_splits)
  qed
  moreover have "(hn, x) \<notin> items kid" for x using assms(1) unfolding inserted_def by blast
  moreover have "items ?n = (?own \<union> (if kid = l then items r else items l)) \<union> items kid" using assms(2) by auto
  ultimately have "(hn, x) \<notin> items ?n" for x by blast
  moreover have "hn \<in> set (ids (Node ni key msk tid nv l' r'))" using assms(1,2) by (auto simp: inserted_def)
  moreover have "items (Node ni key msk tid nv l' r') = insert (hn, k, width_mask w, v) (items ?n)" using assms(1,2) by (auto simp: inserted_def)
  moreover have "mset (ids (Node ni key msk tid nv l' r')) = mset (ids ?n) + mset [i..<nx]" using assms(1,2) by (auto simp: inserted_def)
  ultimately show ?thesis using assms(1,5) unfolding inserted_def by blast
qed

lemma new_node_ok:
  assumes "k AND width_mask w = k" "w \<le> 64"
  shows "inserted i tid k w v Null (new_node i tid k (width_mask w) (Some v)) i (Suc i)"
    and "new_node i tid k (width_mask w) (Some v) \<noteq> Null" "n_mask (new_node i tid k (width_mask w) (Some v)) = width_mask w"
    "n_key (new_node i tid k (width_mask w) (Some v)) = k"
  using assms by (auto simp: inserted_def new_node_def extends_def)

lemma insert_here_ok:
  assumes "wf_node tid n" "n = Node ni key (width_mask w0) tid nv l r" "w0 \<le> 64"
    and "k AND width_mask w = k" "w \<le> 64" "w0 \<le> w" "agree w0 k key"
    and "\<not> goesAfter l k (width_mask w)" "\<not> goesAfter r k (width_mask w)"
    and "w0 = w \<longrightarrow> nv = None" "distinct (ids n)" "\<forall>j \<in> set (ids n). j < i"
  shows "\<exists>n' hn nx. insert_here i tid k (width_mask w) v n = Some (n', hn, nx) \<and> inserted i tid k w v n n' hn nx \<and>
    n' \<noteq> Null \<and> n_key n' = n_key n \<and> n_mask n' = n_mask n"
proof -
  obtain w1 where w1: "w1 \<le> 64" "width_mask w0 = width_mask w1" "extends w1 key l" "extends w1 key r"
    "r \<noteq> Null \<longrightarrow> l \<noteq> Null \<and> \<not> agree (Suc w1) (n_key l) (n_key r)" using assms(1,2) by auto
  then have "w1 = w0" using width_mask_inj[of w0 w1] assms(3) by simp
  note wn = w1[unfolded this]
  have wf: "wf_node tid l" "wf_node tid r" "key AND width_mask w0 = key" using assms(1,2) by auto
  show ?thesis
  proof (cases "w0 = w")
    case True
    have "wf_node tid (Node ni key (width_mask w0) tid (Some v) l r)" using wf wn assms(3) by (intro wf_NodeI) auto
    moreover have "key = k" using assms(4,7) wf(3) True by (simp add: agree_def)
    moreover have "(ni, x) \<notin> items l \<union> items r" for x using assms(2,11) ids_items by fastforce
    ultimately have "inserted i tid k w v n (Node ni key (width_mask w0) tid (Some v) l r) ni i"
      using assms(2,10) True by (auto simp: inserted_def)
    then show ?thesis using assms(2,10) True by (simp add: insert_here_def)
  next
    case False
    then have lt: "w0 < w" using assms(6) by simp
    then have ne: "width_mask w0 \<noteq> width_mask w" using width_mask_inj[of w0 w] assms(5) by simp
    note nn = new_node_ok[OF assms(4,5), of i tid v]
    let ?m = "new_node i tid k (width_mask w) (Some v)"
    have um: "extends w0 key ?m" using nn lt assms(5,7) by (auto simp: extends_def)
    have wm: "wf_node tid ?m" using nn(1) by (simp add: inserted_def)
    have leg: "\<exists>c. common_mask k (n_key m) (width_mask w) (width_mask w0) = Some (width_mask c) \<and> w0 \<le> c \<and> c \<le> 64 \<and>
        (c = w0 \<longrightarrow> \<not> agree (Suc w0) k (n_key m)) \<and>
        (c \<noteq> w0 \<longrightarrow> (\<exists>m' hn nx. split_leg i tid k (width_mask w) (width_mask c) v m = (m', hn, nx) \<and> inserted i tid k w v m m' hn nx \<and>
           m' \<noteq> Null \<and> extends w0 key m' \<and> agree (Suc w0) (n_key m') (n_key m)))"
      if m: "m = l \<or> m = r" "m \<noteq> Null" for m
    proof -
      obtain wk where wk: "wk \<le> 64" "w0 < wk" "n_mask m = width_mask wk" "agree w0 (n_key m) key" using m wn(3,4) by (auto simp: extends_def)
      have "agree w0 k (n_key m)" using agree_trans[OF assms(7) agree_sym[OF wk(4)]] .
      from common_mask_longest[OF this assms(6,5)] obtain c where c: "common_mask k (n_key m) (width_mask w) (width_mask w0) = Some (width_mask c)"
        "w0 \<le> c" "c \<le> w" "agree c k (n_key m)" "c < w \<longrightarrow> \<not> agree (Suc c) k (n_key m)" by blast
      have wfm: "wf_node tid m" "\<not> goesAfter m k (width_mask w)" using m wf assms(8,9) by auto
      have ck: "c < wk" by (rule not_after[OF wfm(2) m(2) wfm(1) wk(3,1) assms(5) c(4,3)])
      have fr: "\<forall>j \<in> set (ids m). j < i" using m assms(2,12) by auto
      obtain m' hn nx where sl: "split_leg i tid k (width_mask w) (width_mask c) v m = (m', hn, nx)" by (metis prod.exhaust)
      note sp = split_leg_ok[OF wfm(1) m(2) wk(3,1) assms(4,5) c(3) ck c(4,5) fr sl]
      have "extends w0 key m' \<and> agree (Suc w0) (n_key m') (n_key m)" if "c \<noteq> w0"
      proof -
        have cw: "w0 < c" "c \<le> 64" using that c(2,3) assms(5) by auto
        have a: "agree c (n_key m') k" using sp(4) by (simp add: agree_def word_bw_assocs)
        then have "agree w0 (n_key m') key" using agree_trans[OF agree_less[OF a c(2)] assms(7)] by simp
        then show ?thesis using sp(2,3) cw agree_less[OF agree_trans[OF a c(4)], of "Suc w0"] by (auto simp: extends_def)
      qed
      then show ?thesis using c sp sl lt assms(5) by (intro exI[of _ c]) auto
    qed
    have ins: "?thesis" if "insert_here i tid k (width_mask w) v n = Some (Node ni key (width_mask w0) tid nv l' r', hn, nx)"
      "inserted i tid k w v kid m' hn nx" "kid = l \<and> l' = m' \<and> r' = r \<or> kid = r \<and> l' = l \<and> r' = m'"
      "wf_node tid (Node ni key (width_mask w0) tid nv l' r')" for l' r' hn nx kid m'
      using inserted_kid[OF that(2,3), of ni key "width_mask w0" nv] that(1,4) assms(2,11,12) by auto
    have inj: "c \<le> 64 \<Longrightarrow> width_mask c = width_mask w0 \<longleftrightarrow> c = w0" for c using width_mask_inj[of c w0] assms(3) by simp
    consider (new0) "l = Null" | (other) "l \<noteq> Null" by blast
    then show ?thesis
    proof cases
      case new0
      then have "r = Null" using wn(5) by auto
      moreover have "wf_node tid (Node ni key (width_mask w0) tid nv ?m Null)"
        using um wm wf(3) assms(3) by (intro wf_NodeI) (auto simp: extends_def)
      ultimately show ?thesis using new0 assms(2) ne nn(1) by (intro ins[of ?m r i "Suc i" l ?m]) (auto simp: insert_here_def)
    next
      case other
      from leg[OF disjI1[OF refl] other] obtain c where c: "common_mask k (n_key l) (width_mask w) (width_mask w0) = Some (width_mask c)" "c \<le> 64"
        "c = w0 \<longrightarrow> \<not> agree (Suc w0) k (n_key l)"
        "c \<noteq> w0 \<longrightarrow> (\<exists>m' hn nx. split_leg i tid k (width_mask w) (width_mask c) v l = (m', hn, nx) \<and> inserted i tid k w v l m' hn nx \<and>
           m' \<noteq> Null \<and> extends w0 key m' \<and> agree (Suc w0) (n_key m') (n_key l))" by blast
      show ?thesis
      proof (cases "c = w0")
        case False
        then obtain m' hn nx where m': "split_leg i tid k (width_mask w) (width_mask c) v l = (m', hn, nx)" "inserted i tid k w v l m' hn nx"
          "m' \<noteq> Null" "extends w0 key m'" "agree (Suc w0) (n_key m') (n_key l)" using c(4) by blast
        have "r \<noteq> Null \<Longrightarrow> \<not> agree (Suc w0) (n_key m') (n_key r)" using wn(5) agree_trans[OF agree_sym[OF m'(5)]] by blast
        then have "wf_node tid (Node ni key (width_mask w0) tid nv m' r)"
          using m' wf wn assms(3) by (intro wf_NodeI) (auto simp: inserted_def)
        then show ?thesis using other c False m'(1) inj ne assms(2) by (intro ins[OF _ m'(2)]) (auto simp: insert_here_def)
      next
        case True
        show ?thesis
        proof (cases "r = Null")
          case rn: True
          have "\<not> agree (Suc w0) (n_key l) (n_key ?m)" using c(3) True nn(4) agree_sym by metis
          then have "wf_node tid (Node ni key (width_mask w0) tid nv l ?m)" using other wf wn um wm assms(3) by (intro wf_NodeI) auto
          then show ?thesis using other c True rn ne assms(2) nn(1) by (intro ins[of l ?m i "Suc i" r ?m]) (auto simp: insert_here_def)
        next
          case rn: False
          from leg[OF disjI2[OF refl] rn] obtain c2 where c2: "common_mask k (n_key r) (width_mask w) (width_mask w0) = Some (width_mask c2)" "c2 \<le> 64"
            "c2 = w0 \<longrightarrow> \<not> agree (Suc w0) k (n_key r)"
            "c2 \<noteq> w0 \<longrightarrow> (\<exists>m' hn nx. split_leg i tid k (width_mask w) (width_mask c2) v r = (m', hn, nx) \<and> inserted i tid k w v r m' hn nx \<and>
               m' \<noteq> Null \<and> extends w0 key m' \<and> agree (Suc w0) (n_key m') (n_key r))" by blast
          have al: "agree w0 (n_key l) (n_key r)" "agree w0 k (n_key l)"
            using wn(3,4) other rn agree_trans agree_sym assms(7) by (meson extends_def)+
          have "agree (Suc w0) k (n_key r)" using agree_branch[OF al(1) _ al(2)] wn(5) rn c(3) True by blast
          then have ne2: "c2 \<noteq> w0" using c2(3) by blast
          then obtain m' hn nx where m': "split_leg i tid k (width_mask w) (width_mask c2) v r = (m', hn, nx)" "inserted i tid k w v r m' hn nx"
            "m' \<noteq> Null" "extends w0 key m'" "agree (Suc w0) (n_key m') (n_key r)" using c2(4) by blast
          have "\<not> agree (Suc w0) (n_key l) (n_key m')" using wn(5) rn agree_trans[OF _ m'(5)] by blast
          then have "wf_node tid (Node ni key (width_mask w0) tid nv l m')"
            using m' wf wn other assms(3) by (intro wf_NodeI) (auto simp: inserted_def)
          then show ?thesis using other c True rn c2 ne2 m'(1) inj ne assms(2) by (intro ins[OF _ m'(2)]) (auto simp: insert_here_def)
        qed
      qed
    qed
  qed
qed

lemma insert_below_ok:
  assumes "wf_node tid n" "n \<noteq> Null" "n_mask n = width_mask w0" "w0 \<le> 64"
    and "k AND width_mask w = k" "w \<le> 64" "w0 \<le> w" "agree w0 k (n_key n)"
    and "\<forall>j x. (j, k, width_mask w, x) \<notin> items n" "distinct (ids n)" "\<forall>j \<in> set (ids n). j < i"
  shows "\<exists>n' hn nx. insert_below i tid k (width_mask w) v n = Some (n', hn, nx) \<and> inserted i tid k w v n n' hn nx \<and>
    n' \<noteq> Null \<and> n_key n' = n_key n \<and> n_mask n' = n_mask n"
  using assms
proof (induction n arbitrary: w0)
  case (Node ni key msk t nv l r)
  have t: "t = tid" "msk = width_mask w0" "key AND width_mask w0 = key" "wf_node tid l" "wf_node tid r" using Node.prems(1,3) by auto
  obtain w1 where w1: "w1 \<le> 64" "msk = width_mask w1" "extends w1 key l" "extends w1 key r"
    "r \<noteq> Null \<longrightarrow> l \<noteq> Null \<and> \<not> agree (Suc w1) (n_key l) (n_key r)" using Node.prems(1) by auto
  have "w1 = w0" using w1(1,2) t(2) width_mask_inj[of w0 w1] Node.prems(4) by simp
  note wn = w1[unfolded this]
  have down: "\<exists>u. m \<noteq> Null \<and> n_mask m = width_mask u \<and> u \<le> 64 \<and> u \<le> w \<and> agree u k (n_key m) \<and>
      (\<forall>j x. (j, k, width_mask w, x) \<notin> items m) \<and> distinct (ids m) \<and> (\<forall>j \<in> set (ids m). j < i)"
    if m: "goesAfter m k (width_mask w)" "m = l \<or> m = r" for m
  proof -
    have nm: "m \<noteq> Null" "n_matches m k" "n_mask m AND width_mask w = n_mask m" using m(1) by (auto simp: goesAfter_def n_matches_def)
    obtain u where u: "u \<le> 64" "n_mask m = width_mask u" using m(2) nm(1) wn(3,4) by (auto simp: extends_def)
    have "min u w = u" using nm(3) u width_mask_and[of u w] width_mask_inj[of "min u w" u] by simp
    then have "u \<le> w" by (simp add: min_def split: if_splits)
    moreover have wf: "wf_node tid m" using m(2) t(4,5) by auto
    moreover have "agree u k (n_key m)" using n_matches_agree[OF nm(1) wf u(2)] nm(2) by simp
    moreover have "distinct (ids m)" "\<forall>j \<in> set (ids m). j < i" "\<forall>j x. (j, k, width_mask w, x) \<notin> items m"
      using m(2) Node.prems(9-11) by auto
    ultimately show ?thesis using nm(1) u by blast
  qed
  have ids: "distinct (ids (Node ni key (width_mask w0) tid nv l r))" "\<forall>j \<in> set (ids (Node ni key (width_mask w0) tid nv l r)). j < i"
    using Node.prems(10,11) by auto
  consider (l) "goesAfter l k (width_mask w)" | (r) "\<not> goesAfter l k (width_mask w)" "goesAfter r k (width_mask w)"
    | (here) "\<not> goesAfter l k (width_mask w)" "\<not> goesAfter r k (width_mask w)" by blast
  then show ?case
  proof cases
    case l
    from down[OF l disjI1[OF refl]] obtain n' hn nx where n':
      "insert_below i tid k (width_mask w) v l = Some (n', hn, nx)" "inserted i tid k w v l n' hn nx" "n' \<noteq> Null" "n_key n' = n_key l" "n_mask n' = n_mask l"
      using Node.IH(1)[OF t(4) _ _ _ Node.prems(5,6)] by blast
    have "wf_node tid (Node ni key (width_mask w0) tid nv n' r)"
      using n' t wn l Node.prems(4) by (intro wf_NodeI) (auto simp: inserted_def extends_def goesAfter_def n_matches_def)
    then show ?thesis using inserted_kid[OF n'(2) disjI1 ids, of n' r] n'(1) l t(1,2) by simp
  next
    case r
    from down[OF r(2) disjI2[OF refl]] obtain n' hn nx where n':
      "insert_below i tid k (width_mask w) v r = Some (n', hn, nx)" "inserted i tid k w v r n' hn nx" "n' \<noteq> Null" "n_key n' = n_key r" "n_mask n' = n_mask r"
      using Node.IH(2)[OF t(5) _ _ _ Node.prems(5,6)] by blast
    have "wf_node tid (Node ni key (width_mask w0) tid nv l n')"
      using n' t wn r Node.prems(4) by (intro wf_NodeI) (auto simp: inserted_def extends_def goesAfter_def n_matches_def)
    then show ?thesis using inserted_kid[OF n'(2) disjI2 ids, of l n'] n'(1) r t(1,2) by simp
  next
    case here
    have "w0 = w \<longrightarrow> nv = None"
    proof
      assume "w0 = w"
      then have "key = k" using Node.prems(5,8) t(2,3) by (simp add: agree_def)
      then show "nv = None" using Node.prems(9) t(2) \<open>w0 = w\<close> by (cases nv) auto
    qed
    from insert_here_ok[OF Node.prems(1)[unfolded t(1,2)] refl Node.prems(4-7) _ here this] Node.prems(8,10,11) t here
    show ?thesis by simp
  qed
qed simp

section \<open>Removal takes one key\<close>

lemma extends_weaken: "extends w key n \<Longrightarrow> w' \<le> w \<Longrightarrow> agree w' key key' \<Longrightarrow> extends w' key' n"
  unfolding extends_def using agree_less agree_trans by (metis le_less_trans)

lemma mset_sub_add: "A \<subseteq># B \<Longrightarrow> A \<subseteq># add_mset x B"
  by (metis add_mset_add_single mset_subset_eq_add_left subset_mset.order_trans)

lemma extends_Node: "w \<le> 64 \<Longrightarrow> extends u key' (Node i key (width_mask w) t v l r) \<longleftrightarrow> u < w \<and> agree u key key'"
  unfolding extends_def using width_mask_inj[of w] by auto

text \<open>A node whose kids may need tidying up.\<close>

definition loose :: "nat \<Rightarrow> nat \<Rightarrow> 64 word \<Rightarrow> node \<Rightarrow> node \<Rightarrow> bool" where
  "loose tid w key l r \<longleftrightarrow> w \<le> 64 \<and> key AND width_mask w = key \<and> wf_node tid l \<and> wf_node tid r \<and> extends w key l \<and> extends w key r \<and>
     (l \<noteq> Null \<and> r \<noteq> Null \<longrightarrow> \<not> agree (Suc w) (n_key l) (n_key r))"

lemma loose_wf: "loose tid w key l r \<Longrightarrow> (r \<noteq> Null \<Longrightarrow> l \<noteq> Null) \<Longrightarrow> wf_node tid (Node i key (width_mask w) tid v l r)"
  unfolding loose_def by (intro wf_NodeI) auto

lemma shift_kids_ok:
  assumes "loose tid w key l r"
  obtains l' r' where "shift_kids (Node i key (width_mask w) tid v l r) = Node i key (width_mask w) tid v l' r'"
    "wf_node tid (Node i key (width_mask w) tid v l' r')" "loose tid w key l' r'" "items l' \<union> items r' = items l \<union> items r"
    "mset (ids l') + mset (ids r') = mset (ids l) + mset (ids r)"
proof (cases "l = Null")
  case True
  have "loose tid w key r Null" using assms by (auto simp: loose_def extends_def)
  then show ?thesis using that[of r Null] loose_wf[of tid w key r Null i v] True by (simp add: shift_kids_def)
next
  case False
  then show ?thesis using that[of l r] assms loose_wf[OF assms, of i v] by (cases l) (auto simp: shift_kids_def)
qed

text \<open>The result of a removal: the key is gone and the rest of the subtree is still below the node's key.\<close>

definition removed :: "nat \<Rightarrow> nat \<Rightarrow> node \<Rightarrow> node \<Rightarrow> bool \<Rightarrow> bool" where
  "removed tid h n n' mv \<longleftrightarrow> wf_node tid n' \<and> items n' = {(j, x) \<in> items n. j \<noteq> h} \<and> mset (ids n') \<subseteq># mset (ids n) \<and>
     (\<not> mv \<longrightarrow> n' \<noteq> Null \<and> n_id n' = n_id n \<and> n_key n' = n_key n \<and> n_mask n' = n_mask n) \<and>
     (\<forall>w key. extends w key n \<longrightarrow> extends w key n') \<and>
     (n' \<noteq> Null \<longrightarrow> (\<forall>w. n_mask n = width_mask w \<and> w \<le> 64 \<longrightarrow> agree w (n_key n') (n_key n)))"

lemma tidy_ok:
  assumes "loose tid w key l1 r1" and "n = Node i key (width_mask w) tid v l r"
    and "(case v of None \<Rightarrow> {} | Some x \<Rightarrow> {(i, key, width_mask w, x)}) \<union> (items l1 \<union> items r1) = {(j, x) \<in> items n. j \<noteq> h}"
    and "mset (ids l1) + mset (ids r1) \<subseteq># mset (ids l) + mset (ids r)"
    and "tidy (Node i key (width_mask w) tid v l1 r1) = (n', mv)"
  shows "removed tid h n n' mv"
proof -
  obtain l' r' where s: "shift_kids (Node i key (width_mask w) tid v l1 r1) = Node i key (width_mask w) tid v l' r'"
    "wf_node tid (Node i key (width_mask w) tid v l' r')" "loose tid w key l' r'" "items l' \<union> items r' = items l1 \<union> items r1"
    "mset (ids l') + mset (ids r') = mset (ids l1) + mset (ids r1)" by (rule shift_kids_ok[OF assms(1)])
  have w: "w \<le> 64" "u \<le> 64 \<Longrightarrow> width_mask u = width_mask w \<longleftrightarrow> u = w" for u using assms(1) width_mask_inj[of u w] by (auto simp: loose_def)
  have sub: "mset (ids l') + mset (ids r') \<subseteq># mset (ids l) + mset (ids r)" using s(5) assms(4) by simp
  show ?thesis
  proof (cases "r' = Null \<and> v = None")
    case True
    then have r: "n' = l'" "mv" using assms(5) s(1) by (auto simp: tidy_def)
    have e: "extends w key l'" "wf_node tid l'" using s(3) by (auto simp: loose_def)
    have "extends u key' l'" if "extends u key' n" for u key'
    proof -
      have "u < w" "agree u key key'" using that assms(2) w(1) extends_Node by auto
      then show ?thesis using extends_weaken[OF e(1)] by simp
    qed
    moreover have "mset (ids l') \<subseteq># mset (ids n)" using sub True assms(2) by (simp add: mset_sub_add)
    moreover have "items l' = {(j, x) \<in> items n. j \<noteq> h}" using s(4) assms(3) True by simp
    moreover have "agree u (n_key l') (n_key n)" if "l' \<noteq> Null" "n_mask n = width_mask u" "u \<le> 64" for u
    proof -
      have "width_mask u = width_mask w" using that(2) assms(2) by simp
      then have "u = w" using w(2)[OF that(3)] by blast
      then show ?thesis using e(1) that(1) assms(2) by (auto simp: extends_def)
    qed
    ultimately show ?thesis using e(2) r unfolding removed_def by blast
  next
    case False
    then have r: "n' = Node i key (width_mask w) tid v l' r'" "\<not> mv" using assms(5) s(1) by (auto simp: tidy_def)
    have "items n' = {(j, x) \<in> items n. j \<noteq> h}" using s(4) assms(3) r(1) by (simp add: Un_assoc)
    moreover have "mset (ids n') \<subseteq># mset (ids n)" using sub r(1) assms(2) by simp
    ultimately show ?thesis using s(2) r assms(2) by (auto simp: removed_def extends_def)
  qed
qed

lemma ids_rest: "h \<notin> set (ids m) \<Longrightarrow> {(j, x) \<in> items m. j \<noteq> h} = items m"
  using ids_items by fastforce

text \<open>A node after a removal in one of its kids.\<close>

lemma removed_kid:
  assumes "wf_node tid (Node i key msk tid v l r)" "msk = width_mask w" "w \<le> 64" and "removed tid h kid kid' mv" "kid \<noteq> Null"
    and "kid = l \<and> l1 = kid' \<and> r1 = r \<and> h \<notin> set (ids r) \<or> kid = r \<and> l1 = l \<and> r1 = kid' \<and> h \<notin> set (ids l)"
  shows "loose tid w key l1 r1" and "items l1 \<union> items r1 = {(j, x) \<in> items l \<union> items r. j \<noteq> h}"
    and "mset (ids l1) + mset (ids r1) \<subseteq># mset (ids l) + mset (ids r)" and "\<not> mv \<Longrightarrow> r1 \<noteq> Null \<Longrightarrow> l1 \<noteq> Null"
proof -
  have wf: "wf_node tid l" "wf_node tid r" "key AND msk = key" using assms(1) by auto
  obtain w0 where w0: "w0 \<le> 64" "msk = width_mask w0" "extends w0 key l" "extends w0 key r" "r \<noteq> Null \<longrightarrow> l \<noteq> Null \<and> \<not> agree (Suc w0) (n_key l) (n_key r)"
    using assms(1) by auto
  have "w0 = w" using w0(1,2) assms(2,3) width_mask_inj by blast
  note w = w0[unfolded this]
  obtain wk where wk: "wk \<le> 64" "w < wk" "n_mask kid = width_mask wk" using assms(5,6) w(3,4) by (auto simp: extends_def)
  have side: "kid' \<noteq> Null \<Longrightarrow> agree (Suc w) (n_key kid') (n_key kid)"
    using assms(4) wk agree_less[of wk "n_key kid'" "n_key kid" "Suc w"] by (auto simp: removed_def)
  have kid': "extends w key kid'" "wf_node tid kid'" "items kid' = {(j, x) \<in> items kid. j \<noteq> h}" "mset (ids kid') \<subseteq># mset (ids kid)"
    "\<not> mv \<longrightarrow> kid' \<noteq> Null" using assms(4,6) w(3,4) by (auto simp: removed_def)
  have part: "\<not> agree (Suc w) (n_key l1) (n_key r1)" if "l1 \<noteq> Null" "r1 \<noteq> Null"
    using assms(6)
  proof
    assume c: "kid = l \<and> l1 = kid' \<and> r1 = r \<and> h \<notin> set (ids r)"
    then have "agree (Suc w) (n_key l) (n_key l1)" using side that agree_sym by blast
    then show ?thesis using w(5) that c agree_trans by blast
  next
    assume c: "kid = r \<and> l1 = l \<and> r1 = kid' \<and> h \<notin> set (ids l)"
    then have "agree (Suc w) (n_key r1) (n_key r)" using side that by blast
    then show ?thesis using w(5) assms(5) c agree_trans by blast
  qed
  have "extends w key l1" "extends w key r1" "wf_node tid l1" "wf_node tid r1" using assms(6) kid'(1,2) w(3,4) wf(1,2) by auto
  then show "loose tid w key l1 r1" using part wf(3) w(1,2) unfolding loose_def by blast
  have split: "{(j, x) \<in> items l \<union> items r. j \<noteq> h} = {(j, x) \<in> items l. j \<noteq> h} \<union> {(j, x) \<in> items r. j \<noteq> h}" by auto
  show "items l1 \<union> items r1 = {(j, x) \<in> items l \<union> items r. j \<noteq> h}"
    unfolding split using assms(6) kid'(3) ids_rest[of h l] ids_rest[of h r] by blast
  show "mset (ids l1) + mset (ids r1) \<subseteq># mset (ids l) + mset (ids r)" using assms(6) kid'(4) by auto
  show "\<not> mv \<Longrightarrow> r1 \<noteq> Null \<Longrightarrow> l1 \<noteq> Null" using assms(5,6) kid'(5) w(5) by blast
qed

lemma remove_here:
  assumes "wf_node tid (Node h key msk tid (Some y) l r)" "distinct (ids (Node h key msk tid (Some y) l r))"
  shows "\<exists>n' mv. drop_node h (Node h key msk tid (Some y) l r) = Some (n', mv) \<and> removed tid h (Node h key msk tid (Some y) l r) n' mv"
proof -
  let ?n = "Node h key msk tid (Some y) l r"
  obtain w where w: "w \<le> 64" "msk = width_mask w" "extends w key l" using assms(1) by auto
  have it: "{(j, x) \<in> items ?n. j \<noteq> h} = items l \<union> items r" using ids_rest[of h l] ids_rest[of h r] assms(2) by auto
  show ?thesis
  proof (cases "r = Null")
    case False
    have "wf_node tid (Node h key msk tid None l r)" using assms(1) by simp
    then have "removed tid h ?n (Node h key msk tid None l r) False" using it by (auto simp: removed_def extends_def)
    then show ?thesis using False by auto
  next
    case True
    have "extends u key' l" if "extends u key' ?n" for u key'
      using that extends_weaken[OF w(3)] extends_Node[OF w(1)] w(2) by simp
    moreover have "agree u (n_key l) key" if "l \<noteq> Null" "msk = width_mask u" "u \<le> 64" for u
    proof -
      have "u = w" using that(2,3) w(1,2) width_mask_inj[of u w] by blast
      then show ?thesis using w(3) that(1) by (auto simp: extends_def)
    qed
    moreover have "mset (ids l) \<subseteq># mset (ids ?n)" by (simp add: mset_sub_add)
    ultimately have "removed tid h ?n l True" using it assms(1) True by (auto simp: removed_def)
    then show ?thesis using True by auto
  qed
qed

lemma drop_node_ok:
  assumes "wf_node tid n" "distinct (ids n)" "(h, x) \<in> items n"
  shows "\<exists>n' mv. drop_node h n = Some (n', mv) \<and> removed tid h n n' mv"
  using assms
proof (induction n)
  case (Node i key msk t v l r)
  have t: "t = tid" "wf_node tid l" "wf_node tid r" using Node.prems(1) by auto
  let ?n = "Node i key msk tid v l r"
  obtain w where w: "w \<le> 64" "msk = width_mask w" using Node.prems(1) by auto
  have wfn: "wf_node tid ?n" using Node.prems(1) t(1) by simp
  show ?case
  proof (cases "i = h")
    case True
    then obtain y where "v = Some y" using Node.prems(2,3) ids_items[of h x] by (auto split: option.splits)
    then show ?thesis using remove_here[of tid h key msk y l r] Node.prems(1,2) True t(1) by simp
  next
    case False
    have kid: "\<exists>n' mv. (if mv0 then tidy (Node i key msk tid v l1 r1) else (Node i key msk tid v l1 r1, False)) = (n', mv) \<and> removed tid h ?n n' mv"
      if k: "removed tid h kid kid' mv0" "kid \<noteq> Null"
        "kid = l \<and> l1 = kid' \<and> r1 = r \<and> h \<notin> set (ids r) \<or> kid = r \<and> l1 = l \<and> r1 = kid' \<and> h \<notin> set (ids l)" for kid kid' mv0 l1 r1
    proof -
      note rk = removed_kid[OF wfn w(2,1) k]
      have its: "(case v of None \<Rightarrow> {} | Some x \<Rightarrow> {(i, key, width_mask w, x)}) \<union> (items l1 \<union> items r1) = {(j, x) \<in> items ?n. j \<noteq> h}"
        unfolding rk(2) using False w(2) by (auto split: option.splits)
      show ?thesis
      proof (cases mv0)
        case True
        obtain n' mv where "tidy (Node i key (width_mask w) tid v l1 r1) = (n', mv)" by (metis prod.exhaust)
        then show ?thesis using tidy_ok[OF rk(1) _ its rk(3)] True w(2) by auto
      next
        case nm: False
        have "wf_node tid (Node i key msk tid v l1 r1)" using loose_wf[OF rk(1), of i v] rk(4)[OF nm] w(2) by simp
        then show ?thesis using nm its rk(3) w(2) by (auto simp: removed_def extends_def Un_assoc)
      qed
    qed
    have "(h, x) \<in> items l \<or> (h, x) \<in> items r" using Node.prems(3) False by (auto split: option.splits)
    then show ?thesis
    proof
      assume hl: "(h, x) \<in> items l"
      then have "has_id h l" "h \<notin> set (ids r)" "l \<noteq> Null" using ids_items[OF hl] Node.prems(2) by (auto simp: has_id_ids)
      moreover obtain l1 mv0 where "drop_node h l = Some (l1, mv0)" "removed tid h l l1 mv0" using Node.IH(1) t(2) hl Node.prems(2) by auto
      ultimately show ?thesis using kid[of l l1 mv0 l1 r] False t(1) by (auto split: prod.splits)
    next
      assume hr: "(h, x) \<in> items r"
      then have "\<not> has_id h l" "h \<notin> set (ids l)" "r \<noteq> Null" using ids_items[OF hr] Node.prems(2) by (auto simp: has_id_ids)
      moreover obtain r1 mv0 where "drop_node h r = Some (r1, mv0)" "removed tid h r r1 mv0" using Node.IH(2) t(3) hr Node.prems(2) by auto
      ultimately show ?thesis using kid[of r r1 mv0 l r1] False t(1) by (auto split: prod.splits)
    qed
  qed
qed simp

section \<open>The tree as an index of keys\<close>

definition trie_wf :: "nat \<Rightarrow> trie \<Rightarrow> bool" where
  "trie_wf tid t \<longleftrightarrow> wf_node tid (trie_head t) \<and> trie_head t \<noteq> Null \<and> n_mask (trie_head t) = width_mask 0 \<and> n_value (trie_head t) = None \<and>
     distinct (ids (trie_head t)) \<and> (\<forall>j \<in> set (ids (trie_head t)). j < trie_next t)"

definition trie_items :: "trie \<Rightarrow> (nat \<times> 64 word \<times> 64 word \<times> nat) set" where
  "trie_items t = items (trie_head t)"

lemma width_mask_0 [simp]: "width_mask 0 = 0"
  by (rule bit_word_eqI) (simp add: bit_width_mask)

lemma root_value: "wf_node tid n \<Longrightarrow> items n' = A \<Longrightarrow> n' \<noteq> Null \<Longrightarrow> n_mask n' = 0 \<Longrightarrow> (\<forall>(i, key, msk, v) \<in> A. msk \<noteq> 0) \<Longrightarrow> n_value n' = None"
  by (cases n'; cases "n_value n'") auto

lemma root_items:
  assumes "trie_wf tid t" "(i, key, msk, v) \<in> trie_items t"
  shows "msk \<noteq> 0" and "key AND msk = key"
proof -
  obtain j k m t' l r where n: "trie_head t = Node j k m t' None l r" using assms(1) by (cases "trie_head t") (auto simp: trie_wf_def)
  obtain w where w: "w \<le> 64" "m = width_mask w" "extends w k l" "extends w k r" and wf: "wf_node tid l" "wf_node tid r"
    using assms(1) n by (auto simp: trie_wf_def)
  have kid: "\<exists>u w'. m' \<noteq> Null \<and> n_mask m' = width_mask u \<and> w < u \<and> u \<le> w' \<and> w' \<le> 64 \<and> msk = width_mask w'"
    if it: "(i, key, msk, v) \<in> items m'" "m' = l \<or> m' = r" for m'
  proof -
    have ne: "m' \<noteq> Null" using it(1) by auto
    then obtain u where u: "u \<le> 64" "w < u" "n_mask m' = width_mask u" using w(3,4) it(2) by (auto simp: extends_def)
    then show ?thesis using items_under[OF _ it(1) u(3,1), of tid] wf it(2) ne by blast
  qed
  have "(i, key, msk, v) \<in> items l \<or> (i, key, msk, v) \<in> items r" using assms(2) n by (auto simp: trie_items_def)
  then obtain w' where "0 < w'" "w' \<le> 64" "msk = width_mask w'"
    using kid[of l] kid[of r] that by (metis gr_zeroI le_zero_eq not_less_zero)
  then show "msk \<noteq> 0" using width_mask_inj[of w' 0] by simp
  have "wf_node tid n \<Longrightarrow> (i, key, msk, v) \<in> items n \<Longrightarrow> key AND msk = key" for n by (induction n) (auto split: option.splits)
  then show "key AND msk = key" using assms by (auto simp: trie_wf_def trie_items_def)
qed

lemma new_trie_wf: "trie_wf tid (new_trie tid) \<and> trie_items (new_trie tid) = {}"
  by (simp add: new_trie_def new_node_def trie_wf_def trie_items_def extends_def exI[of _ 0])

lemma trie_lookup_spec:
  assumes "trie_wf tid t"
  shows "case trie_lookup k t of
      None \<Rightarrow> \<forall>(i, key, msk, v) \<in> trie_items t. k AND msk \<noteq> key
    | Some x \<Rightarrow> \<exists>i key msk. (i, key, msk, x) \<in> trie_items t \<and> k AND msk = key \<and>
        (\<forall>(i', key', msk', x') \<in> trie_items t. k AND msk' = key' \<longrightarrow> msk AND msk' = msk)"
proof -
  have m: "n_matches (trie_head t) k"
    using assms wf_width[of tid "trie_head t"] by (auto simp: trie_wf_def n_matches_def)
  show ?thesis using lookup_node_spec[OF _ m, of tid] assms
    by (fastforce simp: trie_lookup_def trie_items_def trie_wf_def split: node.splits)
qed

lemma trie_insert_ok:
  assumes "trie_wf tid t" and "0 < width" "width \<le> 64" and "\<forall>i x. (i, k AND width_mask width, width_mask width, x) \<notin> trie_items t"
  shows "\<exists>hn t'. trie_insert tid k width v t = Some (hn, t') \<and> trie_wf tid t' \<and>
    trie_items t' = insert (hn, k AND width_mask width, width_mask width, v) (trie_items t) \<and> (\<forall>x. (hn, x) \<notin> trie_items t)"
proof -
  let ?k = "k AND width_mask width" and ?n = "trie_head t"
  have k: "?k AND width_mask width = ?k" by (simp add: word_bw_assocs)
  note wf = assms(1)[unfolded trie_wf_def]
  from insert_below_ok[of tid ?n 0 ?k width "trie_next t" v] wf k assms(2-4) obtain n' hn nx where
    n': "insert_below (trie_next t) tid ?k (width_mask width) v ?n = Some (n', hn, nx)" "inserted (trie_next t) tid ?k width v ?n n' hn nx"
    "n' \<noteq> Null" "n_mask n' = n_mask ?n" by (auto simp: trie_items_def)
  let ?t = "\<lparr>trie_head = n', trie_next = nx\<rparr>"
  note ins = n'(2)[unfolded inserted_def]
  have "n_value n' = None"
  proof (rule root_value[of tid ?n n' "insert (hn, ?k, width_mask width, v) (items ?n)"])
    have "width_mask width \<noteq> 0" using width_mask_inj[of width 0] assms(2,3) by simp
    then show "\<forall>(i, key, msk, v) \<in> insert (hn, ?k, width_mask width, v) (items ?n). msk \<noteq> 0" using root_items(1)[OF assms(1)] by (auto simp: trie_items_def)
  qed (use wf ins n'(3,4) in auto)
  moreover have "distinct (ids n')"
  proof -
    have "mset (ids n') = mset (ids ?n @ [trie_next t..<nx])" using ins by simp
    then have "distinct (ids n') = distinct (ids ?n @ [trie_next t..<nx])" by (rule mset_eq_imp_distinct_iff)
    then show ?thesis using wf by auto
  qed
  moreover have "\<forall>j \<in> set (ids n'). j < nx" using inserted_ids[OF n'(2)] wf ins by fastforce
  ultimately have "trie_wf tid ?t" using wf ins n'(3,4) by (simp add: trie_wf_def)
  then show ?thesis using n'(1) ins assms(2) by (auto simp: trie_insert_def Let_def trie_items_def)
qed

lemma distinct_sub:
  assumes "mset xs \<subseteq># mset ys" "distinct ys"
  shows "distinct xs"
proof -
  obtain zs where "mset ys = mset (xs @ zs)" by (metis assms(1) ex_mset mset_append mset_subset_eq_exists_conv)
  then have "distinct ys = distinct (xs @ zs)" by (rule mset_eq_imp_distinct_iff)
  then show ?thesis using assms(2) by simp
qed

lemma root_removed:
  assumes "trie_wf tid t" "trie_head t = Node i key msk tid None l r" "loose tid 0 key l1 r1"
    and "items l1 \<union> items r1 = {(j, x) \<in> items l \<union> items r. j \<noteq> h}" "mset (ids l1) + mset (ids r1) \<subseteq># mset (ids l) + mset (ids r)"
    and "\<not> mv \<Longrightarrow> r1 \<noteq> Null \<Longrightarrow> l1 \<noteq> Null"
    and "n' = (if mv then shift_kids (Node i key msk tid None l1 r1) else Node i key msk tid None l1 r1)"
  shows "trie_wf tid (t\<lparr>trie_head := n'\<rparr>) \<and> trie_items (t\<lparr>trie_head := n'\<rparr>) = {(j, x) \<in> trie_items t. j \<noteq> h}"
proof -
  have m: "msk = width_mask 0" using assms(1,2) by (simp add: trie_wf_def)
  obtain l' r' where s: "n' = Node i key msk tid None l' r'" "wf_node tid n'" "items l' \<union> items r' = items l1 \<union> items r1"
    "mset (ids l') + mset (ids r') = mset (ids l1) + mset (ids r1)"
  proof (cases mv)
    case True
    from shift_kids_ok[OF assms(3), of i None] obtain l' r' where "shift_kids (Node i key (width_mask 0) tid None l1 r1) = Node i key (width_mask 0) tid None l' r'"
      "wf_node tid (Node i key (width_mask 0) tid None l' r')" "items l' \<union> items r' = items l1 \<union> items r1"
      "mset (ids l') + mset (ids r') = mset (ids l1) + mset (ids r1)" by metis
    then show ?thesis using that[of l' r'] True assms(7) unfolding m by (simp del: wf_node.simps width_mask_0)
  next
    case False
    then show ?thesis using that[of l1 r1] loose_wf[OF assms(3), of i None] assms(6,7) unfolding m by (simp del: wf_node.simps width_mask_0)
  qed
  have sub: "mset (ids n') \<subseteq># mset (ids (trie_head t))" using s(1,4) assms(2,5) by simp
  then have "distinct (ids n')" by (rule distinct_sub) (use assms(1) in \<open>simp add: trie_wf_def\<close>)
  moreover have "set (ids n') \<subseteq> set (ids (trie_head t))" using set_mset_mono[OF sub] by simp
  ultimately show ?thesis using s assms(1,2,4) by (auto simp: trie_wf_def trie_items_def)
qed

lemma trie_remove_ok:
  assumes "trie_wf tid t" and "(h, x) \<in> trie_items t"
  shows "\<exists>t'. trie_remove h t = Some t' \<and> trie_wf tid t' \<and> trie_items t' = {(j, y) \<in> trie_items t. j \<noteq> h}"
proof -
  note wf = assms(1)[unfolded trie_wf_def]
  obtain i key m tt l r where "trie_head t = Node i key m tt None l r" using wf by (cases "trie_head t") auto
  moreover from this have "tt = tid" using wf by simp
  ultimately have n: "trie_head t = Node i key m tid None l r" by simp
  have wfn: "wf_node tid (Node i key m tid None l r)" "m = width_mask 0" "(0 :: nat) \<le> 64" using wf n by auto
  have wfk: "wf_node tid l" "wf_node tid r" using wfn(1) by auto
  have d: "distinct (ids l)" "distinct (ids r)" "i \<notin> set (ids l)" "i \<notin> set (ids r)" "set (ids l) \<inter> set (ids r) = {}" using wf n by auto
  have "(h, x) \<in> items l \<or> (h, x) \<in> items r" using assms(2) n by (auto simp: trie_items_def)
  then show ?thesis
  proof
    assume hl: "(h, x) \<in> items l"
    then have l: "h \<in> set (ids l)" "h \<notin> set (ids r)" "l \<noteq> Null" "i \<noteq> h" using ids_items[OF hl] d by auto
    obtain l1 mv where r: "drop_node h l = Some (l1, mv)" "removed tid h l l1 mv" using drop_node_ok[OF wfk(1) d(1) hl] by blast
    note k = removed_kid[OF wfn r(2) l(3), of l1 r]
    show ?thesis using root_removed[OF assms(1) n, of l1 r h mv] k l r(1) n by (simp add: trie_remove_def has_id_ids)
  next
    assume hr: "(h, x) \<in> items r"
    then have l: "h \<in> set (ids r)" "h \<notin> set (ids l)" "r \<noteq> Null" "i \<noteq> h" using ids_items[OF hr] d by auto
    obtain r1 mv where r: "drop_node h r = Some (r1, mv)" "removed tid h r r1 mv" using drop_node_ok[OF wfk(2) d(2) hr] by blast
    note k = removed_kid[OF wfn r(2) l(3), of l r1]
    show ?thesis using root_removed[OF assms(1) n, of l r1 h mv] k l r(1) n by (simp add: trie_remove_def has_id_ids)
  qed
qed

lemma items_unique:
  assumes "wf_node tid n" "distinct (ids n)" "(i, key, msk, x) \<in> items n" "(i', key', msk', x') \<in> items n" "key = key' \<and> msk = msk' \<or> i = i'"
  shows "(i, key, msk, x) = (i', key', msk', x')"
  using assms
proof (induction n)
  case (Node j nk nm t nv l r)
  obtain w where w: "w \<le> 64" "nm = width_mask w" "extends w nk l" "extends w nk r" "r \<noteq> Null \<longrightarrow> l \<noteq> Null \<and> \<not> agree (Suc w) (n_key l) (n_key r)"
    and wf: "wf_node tid l" "wf_node tid r" using Node.prems(1) by auto
  have below: "\<exists>w' \<le> 64. w < w' \<and> m0 = width_mask w' \<and> agree (Suc w) k0 (n_key m)" "j0 \<noteq> j" "j0 \<in> set (ids m)"
    if it: "(j0, k0, m0, y) \<in> items m" "m = l \<or> m = r" for j0 k0 m0 y m
  proof -
    have ne: "m \<noteq> Null" using it(1) by auto
    then obtain u where u: "u \<le> 64" "w < u" "n_mask m = width_mask u" using w(3,4) it(2) by (auto simp: extends_def)
    obtain w' where "w' \<le> 64" "u \<le> w'" "m0 = width_mask w'" "agree u k0 (n_key m)"
      using items_under[OF _ it(1) u(3,1), of tid] wf it(2) by blast
    then show "\<exists>w' \<le> 64. w < w' \<and> m0 = width_mask w' \<and> agree (Suc w) k0 (n_key m)" using u agree_less[of u k0 "n_key m" "Suc w"] by (intro exI[of _ w']) auto
    show "j0 \<in> set (ids m)" by (rule ids_items[OF it(1)])
    then show "j0 \<noteq> j" using Node.prems(2) it(2) by auto
  qed
  have own: "(a, b, c, d) = (j, nk, nm, d) \<and> nv = Some d \<or> (a, b, c, d) \<in> items l \<or> (a, b, c, d) \<in> items r"
    if "(a, b, c, d) \<in> items (Node j nk nm t nv l r)" for a b c d using that by (auto split: option.splits)
  have differ: "\<not> (b = b' \<and> c = c' \<or> a = a')" if it: "(a, b, c, d) \<in> items l" "(a', b', c', d') \<in> items r" for a b c d a' b' c' d'
  proof -
    have "l \<noteq> Null" "r \<noteq> Null" using it by auto
    then have "\<not> agree (Suc w) (n_key l) (n_key r)" using w(5) by simp
    then have "b \<noteq> b'" using below(1)[OF it(1)] below(1)[OF it(2)] agree_trans agree_sym by blast
    moreover have "a \<noteq> a'" using below(3)[OF it(1)] below(3)[OF it(2)] Node.prems(2) by auto
    ultimately show ?thesis by blast
  qed
  have lower: "\<not> (b = nk \<and> c = nm \<or> a = j)" if it: "(a, b, c, d) \<in> items m" "m = l \<or> m = r" for a b c d m
  proof -
    obtain w' where "w' \<le> 64" "w < w'" "c = width_mask w'" using below(1)[OF it] by blast
    then have "c \<noteq> nm" using width_mask_inj[of w' w] w(1,2) by simp
    then show ?thesis using below(2)[OF it] by blast
  qed
  have d: "distinct (ids l)" "distinct (ids r)" using Node.prems(2) by auto
  from own[OF Node.prems(3)] own[OF Node.prems(4)] show ?case
    using Node.prems(5) Node.IH(1)[OF wf(1) d(1)] Node.IH(2)[OF wf(2) d(2)] differ lower by (elim disjE) blast+
qed simp

text \<open>
  What a client relies on: the index holds keys with masks and values under handles, and finds the value of
  the shortest key that matches.
\<close>

locale prefix_index =
  fixes ok :: "'t \<Rightarrow> bool" and keys :: "'t \<Rightarrow> (nat \<times> 64 word \<times> 64 word \<times> nat) set"
    and find :: "64 word \<Rightarrow> 't \<Rightarrow> nat option"
    and add :: "64 word \<Rightarrow> nat \<Rightarrow> nat \<Rightarrow> 't \<Rightarrow> (nat \<times> 't) option" and del :: "nat \<Rightarrow> 't \<Rightarrow> 't option"
  assumes find_law: "ok t \<Longrightarrow> case find k t of
      None \<Rightarrow> \<forall>(i, key, msk, v) \<in> keys t. k AND msk \<noteq> key
    | Some x \<Rightarrow> \<exists>i key msk. (i, key, msk, x) \<in> keys t \<and> k AND msk = key \<and> (\<forall>(i', key', msk', x') \<in> keys t. k AND msk' = key' \<longrightarrow> msk AND msk' = msk)"
    and add_law: "ok t \<Longrightarrow> 0 < w \<Longrightarrow> w \<le> 64 \<Longrightarrow> \<forall>i x. (i, k AND width_mask w, width_mask w, x) \<notin> keys t \<Longrightarrow>
      \<exists>hn t'. add k w v t = Some (hn, t') \<and> ok t' \<and> keys t' = insert (hn, k AND width_mask w, width_mask w, v) (keys t) \<and> (\<forall>x. (hn, x) \<notin> keys t)"
    and del_law: "ok t \<Longrightarrow> (h, y) \<in> keys t \<Longrightarrow> \<exists>t'. del h t = Some t' \<and> ok t' \<and> keys t' = {(j, z) \<in> keys t. j \<noteq> h}"
    and unique_law: "ok t \<Longrightarrow> (i, key, msk, x) \<in> keys t \<Longrightarrow> (i', key', msk', x') \<in> keys t \<Longrightarrow> key = key' \<and> msk = msk' \<or> i = i' \<Longrightarrow>
      (i, key, msk, x) = (i', key', msk', x')"
begin

definition hits :: "64 word \<Rightarrow> 't \<Rightarrow> (nat \<times> 64 word \<times> 64 word \<times> nat) set" where
  "hits k t = {(i, key, msk, x) \<in> keys t. k AND msk = key}"

lemma find_None: "ok t \<Longrightarrow> find k t = None \<longleftrightarrow> hits k t = {}"
  using find_law[of t k] by (auto simp: hits_def split: option.splits)

text \<open>The shortest match is the only one with its mask.\<close>

lemma find_shortest:
  assumes "ok t" "(i, key, msk, x) \<in> hits k t" "\<forall>(i', key', msk', x') \<in> hits k t. msk AND msk' = msk"
  shows "find k t = Some x"
proof -
  have "find k t \<noteq> None" using find_None[OF assms(1)] assms(2) by blast
  then obtain y where y: "find k t = Some y" by blast
  from find_law[OF assms(1), of k] y obtain i' key' msk' where f: "(i', key', msk', y) \<in> keys t" "k AND msk' = key'"
    "\<forall>(j, key, m, x) \<in> keys t. k AND m = key \<longrightarrow> msk' AND m = msk'" by auto
  have a: "(i, key, msk, x) \<in> keys t" "k AND msk = key" using assms(2) by (auto simp: hits_def)
  have "msk' AND msk = msk'" using f(3) a by blast
  moreover have "msk AND msk' = msk" using assms(3) f(1,2) by (auto simp: hits_def)
  ultimately have "msk = msk'" by (simp add: ac_simps)
  then show ?thesis using unique_law[OF assms(1) a(1) f(1)] a(2) f(2) y by simp
qed

lemma find_hits:
  assumes "ok t" "ok t'" "hits k t = hits k t'"
  shows "find k t = find k t'"
proof (cases "find k t")
  case None
  then show ?thesis using find_None assms by metis
next
  case (Some x)
  then obtain i key msk where "(i, key, msk, x) \<in> hits k t" "\<forall>(i', key', msk', x') \<in> hits k t. msk AND msk' = msk"
  proof -
    from find_law[OF assms(1), of k] Some obtain i key msk where f: "(i, key, msk, x) \<in> keys t" "k AND msk = key"
      "\<forall>(i', key', msk', x') \<in> keys t. k AND msk' = key' \<longrightarrow> msk AND msk' = msk" by auto
    have "\<forall>(i', key', msk', x') \<in> hits k t. msk AND msk' = msk" using f(3) by (fastforce simp: hits_def)
    moreover have "(i, key, msk, x) \<in> hits k t" using f(1,2) by (simp add: hits_def)
    ultimately show ?thesis using that by blast
  qed
  then show ?thesis using find_shortest[OF assms(2)] assms(3) Some by metis
qed

text \<open>After a key is added that nothing matched, it is found by all keys it matches, and the others find what they found.\<close>

lemma find_added:
  assumes "ok t" "ok t'" "keys t' = insert (hn, key, msk, v) (keys t)" "find k0 t = None" "k0 AND msk = key"
    and "\<forall>(i', key', msk', x') \<in> keys t. msk' AND msk = msk' \<or> msk AND msk' = msk"
  shows "find k t' = (if k AND msk = key then Some v else find k t)"
proof (cases "k AND msk = key")
  case True
  have "(hn, key, msk, v) \<in> hits k t'" using True assms(3) by (simp add: hits_def)
  moreover have "msk AND msk' = msk" if h: "(i', key', msk', x') \<in> hits k t'" for i' key' msk' x'
  proof (cases "(i', key', msk', x') = (hn, key, msk, v)")
    case False
    then have it: "(i', key', msk', x') \<in> keys t" "k AND msk' = key'" using h assms(3) by (auto simp: hits_def)
    have "\<not> msk' AND msk = msk'"
    proof
      assume "msk' AND msk = msk'"
      then have "k0 AND msk' = (k0 AND msk) AND msk'" "k AND msk' = (k AND msk) AND msk'" by (metis word_bw_assocs(1) word_bw_comms(1))+
      then have "k0 AND msk' = key'" using True assms(5) it(2) by simp
      then have "(i', key', msk', x') \<in> hits k0 t" using it(1) by (simp add: hits_def)
      then show False using find_None[OF assms(1)] assms(4) by blast
    qed
    then show ?thesis using assms(6) it(1) by blast
  qed simp
  ultimately have "find k t' = Some v" by (intro find_shortest[OF assms(2)]) blast+
  then show ?thesis using True by simp
next
  case False
  then have "hits k t' = hits k t" using assms(3) by (auto simp: hits_def)
  then show ?thesis using find_hits[OF assms(2,1)] False by simp
qed

lemma find_deleted:
  assumes "ok t" "ok t'" "keys t' = {(j, y) \<in> keys t. j \<noteq> h}" "(h, key, msk, v) \<in> keys t" "k AND msk \<noteq> key"
  shows "find k t' = find k t"
proof -
  have "i \<noteq> h" if "(i, ky, m, x) \<in> keys t" "k AND m = ky" for i ky m x
    using unique_law[OF assms(1) that(1) assms(4)] that(2) assms(5) by blast
  then have "hits k t' = hits k t" unfolding hits_def assms(3) by blast
  then show ?thesis by (rule find_hits[OF assms(2,1)])
qed

end

interpretation trie_index: prefix_index "trie_wf tid" trie_items trie_lookup "trie_insert tid" trie_remove for tid
proof
  show "case trie_lookup k t of
      None \<Rightarrow> \<forall>(i, key, msk, v) \<in> trie_items t. k AND msk \<noteq> key
    | Some x \<Rightarrow> \<exists>i key msk. (i, key, msk, x) \<in> trie_items t \<and> k AND msk = key \<and>
        (\<forall>(i', key', msk', x') \<in> trie_items t. k AND msk' = key' \<longrightarrow> msk AND msk' = msk)" if "trie_wf tid t" for t k
    by (rule trie_lookup_spec[OF that])
  show "\<exists>hn t'. trie_insert tid k w v t = Some (hn, t') \<and> trie_wf tid t' \<and>
      trie_items t' = insert (hn, k AND width_mask w, width_mask w, v) (trie_items t) \<and> (\<forall>x. (hn, x) \<notin> trie_items t)"
    if "trie_wf tid t" "0 < w" "w \<le> 64" "\<forall>i x. (i, k AND width_mask w, width_mask w, x) \<notin> trie_items t" for t w k v
    by (rule trie_insert_ok[OF that])
  show "\<exists>t'. trie_remove h t = Some t' \<and> trie_wf tid t' \<and> trie_items t' = {(j, y) \<in> trie_items t. j \<noteq> h}"
    if "trie_wf tid t" "(h, x) \<in> trie_items t" for t h x by (rule trie_remove_ok[OF that])
  show "(i, key, msk, x) = (i', key', msk', x')"
    if "trie_wf tid t" "(i, key, msk, x) \<in> trie_items t" "(i', key', msk', x') \<in> trie_items t" "key = key' \<and> msk = msk' \<or> i = i'" for t i key msk x i' key' msk' x'
    using items_unique[of tid "trie_head t"] that unfolding trie_wf_def trie_items_def by blast
qed

end
