(* ===== verification/X86_Tlb.thy ===== *)
theory X86_Tlb
  imports Trie Metadata
begin

text \<open>
  The TLB of the X86 target (\<^verbatim>\<open>src/arch/x86/tlb.cc\<close>), with the DOLMA additions: one tree per
  hardware thread, and translations of restricted requests that neither touch the replacement order nor
  start a walk. The registers of the thread context are a record; the page table walker, the page
  table of the process and the table of model specific registers are arguments. Statistics are left out.
\<close>

unbundle bit_operations_syntax

section \<open>State\<close>

text \<open>A handle is a node of the tree of a thread: the thread that the node carries, and the node.\<close>

record tlb_entry =
  te_tid :: nat
  te_paddr :: addr
  te_vaddr :: addr
  te_logBytes :: nat
  te_writable :: bool
  te_user :: bool
  te_uncacheable :: bool
  te_global :: bool
  te_patBit :: bool
  te_noExec :: bool
  te_lruSeq :: "64 word"
  te_trieHandle :: "(nat \<times> nat) option"

definition PageShift :: nat where "PageShift = 12"

definition blank_tlb_entry :: tlb_entry where
  "blank_tlb_entry = \<lparr>te_tid = 0, te_paddr = 0, te_vaddr = 0, te_logBytes = 0, te_writable = False, te_user = True, te_uncacheable = False,
     te_global = False, te_patBit = False, te_noExec = False, te_lruSeq = 0, te_trieHandle = None\<rparr>"

definition page_entry :: "nat \<Rightarrow> addr \<Rightarrow> addr \<Rightarrow> bool \<Rightarrow> bool \<Rightarrow> tlb_entry" where
  "page_entry tid va pa uncacheable read_only = blank_tlb_entry\<lparr>te_tid := tid, te_paddr := pa, te_vaddr := va, te_logBytes := PageShift,
     te_writable := \<not> read_only, te_uncacheable := uncacheable\<rparr>"

record tlb =
  tl_size :: nat
  tl_tlb :: "tlb_entry list"
  tl_freeList :: "nat list"
  tl_tries :: "trie list"
  tl_lruSeq :: "64 word"
  num_threads_per_core :: nat

definition new_tlb :: "nat \<Rightarrow> nat \<Rightarrow> tlb option" where
  "new_tlb sz threads = do {
     check (sz \<noteq> 0);
     Some \<lparr>tl_size = sz, tl_tlb = replicate sz blank_tlb_entry, tl_freeList = [0..<sz], tl_tries = map new_trie [0..<threads],
           tl_lruSeq = 0, num_threads_per_core = threads\<rparr> }"

section \<open>Entries\<close>

text \<open>Taking an entry out of its tree and putting it on the free list.\<close>

definition free_from :: "nat \<Rightarrow> nat \<Rightarrow> tlb \<Rightarrow> tlb option" where
  "free_from tid i t = do {
     e \<leftarrow> vec_get (tl_tlb t) i;
     (_, hn) \<leftarrow> te_trieHandle e;
     tr \<leftarrow> vec_get (tl_tries t) tid;
     tr1 \<leftarrow> trie_remove hn tr;
     Some (t\<lparr>tl_tries := (tl_tries t)[tid := tr1], tl_tlb := (tl_tlb t)[i := e\<lparr>te_trieHandle := None\<rparr>],
            tl_freeList := tl_freeList t @ [i]\<rparr>) }"

definition free_entry :: "nat \<Rightarrow> tlb \<Rightarrow> tlb option" where
  "free_entry i t = do {
     e \<leftarrow> vec_get (tl_tlb t) i;
     (tid, _) \<leftarrow> te_trieHandle e;
     free_from tid i t }"

definition lru_index :: "tlb_entry list \<Rightarrow> nat" where
  "lru_index es = fold (\<lambda>i lru. if te_lruSeq (es ! i) < te_lruSeq (es ! lru) then i else lru) [1..<length es] 0"

definition evictLRU :: "tlb \<Rightarrow> tlb option" where
  "evictLRU t = free_entry (lru_index (tl_tlb t)) t"

definition tlb_nextSeq :: "tlb \<Rightarrow> 64 word \<times> tlb" where
  "tlb_nextSeq t = (tl_lruSeq t + 1, t\<lparr>tl_lruSeq := tl_lruSeq t + 1\<rparr>)"

definition tlb_insert :: "addr \<Rightarrow> tlb_entry \<Rightarrow> tlb \<Rightarrow> (nat \<times> tlb) option" where
  "tlb_insert vpn entry t = do {
     tr \<leftarrow> vec_get (tl_tries t) (te_tid entry);
     (case trie_lookup vpn tr of
        Some i \<Rightarrow> do {
          e \<leftarrow> vec_get (tl_tlb t) i;
          check (te_tid e = te_tid entry);
          check (te_vaddr e = vpn);
          Some (i, t) }
      | None \<Rightarrow> do {
          t1 \<leftarrow> (if tl_freeList t = [] then evictLRU t else Some t);
          (case tl_freeList t1 of
             [] \<Rightarrow> None
           | i # free \<Rightarrow> do {
               let (sn, t2) = tlb_nextSeq (t1\<lparr>tl_freeList := free\<rparr>);
               tr1 \<leftarrow> vec_get (tl_tries t2) (te_tid entry);
               (hn, tr2) \<leftarrow> trie_insert (te_tid entry) vpn (64 - te_logBytes entry) i tr1;
               tlb1 \<leftarrow> vec_set (tl_tlb t2) i (entry\<lparr>te_lruSeq := sn, te_vaddr := vpn, te_trieHandle := Some (te_tid entry, hn)\<rparr>);
               Some (i, t2\<lparr>tl_tries := (tl_tries t2)[te_tid entry := tr2], tl_tlb := tlb1\<rparr>) }) }) }"

definition tlb_lookup :: "nat \<Rightarrow> addr \<Rightarrow> bool \<Rightarrow> tlb \<Rightarrow> (nat option \<times> tlb) option" where
  "tlb_lookup tid va update_lru t = do {
     tr \<leftarrow> vec_get (tl_tries t) tid;
     (case trie_lookup va tr of
        None \<Rightarrow> Some (None, t)
      | Some i \<Rightarrow> if update_lru then do {
            let (sn, t1) = tlb_nextSeq t;
            e \<leftarrow> vec_get (tl_tlb t1) i;
            Some (Some i, t1\<lparr>tl_tlb := (tl_tlb t1)[i := e\<lparr>te_lruSeq := sn\<rparr>]\<rparr>) }
          else Some (Some i, t)) }"

definition flush_where :: "(tlb_entry \<Rightarrow> bool) \<Rightarrow> tlb \<Rightarrow> tlb option" where
  "flush_where P t = foldM (\<lambda>i t. do {
     e \<leftarrow> vec_get (tl_tlb t) i;
     (if te_trieHandle e \<noteq> None \<and> P e then free_entry i t else Some t) }) [0..<tl_size t] t"

definition flushAll :: "tlb \<Rightarrow> tlb option" where
  "flushAll = flush_where (\<lambda>_. True)"

definition flushNonGlobal :: "tlb \<Rightarrow> tlb option" where
  "flushNonGlobal = flush_where (\<lambda>e. \<not> te_global e)"

definition demapPage :: "addr \<Rightarrow> tlb \<Rightarrow> tlb option" where
  "demapPage va t = do {
     tr \<leftarrow> vec_get (tl_tries t) 0;
     (case trie_lookup va tr of None \<Rightarrow> Some t | Some i \<Rightarrow> free_from 0 i t) }"

section \<open>Translation\<close>

definition UNCACHEABLE :: "64 word" where "UNCACHEABLE = 0x00000400"
definition STRICT_ORDER_FLAG :: "64 word" where "STRICT_ORDER_FLAG = 0x00000800"
definition MMAPPED_IPR_FLAG :: "64 word" where "MMAPPED_IPR_FLAG = 0x00002000"
definition GENERIC_IPR :: "64 word" where "GENERIC_IPR = 0x08000000"

definition setFlags :: "64 word \<Rightarrow> request \<Rightarrow> request" where
  "setFlags f r = r\<lparr>req_flags := req_flags r OR f\<rparr>"

definition setPaddr :: "addr \<Rightarrow> request \<Rightarrow> request" where
  "setPaddr a r = r\<lparr>req_paddr := Some a\<rparr>"

definition SegmentFlagMask :: "64 word" where "SegmentFlagMask = mask 4"
definition FlagShift :: nat where "FlagShift = 4"
definition CPL0FlagBit :: "64 word" where "CPL0FlagBit = 1"
definition AddrSizeFlagBit :: "64 word" where "AddrSizeFlagBit = 2"
definition StoreCheck :: "64 word" where "StoreCheck = 4"

abbreviation ld_flag :: "64 word \<Rightarrow> request \<Rightarrow> bool" where
  "ld_flag f r \<equiv> req_flags r AND push_bit FlagShift f \<noteq> 0"

definition segment_of :: "request \<Rightarrow> nat" where
  "segment_of r = unat (req_flags r AND SegmentFlagMask)"

definition SEGMENT_REG_ES :: nat where "SEGMENT_REG_ES = 0"
definition SEGMENT_REG_HS :: nat where "SEGMENT_REG_HS = 6"
definition SEGMENT_REG_TSG :: nat where "SEGMENT_REG_TSG = 8"
definition SEGMENT_REG_LS :: nat where "SEGMENT_REG_LS = 9"
definition SEGMENT_REG_MS :: nat where "SEGMENT_REG_MS = 10"
definition SYS_SEGMENT_REG_IDTR :: nat where "SYS_SEGMENT_REG_IDTR = 12"

text \<open>The registers that a translation reads.\<close>

record seg_attr =
  sa_writable :: bool
  sa_readable :: bool
  sa_expandDown :: bool

record x86_context =
  tc_threadId :: nat
  tc_contextId :: "8 word"
  m5_prot :: bool
  m5_longMode :: bool
  m5_sixtyFour :: bool
  m5_paging :: bool
  m5_cpl :: nat
  m5_altAddr :: nat
  m5_defAddr :: nat
  seg_sel :: "nat \<Rightarrow> 64 word"
  seg_attrs :: "nat \<Rightarrow> seg_attr"
  seg_base :: "nat \<Rightarrow> addr"
  seg_limit :: "nat \<Rightarrow> addr"
  cr0_wp :: bool
  apic_base :: addr
  pci_config_address :: "64 word"

datatype access_mode = Mode_Read | Mode_Write | Mode_Execute

record pte =
  pte_paddr :: addr
  pte_uncacheable :: bool
  pte_readOnly :: bool

text \<open>
  What the TLB calls: the page table walker, the page table of the process, before and after the stack
  was grown for an address, and the index of a model specific register.
\<close>

record tlb_env =
  FullSystem :: bool
  walker_start :: "request \<Rightarrow> access_mode \<Rightarrow> tlb \<Rightarrow> fault \<times> tlb"
  pTable :: "addr \<Rightarrow> pte option"
  fixupStackFault :: "addr \<Rightarrow> (addr \<Rightarrow> pte option) option"
  msrAddrToIndex :: "addr \<Rightarrow> 64 word option"
  pci_config_index :: "64 word"

definition GeneralProtection :: fault where "GeneralProtection = FaultBase ''General-Protection''"
definition PageFault :: fault where "PageFault = FaultBase ''Page-Fault''"

definition IntAddrPrefixMask :: addr where "IntAddrPrefixMask = 0xffffffff00000000"
definition IntAddrPrefixCPUID :: addr where "IntAddrPrefixCPUID = 0x100000000"
definition IntAddrPrefixMSR :: addr where "IntAddrPrefixMSR = 0x200000000"
definition IntAddrPrefixIO :: addr where "IntAddrPrefixIO = 0x300000000"
definition PhysAddrPrefixIO :: addr where "PhysAddrPrefixIO = 0x8000000000000000"
definition PhysAddrPrefixPciConfig :: addr where "PhysAddrPrefixPciConfig = 0xC000000000000000"
definition PhysAddrPrefixLocalAPIC :: addr where "PhysAddrPrefixLocalAPIC = 0x2000000000000000"

definition translateInt :: "tlb_env \<Rightarrow> x86_context \<Rightarrow> request \<Rightarrow> (fault \<times> request) option" where
  "translateInt env tc r = do {
     let va = req_vaddr r;
     let prefix = drop_bit 3 va AND IntAddrPrefixMask;
     (if prefix = IntAddrPrefixCPUID then None
      else if prefix = IntAddrPrefixMSR then
        (let r1 = setFlags MMAPPED_IPR_FLAG r
         in case msrAddrToIndex env (drop_bit 3 va AND NOT IntAddrPrefixMask) of
              None \<Rightarrow> Some (GeneralProtection, r1)
            | Some regNum \<Rightarrow> Some (NoFault, setPaddr (regNum * 8) r1))
      else if prefix = IntAddrPrefixIO then do {
        let port = va AND NOT IntAddrPrefixMask;
        check (port AND NOT 0xFFFF = 0);
        let uncached = setFlags (UNCACHEABLE OR STRICT_ORDER_FLAG) r;
        (if port = 0xCF8 \<and> req_size r = 4 then Some (NoFault, setPaddr (pci_config_index env * 8) (setFlags MMAPPED_IPR_FLAG r))
         else if port AND NOT (mask 2) = 0xCFC then
           (if bit (pci_config_address tc) 31
            then Some (NoFault, setPaddr (PhysAddrPrefixPciConfig OR (pci_config_address tc AND (mask 31 AND NOT (mask 2))) OR (port AND mask 2)) uncached)
            else Some (NoFault, setPaddr (PhysAddrPrefixIO OR port) uncached))
         else Some (NoFault, setPaddr (PhysAddrPrefixIO OR port) uncached)) }
      else Some (GeneralProtection, r)) }"

definition x86LocalAPICAddress :: "8 word \<Rightarrow> 16 word \<Rightarrow> addr option" where
  "x86LocalAPICAddress i a = do {
     check (unat a < 2 ^ 12);
     Some (PhysAddrPrefixLocalAPIC OR (ucast i * 2 ^ 12) OR ucast a) }"

definition finalizePhysical :: "tlb_env \<Rightarrow> x86_context \<Rightarrow> request \<Rightarrow> (fault \<times> request) option" where
  "finalizePhysical env tc r = do {
     paddr \<leftarrow> req_paddr r;
     (if 0xFFFF0000 \<le> paddr \<and> paddr \<le> 0xFFFFFFFF then
        Some (NoFault, setPaddr (push_bit 8 (drop_bit 8 paddr AND 0xFF) OR (paddr AND 0xFF))
          (setFlags (MMAPPED_IPR_FLAG OR GENERIC_IPR OR STRICT_ORDER_FLAG) r))
      else if FullSystem env \<and> apic_base tc * 2 ^ PageShift \<le> paddr \<and> paddr \<le> (apic_base tc + 1) * 2 ^ PageShift - 1 then do {
        a \<leftarrow> x86LocalAPICAddress (tc_contextId tc) (ucast (paddr - apic_base tc * 2 ^ PageShift));
        Some (NoFault, setPaddr a (setFlags (UNCACHEABLE OR STRICT_ORDER_FLAG) r)) }
      else Some (NoFault, r)) }"

text \<open>The checks on a segment outside long mode.\<close>

definition segment_fault :: "x86_context \<Rightarrow> request \<Rightarrow> access_mode \<Rightarrow> bool" where
  "segment_fault tc r mode =
     (let seg = segment_of r;
          attr = seg_attrs tc seg;
          storeCheck = ld_flag StoreCheck r;
          data_seg = (SEGMENT_REG_ES \<le> seg \<and> seg \<le> SEGMENT_REG_HS);
          logSize = (if ld_flag AddrSizeFlagBit r then m5_altAddr tc else m5_defAddr tc);
          offset = (req_vaddr r - seg_base tc seg) AND mask (2 ^ logSize * 8);
          endOffset = offset + ucast (req_size r) - 1
      in (seg \<notin> {SEGMENT_REG_TSG, SYS_SEGMENT_REG_IDTR, SEGMENT_REG_HS, SEGMENT_REG_LS} \<and> seg_sel tc seg = 0) \<or>
         (data_seg \<and> ((\<not> sa_writable attr \<and> (mode = Mode_Write \<or> storeCheck)) \<or> (\<not> sa_readable attr \<and> mode = Mode_Read))) \<or>
         (if data_seg \<and> sa_expandDown attr then offset \<le> seg_limit tc seg \<or> endOffset \<le> seg_limit tc seg
          else offset > seg_limit tc seg \<or> endOffset > seg_limit tc seg))"

definition effective_vaddr :: "x86_context \<Rightarrow> request \<Rightarrow> addr" where
  "effective_vaddr tc r = (if \<not> m5_sixtyFour tc \<or> ld_flag AddrSizeFlagBit r then req_vaddr r AND mask 32 else req_vaddr r)"

text \<open>An entry for the page of the address, on a miss: the fault, whether the answer is delayed, and the entry.\<close>

definition fill_entry ::
  "tlb_env \<Rightarrow> nat \<Rightarrow> addr \<Rightarrow> request \<Rightarrow> access_mode \<Rightarrow> bool \<Rightarrow> tlb \<Rightarrow> ((fault \<times> bool + nat) \<times> tlb) option" where
  "fill_entry env tid va r mode timing t =
     (if FullSystem env then
        (let (f, t1) = walker_start env r mode t
         in if timing \<or> f \<noteq> NoFault then Some (Inl (f, True), t1)
            else do { (x, t2) \<leftarrow> tlb_lookup 0 va True t1; i \<leftarrow> x; Some (Inr i, t2) })
      else
        (let entry = (case pTable env va of
             Some p \<Rightarrow> Some p
           | None \<Rightarrow> if mode = Mode_Execute then None
                      else (case fixupStackFault env va of None \<Rightarrow> None | Some pt \<Rightarrow> pt va))
         in case entry of
              None \<Rightarrow> Some (Inl (PageFault, False), t)
            | Some p \<Rightarrow> (let aligned = va AND NOT (mask PageShift)
                in do { (i, t1) \<leftarrow> tlb_insert aligned (page_entry tid aligned (pte_paddr p) (pte_uncacheable p) (pte_readOnly p)) t;
                        Some (Inr i, t1) })))"

text \<open>The protection checks on the entry, and the physical address.\<close>

definition check_entry :: "x86_context \<Rightarrow> request \<Rightarrow> access_mode \<Rightarrow> addr \<Rightarrow> tlb_entry \<Rightarrow> fault \<times> request" where
  "check_entry tc r mode va e =
     (let inUser = (m5_cpl tc = 3 \<and> \<not> ld_flag CPL0FlagBit r);
          badWrite = (\<not> te_writable e \<and> (inUser \<or> cr0_wp tc))
      in if (inUser \<and> \<not> te_user e) \<or> (mode = Mode_Write \<and> badWrite) then (PageFault, r)
         else if ld_flag StoreCheck r \<and> badWrite then (PageFault, r)
         else let r1 = setPaddr (te_paddr e OR (va AND mask (te_logBytes e))) r
              in (NoFault, if te_uncacheable e then setFlags (UNCACHEABLE OR STRICT_ORDER_FLAG) r1 else r1))"

definition translate_paged ::
  "tlb_env \<Rightarrow> x86_context \<Rightarrow> nat \<Rightarrow> addr \<Rightarrow> request \<Rightarrow> access_mode \<Rightarrow> bool \<Rightarrow> tlb \<Rightarrow> (fault \<times> bool \<times> request \<times> tlb) option" where
  "translate_paged env tc tid va r mode timing t = do {
     (found, t1) \<leftarrow> tlb_lookup tid va (\<not> isRestricted r) t;
     (if found = None \<and> isRestricted r then Some (GeneralProtection, False, clearUnsafe r, t1)
      else do {
        (res, t2) \<leftarrow> (case found of Some i \<Rightarrow> Some (Inr i, t1) | None \<Rightarrow> fill_entry env tid va r mode timing t1);
        (case res of
           Inl (f, delayed) \<Rightarrow> Some (f, delayed, r, t2)
         | Inr i \<Rightarrow> do {
             e \<leftarrow> vec_get (tl_tlb t2) i;
             let (f, r1) = check_entry tc r mode va e;
             (if f \<noteq> NoFault then Some (f, False, r1, t2)
              else do { (f2, r2) \<leftarrow> finalizePhysical env tc r1; Some (f2, False, r2, t2) }) }) }) }"

definition tlb_translate ::
  "tlb_env \<Rightarrow> x86_context \<Rightarrow> request \<Rightarrow> access_mode \<Rightarrow> bool \<Rightarrow> tlb \<Rightarrow> (fault \<times> bool \<times> request \<times> tlb) option" where
  "tlb_translate env tc r mode timing t = do {
     let tid = tc_threadId tc mod num_threads_per_core t;
     (if segment_of r = SEGMENT_REG_MS then do { (f, r1) \<leftarrow> translateInt env tc r; Some (f, False, r1, t) }
      else if m5_prot tc \<and> \<not> m5_longMode tc \<and> segment_fault tc r mode then Some (GeneralProtection, False, r, t)
      else if m5_prot tc \<and> m5_paging tc then translate_paged env tc tid (effective_vaddr tc r) r mode timing t
      else do {
        (f, r1) \<leftarrow> finalizePhysical env tc (setPaddr (if m5_prot tc then effective_vaddr tc r else req_vaddr r) r);
        Some (f, False, r1, t) }) }"

definition tlb_updateLRU :: "x86_context \<Rightarrow> request \<Rightarrow> access_mode \<Rightarrow> tlb \<Rightarrow> tlb option" where
  "tlb_updateLRU tc r mode t =
     (if segment_of r = SEGMENT_REG_MS then Some t
      else if m5_prot tc then
        (if \<not> m5_longMode tc then Some t
         else if m5_paging tc then do {
           (_, t1) \<leftarrow> tlb_lookup (tc_threadId tc mod num_threads_per_core t) (effective_vaddr tc r) True t;
           Some t1 }
         else Some t)
      else Some t)"

end
