(* ===== verification/Tlb_Props.thy ===== *)
theory Tlb_Props
  imports X86_Tlb
begin

text \<open>
  The TLB keeps its entries, its free list and the trees of the threads consistent, finds what was inserted,
  and a restricted translation leaves no trace in it.
\<close>

section \<open>The invariant\<close>

definition page_key :: "tlb_entry \<Rightarrow> addr \<times> addr" where
  "page_key e = (te_vaddr e AND width_mask (64 - te_logBytes e), width_mask (64 - te_logBytes e))"

text \<open>The entries in the tree of a thread.\<close>

definition indexed :: "tlb \<Rightarrow> nat \<Rightarrow> (nat \<times> addr \<times> addr \<times> nat) set" where
  "indexed t tid = {(hn, key, msk, i). i < tl_size t \<and> te_trieHandle (tl_tlb t ! i) = Some (tid, hn) \<and> (key, msk) = page_key (tl_tlb t ! i)}"

text \<open>An entry is on the free list, or it is in the tree of its thread under its page.\<close>

definition tlb_wf :: "tlb \<Rightarrow> bool" where
  "tlb_wf t \<longleftrightarrow> length (tl_tlb t) = tl_size t \<and> 0 < tl_size t \<and> length (tl_tries t) = num_threads_per_core t \<and>
     distinct (tl_freeList t) \<and> (\<forall>i. i \<in> set (tl_freeList t) \<longleftrightarrow> i < tl_size t \<and> te_trieHandle (tl_tlb t ! i) = None) \<and>
     (\<forall>i < tl_size t. \<forall>tid hn. te_trieHandle (tl_tlb t ! i) = Some (tid, hn) \<longrightarrow>
        tid < num_threads_per_core t \<and> te_tid (tl_tlb t ! i) = tid \<and> te_logBytes (tl_tlb t ! i) < 64) \<and>
     (\<forall>tid < num_threads_per_core t. trie_wf tid (tl_tries t ! tid) \<and> trie_items (tl_tries t ! tid) = indexed t tid)"

lemma tlb_wfD:
  assumes "tlb_wf t"
  shows "length (tl_tlb t) = tl_size t" "0 < tl_size t" "length (tl_tries t) = num_threads_per_core t"
    "distinct (tl_freeList t)" "i \<in> set (tl_freeList t) \<longleftrightarrow> i < tl_size t \<and> te_trieHandle (tl_tlb t ! i) = None"
    "i < tl_size t \<Longrightarrow> te_trieHandle (tl_tlb t ! i) = Some (tid, hn) \<Longrightarrow>
      tid < num_threads_per_core t \<and> te_tid (tl_tlb t ! i) = tid \<and> te_logBytes (tl_tlb t ! i) < 64"
    "tid < num_threads_per_core t \<Longrightarrow> trie_wf tid (tl_tries t ! tid)"
    "tid < num_threads_per_core t \<Longrightarrow> trie_items (tl_tries t ! tid) = indexed t tid"
  using assms by (auto simp: tlb_wf_def)

lemma new_tlb_wf: "new_tlb sz threads = Some t \<Longrightarrow> tlb_wf t"
  using new_trie_wf by (auto simp: new_tlb_def tlb_wf_def indexed_def blank_tlb_entry_def split: if_splits)

section \<open>Freeing an entry\<close>

lemma free_from_ok:
  assumes "tlb_wf t" "i < tl_size t" "te_trieHandle (tl_tlb t ! i) = Some (tid, hn)"
  shows "\<exists>tr. trie_remove hn (tl_tries t ! tid) = Some tr \<and> trie_wf tid tr \<and>
    trie_items tr = {(j, y) \<in> indexed t tid. j \<noteq> hn} \<and>
    (let t' = t\<lparr>tl_tries := (tl_tries t)[tid := tr], tl_tlb := (tl_tlb t)[i := (tl_tlb t ! i)\<lparr>te_trieHandle := None\<rparr>],
            tl_freeList := tl_freeList t @ [i]\<rparr>
     in free_from tid i t = Some t' \<and> free_entry i t = Some t' \<and> tlb_wf t')"
proof -
  note w = tlb_wfD[OF assms(1)]
  have tid: "tid < num_threads_per_core t" using w(6)[OF assms(2,3)] by simp
  have it: "(hn, fst (page_key (tl_tlb t ! i)), snd (page_key (tl_tlb t ! i)), i) \<in> trie_items (tl_tries t ! tid)"
    using w(8)[OF tid] assms(2,3) by (simp add: indexed_def)
  from trie_index.del_law[OF w(7)[OF tid] it] obtain tr where tr: "trie_remove hn (tl_tries t ! tid) = Some tr" "trie_wf tid tr"
    "trie_items tr = {(j, y) \<in> trie_items (tl_tries t ! tid). j \<noteq> hn}" by blast
  define t' where "t' = t\<lparr>tl_tries := (tl_tries t)[tid := tr], tl_tlb := (tl_tlb t)[i := (tl_tlb t ! i)\<lparr>te_trieHandle := None\<rparr>],
            tl_freeList := tl_freeList t @ [i]\<rparr>"
  have run: "free_from tid i t = Some t'" "free_entry i t = Some t'"
    using assms(2,3) w(1,3) tid tr(1) by (simp_all add: free_from_def free_entry_def t'_def vec_get_def)
  have other: "k = i" if "k < tl_size t" "te_trieHandle (tl_tlb t ! k) = Some (tid, hn)" for k
  proof -
    have "(hn, fst (page_key (tl_tlb t ! k)), snd (page_key (tl_tlb t ! k)), k) \<in> trie_items (tl_tries t ! tid)"
      using w(8)[OF tid] that by (simp add: indexed_def)
    from trie_index.unique_law[OF w(7)[OF tid] this it] show ?thesis by simp
  qed
  have entries: "tl_tlb t' ! k = (if k = i then (tl_tlb t ! i)\<lparr>te_trieHandle := None\<rparr> else tl_tlb t ! k)" if "k < tl_size t" for k
    using that assms(2) w(1) by (simp add: t'_def)
  have sz: "tl_size t' = tl_size t" by (simp add: t'_def)
  have ix: "indexed t' u = (if u = tid then {(j, y) \<in> indexed t tid. j \<noteq> hn} else indexed t u)" for u
  proof -
    have "(j, key, msk, k) \<in> indexed t' u \<longleftrightarrow> (j, key, msk, k) \<in> indexed t u \<and> k \<noteq> i" for j key msk k
      using entries[of k] by (cases "k = i") (auto simp: indexed_def sz)
    moreover have "k \<noteq> i \<longleftrightarrow> (u = tid \<longrightarrow> j \<noteq> hn)" if "(j, key, msk, k) \<in> indexed t u" for j key msk k
      using that other[of k] assms(3) by (auto simp: indexed_def)
    ultimately show ?thesis by auto
  qed
  have "tlb_wf t'"
    unfolding tlb_wf_def
  proof (intro conjI)
    show "distinct (tl_freeList t')" using w(4) w(5)[of i] assms(3) by (simp add: t'_def)
    show "\<forall>k. k \<in> set (tl_freeList t') \<longleftrightarrow> k < tl_size t' \<and> te_trieHandle (tl_tlb t' ! k) = None"
    proof
      fix k
      show "k \<in> set (tl_freeList t') \<longleftrightarrow> k < tl_size t' \<and> te_trieHandle (tl_tlb t' ! k) = None"
        unfolding sz using w(5)[of k] entries[of k] assms(2) by (cases "k = i") (auto simp: t'_def)
    qed
    show "\<forall>k < tl_size t'. \<forall>u h. te_trieHandle (tl_tlb t' ! k) = Some (u, h) \<longrightarrow>
        u < num_threads_per_core t' \<and> te_tid (tl_tlb t' ! k) = u \<and> te_logBytes (tl_tlb t' ! k) < 64"
      unfolding sz using w(6) entries by (auto simp: t'_def split: if_splits)
    show "\<forall>u < num_threads_per_core t'. trie_wf u (tl_tries t' ! u) \<and> trie_items (tl_tries t' ! u) = indexed t' u"
      unfolding ix using w(3,7,8) tid tr(2,3) by (auto simp: t'_def nth_list_update)
  qed (use w in \<open>simp_all add: t'_def\<close>)
  then show ?thesis using tr run w(8)[OF tid] unfolding t'_def by (auto simp: Let_def)
qed

lemma lru_index_less:
  assumes "es \<noteq> []"
  shows "lru_index es < length es"
proof -
  have f: "lru < length es \<Longrightarrow> set js \<subseteq> {..<length es} \<Longrightarrow>
    fold (\<lambda>i lru. if te_lruSeq (es ! i) < te_lruSeq (es ! lru) then i else lru) js lru < length es" for lru js
    by (induction js arbitrary: lru) auto
  show ?thesis unfolding lru_index_def by (rule f) (use assms in auto)
qed

text \<open>The evicted entry is the least recently used.\<close>

lemma lru_index_least:
  assumes "i < length es"
  shows "te_lruSeq (es ! lru_index es) \<le> te_lruSeq (es ! i)"
proof -
  define f where "f = fold (\<lambda>i lru. if te_lruSeq (es ! i) < te_lruSeq (es ! lru) then i else lru)"
  have least: "\<forall>j \<in> insert lru (set js). te_lruSeq (es ! f js lru) \<le> te_lruSeq (es ! j)" for lru js
  proof (induction js arbitrary: lru)
    case (Cons k ks)
    show ?case
    proof (cases "te_lruSeq (es ! k) < te_lruSeq (es ! lru)")
      case True
      then have "f (k # ks) lru = f ks k" by (simp add: f_def)
      moreover have "te_lruSeq (es ! f ks k) \<le> te_lruSeq (es ! lru)" using Cons[of k] True by (auto intro: order_trans[OF _ less_imp_le])
      ultimately show ?thesis using Cons[of k] by simp
    next
      case False
      then have "f (k # ks) lru = f ks lru" by (simp add: f_def)
      moreover have "te_lruSeq (es ! f ks lru) \<le> te_lruSeq (es ! k)" using Cons[of lru] False by (auto intro: order_trans simp: not_less)
      ultimately show ?thesis using Cons[of lru] by simp
    qed
  qed (simp add: f_def)
  show ?thesis using least[of 0 "[1..<length es]"] assms unfolding lru_index_def f_def by (cases i) auto
qed

section \<open>Inserting an entry\<close>

definition in_page :: "tlb_entry \<Rightarrow> addr \<Rightarrow> bool" where
  "in_page e va \<longleftrightarrow> va AND snd (page_key e) = fst (page_key e)"

abbreviation tlb_find :: "tlb \<Rightarrow> nat \<Rightarrow> addr \<Rightarrow> nat option" where
  "tlb_find t tid va \<equiv> trie_lookup va (tl_tries t ! tid)"

lemma width_masks_comparable: "width_mask a AND width_mask b = width_mask a \<or> width_mask b AND width_mask a = width_mask b"
  by (cases "a \<le> b") (simp_all add: width_mask_and min_def)

text \<open>Putting an entry that is free under its page.\<close>

lemma place_ok:
  assumes "tlb_wf t" "tl_freeList t = i # free" "te_tid entry < num_threads_per_core t" "te_logBytes entry < 64"
    "tlb_find t (te_tid entry) vpn = None"
  defines "tid \<equiv> te_tid entry" and "w \<equiv> 64 - te_logBytes entry"
  shows "\<exists>hn tr. trie_insert tid vpn w i (tl_tries t ! tid) = Some (hn, tr) \<and> trie_wf tid tr \<and>
    trie_items tr = insert (hn, vpn AND width_mask w, width_mask w, i) (trie_items (tl_tries t ! tid)) \<and>
    (\<forall>sn sq. tlb_wf (t\<lparr>tl_freeList := free, tl_lruSeq := sq, tl_tries := (tl_tries t)[tid := tr],
        tl_tlb := (tl_tlb t)[i := entry\<lparr>te_lruSeq := sn, te_vaddr := vpn, te_trieHandle := Some (tid, hn)\<rparr>]\<rparr>))"
proof -
  note wf = tlb_wfD[OF assms(1)]
  have tid: "tid < num_threads_per_core t" using assms(3) by (simp add: tid_def)
  have i: "i < tl_size t" "te_trieHandle (tl_tlb t ! i) = None" "i \<notin> set free" "distinct free" using wf(5)[of i] wf(4) assms(2) by auto
  have free: "k \<in> set free \<longleftrightarrow> k < tl_size t \<and> te_trieHandle (tl_tlb t ! k) = None \<and> k \<noteq> i" for k
    using wf(5)[of k] assms(2) i by auto
  have none: "trie_index.hits vpn (tl_tries t ! tid) = {}"
    using trie_index.find_None[OF wf(7)[OF tid]] assms(5) by (simp add: tid_def)
  then have "\<forall>j x. (j, vpn AND width_mask w, width_mask w, x) \<notin> trie_items (tl_tries t ! tid)" by (auto simp: trie_index.hits_def)
  from trie_index.add_law[OF wf(7)[OF tid] _ _ this, of i] assms(4) obtain hn tr where tr: "trie_insert tid vpn w i (tl_tries t ! tid) = Some (hn, tr)"
    "trie_wf tid tr" "trie_items tr = insert (hn, vpn AND width_mask w, width_mask w, i) (trie_items (tl_tries t ! tid))"
    "\<forall>x. (hn, x) \<notin> trie_items (tl_tries t ! tid)" by (auto simp: w_def)
  have "tlb_wf t'" if t': "t' = t\<lparr>tl_freeList := free, tl_lruSeq := sq, tl_tries := (tl_tries t)[tid := tr],
        tl_tlb := (tl_tlb t)[i := entry\<lparr>te_lruSeq := sn, te_vaddr := vpn, te_trieHandle := Some (tid, hn)\<rparr>]\<rparr>" for t' sn sq
  proof -
    let ?e = "entry\<lparr>te_lruSeq := sn, te_vaddr := vpn, te_trieHandle := Some (tid, hn)\<rparr>"
    have sz: "tl_size t' = tl_size t" "num_threads_per_core t' = num_threads_per_core t" "tl_freeList t' = free" by (simp_all add: t')
    have entries: "tl_tlb t' ! k = (if k = i then ?e else tl_tlb t ! k)" if "k < tl_size t" for k using that i(1) wf(1) by (simp add: t')
    have pk: "page_key ?e = (vpn AND width_mask w, width_mask w)" by (simp add: page_key_def w_def)
    have ix: "indexed t' u = (if u = tid then insert (hn, vpn AND width_mask w, width_mask w, i) (indexed t tid) else indexed t u)" for u
    proof -
      have "(j, key, msk, k) \<in> indexed t' u \<longleftrightarrow> (j, key, msk, k) \<in> indexed t u \<or> (u = tid \<and> (j, key, msk, k) = (hn, vpn AND width_mask w, width_mask w, i))"
        for j key msk k
        using entries[of k] i(1,2) pk by (cases "k = i") (auto simp: indexed_def sz)
      then show ?thesis by auto
    qed
    show ?thesis unfolding tlb_wf_def
    proof (intro conjI)
      show "distinct (tl_freeList t')" using i(4) by (simp add: sz)
      show "\<forall>k. k \<in> set (tl_freeList t') \<longleftrightarrow> k < tl_size t' \<and> te_trieHandle (tl_tlb t' ! k) = None"
      proof
        fix k
        show "k \<in> set (tl_freeList t') \<longleftrightarrow> k < tl_size t' \<and> te_trieHandle (tl_tlb t' ! k) = None"
          unfolding sz using free[of k] entries[of k] by (cases "k = i") auto
      qed
      show "\<forall>k < tl_size t'. \<forall>u h. te_trieHandle (tl_tlb t' ! k) = Some (u, h) \<longrightarrow>
          u < num_threads_per_core t' \<and> te_tid (tl_tlb t' ! k) = u \<and> te_logBytes (tl_tlb t' ! k) < 64"
        unfolding sz using wf(6) entries tid assms(4) by (auto simp: tid_def split: if_splits)
      show "\<forall>u < num_threads_per_core t'. trie_wf u (tl_tries t' ! u) \<and> trie_items (tl_tries t' ! u) = indexed t' u"
        unfolding ix sz using wf(3,7,8) tid tr(2,3) by (auto simp: t' nth_list_update)
    qed (use wf in \<open>simp_all add: t'\<close>)
  qed
  then show ?thesis using tr(1-3) by blast
qed

lemma free_find:
  assumes "tlb_wf t" "i < tl_size t" "te_trieHandle (tl_tlb t ! i) = Some (tid, hn)" "free_from tid i t = Some t'" "u < num_threads_per_core t"
  shows "tlb_wf t'" "u \<noteq> tid \<or> \<not> in_page (tl_tlb t ! i) va \<Longrightarrow> tlb_find t' u va = tlb_find t u va"
    "tlb_find t u va = None \<Longrightarrow> tlb_find t' u va = None"
    "tl_freeList t' = tl_freeList t @ [i]" "num_threads_per_core t' = num_threads_per_core t" "tl_size t' = tl_size t" "tl_lruSeq t' = tl_lruSeq t"
proof -
  note w = tlb_wfD[OF assms(1)]
  from free_from_ok[OF assms(1-3)] assms(4) obtain tr where tr: "trie_wf tid tr" "trie_items tr = {(j, y) \<in> indexed t tid. j \<noteq> hn}"
    and t': "t' = t\<lparr>tl_tries := (tl_tries t)[tid := tr], tl_tlb := (tl_tlb t)[i := (tl_tlb t ! i)\<lparr>te_trieHandle := None\<rparr>],
            tl_freeList := tl_freeList t @ [i]\<rparr>" "tlb_wf t'" by (auto simp: Let_def)
  have tid: "tid < num_threads_per_core t" using w(6)[OF assms(2,3)] by simp
  have tries: "tl_tries t' ! u = (if u = tid then tr else tl_tries t ! u)" using w(3) assms(5) by (simp add: t'(1))
  have it: "(hn, fst (page_key (tl_tlb t ! i)), snd (page_key (tl_tlb t ! i)), i) \<in> trie_items (tl_tries t ! tid)"
    using w(8)[OF tid] assms(2,3) by (simp add: indexed_def)
  note tr2 = tr(2)[folded w(8)[OF tid]]
  show "tlb_wf t'" by (rule t'(2))
  show "u \<noteq> tid \<or> \<not> in_page (tl_tlb t ! i) va \<Longrightarrow> tlb_find t' u va = tlb_find t u va"
    using trie_index.find_deleted[OF w(7)[OF tid] tr(1) tr2 it, of va] tries by (auto simp: in_page_def)
  show "tlb_find t u va = None \<Longrightarrow> tlb_find t' u va = None"
  proof -
    assume "tlb_find t u va = None"
    moreover have "trie_index.hits va tr \<subseteq> trie_index.hits va (tl_tries t ! tid)" using tr2 by (auto simp: trie_index.hits_def)
    ultimately show "tlb_find t' u va = None"
      using trie_index.find_None[OF tr(1)] trie_index.find_None[OF w(7)[OF tid]] tries by (cases "u = tid") auto
  qed
qed (use assms(4) in \<open>auto simp: free_from_def bind_eq_Some_conv split: prod.splits\<close>)

lemma evictLRU_ok:
  assumes "tlb_wf t" "tl_freeList t = []"
  defines "i \<equiv> lru_index (tl_tlb t)"
  shows "\<exists>t' tid hn. evictLRU t = Some t' \<and> i < tl_size t \<and> te_trieHandle (tl_tlb t ! i) = Some (tid, hn) \<and> te_tid (tl_tlb t ! i) = tid \<and>
    free_from tid i t = Some t'"
proof -
  note w = tlb_wfD[OF assms(1)]
  have "tl_tlb t \<noteq> []" using w(1,2) by auto
  then have i: "i < tl_size t" using lru_index_less[of "tl_tlb t"] w(1) by (simp add: i_def)
  then obtain tid hn where h: "te_trieHandle (tl_tlb t ! i) = Some (tid, hn)" using w(5)[of i] assms(2) by (cases "te_trieHandle (tl_tlb t ! i)") auto
  show ?thesis using free_from_ok[OF assms(1) i h] i h w(6)[OF i h] by (auto simp: evictLRU_def i_def Let_def)
qed

text \<open>The entry that an address finds.\<close>

definition cached :: "tlb \<Rightarrow> nat \<Rightarrow> addr \<Rightarrow> tlb_entry option" where
  "cached t tid va = map_option ((!) (tl_tlb t)) (tlb_find t tid va)"

lemma tlb_insert_new:
  assumes "tlb_wf t" "te_tid entry < num_threads_per_core t" "te_logBytes entry < 64" "tlb_find t (te_tid entry) vpn = None"
  shows "\<exists>i t' hn. tlb_insert vpn entry t = Some (i, t') \<and> tlb_wf t' \<and>
    num_threads_per_core t' = num_threads_per_core t \<and> tl_size t' = tl_size t \<and>
    (\<forall>va. va AND width_mask (64 - te_logBytes entry) = vpn AND width_mask (64 - te_logBytes entry) \<longrightarrow> tlb_find t' (te_tid entry) va = Some i) \<and>
    (\<forall>u < num_threads_per_core t. \<forall>va.
       u \<noteq> te_tid entry \<or> va AND width_mask (64 - te_logBytes entry) \<noteq> vpn AND width_mask (64 - te_logBytes entry) \<longrightarrow>
       tl_freeList t \<noteq> [] \<or> u \<noteq> te_tid (tl_tlb t ! lru_index (tl_tlb t)) \<or> \<not> in_page (tl_tlb t ! lru_index (tl_tlb t)) va \<longrightarrow>
       tlb_find t' u va = tlb_find t u va) \<and>
    tl_tlb t' ! i = entry\<lparr>te_lruSeq := tl_lruSeq t + 1, te_vaddr := vpn, te_trieHandle := Some (te_tid entry, hn)\<rparr> \<and>
    (\<forall>j. j \<noteq> i \<longrightarrow> tl_tlb t' ! j = tl_tlb t ! j)"
proof -
  note w = tlb_wfD[OF assms(1)]
  let ?tid = "te_tid entry" and ?v = "tl_tlb t ! lru_index (tl_tlb t)" and ?w = "64 - te_logBytes entry"
  have "\<exists>t1. (if tl_freeList t = [] then evictLRU t else Some t) = Some t1 \<and> tlb_wf t1 \<and> tl_freeList t1 \<noteq> [] \<and>
      num_threads_per_core t1 = num_threads_per_core t \<and> tlb_find t1 ?tid vpn = None \<and> tl_size t1 = tl_size t \<and>
      tl_lruSeq t1 = tl_lruSeq t \<and> (\<forall>j. j \<noteq> hd (tl_freeList t1) \<longrightarrow> tl_tlb t1 ! j = tl_tlb t ! j) \<and>
      (\<forall>u < num_threads_per_core t. \<forall>va. tl_freeList t \<noteq> [] \<or> u \<noteq> te_tid ?v \<or> \<not> in_page ?v va \<longrightarrow> tlb_find t1 u va = tlb_find t u va)"
  proof (cases "tl_freeList t = []")
    case True
    from evictLRU_ok[OF assms(1) True] obtain t1 tid hn where e: "evictLRU t = Some t1" "lru_index (tl_tlb t) < tl_size t"
      "te_trieHandle ?v = Some (tid, hn)" "te_tid ?v = tid" "free_from tid (lru_index (tl_tlb t)) t = Some t1" by blast
    note ff = free_find[OF assms(1) e(2,3,5)]
    have "tl_tlb t1 = (tl_tlb t)[lru_index (tl_tlb t) := ?v\<lparr>te_trieHandle := None\<rparr>]"
      using free_from_ok[OF assms(1) e(2,3)] e(5) by (auto simp: Let_def)
    then show ?thesis using True e ff assms(2,4) by auto
  next
    case False
    then show ?thesis using assms by auto
  qed
  then obtain t1 where t1: "(if tl_freeList t = [] then evictLRU t else Some t) = Some t1" "tlb_wf t1" "tl_freeList t1 \<noteq> []"
    "num_threads_per_core t1 = num_threads_per_core t" "tlb_find t1 ?tid vpn = None" "tl_size t1 = tl_size t"
    "tl_lruSeq t1 = tl_lruSeq t" "\<forall>j. j \<noteq> hd (tl_freeList t1) \<longrightarrow> tl_tlb t1 ! j = tl_tlb t ! j"
    "\<forall>u < num_threads_per_core t. \<forall>va. tl_freeList t \<noteq> [] \<or> u \<noteq> te_tid ?v \<or> \<not> in_page ?v va \<longrightarrow> tlb_find t1 u va = tlb_find t u va" by blast
  note w1 = tlb_wfD[OF t1(2)]
  obtain i free where fr: "tl_freeList t1 = i # free" using t1(3) by (cases "tl_freeList t1") auto
  have tid1: "?tid < num_threads_per_core t1" using assms(2) t1(4) by simp
  from place_ok[OF t1(2) fr tid1 assms(3) t1(5)] obtain hn tr where
    tr: "trie_insert ?tid vpn ?w i (tl_tries t1 ! ?tid) = Some (hn, tr)" "trie_wf ?tid tr"
      "trie_items tr = insert (hn, vpn AND width_mask ?w, width_mask ?w, i) (trie_items (tl_tries t1 ! ?tid))"
    and wf: "\<And>sn sq. tlb_wf (t1\<lparr>tl_freeList := free, tl_lruSeq := sq, tl_tries := (tl_tries t1)[?tid := tr],
        tl_tlb := (tl_tlb t1)[i := entry\<lparr>te_lruSeq := sn, te_vaddr := vpn, te_trieHandle := Some (?tid, hn)\<rparr>]\<rparr>)" by blast
  define t' where "t' = t1\<lparr>tl_freeList := free, tl_lruSeq := tl_lruSeq t1 + 1, tl_tries := (tl_tries t1)[?tid := tr],
        tl_tlb := (tl_tlb t1)[i := entry\<lparr>te_lruSeq := tl_lruSeq t1 + 1, te_vaddr := vpn, te_trieHandle := Some (?tid, hn)\<rparr>]\<rparr>"
  have i: "i < tl_size t1" using w1(5)[of i] fr by simp
  have run: "tlb_insert vpn entry t = Some (i, t')"
    using assms(2,4) w(3) w1(1,3) t1(1) fr tr(1) tid1 i
    by (simp add: tlb_insert_def vec_get_def vec_set_def tlb_nextSeq_def Let_def t'_def)
  have comparable: "\<forall>(i', key', msk', x') \<in> trie_items (tl_tries t1 ! ?tid). msk' AND width_mask ?w = msk' \<or> width_mask ?w AND msk' = width_mask ?w"
    using w1(8)[OF tid1] width_masks_comparable by (auto simp: indexed_def page_key_def)
  have find: "tlb_find t' u va = (if u = ?tid \<and> va AND width_mask ?w = vpn AND width_mask ?w then Some i else tlb_find t1 u va)"
    if "u < num_threads_per_core t" for u va
    using trie_index.find_added[OF w1(7)[OF tid1] tr(2,3) t1(5) refl comparable, of va] w1(3) t1(4) that
    by (cases "u = ?tid") (auto simp: t'_def)
  have t'n: "num_threads_per_core t' = num_threads_per_core t" "tlb_wf t'" "tl_size t' = tl_size t" using t1(4,6) wf by (simp_all add: t'_def)
  have entry: "tl_tlb t' ! i = entry\<lparr>te_lruSeq := tl_lruSeq t + 1, te_vaddr := vpn, te_trieHandle := Some (?tid, hn)\<rparr>"
    "\<forall>j. j \<noteq> i \<longrightarrow> tl_tlb t' ! j = tl_tlb t ! j" using i w1(1) t1(7,8) fr by (simp_all add: t'_def)
  show ?thesis using assms(2) run t'n find t1(9) entry by (intro exI[of _ i] exI[of _ t'] exI[of _ hn]) simp
qed

section \<open>The operations\<close>

datatype tlb_op = Insert_Page addr tlb_entry | Lookup_Page nat addr bool | Flush_All | Flush_Non_Global | Demap_Page addr

fun tlb_does :: "tlb_op \<Rightarrow> tlb \<Rightarrow> tlb option" where
  "tlb_does (Insert_Page vpn e) t = map_option snd (tlb_insert vpn e t)"
| "tlb_does (Lookup_Page tid va upd) t = map_option snd (tlb_lookup tid va upd t)"
| "tlb_does Flush_All t = flushAll t"
| "tlb_does Flush_Non_Global t = flushNonGlobal t"
| "tlb_does (Demap_Page va) t = demapPage va t"

text \<open>The entries in use are for the start of their page.\<close>

definition page_start :: "addr \<Rightarrow> nat \<Rightarrow> bool" where
  "page_start va logBytes \<longleftrightarrow> va AND width_mask (64 - logBytes) = va"

definition tlb_aligned :: "tlb \<Rightarrow> bool" where
  "tlb_aligned t \<longleftrightarrow> (\<forall>i < tl_size t. te_trieHandle (tl_tlb t ! i) \<noteq> None \<longrightarrow> page_start (te_vaddr (tl_tlb t ! i)) (te_logBytes (tl_tlb t ! i)))"

lemma new_tlb_aligned: "new_tlb sz threads = Some t \<Longrightarrow> tlb_aligned t"
  by (auto simp: new_tlb_def tlb_aligned_def blank_tlb_entry_def split: if_splits)

text \<open>
  The callers name threads of the core. They insert an entry for a page of less than \<open>2 ^ 64\<close> bytes, at the start of the page, and
  not into a larger page that is there already.
\<close>

fun tlb_op_ok :: "tlb_op \<Rightarrow> tlb \<Rightarrow> bool" where
  "tlb_op_ok (Insert_Page vpn e) t \<longleftrightarrow> te_tid e < num_threads_per_core t \<and> te_logBytes e < 64 \<and> page_start vpn (te_logBytes e) \<and>
     (\<forall>i. tlb_find t (te_tid e) vpn = Some i \<longrightarrow> te_logBytes (tl_tlb t ! i) \<le> te_logBytes e)"
| "tlb_op_ok (Lookup_Page tid va upd) t \<longleftrightarrow> tid < num_threads_per_core t"
| "tlb_op_ok Flush_All t \<longleftrightarrow> True"
| "tlb_op_ok Flush_Non_Global t \<longleftrightarrow> True"
| "tlb_op_ok (Demap_Page va) t \<longleftrightarrow> 0 < num_threads_per_core t"

lemma find_entry:
  assumes "tlb_wf t" "tid < num_threads_per_core t" "tlb_find t tid va = Some i"
  shows "i < tl_size t" "\<exists>hn. te_trieHandle (tl_tlb t ! i) = Some (tid, hn)" "te_tid (tl_tlb t ! i) = tid" "in_page (tl_tlb t ! i) va"
proof -
  note w = tlb_wfD[OF assms(1)]
  from trie_index.find_law[OF w(7)[OF assms(2)], of va] assms(3) obtain hn key msk where
    it: "(hn, key, msk, i) \<in> trie_items (tl_tries t ! tid)" "va AND msk = key" by auto
  then show "i < tl_size t" "\<exists>hn. te_trieHandle (tl_tlb t ! i) = Some (tid, hn)" "te_tid (tl_tlb t ! i) = tid" "in_page (tl_tlb t ! i) va"
    using w(8)[OF assms(2)] w(6) by (auto simp: indexed_def in_page_def prod_eq_iff)
qed

text \<open>The place in the replacement order is not part of the invariant.\<close>

lemma touch_wf:
  assumes "tlb_wf t" "i < tl_size t"
  shows "tlb_wf (t\<lparr>tl_lruSeq := sq, tl_tlb := (tl_tlb t)[i := (tl_tlb t ! i)\<lparr>te_lruSeq := sn\<rparr>]\<rparr>)" (is "tlb_wf ?t")
proof -
  have e: "te_trieHandle (tl_tlb ?t ! k) = te_trieHandle (tl_tlb t ! k)" "te_tid (tl_tlb ?t ! k) = te_tid (tl_tlb t ! k)"
    "te_logBytes (tl_tlb ?t ! k) = te_logBytes (tl_tlb t ! k)" "page_key (tl_tlb ?t ! k) = page_key (tl_tlb t ! k)" for k
    using assms tlb_wfD(1)[OF assms(1)] by (cases "k = i"; simp add: page_key_def)+
  have "indexed ?t u = indexed t u" for u unfolding indexed_def e by simp
  then show ?thesis using assms(1) unfolding tlb_wf_def e by simp
qed

lemma flush_wf:
  assumes "tlb_wf t"
  shows "\<exists>t'. flush_where P t = Some t' \<and> tlb_wf t' \<and> (\<forall>i < tl_size t. te_trieHandle (tl_tlb t' ! i) \<noteq> None \<longrightarrow> \<not> P (tl_tlb t' ! i)) \<and> tl_size t' = tl_size t"
proof -
  let ?f = "\<lambda>i t. do { e \<leftarrow> vec_get (tl_tlb t) i; (if te_trieHandle e \<noteq> None \<and> P e then free_entry i t else Some t) }"
  have "n \<le> tl_size t \<Longrightarrow> \<exists>t'. foldM ?f [0..<n] t = Some t' \<and> tlb_wf t' \<and> tl_size t' = tl_size t \<and>
    (\<forall>i < n. te_trieHandle (tl_tlb t' ! i) \<noteq> None \<longrightarrow> \<not> P (tl_tlb t' ! i))" for n
  proof (induction n)
    case 0
    then show ?case using assms by simp
  next
    case (Suc n)
    then obtain t1 where t1: "foldM ?f [0..<n] t = Some t1" "tlb_wf t1" "tl_size t1 = tl_size t"
      "\<forall>i < n. te_trieHandle (tl_tlb t1 ! i) \<noteq> None \<longrightarrow> \<not> P (tl_tlb t1 ! i)" by auto
    note w = tlb_wfD[OF t1(2)]
    have n: "n < tl_size t1" using Suc.prems t1(3) by simp
    have "foldM ?f [n] t1 = ?f n t1" by (cases "?f n t1") simp_all
    then have step: "foldM ?f [0..<Suc n] t = ?f n t1" by (simp only: upt_Suc_append[OF le0] foldM_append t1(1) bind.bind_lunit)
    show ?case
    proof (cases "te_trieHandle (tl_tlb t1 ! n) \<noteq> None \<and> P (tl_tlb t1 ! n)")
      case True
      then obtain tid hn where h: "te_trieHandle (tl_tlb t1 ! n) = Some (tid, hn)" by auto
      from free_from_ok[OF t1(2) n h] obtain t2 tr where t2: "free_entry n t1 = Some t2" "tlb_wf t2"
        "t2 = t1\<lparr>tl_tries := (tl_tries t1)[tid := tr], tl_tlb := (tl_tlb t1)[n := (tl_tlb t1 ! n)\<lparr>te_trieHandle := None\<rparr>],
            tl_freeList := tl_freeList t1 @ [n]\<rparr>" by (auto simp: Let_def)
      have "\<forall>i < Suc n. te_trieHandle (tl_tlb t2 ! i) \<noteq> None \<longrightarrow> \<not> P (tl_tlb t2 ! i)"
        using t1(4) w(1) n by (auto simp: t2(3) less_Suc_eq nth_list_update)
      then show ?thesis using step t2 t1(3) True n w(1) by (auto simp: vec_get_def)
    next
      case False
      then show ?thesis using step t1 n w(1) by (auto simp: vec_get_def less_Suc_eq)
    qed
  qed
  from this[of "tl_size t"] show ?thesis by (auto simp: flush_where_def)
qed

text \<open>Freeing entries and touching them keeps the others at the start of their page.\<close>

lemma free_from_aligned: "free_from tid i t = Some t' \<Longrightarrow> tlb_aligned t \<Longrightarrow> tlb_aligned t' \<and> tl_size t' = tl_size t"
  by (auto simp: free_from_def tlb_aligned_def vec_get_eq_Some nth_list_update bind_eq_Some_conv split: if_splits)

lemma flush_aligned:
  assumes "flush_where P t = Some t'" "tlb_aligned t"
  shows "tlb_aligned t'"
proof -
  have fe: "free_entry i t = Some t' \<Longrightarrow> tlb_aligned t \<Longrightarrow> tlb_aligned t'" for i t t'
    using free_from_aligned by (auto simp: free_entry_def)
  show ?thesis
  proof (rule foldM_invariant[where I = tlb_aligned, OF assms(1)[unfolded flush_where_def] assms(2)])
    fix i u u' assume "tlb_aligned u" "do { e \<leftarrow> vec_get (tl_tlb u) i; (if te_trieHandle e \<noteq> None \<and> P e then free_entry i u else Some u) } = Some u'"
    then show "tlb_aligned u'" using fe by (auto split: if_splits)
  qed
qed

text \<open>A page that is found and is not larger starts where the inserted page starts.\<close>

lemma found_page_start:
  assumes "in_page e vpn" "page_start (te_vaddr e) (te_logBytes e)" "page_start vpn n" "te_logBytes e \<le> n" "n < 64"
  shows "te_vaddr e = vpn"
proof -
  let ?w = "width_mask (64 - te_logBytes e)" and ?v = "width_mask (64 - n)"
  have "?v AND ?w = ?v" using assms(4) by (simp add: width_mask_and min_def)
  then have "vpn AND ?w = vpn" using assms(3) unfolding page_start_def by (metis and.assoc)
  then show ?thesis using assms(1,2) by (simp add: in_page_def page_key_def page_start_def)
qed

text \<open>
  C37: every operation of the TLB succeeds on a well-formed TLB and leaves it well formed: each entry is on the free
  list or in the tree of its thread under the page it maps, once, the trees hold nothing else, and
  the entries in use are for the start of their page; so the assertions of the code hold. The callers name threads of the core, and they insert
  pages of less than \<open>2 ^ 64\<close> bytes, at the start of the page, and not inside a larger page that the TLB has for the thread.
\<close>

theorem tlb_operations_wf:
  assumes "tlb_wf t" "tlb_aligned t" "tlb_op_ok a t"
  shows "\<exists>t'. tlb_does a t = Some t' \<and> tlb_wf t' \<and> tlb_aligned t'"
proof (cases a)
  case (Insert_Page vpn e)
  note ok = assms(3)[unfolded Insert_Page tlb_op_ok.simps]
  show ?thesis
  proof (cases "tlb_find t (te_tid e) vpn")
    case None
    from tlb_insert_new[OF assms(1), of e vpn] ok None obtain i t' hn where r: "tlb_insert vpn e t = Some (i, t')" "tlb_wf t'" "tl_size t' = tl_size t"
      "tl_tlb t' ! i = e\<lparr>te_lruSeq := tl_lruSeq t + 1, te_vaddr := vpn, te_trieHandle := Some (te_tid e, hn)\<rparr>"
      "\<forall>j. j \<noteq> i \<longrightarrow> tl_tlb t' ! j = tl_tlb t ! j" by blast
    have "tlb_aligned t'" unfolding tlb_aligned_def
    proof (intro allI impI)
      fix k assume "k < tl_size t'" "te_trieHandle (tl_tlb t' ! k) \<noteq> None"
      then show "page_start (te_vaddr (tl_tlb t' ! k)) (te_logBytes (tl_tlb t' ! k))"
        using r(3-5) assms(2) ok by (cases "k = i") (simp_all add: tlb_aligned_def)
    qed
    then show ?thesis using r Insert_Page by simp
  next
    case (Some i)
    note f = find_entry[OF assms(1) _ Some]
    then have "te_vaddr (tl_tlb t ! i) = vpn"
      using ok Some assms(2) found_page_start[of "tl_tlb t ! i" vpn "te_logBytes e"] by (auto simp: tlb_aligned_def)
    then have "tlb_insert vpn e t = Some (i, t)" using f ok Some tlb_wfD[OF assms(1)] by (simp add: tlb_insert_def vec_get_def)
    then show ?thesis using Insert_Page assms(1,2) by simp
  qed
next
  case (Lookup_Page tid va upd)
  then have tid: "tid < num_threads_per_core t" using assms(3) by simp
  show ?thesis
  proof (cases "tlb_find t tid va")
    case None
    then show ?thesis using Lookup_Page assms(1,2) tid tlb_wfD(3)[OF assms(1)] by (simp add: tlb_lookup_def vec_get_def)
  next
    case (Some i)
    have "tlb_aligned (t\<lparr>tl_lruSeq := sq, tl_tlb := (tl_tlb t)[i := (tl_tlb t ! i)\<lparr>te_lruSeq := sn\<rparr>]\<rparr>)" for sq sn
      using assms(2) tlb_wfD(1)[OF assms(1)] find_entry(1)[OF assms(1) tid Some] by (auto simp: tlb_aligned_def nth_list_update split: if_splits)
    then show ?thesis using Lookup_Page tid tlb_wfD(1,3)[OF assms(1)] find_entry(1)[OF assms(1) tid Some] assms(1,2) touch_wf[OF assms(1), of i] Some
      by (simp add: tlb_lookup_def vec_get_def tlb_nextSeq_def)
  qed
next
  case Flush_All
  then show ?thesis using flush_wf[OF assms(1), of "\<lambda>_. True"] flush_aligned assms(2) by (fastforce simp: flushAll_def)
next
  case Flush_Non_Global
  then show ?thesis using flush_wf[OF assms(1), of "\<lambda>e. \<not> te_global e"] flush_aligned assms(2) by (fastforce simp: flushNonGlobal_def)
next
  case (Demap_Page va)
  then have n: "0 < num_threads_per_core t" using assms(3) by simp
  show ?thesis
  proof (cases "tlb_find t 0 va")
    case None
    then show ?thesis using Demap_Page n assms(1,2) tlb_wfD(3)[OF assms(1)] by (simp add: demapPage_def vec_get_def)
  next
    case (Some i)
    then obtain t' where "free_from 0 i t = Some t'" "tlb_wf t'"
      using find_entry(1,2)[OF assms(1) n Some] free_from_ok[OF assms(1), of i 0] by (auto simp: Let_def)
    then show ?thesis
      using Demap_Page n Some tlb_wfD(3)[OF assms(1)] free_from_aligned assms(2) by (auto simp: demapPage_def vec_get_def)
  qed
qed

text \<open>
  C38: after the page of an address that missed is inserted, every address of the page finds the new entry, as
  the most recently used, and all other lookups of all threads find the entry they found before, except those in the page of the
  least recently used entry, which makes room when no entry is free.
\<close>

theorem tlb_insert_then_lookup:
  assumes "tlb_wf t" "te_tid e < num_threads_per_core t" "te_logBytes e < 64" "cached t (te_tid e) vpn = None"
  shows "\<exists>i t' hn. tlb_insert vpn e t = Some (i, t') \<and>
    (\<forall>va. va AND width_mask (64 - te_logBytes e) = vpn AND width_mask (64 - te_logBytes e) \<longrightarrow>
       cached t' (te_tid e) va = Some (e\<lparr>te_lruSeq := tl_lruSeq t + 1, te_vaddr := vpn, te_trieHandle := Some (te_tid e, hn)\<rparr>)) \<and>
    (\<forall>tid < num_threads_per_core t. \<forall>va.
       tid \<noteq> te_tid e \<or> va AND width_mask (64 - te_logBytes e) \<noteq> vpn AND width_mask (64 - te_logBytes e) \<longrightarrow>
       tl_freeList t \<noteq> [] \<or> tid \<noteq> te_tid (tl_tlb t ! lru_index (tl_tlb t)) \<or> \<not> in_page (tl_tlb t ! lru_index (tl_tlb t)) va \<longrightarrow>
       cached t' tid va = cached t tid va)"
proof -
  let ?w = "width_mask (64 - te_logBytes e)" and ?v = "tl_tlb t ! lru_index (tl_tlb t)"
  from tlb_insert_new[OF assms(1-3), of vpn] assms(4) obtain i t' hn where r: "tlb_insert vpn e t = Some (i, t')" "tlb_wf t'"
    "num_threads_per_core t' = num_threads_per_core t" "\<And>va. va AND ?w = vpn AND ?w \<Longrightarrow> tlb_find t' (te_tid e) va = Some i"
    "\<And>u va. u < num_threads_per_core t \<Longrightarrow> u \<noteq> te_tid e \<or> va AND ?w \<noteq> vpn AND ?w \<Longrightarrow>
       tl_freeList t \<noteq> [] \<or> u \<noteq> te_tid ?v \<or> \<not> in_page ?v va \<Longrightarrow> tlb_find t' u va = tlb_find t u va"
    "tl_tlb t' ! i = e\<lparr>te_lruSeq := tl_lruSeq t + 1, te_vaddr := vpn, te_trieHandle := Some (te_tid e, hn)\<rparr>"
    "\<And>j. j \<noteq> i \<Longrightarrow> tl_tlb t' ! j = tl_tlb t ! j" by (auto simp: cached_def)
  have "cached t' u va = cached t u va" if "u < num_threads_per_core t" "u \<noteq> te_tid e \<or> va AND ?w \<noteq> vpn AND ?w"
    "tl_freeList t \<noteq> [] \<or> u \<noteq> te_tid ?v \<or> \<not> in_page ?v va" for u va
  proof (cases "tlb_find t' u va")
    case None
    then show ?thesis using r(5)[OF that] by (simp add: cached_def)
  next
    case (Some j)
    have "u < num_threads_per_core t'" using that(1) r(3) by simp
    from find_entry(3,4)[OF r(2) this Some] r(6) that(2) have "j \<noteq> i" by (auto simp: in_page_def page_key_def)
    moreover have "tlb_find t u va = Some j" using r(5)[OF that] Some by simp
    ultimately show ?thesis using r(7) Some by (simp add: cached_def)
  qed
  then show ?thesis using r(1,4,6) by (intro exI[of _ i] exI[of _ t'] exI[of _ hn]) (simp add: cached_def)
qed

section \<open>Restricted translations\<close>

text \<open>The restriction is one flag of the request; nothing else of the translation reads it.\<close>

lemma clear_and: "m AND RESTRICTED = 0 \<Longrightarrow> (a AND NOT RESTRICTED) AND m = a AND m"
proof -
  assume m: "m AND RESTRICTED = 0"
  have "(a AND NOT RESTRICTED) AND m = a AND (m AND NOT RESTRICTED)" by (simp add: ac_simps)
  moreover have "m AND NOT RESTRICTED = m"
  proof (rule bit_eqI)
    fix n assume "possible_bit TYPE(64 word) n"
    then show "bit (m AND NOT RESTRICTED) n = bit m n" using arg_cong[OF m, of "\<lambda>x. bit x n"] by (auto simp: bit_simps)
  qed
  ultimately show ?thesis by simp
qed

lemma clear_or: "f AND RESTRICTED = 0 \<Longrightarrow> (a AND NOT RESTRICTED) OR f = (a OR f) AND NOT RESTRICTED"
proof -
  assume m: "f AND RESTRICTED = 0"
  show ?thesis
  proof (rule bit_eqI)
    fix n assume "possible_bit TYPE(64 word) n"
    then show "bit ((a AND NOT RESTRICTED) OR f) n = bit ((a OR f) AND NOT RESTRICTED) n"
      using arg_cong[OF m, of "\<lambda>x. bit x n"] by (auto simp: bit_simps)
  qed
qed

lemma flags_apart:
  "SegmentFlagMask AND RESTRICTED = 0" "push_bit FlagShift CPL0FlagBit AND RESTRICTED = 0"
  "push_bit FlagShift AddrSizeFlagBit AND RESTRICTED = 0" "push_bit FlagShift StoreCheck AND RESTRICTED = 0"
  "(UNCACHEABLE OR STRICT_ORDER_FLAG) AND RESTRICTED = 0"
  "(MMAPPED_IPR_FLAG OR GENERIC_IPR OR STRICT_ORDER_FLAG) AND RESTRICTED = 0"
  by (simp_all add: RESTRICTED_def SegmentFlagMask_def FlagShift_def CPL0FlagBit_def AddrSizeFlagBit_def StoreCheck_def
      mask_eq_exp_minus_1 UNCACHEABLE_def STRICT_ORDER_FLAG_def MMAPPED_IPR_FLAG_def GENERIC_IPR_def)

lemma clear_reads [simp]:
  "req_vaddr (clearUnsafe r) = req_vaddr r" "req_size (clearUnsafe r) = req_size r" "req_paddr (clearUnsafe r) = req_paddr r"
  "segment_of (clearUnsafe r) = segment_of r" "ld_flag CPL0FlagBit (clearUnsafe r) = ld_flag CPL0FlagBit r"
  "ld_flag AddrSizeFlagBit (clearUnsafe r) = ld_flag AddrSizeFlagBit r" "ld_flag StoreCheck (clearUnsafe r) = ld_flag StoreCheck r"
  by (simp_all add: clearUnsafe_def segment_of_def flags_apart clear_and)

lemma clear_writes [simp]:
  "setPaddr a (clearUnsafe r) = clearUnsafe (setPaddr a r)"
  "setFlags (UNCACHEABLE OR STRICT_ORDER_FLAG) (clearUnsafe r) = clearUnsafe (setFlags (UNCACHEABLE OR STRICT_ORDER_FLAG) r)"
  "setFlags (MMAPPED_IPR_FLAG OR GENERIC_IPR OR STRICT_ORDER_FLAG) (clearUnsafe r) =
     clearUnsafe (setFlags (MMAPPED_IPR_FLAG OR GENERIC_IPR OR STRICT_ORDER_FLAG) r)"
  by (simp_all add: clearUnsafe_def setPaddr_def setFlags_def flags_apart clear_or)

lemma clear_checks [simp]:
  "segment_fault tc (clearUnsafe r) mode = segment_fault tc r mode" "effective_vaddr tc (clearUnsafe r) = effective_vaddr tc r"
  "check_entry tc (clearUnsafe r) mode va e = map_prod id clearUnsafe (check_entry tc r mode va e)"
  "finalizePhysical env tc (clearUnsafe r) = map_option (map_prod id clearUnsafe) (finalizePhysical env tc r)"
  by (simp_all add: segment_fault_def effective_vaddr_def check_entry_def finalizePhysical_def Let_def split: Option.bind_splits)

lemma word_diff_mono: "b \<le> p \<Longrightarrow> p \<le> y \<Longrightarrow> p - b \<le> y - b" for b p y :: addr
  using unat_sub[of b p] unat_sub[of b y] order_trans[of b p y] by (simp add: word_le_nat_alt)

lemma finalizePhysical_total:
  assumes "req_paddr r \<noteq> None"
  shows "\<exists>f r'. finalizePhysical env tc r = Some (f, r')"
proof -
  have "x86LocalAPICAddress i (ucast (p - b)) \<noteq> None" if "b \<le> p" "p \<le> b + 2 ^ PageShift - 1" for i and b p :: addr
  proof -
    have "p - b \<le> b + 2 ^ PageShift - 1 - b" by (rule word_diff_mono[OF that])
    also have "b + 2 ^ PageShift - 1 - b = (4095 :: addr)" by (simp add: PageShift_def)
    finally have "unat (p - b) < 4096" by (simp add: word_le_nat_alt)
    moreover have "unat (ucast (p - b) :: 16 word) = unat (p - b) mod 2 ^ 16" by (simp add: unsigned_ucast_eq take_bit_eq_mod)
    ultimately have "unat (ucast (p - b) :: 16 word) < 2 ^ 12" by simp
    then show ?thesis by (simp add: x86LocalAPICAddress_def)
  qed
  note apic = this[of "apic_base tc * 2 ^ PageShift"]
  obtain p where p: "req_paddr r = Some p" using assms by auto
  show ?thesis
  proof (cases "apic_base tc * 2 ^ PageShift \<le> p \<and> p \<le> (apic_base tc + 1) * 2 ^ PageShift - 1")
    case True
    then obtain a where "x86LocalAPICAddress (tc_contextId tc) (ucast (p - apic_base tc * 2 ^ PageShift)) = Some a"
      using apic[of p "tc_contextId tc"] by (auto simp: distrib_right)
    then show ?thesis by (simp add: finalizePhysical_def p)
  qed (auto simp: finalizePhysical_def p)
qed

lemma tlb_lookup_hit:
  assumes "tlb_wf t" "tid < num_threads_per_core t" "tlb_find t tid va = Some i"
  shows "tlb_lookup tid va False t = Some (Some i, t)"
    "tlb_lookup tid va True t = Some (Some i, t\<lparr>tl_lruSeq := tl_lruSeq t + 1, tl_tlb := (tl_tlb t)[i := (tl_tlb t ! i)\<lparr>te_lruSeq := tl_lruSeq t + 1\<rparr>]\<rparr>)"
  using assms(2,3) tlb_wfD(1,3)[OF assms(1)] find_entry(1)[OF assms] by (simp_all add: tlb_lookup_def vec_get_def tlb_nextSeq_def)

lemma tlb_lookup_miss:
  assumes "tlb_wf t" "tid < num_threads_per_core t" "tlb_find t tid va = None"
  shows "tlb_lookup tid va upd t = Some (None, t)"
  using assms(2,3) tlb_wfD(3)[OF assms(1)] by (simp add: tlb_lookup_def vec_get_def)

lemma check_entry_lru [simp]: "check_entry tc r mode va (e\<lparr>te_lruSeq := sn\<rparr>) = check_entry tc r mode va e"
  by (simp add: check_entry_def Let_def)

lemma check_entry_paddr: "check_entry tc r mode va e = (NoFault, r') \<Longrightarrow> req_paddr r' \<noteq> None"
  by (auto simp: check_entry_def Let_def setPaddr_def setFlags_def GeneralProtection_def PageFault_def split: if_splits)

text \<open>A hit: the restricted translation leaves the TLB alone, the unrestricted one touches the entry.\<close>

lemma translate_paged_hit:
  assumes "tlb_wf t" "tid < num_threads_per_core t" "tlb_find t tid va = Some i" "isRestricted r"
  shows "\<exists>f r' t1. translate_paged env tc tid va r mode timing t = Some (f, False, r', t) \<and>
    translate_paged env tc tid va (clearUnsafe r) mode timing t = Some (f, False, clearUnsafe r', t1) \<and>
    tlb_lookup tid va True t = Some (Some i, t1)"
proof -
  obtain f r1 where c: "check_entry tc r mode va (tl_tlb t ! i) = (f, r1)" by (cases "check_entry tc r mode va (tl_tlb t ! i)")
  have i: "i < length (tl_tlb t)" using find_entry(1)[OF assms(1-3)] tlb_wfD(1)[OF assms(1)] by simp
  show ?thesis
  proof (cases "f = NoFault")
    case False
    then show ?thesis using i c assms(4) by (simp add: translate_paged_def tlb_lookup_hit[OF assms(1-3)] vec_get_def)
  next
    case True
    then obtain f2 r2 where "finalizePhysical env tc r1 = Some (f2, r2)" using finalizePhysical_total[of r1 env tc] check_entry_paddr c by blast
    then show ?thesis using True i c assms(4) by (simp add: translate_paged_def tlb_lookup_hit[OF assms(1-3)] vec_get_def)
  qed
qed

text \<open>The entry that the address of a request finds for the thread.\<close>

definition request_find :: "x86_context \<Rightarrow> request \<Rightarrow> tlb \<Rightarrow> nat option" where
  "request_find tc r t = tlb_find t (tc_threadId tc mod num_threads_per_core t) (effective_vaddr tc r)"

text \<open>
  C39: the translation of a restricted request always answers at once and leaves the TLB as it was: a miss is
  refused, with no walk and no entry. On a hit in long mode, the update that is
  replayed once the instruction is safe gives the TLB that the same request would have left unrestricted,
  with the same fault and the same physical address.
\<close>

theorem restricted_translation_invisible:
  assumes "tlb_wf t" "0 < num_threads_per_core t" "isRestricted r" "segment_of r \<noteq> SEGMENT_REG_MS"
  shows "\<exists>f r'. tlb_translate env tc r mode timing t = Some (f, False, r', t) \<and>
    (m5_prot tc \<and> m5_paging tc \<and> request_find tc r t = None \<longrightarrow> f = GeneralProtection) \<and>
    (m5_prot tc \<and> m5_paging tc \<and> m5_longMode tc \<and> request_find tc r t \<noteq> None \<longrightarrow>
       (\<exists>t1. tlb_updateLRU tc r mode t = Some t1 \<and>
             tlb_translate env tc (clearUnsafe r) mode timing t = Some (f, False, clearUnsafe r', t1)))"
proof (cases "m5_prot tc \<and> m5_paging tc")
  case False
  have "req_paddr (setPaddr a r) \<noteq> None" for a by (simp add: setPaddr_def)
  then obtain f r' where "finalizePhysical env tc (setPaddr (if m5_prot tc then effective_vaddr tc r else req_vaddr r) r) = Some (f, r')"
    using finalizePhysical_total by blast
  then show ?thesis using False assms(4) by (cases "m5_prot tc \<and> \<not> m5_longMode tc \<and> segment_fault tc r mode") (auto simp: tlb_translate_def)
next
  case True
  have tid: "tc_threadId tc mod num_threads_per_core t < num_threads_per_core t" using assms(2) by simp
  show ?thesis
  proof (cases "request_find tc r t")
    case None
    then show ?thesis using True assms(3,4) tlb_lookup_miss[OF assms(1) tid, of "effective_vaddr tc r" False]
      by (simp add: tlb_translate_def translate_paged_def request_find_def)
  next
    case (Some i)
    from translate_paged_hit[OF assms(1) tid Some[unfolded request_find_def] assms(3), of env tc mode timing] obtain f r' t1 where
      "translate_paged env tc (tc_threadId tc mod num_threads_per_core t) (effective_vaddr tc r) r mode timing t = Some (f, False, r', t)"
      "translate_paged env tc (tc_threadId tc mod num_threads_per_core t) (effective_vaddr tc r) (clearUnsafe r) mode timing t
         = Some (f, False, clearUnsafe r', t1)"
      "tlb_lookup (tc_threadId tc mod num_threads_per_core t) (effective_vaddr tc r) True t = Some (Some i, t1)" by blast
    then show ?thesis using True assms(4) Some
      by (cases "\<not> m5_longMode tc \<and> segment_fault tc r mode") (auto simp: tlb_translate_def tlb_updateLRU_def)
  qed
qed

section \<open>An example\<close>

text \<open>A TLB with one entry, for two threads, that holds a page of thread 0.\<close>

definition ex_tlb0 :: tlb where "ex_tlb0 = the (new_tlb 1 2)"
definition ex_page :: tlb_entry where "ex_page = page_entry 0 0x1000 0x5000 False False"
definition ex_page1 :: tlb_entry where "ex_page1 = page_entry 1 0x2000 0x7000 False False"
definition ex_tlb :: tlb where "ex_tlb = snd (the (tlb_insert 0x1000 ex_page ex_tlb0))"

definition ex_context :: x86_context where
  "ex_context = \<lparr>tc_threadId = 0, tc_contextId = 0, m5_prot = True, m5_longMode = True, m5_sixtyFour = True, m5_paging = True, m5_cpl = 3,
     m5_altAddr = 2, m5_defAddr = 3, seg_sel = (\<lambda>_. 0), seg_attrs = (\<lambda>_. \<lparr>sa_writable = True, sa_readable = True, sa_expandDown = False\<rparr>),
     seg_base = (\<lambda>_. 0), seg_limit = (\<lambda>_. 0), cr0_wp = True, apic_base = 0xFEE00, pci_config_address = 0\<rparr>"

definition ex_env :: tlb_env where
  "ex_env = \<lparr>FullSystem = False, walker_start = (\<lambda>_ _ t. (NoFault, t)), pTable = (\<lambda>_. None), fixupStackFault = (\<lambda>_. None),
     msrAddrToIndex = (\<lambda>_. None), pci_config_index = 0\<rparr>"

definition ex_tlb_load :: request where
  "ex_tlb_load = setUnsafe \<lparr>req_vaddr = 0x1abc, req_size = 4, req_flags = 3, req_paddr = None, req_metadataUpdate = False\<rparr>"

lemma ex_tlb0_wf: "tlb_wf ex_tlb0"
  by (rule new_tlb_wf[of 1 2]) (simp add: ex_tlb0_def new_tlb_def)

lemma ex_tlb_wf: "tlb_wf ex_tlb"
proof -
  have "te_tid ex_page < num_threads_per_core ex_tlb0" "te_logBytes ex_page < 64" "tlb_find ex_tlb0 (te_tid ex_page) 0x1000 = None" by code_simp+
  from tlb_insert_new[OF ex_tlb0_wf this] show ?thesis by (auto simp: ex_tlb_def)
qed

lemma ex_tlb_threads: "num_threads_per_core ex_tlb = 2" by code_simp

lemma ex_tlb_find: "tlb_find ex_tlb 1 0x2000 = None" "request_find ex_context ex_tlb_load ex_tlb = Some 0" "tl_freeList ex_tlb = []" by code_simp+

theorem tlb_operations_wf_witness:
  "tlb_wf ex_tlb \<and> tlb_aligned ex_tlb \<and> tlb_op_ok (Insert_Page 0x2000 ex_page1) ex_tlb \<and>
   (\<exists>t'. tlb_does (Insert_Page 0x2000 ex_page1) ex_tlb = Some t' \<and> tlb_wf t' \<and> tlb_aligned t')"
proof -
  have "page_start 0x2000 12" by code_simp
  then have ok: "tlb_op_ok (Insert_Page 0x2000 ex_page1) ex_tlb"
    using ex_tlb_find(1) by (simp add: ex_tlb_threads ex_page1_def page_entry_def PageShift_def)
  have al: "tlb_aligned ex_tlb" by code_simp
  show ?thesis using tlb_operations_wf[OF ex_tlb_wf al ok] ex_tlb_wf al ok by blast
qed

theorem tlb_insert_then_lookup_witness:
  "\<exists>i t' hn. tlb_insert 0x2000 ex_page1 ex_tlb = Some (i, t') \<and>
     cached t' 1 0x2abc = Some (ex_page1\<lparr>te_lruSeq := tl_lruSeq ex_tlb + 1, te_vaddr := 0x2000, te_trieHandle := Some (1, hn)\<rparr>)"
proof -
  have p: "te_tid ex_page1 = 1" "te_logBytes ex_page1 = 12" by (simp_all add: ex_page1_def page_entry_def PageShift_def)
  have "cached ex_tlb (te_tid ex_page1) 0x2000 = None" using ex_tlb_find(1) by (simp add: p cached_def)
  from tlb_insert_then_lookup[OF ex_tlb_wf _ _ this] obtain i t' hn where "tlb_insert 0x2000 ex_page1 ex_tlb = Some (i, t')"
    "\<forall>va. va AND width_mask (64 - 12) = 0x2000 AND width_mask (64 - 12) \<longrightarrow>
       cached t' 1 va = Some (ex_page1\<lparr>te_lruSeq := tl_lruSeq ex_tlb + 1, te_vaddr := 0x2000, te_trieHandle := Some (1, hn)\<rparr>)"
    unfolding p ex_tlb_threads by auto
  moreover have "(0x2abc :: addr) AND width_mask (64 - 12) = 0x2000 AND width_mask (64 - 12)" by code_simp
  ultimately show ?thesis by blast
qed

theorem restricted_translation_invisible_witness:
  "\<exists>f r' t1. tlb_translate ex_env ex_context ex_tlb_load Mode_Read True ex_tlb = Some (f, False, r', ex_tlb) \<and>
     tlb_updateLRU ex_context ex_tlb_load Mode_Read ex_tlb = Some t1 \<and>
     tlb_translate ex_env ex_context (clearUnsafe ex_tlb_load) Mode_Read True ex_tlb = Some (f, False, clearUnsafe r', t1)"
proof -
  have "0 < num_threads_per_core ex_tlb" "isRestricted ex_tlb_load" "segment_of ex_tlb_load \<noteq> SEGMENT_REG_MS" by code_simp+
  from restricted_translation_invisible[OF ex_tlb_wf this, of ex_env ex_context Mode_Read True] show ?thesis
    using ex_tlb_find(2) by (auto simp: ex_context_def)
qed

end
