(* ===== verification/Iew_Writeback.thy ===== *)
theory Iew_Writeback
  imports Lsq_Unit Rename_Map O3_Examples "HOL-Library.Multiset"
begin

text \<open>
  The write-back of the issue/execute/write-back stage (\<^verbatim>\<open>src/cpu/o3/iew_impl.hh\<close>): the choice of
  a write-back port and the contention for ports with restricted instructions, the wake-up of the
  dependents, and the squash after a memory order violation. The time buffer to commit is the list of its
  entries from the present cycle on; every entry has the ports of one cycle.
\<close>

section \<open>State\<close>

record iew_struct =
  wb_size :: int
  wb_insts :: "iptr option list"
  wb_mispredictInst :: "thread_id \<Rightarrow> iptr option"
  wb_squashedSeqNum :: "thread_id \<Rightarrow> inst_seq_num"
  wb_pc :: "thread_id \<Rightarrow> pc_state"
  wb_squash :: "thread_id \<Rightarrow> bool"
  wb_includeSquashInst :: "thread_id \<Rightarrow> bool"

record iew_stage =
  iewQueue :: "iew_struct list"
  wbNumInst :: nat
  wbCycle :: nat
  wbWidth :: nat
  wroteToTimeBuffer :: bool

section \<open>Ports\<close>

text \<open>A port is taken by a restricted instruction that is younger than the one that looks for a port.\<close>

definition unsafe_contender :: "dolma_cpu \<Rightarrow> dyn_inst \<Rightarrow> dyn_inst \<Rightarrow> bool" where
  "unsafe_contender c holder inst \<longleftrightarrow>
     threadNumber holder = threadNumber inst \<and> isDolmaRestricted holder \<and> \<not> isSTT c \<and> seqNum holder > seqNum inst"

text \<open>The contender in the cycle before gives its port to the instruction, and looks for a port itself.\<close>

definition swap_contender :: "inst_heap \<Rightarrow> nat \<Rightarrow> nat option \<Rightarrow> iptr \<Rightarrow> iew_struct list \<Rightarrow> (iew_struct list \<times> iptr) option" where
  "swap_contender h cycle contender p qs = do {
     i \<leftarrow> contender;
     check (0 < cycle);
     s \<leftarrow> vec_get qs (cycle - 1);
     x \<leftarrow> vec_get (wb_insts s) i;
     u \<leftarrow> x;
     check (seqNum (h p) \<noteq> seqNum (h u));
     Some (qs[cycle - 1 := s\<lparr>wb_insts := (wb_insts s)[i := Some p]\<rparr>], u) }"

partial_function (option) find_port ::
  "dolma_cpu \<Rightarrow> inst_heap \<Rightarrow> nat \<Rightarrow> nat \<Rightarrow> nat \<Rightarrow> iptr \<Rightarrow> bool \<Rightarrow> nat option \<Rightarrow> iew_struct list \<Rightarrow> (nat \<times> nat \<times> iptr \<times> iew_struct list) option" where
  "find_port c h width cycle num p contention contender qs = do {
     s \<leftarrow> vec_get qs cycle;
     x \<leftarrow> vec_get (wb_insts s) num;
     (case x of
        None \<Rightarrow> Some (cycle, num, p, qs)
      | Some holder \<Rightarrow> do {
          check (\<not> isDolmaStalled (h holder));
          (qs1, p1) \<leftarrow> (if contention then swap_contender h cycle contender p qs else Some (qs, p));
          let contender1 = (if unsafe_contender c (h holder) (h p1) then Some num else contender);
          (if num + 1 = width then find_port c h width (cycle + 1) 0 p1 (contender1 \<noteq> None) contender1 qs1
           else find_port c h width cycle (num + 1) p1 False contender1 qs1) }) }"

declare find_port.simps [code]

definition instToCommit :: "dolma_cpu \<Rightarrow> inst_heap \<Rightarrow> iptr \<Rightarrow> iew_stage \<Rightarrow> iew_stage option" where
  "instToCommit c h p w = do {
     (cycle, num, p1, qs) \<leftarrow> find_port c h (wbWidth w) (wbCycle w) (wbNumInst w) p False None (iewQueue w);
     s \<leftarrow> vec_get qs cycle;
     insts \<leftarrow> vec_set (wb_insts s) num (Some p1);
     Some (w\<lparr>iewQueue := qs[cycle := s\<lparr>wb_insts := insts, wb_size := wb_size s + 1\<rparr>], wbCycle := cycle, wbNumInst := num\<rparr>) }"

section \<open>Wake-up of the dependents\<close>

definition iew_wakeDependents :: "dolma_cpu \<Rightarrow> iptr \<Rightarrow> iq_state \<times> bool list \<Rightarrow> (iq_state \<times> bool list) option" where
  "iew_wakeDependents c p = (\<lambda>(s, sb). do {
     (_, s1) \<leftarrow> iq_wakeDependents c p s;
     let i = fst s1 p;
     sb1 \<leftarrow> foldM (\<lambda>k. sb_setReg (destRegIdx i k)) [0..<nat (numDestRegs i)] sb;
     Some (s1, sb1) })"

definition writeback_inst :: "dolma_cpu \<Rightarrow> iptr \<Rightarrow> iq_state \<times> bool list \<Rightarrow> (iq_state \<times> bool list) option" where
  "writeback_inst c p = (\<lambda>(s, sb).
     (let i = fst s p
      in if \<not> isSquashed i \<and> isExecuted i \<and> fault i = NoFault then iew_wakeDependents c p (s, sb) else Some (s, sb)))"

definition writebackInsts :: "dolma_cpu \<Rightarrow> iew_stage \<Rightarrow> iq_state \<times> bool list \<Rightarrow> (iq_state \<times> bool list) option" where
  "writebackInsts c w s = do {
     toCommit \<leftarrow> vec_get (iewQueue w) 0;
     foldM (writeback_inst c) (map the (takeWhile (\<lambda>x. x \<noteq> None) (take (wbWidth w) (wb_insts toCommit)))) s }"

section \<open>Memory order violations\<close>

definition squashDueToMemOrder :: "dolma_cpu \<Rightarrow> iptr \<Rightarrow> iptr \<Rightarrow> thread_id \<Rightarrow> inst_heap \<times> iew_stage \<Rightarrow> (inst_heap \<times> iew_stage) option" where
  "squashDueToMemOrder c conflicting viol tid = (\<lambda>(h, w). do {
     s \<leftarrow> vec_get (iewQueue w) 0;
     (if \<not> wb_squash s tid \<or> seqNum (h viol) \<le> wb_squashedSeqNum s tid then do {
        let s1 = s\<lparr>wb_squash := (wb_squash s)(tid := True), wb_squashedSeqNum := (wb_squashedSeqNum s)(tid := seqNum (h viol)),
              wb_pc := (wb_pc s)(tid := pcState (h viol)), wb_mispredictInst := (wb_mispredictInst s)(tid := None),
              wb_includeSquashInst := (wb_includeSquashInst s)(tid := True)\<rparr>;
        h1 \<leftarrow> (if isDolmaRestricted (h conflicting) \<and> \<not> isSTT c then do {
                 v \<leftarrow> setPendingMemOrder c (h viol);
                 let h1 = h(viol := v);
                 i \<leftarrow> setViolator c (Some viol) (h1 conflicting);
                 Some (h1(conflicting := i)) }
               else if isDolmaRestricted (h viol) then do {
                 v \<leftarrow> setPendingMemOrder_store c (h conflicting) (h viol);
                 Some (h(viol := v)) }
               else Some h);
        Some (h1, w\<lparr>iewQueue := (iewQueue w)[0 := s1], wroteToTimeBuffer := True\<rparr>) }
      else Some (h, w)) })"

section \<open>The instructions that wait for commit\<close>






section \<open>The choice of a port\<close>














section \<open>Which instruction is moved\<close>













section \<open>Examples\<close>

text \<open>The instructions are numbered in program order; those from 2 on are restricted.\<close>

definition ex_ports :: "iptr option list \<Rightarrow> iew_struct" where
  "ex_ports xs = \<lparr>wb_size = int (length xs), wb_insts = xs, wb_mispredictInst = (\<lambda>_. None), wb_squashedSeqNum = (\<lambda>_. 0), wb_pc = (\<lambda>_. ex_pc),
     wb_squash = (\<lambda>_. False), wb_includeSquashInst = (\<lambda>_. False)\<rparr>"

definition ex_port_heap :: inst_heap where
  "ex_port_heap p = ex_inst (of_nat p + 1) {} (if p \<le> 1 then {} else {ControlRestricted})"

definition ex_stage :: "nat \<Rightarrow> iptr option list list \<Rightarrow> iew_stage" where
  "ex_stage n xss = \<lparr>iewQueue = map ex_ports xss, wbNumInst = 0, wbCycle = 0, wbWidth = n, wroteToTimeBuffer = False\<rparr>"

text \<open>
  The older instruction gets the port of the younger restricted one only if the first port of the next cycle is taken
  too: the exchange is made when the search looks at a port that is taken.
\<close>

lemma contender_keeps_port:
  "map_option (\<lambda>w. map wb_insts (iewQueue w)) (instToCommit ex_cpu ex_port_heap 0 (ex_stage 1 [[Some 2], [None], [None]])) = Some [[Some 2], [Some 0], [None]]"
  "map_option (\<lambda>w. map wb_insts (iewQueue w)) (instToCommit ex_cpu ex_port_heap 0 (ex_stage 1 [[Some 2], [Some 3], [None]])) = Some [[Some 0], [Some 3], [Some 2]]"
  by code_simp+

text \<open>
  The index of the contender is not reset after an exchange: over more cycles the restricted instruction 2 displaces the instruction 1,
  which is older and not restricted, because it has the same port a cycle later.
\<close>

lemma stale_contender_displaces:
  "map_option (\<lambda>w. map wb_insts (iewQueue w)) (instToCommit ex_cpu ex_port_heap 0 (ex_stage 1 [[Some 2], [Some 1], [Some 3], [None]])) =
     Some [[Some 0], [Some 2], [Some 3], [Some 1]]"
  by code_simp


end
