(* ===== verification/Spec2Isabelle.thy ===== *)
theory Spec2Isabelle
  imports Rob_Props Rename_Props Store_Set Fu_Pool Mem_Dep_Props Iq_Issue Lsq_Props Tlb_Props Iew_Writeback
begin

text \<open>
  A verification library for the out-of-order CPU of gem5 with the DOLMA defence against transient
  execution attacks. Paths are relative to \<^verbatim>\<open>src/\<close> of the simulator.

  \<^bold>\<open>The program.\<close> Instructions are renamed, enter the reorder buffer, the instruction queue and, when they access
  memory, the memory dependence unit and the load/store queues; they issue when their operands are
  ready and a functional unit is free, write back through a port, and commit in order. DOLMA restricts an instruction while an older
  branch, or an older memory access whose result it uses, may still be undone. A restricted instruction may run,
  but must not delay older instructions nor change the TLB and the caches; its effects on
  replacement state are recorded and replayed once it is safe. The variant STT delays restricted loads instead.

  \<^bold>\<open>Conventions.\<close> Instructions live in a heap and are referred to by \<open>iptr\<close>, as the code uses \<^verbatim>\<open>DynInstPtr\<close>.
  State is passed explicitly. A failed \<^verbatim>\<open>assert\<close>, a \<^verbatim>\<open>panic\<close>, an access out of range and a loop
  that does not end are the value \<open>None\<close>; loops over mutable structures are \<open>partial_function (option)\<close>, so no fuel is used and
  that a loop ends is proved by showing that the result is \<open>Some\<close>. Sequence numbers, addresses and flags are words of
  their width; counters are \<open>nat\<close> or \<open>int\<close>. Statistics, traces and probes are left out.

  \<^bold>\<open>Shared theories.\<close>
  \<^item> \<open>O3_Prelude\<close>: the assertion monad, vectors, and lists ordered by sequence number.
  \<^item> \<open>Simulation\<close>: runs of a transition system, and the locale of forward simulations.
  \<^item> \<open>Dyn_Inst\<close>: \<^verbatim>\<open>cpu/base_dyn_inst.hh\<close>, requests, static instructions, and the modes of the defence.
  \<^item> \<open>Metadata\<close>: the replay of the replacement updates (\<^verbatim>\<open>updateMetadataIfNeeded\<close>, \<^verbatim>\<open>dolmaLoad\<close>).
  \<^item> \<open>O3_Examples\<close>: the concrete instructions on which properties are instantiated.

  \<^bold>\<open>Reorder buffer\<close> (\<^verbatim>\<open>cpu/o3/rob_impl.hh\<close>): \<open>Rob\<close> has the operations, \<open>Rob_Squash\<close> squashes over several cycles,
  \<open>Rob_Safety\<close> the step relation of all that changes the buffer, and \<open>Rob_Props\<close> the properties: in every reachable state
  an instruction under an unresolved branch is restricted, and the scan lifts exactly the restrictions whose cause is gone.

  \<^bold>\<open>Rename\<close> (\<^verbatim>\<open>cpu/o3/rename_map.hh\<close>, \<^verbatim>\<open>free_list.hh\<close>, \<^verbatim>\<open>scoreboard.hh\<close>, \<^verbatim>\<open>rename_impl.hh\<close>): \<open>Rename_Map\<close>, \<open>Rename\<close>
  and \<open>Rename_Props\<close>: registers are conserved and squashes roll back, except for vector elements, which the code
  renames in another place of the map than it reads, and tainted operands taint.

  \<^bold>\<open>Instruction queue\<close> (\<^verbatim>\<open>cpu/o3/inst_queue_impl.hh\<close>, \<^verbatim>\<open>dep_graph.hh\<close>, \<^verbatim>\<open>fu_pool.cc\<close>): \<open>Dep_Graph\<close>, \<open>Ready_List\<close> and
  \<open>Fu_Pool\<close> are the data structures, each behind a locale (chains of waiting instructions, a queue by age, a cyclic queue).
  \<open>Inst_Queue\<close> composes them; \<open>Iq_Wakeup\<close> shows what a completion does to the dependents, \<open>Iq_Schedule\<close> and \<open>Iq_Issue\<close>
  that the scheduler returns, respects its width, loses no waiting instruction and does not let restricted instructions hold units against older ones.

  \<^bold>\<open>Memory dependence\<close> (\<^verbatim>\<open>cpu/o3/store_set.cc\<close>, \<^verbatim>\<open>mem_dep_unit_impl.hh\<close>): \<open>Store_Set\<close>, \<open>Mem_Dep\<close> and \<open>Mem_Dep_Props\<close>:
  the predictor learns and forgets, an access waits only for an unrestricted store or barrier, every waiting access is woken by an
  older one, and the oldest is never held back.

  \<^bold>\<open>Load/store queues\<close> (\<^verbatim>\<open>cpu/o3/lsq_unit.hh\<close>, \<^verbatim>\<open>lsq_unit_impl.hh\<close>): \<open>Lsq_Unit\<close> has the operations. \<open>Lsq_Queues\<close>, \<open>Lsq_Stores\<close>,
  \<open>Lsq_Index\<close> view the circular buffers as lists; \<open>Lsq_Refine\<close>, \<open>Lsq_Steps\<close>, \<open>Lsq_Writeback\<close>, \<open>Lsq_Access\<close> and \<open>Lsq_Run\<close> show that every
  operation keeps the invariant and implements two lists in program order; \<open>Lsq_Forward\<close> and \<open>Lsq_Memory\<close> describe a read by
  the older stores. \<open>Lsq_Props\<close> has the properties. The data cache port is an argument. The step relation of the unit
  (\<open>lsq_step\<close>) has no step for the execution of a store conditional nor for a change of the size of the queues, and the memory answers
  for a split store after both halves were sent.

  \<^bold>\<open>TLB\<close> (\<^verbatim>\<open>base/trie.hh\<close>, \<^verbatim>\<open>arch/x86/tlb.cc\<close>): \<open>Trie\<close> is the prefix tree, behind the locale of an index by prefixes;
  \<open>X86_Tlb\<close> has entries, replacement and translation. \<open>Tlb_Props\<close> shows that entries, free list and trees agree, that a lookup finds what
  was inserted, and that restricted translations leave no trace. The page table walker, the page table and the index of model specific
  registers are arguments.

  \<^bold>\<open>Write-back\<close> (\<^verbatim>\<open>cpu/o3/iew_impl.hh\<close>): \<open>Iew_Writeback\<close> has the choice of a port, the wake-up at write-back and the
  squash after an order violation. The ports lose no instruction, and which one is
  moved is stated for a free port in the same or in the next cycle. Two examples show that the exchange with a restricted instruction is not always
  made, and that over more cycles an instruction that is not restricted may be displaced.

  \<^bold>\<open>Not modelled.\<close> Fetch, decode, dispatch and the commit stage, the wrapper over the units of all threads (\<^verbatim>\<open>cpu/o3/lsq_impl.hh\<close>)
  and the CPU that wires the stages together; branch predictors; caches, the page table walker and Ruby, which are reached by messages;
  register values and the semantics of instructions, which the build generates; checkpoints; devices, other processor models and the event
  queue, which the defence does not change.
\<close>

end
